(* ===== verification/Prelude.thy ===== *)
theory Prelude
  imports Main "HOL-Library.Word"
begin

text \<open>
  What every component of the development shares: the machine integer types of the C
  code, the error values that its early returns become, and the generic facts on lists,
  blocks and words that more than one component uses.
\<close>

unbundle bit_operations_syntax

type_synonym u8 = "8 word"
type_synonym u16 = "16 word"
type_synonym u32 = "32 word"

text \<open>
  The error codes of the code that is modelled. \<open>NO_MEMORY\<close> is a failed allocation,
  \<open>OUT_OF_BOUNDS\<close> stands for an access outside an array, whose behaviour C leaves
  undefined, \<open>ABORT\<close> for a call of \<open>abort ()\<close>.
\<close>

datatype c_error =
    SEC_ERROR_INVALID_ARGS
  | SEC_ERROR_INPUT_LEN
  | SEC_ERROR_OUTPUT_LEN
  | NO_MEMORY
  | OUT_OF_BOUNDS
  | ABORT

text \<open>The status that the routines of lib return for a failed allocation.\<close>

definition MK_OUT_OF_MEMORY :: int where "MK_OUT_OF_MEMORY = -207"

named_theorems model_simps \<open>defining equations of small operations, for symbolic execution\<close>

section \<open>Lists cut into blocks\<close>

text \<open>
  \<open>blocks n xs\<close> are the complete blocks of \<open>n\<close> elements at the front of \<open>xs\<close> and
  \<open>leftover n xs\<close> what is left after them.
\<close>

function blocks :: "nat \<Rightarrow> 'a list \<Rightarrow> 'a list list" where
  "blocks n xs = (if n = 0 \<or> length xs < n then [] else take n xs # blocks n (drop n xs))"
  by pat_completeness auto
termination
  by (relation "measure (\<lambda>(n, xs). length xs)") auto

function leftover :: "nat \<Rightarrow> 'a list \<Rightarrow> 'a list" where
  "leftover n xs = (if n = 0 \<or> length xs < n then xs else leftover n (drop n xs))"
  by pat_completeness auto
termination
  by (relation "measure (\<lambda>(n, xs). length xs)") auto

declare blocks.simps [simp del] leftover.simps [simp del]

lemma blocks_short [simp]: "length xs < n \<Longrightarrow> blocks n xs = []"
  by (simp add: blocks.simps)

lemma leftover_short [simp]: "length xs < n \<Longrightarrow> leftover n xs = xs"
  by (simp add: leftover.simps)

lemma blocks_append_block:
  "0 < n \<Longrightarrow> length xs = n \<Longrightarrow> blocks n (xs @ ys) = xs # blocks n ys"
  by (simp add: blocks.simps [of n "xs @ ys"])

lemma leftover_append_block:
  "0 < n \<Longrightarrow> length xs = n \<Longrightarrow> leftover n (xs @ ys) = leftover n ys"
  by (simp add: leftover.simps [of n "xs @ ys"])

lemma length_leftover: "0 < n \<Longrightarrow> length (leftover n xs) = length xs mod n"
proof (induction n xs rule: leftover.induct)
  case (1 n xs)
  show ?case
  proof (cases "length xs < n")
    case False
    with 1 have "length (leftover n (drop n xs)) = (length xs - n) mod n" by simp
    with False 1 show ?thesis by (simp add: leftover.simps [of n xs] le_mod_geq)
  qed simp
qed

lemma length_leftover_less: "0 < n \<Longrightarrow> length (leftover n xs) < n"
  by (simp add: length_leftover)

lemma blocks_append: "blocks n (xs @ ys) = blocks n xs @ blocks n (leftover n xs @ ys)"
proof (induction n xs rule: blocks.induct)
  case (1 n xs)
  show ?case
  proof (cases "n = 0 \<or> length xs < n")
    case True
    then show ?thesis by (auto simp: blocks.simps [of 0])
  next
    case False
    with 1 have "blocks n (drop n xs @ ys)
      = blocks n (drop n xs) @ blocks n (leftover n (drop n xs) @ ys)" by simp
    with False show ?thesis
      by (simp add: blocks.simps [of n "xs @ ys"] blocks.simps [of n xs] leftover.simps [of n xs])
  qed
qed

lemma leftover_append: "leftover n (xs @ ys) = leftover n (leftover n xs @ ys)"
proof (induction n xs rule: leftover.induct)
  case (1 n xs)
  show ?case
  proof (cases "n = 0 \<or> length xs < n")
    case True
    then show ?thesis by (auto simp: leftover.simps [of n xs])
  next
    case False
    with 1 have "leftover n (drop n xs @ ys) = leftover n (leftover n (drop n xs) @ ys)" by simp
    with False show ?thesis
      by (simp add: leftover.simps [of n "xs @ ys"] leftover.simps [of n xs])
  qed
qed

lemma set_blocks_length: "b \<in> set (blocks n xs) \<Longrightarrow> length b = n"
proof (induction n xs rule: blocks.induct)
  case (1 n xs)
  then show ?case
    by (cases "n = 0 \<or> length xs < n") (auto simp: blocks.simps [of n xs])
qed

lemma concat_blocks_leftover: "concat (blocks n xs) @ leftover n xs = xs"
proof (induction n xs rule: blocks.induct)
  case (1 n xs)
  show ?case
  proof (cases "n = 0 \<or> length xs < n")
    case True
    then show ?thesis by (auto simp: blocks.simps [of n xs] leftover.simps [of n xs])
  next
    case False
    with 1 have "concat (blocks n (drop n xs)) @ leftover n (drop n xs) = drop n xs" by simp
    with False show ?thesis
      by (simp add: blocks.simps [of n xs] leftover.simps [of n xs])
  qed
qed

text \<open>\<open>memcpy (&buf[i], xs, length xs)\<close> inside a buffer that is large enough.\<close>

definition memcpy_at :: "'a list \<Rightarrow> nat \<Rightarrow> 'a list \<Rightarrow> 'a list" where
  "memcpy_at buf i xs = take i buf @ xs @ drop (i + length xs) buf"

lemma length_memcpy_at [simp]:
  "i + length xs \<le> length buf \<Longrightarrow> length (memcpy_at buf i xs) = length buf"
  by (simp add: memcpy_at_def)

lemma take_memcpy_at:
  "i \<le> length buf \<Longrightarrow> take (i + length xs) (memcpy_at buf i xs) = take i buf @ xs"
  by (simp add: memcpy_at_def)

lemma memcpy_at_all:
  "i + length xs = length buf \<Longrightarrow> memcpy_at buf i xs = take i buf @ xs"
  by (simp add: memcpy_at_def)

end
