(* ===== verification/Stream_Hash.thy ===== *)
theory Stream_Hash
  imports Prelude
begin

text \<open>
  The interface of a message digest as security/lib/hash/hasht.h declares it
  (\<open>begin\<close>, \<open>update\<close>, \<open>end\<close> on an opaque context) and what its clients rely on:
  a context that was begun and then updated with some pieces holds the concatenation of
  the pieces, and ending it gives the digest of that message, however it was cut.
  MD2, MD5 and SHA-1 interpret the locale on their own contexts; HMAC is its client.
\<close>

locale stream_hash =
  fixes hbegin :: "'cx \<Rightarrow> 'cx"
    and hupdate :: "'cx \<Rightarrow> u8 list \<Rightarrow> 'cx"
    and hend :: "'cx \<Rightarrow> 'cx \<times> u8 list"
    and valid :: "'cx \<Rightarrow> bool"
    and absorbed :: "'cx \<Rightarrow> u8 list \<Rightarrow> bool"
    and digest :: "u8 list \<Rightarrow> u8 list"
    and dlen :: nat
  assumes begin_absorbed: "valid cx \<Longrightarrow> absorbed (hbegin cx) []"
    and update_absorbed:
      "absorbed cx m \<Longrightarrow> length d + 64 \<le> 2 ^ 32 \<Longrightarrow> absorbed (hupdate cx d) (m @ d)"
    and end_digest: "absorbed cx m \<Longrightarrow> snd (hend cx) = digest m"
    and end_valid: "absorbed cx m \<Longrightarrow> valid (fst (hend cx))"
    and length_digest: "length (digest m) = dlen"
begin

lemma foldl_update_absorbed:
  "absorbed cx m \<Longrightarrow> \<forall>d \<in> set ds. length d + 64 \<le> 2 ^ 32 \<Longrightarrow>
   absorbed (foldl hupdate cx ds) (m @ concat ds)"
proof (induction ds arbitrary: cx m)
  case (Cons d ds)
  then have "absorbed (hupdate cx d) (m @ d)" by (simp add: update_absorbed)
  with Cons have "absorbed (foldl hupdate (hupdate cx d) ds) ((m @ d) @ concat ds)"
    by (intro Cons.IH) auto
  then show ?case by simp
qed simp

lemma digest_of_pieces:
  "valid cx \<Longrightarrow> \<forall>d \<in> set ds. length d + 64 \<le> 2 ^ 32 \<Longrightarrow>
   snd (hend (foldl hupdate (hbegin cx) ds)) = digest (concat ds)"
  using end_digest [OF foldl_update_absorbed [OF begin_absorbed, of cx ds]] by simp

lemma pieces_irrelevant:
  "valid cx \<Longrightarrow> valid cy \<Longrightarrow> concat ds = concat es \<Longrightarrow>
   \<forall>d \<in> set ds. length d + 64 \<le> 2 ^ 32 \<Longrightarrow> \<forall>e \<in> set es. length e + 64 \<le> 2 ^ 32 \<Longrightarrow>
   snd (hend (foldl hupdate (hbegin cx) ds)) = snd (hend (foldl hupdate (hbegin cy) es))"
  by (simp add: digest_of_pieces)

end

text \<open>
  A digest that works block by block: \<open>f\<close> compresses one block of \<open>n\<close> bytes. What it
  has done with a message so far is a state and the bytes that do not fill a block yet.
\<close>

definition block_state :: "nat \<Rightarrow> ('s \<Rightarrow> u8 list \<Rightarrow> 's) \<Rightarrow> 's \<Rightarrow> u8 list \<Rightarrow> 's" where
  "block_state n f s0 m = foldl f s0 (blocks n m)"

lemma block_state_append:
  "block_state n f s0 (m @ d) = foldl f (block_state n f s0 m) (blocks n (leftover n m @ d))"
  unfolding block_state_def by (subst blocks_append) simp

lemma block_state_Nil [simp]: "0 < n \<Longrightarrow> block_state n f s0 [] = s0"
  by (simp add: block_state_def)

lemma block_state_short: "0 < n \<Longrightarrow> length (leftover n m @ d) < n \<Longrightarrow>
    block_state n f s0 (m @ d) = block_state n f s0 m"
  by (subst block_state_append) simp

lemma block_state_fill:
  assumes "0 < n" and "length (leftover n m) + length a = n"
  shows "block_state n f s0 (m @ a @ d)
           = foldl f (f (block_state n f s0 m) (leftover n m @ a)) (blocks n d)"
proof -
  have "blocks n (leftover n m @ a @ d) = (leftover n m @ a) # blocks n d"
    using assms blocks_append_block [of n "leftover n m @ a" d] by simp
  then show ?thesis by (subst block_state_append) simp
qed

lemma leftover_fill:
  assumes "0 < n" and "length (leftover n m) + length a = n"
  shows "leftover n (m @ a @ d) = leftover n d"
proof -
  have "leftover n (leftover n m @ a @ d) = leftover n d"
    using assms leftover_append_block [of n "leftover n m @ a" d] by simp
  then show ?thesis by (subst leftover_append)
qed

lemma leftover_more:
  assumes "length (leftover n m) + length d < n"
  shows "leftover n (m @ d) = leftover n m @ d"
  using assms by (subst leftover_append) simp

text \<open>The padding of MD5 and SHA-1: 0x80 and then zeros up to 56 modulo 64.\<close>

definition md_padding :: "nat \<Rightarrow> u8 list" where
  "md_padding n = 0x80 # replicate ((119 - n mod 64) mod 64) 0"

text \<open>
  A 64 bit count kept in two 32 bit words, the low one first: adding \<open>b\<close> to it with the
  carry test of the C code.
\<close>

definition count_lo :: "nat \<Rightarrow> u32" where
  "count_lo k = word_of_nat k"

definition count_hi :: "nat \<Rightarrow> u32" where
  "count_hi k = word_of_nat (k div 2 ^ 32)"

lemma count_lo_add: "count_lo a + count_lo b = count_lo (a + b)"
  by (simp add: count_lo_def)

lemma count_lo_unat: "unat (count_lo k) = k mod 2 ^ 32"
  by (simp add: count_lo_def unat_of_nat)

lemma div_add_carry:
  fixes a b c :: nat
  assumes "0 < c"
  shows "(a + b) div c = a div c + b div c + (if (a + b) mod c < b mod c then 1 else 0)"
proof -
  have lt: "a mod c < c" "b mod c < c" using assms by simp_all
  have m: "(a + b) mod c = (a mod c + b mod c) mod c" by (simp add: mod_add_eq)
  show ?thesis
  proof (cases "a mod c + b mod c < c")
    case True
    with m show ?thesis by (simp add: div_add1_eq [of a b c])
  next
    case False
    with lt have "a mod c + b mod c - c < c" by linarith
    with False assms have "(a mod c + b mod c) mod c = a mod c + b mod c - c"
      and "(a mod c + b mod c) div c = 1"
      by (simp_all add: le_mod_geq [of c "a mod c + b mod c"] le_div_geq [of c "a mod c + b mod c"])
    moreover have "a mod c + b mod c - c < b mod c" using lt False by linarith
    ultimately show ?thesis using m by (simp add: div_add1_eq [of a b c])
  qed
qed

lemma count_hi_add:
  "count_hi (a + b) = (if count_lo (a + b) < count_lo b then count_hi a + 1 else count_hi a)
     + count_hi b"
  by (simp add: count_hi_def word_less_nat_alt count_lo_unat div_add_carry)

end
