(* ===== verification/MD2.thy ===== *)
theory MD2
  imports Stream_Hash
begin

text \<open>
  security/lib/hash/algmd2.c. The scratch block \<open>x\<close> is local to \<open>MD2Transform\<close>; the
  variable \<open>t\<close>, an \<open>unsigned int\<close> that only ever holds a byte, is a byte here.
\<close>

definition MD2_PI_SUBST :: "u8 list" where
  "MD2_PI_SUBST =
    [41, 46, 67, 201, 162, 216, 124, 1, 61, 54, 84, 161, 236, 240, 6, 19,
     98, 167, 5, 243, 192, 199, 115, 140, 152, 147, 43, 217, 188, 76, 130, 202,
     30, 155, 87, 60, 253, 212, 224, 22, 103, 66, 111, 24, 138, 23, 229, 18,
     190, 78, 196, 214, 218, 158, 222, 73, 160, 251, 245, 142, 187, 47, 238, 122,
     169, 104, 121, 145, 21, 178, 7, 63, 148, 194, 16, 137, 11, 34, 95, 33,
     128, 127, 93, 154, 90, 144, 50, 39, 53, 62, 204, 231, 191, 247, 151, 3,
     255, 25, 48, 179, 72, 165, 181, 209, 215, 94, 146, 42, 172, 86, 170, 198,
     79, 184, 56, 210, 150, 164, 125, 182, 118, 252, 107, 226, 156, 116, 4, 241,
     69, 157, 112, 89, 100, 113, 135, 32, 134, 91, 207, 101, 230, 45, 168, 2,
     27, 96, 37, 173, 174, 176, 185, 246, 28, 70, 97, 105, 52, 64, 126, 15,
     85, 71, 163, 35, 221, 81, 175, 58, 195, 92, 249, 206, 186, 197, 234, 38,
     44, 83, 13, 110, 133, 40, 132, 9, 211, 223, 205, 244, 65, 129, 77, 82,
     106, 220, 55, 200, 108, 193, 171, 250, 36, 225, 123, 8, 12, 189, 177, 74,
     120, 136, 149, 139, 227, 99, 232, 109, 233, 203, 213, 254, 59, 0, 29, 57,
     242, 239, 183, 14, 102, 88, 208, 228, 166, 119, 114, 248, 235, 117, 75, 10,
     49, 68, 80, 180, 143, 237, 31, 26, 219, 153, 141, 51, 159, 17, 131, 20]"

definition MD2_pi :: "u8 \<Rightarrow> u8" where
  "MD2_pi t = MD2_PI_SUBST ! unat t"

text \<open>The padding strings \<open>PADDING1\<close> to \<open>PADDING16\<close>.\<close>

definition MD2_PADDING :: "nat \<Rightarrow> u8 list" where
  "MD2_PADDING k = replicate k (word_of_nat k)"

text \<open>The inner loop \<open>t = x[j] ^= PI_SUBST[t]\<close>.\<close>

fun MD2_pass :: "u8 \<Rightarrow> u8 list \<Rightarrow> u8 list \<times> u8" where
  "MD2_pass t [] = ([], t)"
| "MD2_pass t (b # bs) =
     (let b' = b XOR MD2_pi t; (bs', t') = MD2_pass b' bs in (b' # bs', t'))"

text \<open>The 18 rounds; the last statement of a round is \<open>t = (t + i) & 0xff\<close>.\<close>

definition MD2_rounds :: "u8 list \<Rightarrow> u8 list" where
  "MD2_rounds x =
     fst (foldl (\<lambda>(x, t) i. let (x', t') = MD2_pass t x in (x', t' + word_of_nat i)) (x, 0) [0..<18])"

text \<open>The loop \<open>t = checksum[i] ^= PI_SUBST[block[i] ^ t]\<close>.\<close>

fun MD2_checksum :: "u8 \<Rightarrow> u8 list \<Rightarrow> u8 list \<Rightarrow> u8 list" where
  "MD2_checksum t (c # cs) (b # bs) =
     (let c' = c XOR MD2_pi (b XOR t) in c' # MD2_checksum c' cs bs)"
| "MD2_checksum t cs bs = cs"

definition MD2Transform :: "u8 list \<times> u8 list \<Rightarrow> u8 list \<Rightarrow> u8 list \<times> u8 list" where
  "MD2Transform sc block =
     (let (state, checksum) = sc;
          x = state @ block @ map2 (XOR) state block
      in (take 16 (MD2_rounds x), MD2_checksum (checksum ! 15) checksum block))"

record MD2Context =
  md2_state :: "u8 list"
  md2_checksum :: "u8 list"
  md2_count :: nat   \<comment> \<open>number of bytes, modulo 16\<close>
  md2_buffer :: "u8 list"

definition MD2_NewContext :: MD2Context where
  "MD2_NewContext = \<lparr>md2_state = replicate 16 0, md2_checksum = replicate 16 0,
     md2_count = 0, md2_buffer = replicate 16 0\<rparr>"

definition MD2_CloneContext :: "MD2Context \<Rightarrow> MD2Context" where
  "MD2_CloneContext cx = cx"

text \<open>\<open>MD2_Begin\<close> clears the whole structure.\<close>

definition MD2_Begin :: "MD2Context \<Rightarrow> MD2Context" where
  "MD2_Begin cx = \<lparr>md2_state = replicate 16 0, md2_checksum = replicate 16 0,
     md2_count = 0, md2_buffer = replicate 16 0\<rparr>"

text \<open>The loop \<open>for (i = partLen; i + 15 < inputLen; i += 16)\<close> and the index it ends with.\<close>

function MD2_transform_loop ::
  "u8 list \<times> u8 list \<Rightarrow> u8 list \<Rightarrow> nat \<Rightarrow> (u8 list \<times> u8 list) \<times> nat" where
  "MD2_transform_loop sc input i =
     (if i + 15 < length input
      then MD2_transform_loop (MD2Transform sc (take 16 (drop i input))) input (i + 16)
      else (sc, i))"
  by pat_completeness auto
termination
  by (relation "measure (\<lambda>(sc, input, i). length input - i)") auto

declare MD2_transform_loop.simps [simp del]

definition MD2_Update :: "MD2Context \<Rightarrow> u8 list \<Rightarrow> MD2Context" where
  "MD2_Update cx input =
     (let index = md2_count cx;
          cx = cx\<lparr>md2_count := (index + length input) mod 16\<rparr>;
          partLen = 16 - index
      in if partLen \<le> length input
         then (let buf = memcpy_at (md2_buffer cx) index (take partLen input);
                   sc = MD2Transform (md2_state cx, md2_checksum cx) buf;
                   ((state, checksum), i) = MD2_transform_loop sc input partLen
               in cx\<lparr>md2_state := state, md2_checksum := checksum,
                     md2_buffer := memcpy_at buf 0 (drop i input)\<rparr>)
         else cx\<lparr>md2_buffer := memcpy_at (md2_buffer cx) index input\<rparr>)"

definition MD2_End :: "MD2Context \<Rightarrow> MD2Context \<times> u8 list" where
  "MD2_End cx =
     (let padLen = 16 - md2_count cx;
          cx = MD2_Update cx (MD2_PADDING padLen);
          cx = MD2_Update cx (md2_checksum cx)
      in (cx, md2_state cx))"

definition MD2_Hash :: "u8 list \<Rightarrow> u8 list" where
  "MD2_Hash src =
     snd (MD2_End (MD2_Update (MD2_Begin MD2_NewContext) (takeWhile (\<lambda>c. c \<noteq> 0) src)))"

section \<open>Refinement to the one-shot digest\<close>

lemma MD2_pass_length [simp]: "length (fst (MD2_pass t x)) = length x"
  by (induction t x rule: MD2_pass.induct) (auto simp: Let_def split: prod.splits)

lemma MD2_rounds_length [simp]: "length (MD2_rounds x) = length x"
proof -
  have "length (fst (foldl (\<lambda>(x, t) i. let (x', t') = MD2_pass t x in (x', t' + word_of_nat i)) (x, t) is))
      = length x" for x :: "u8 list" and t and "is" :: "nat list"
  proof (induction "is" arbitrary: x t)
    case (Cons i "is")
    obtain x' t' where e: "MD2_pass t x = (x', t')" by (cases "MD2_pass t x") auto
    with MD2_pass_length [of t x] have "length x' = length x" by simp
    with Cons e show ?case by simp
  qed simp
  then show ?thesis by (simp add: MD2_rounds_def)
qed

lemma MD2_checksum_length [simp]: "length (MD2_checksum t cs bs) = length cs"
  by (induction t cs bs rule: MD2_checksum.induct) (auto simp: Let_def)

lemma MD2_transform_loop_eq:
  "MD2_transform_loop sc input i = (sc', i') \<Longrightarrow>
   sc' = foldl MD2Transform sc (blocks 16 (drop i input)) \<and>
   drop i' input = leftover 16 (drop i input)"
proof (induction sc input i rule: MD2_transform_loop.induct)
  case (1 sc input i)
  show ?case
  proof (cases "i + 15 < length input")
    case True
    then have b: "drop i input = take 16 (drop i input) @ drop (i + 16) input"
      by (metis add.commute append_take_drop_id drop_drop)
    with True have "blocks 16 (drop i input) = take 16 (drop i input) # blocks 16 (drop (i + 16) input)"
      and "leftover 16 (drop i input) = leftover 16 (drop (i + 16) input)"
      using blocks_append_block [of 16 "take 16 (drop i input)" "drop (i + 16) input"]
        leftover_append_block [of 16 "take 16 (drop i input)" "drop (i + 16) input"] by auto
    with True 1 show ?thesis by (simp add: MD2_transform_loop.simps [of sc input i])
  next
    case False
    with 1 show ?thesis by (simp add: MD2_transform_loop.simps [of sc input i])
  qed
qed

definition md2_iv :: "u8 list \<times> u8 list" where
  "md2_iv = (replicate 16 0, replicate 16 0)"

definition md2_valid :: "MD2Context \<Rightarrow> bool" where
  "md2_valid cx \<longleftrightarrow> length (md2_buffer cx) = 16"

definition md2_absorbed :: "MD2Context \<Rightarrow> u8 list \<Rightarrow> bool" where
  "md2_absorbed cx m \<longleftrightarrow>
     (md2_state cx, md2_checksum cx) = block_state 16 MD2Transform md2_iv m \<and>
     md2_count cx = length m mod 16 \<and>
     length (md2_buffer cx) = 16 \<and>
     take (length m mod 16) (md2_buffer cx) = leftover 16 m"

lemma MD2_Begin_absorbed: "md2_absorbed (MD2_Begin cx) []"
  by (simp add: md2_absorbed_def MD2_Begin_def md2_iv_def)

lemma MD2_Update_absorbed:
  assumes cx: "md2_absorbed cx m"
  shows "md2_absorbed (MD2_Update cx d) (m @ d)"
proof -
  let ?n = "length m" and ?l = "length d"
  let ?idx = "?n mod 16"
  have st: "(md2_state cx, md2_checksum cx) = block_state 16 MD2Transform md2_iv m"
    and cnt: "md2_count cx = ?idx"
    and buf: "length (md2_buffer cx) = 16" "take ?idx (md2_buffer cx) = leftover 16 m"
    using cx by (auto simp: md2_absorbed_def)
  have lm: "length (leftover 16 m) = ?idx" by (simp add: length_leftover)
  have cnt': "(?idx + ?l) mod 16 = length (m @ d) mod 16" by (simp add: mod_add_left_eq)
  show ?thesis
  proof (cases "16 - ?idx \<le> ?l")
    case True
    define a where "a = take (16 - ?idx) d"
    define r where "r = drop (16 - ?idx) d"
    have d: "d = a @ r" by (simp add: a_def r_def)
    have la: "length (leftover 16 m) + length a = 16" using True by (simp add: lm a_def)
    have full: "memcpy_at (md2_buffer cx) ?idx a = leftover 16 m @ a"
      using la buf lm by (simp add: memcpy_at_all)
    obtain s c i where loop:
      "MD2_transform_loop (MD2Transform (md2_state cx, md2_checksum cx) (leftover 16 m @ a)) d (16 - ?idx)
         = ((s, c), i)"
      by (metis surj_pair)
    have st': "(s, c) = block_state 16 MD2Transform md2_iv (m @ d)"
      using MD2_transform_loop_eq [OF loop] la unfolding d
      by (subst block_state_fill) (simp_all add: st d [symmetric] r_def [symmetric])
    have di: "drop i d = leftover 16 (m @ d)"
      using MD2_transform_loop_eq [OF loop] la unfolding d
      by (subst leftover_fill) (simp_all add: d [symmetric] r_def [symmetric])
    have ld: "length (leftover 16 (m @ d)) = (?n + ?l) mod 16" by (simp add: length_leftover)
    then have "length (leftover 16 (m @ d)) \<le> 16" by simp
    moreover have "MD2_Update cx d = cx\<lparr>md2_count := length (m @ d) mod 16, md2_state := s,
        md2_checksum := c, md2_buffer := memcpy_at (leftover 16 m @ a) 0 (leftover 16 (m @ d))\<rparr>"
      using True unfolding MD2_Update_def cnt Let_def cnt'
      by (simp add: a_def [symmetric] full loop di)
    ultimately show ?thesis
      using st' ld la by (simp add: md2_absorbed_def memcpy_at_def)
  next
    case False
    then have short: "?idx + ?l < 16" by linarith
    then have "leftover 16 (m @ d) = leftover 16 m @ d"
      and "block_state 16 MD2Transform md2_iv (m @ d) = block_state 16 MD2Transform md2_iv m"
      using leftover_more [of 16 m d] block_state_short [of 16 m d] lm by simp_all
    moreover have "(?n + ?l) mod 16 = ?idx + ?l"
      using short mod_add_left_eq [of ?n 16 ?l] by simp
    moreover have "MD2_Update cx d = cx\<lparr>md2_count := length (m @ d) mod 16,
        md2_buffer := memcpy_at (md2_buffer cx) ?idx d\<rparr>"
      using False unfolding MD2_Update_def cnt Let_def cnt' by simp
    ultimately show ?thesis
      using False buf st take_memcpy_at [of ?idx "md2_buffer cx" d] by (simp add: md2_absorbed_def)
  qed
qed

text \<open>The reference digest: pad to a multiple of 16, append the checksum of that.\<close>

definition md2_digest :: "u8 list \<Rightarrow> u8 list" where
  "md2_digest m =
     (let padded = m @ MD2_PADDING (16 - length m mod 16);
          checksum = snd (block_state 16 MD2Transform md2_iv padded)
      in fst (block_state 16 MD2Transform md2_iv (padded @ checksum)))"

lemma MD2Transform_lengths:
  "length (fst sc) = 16 \<Longrightarrow> length b = 16 \<Longrightarrow> length (snd sc) = 16 \<Longrightarrow>
   length (fst (MD2Transform sc b)) = 16 \<and> length (snd (MD2Transform sc b)) = 16"
  by (cases sc) (simp add: MD2Transform_def Let_def)

lemma md2_state_lengths:
  "length (fst (block_state 16 MD2Transform md2_iv m)) = 16 \<and>
   length (snd (block_state 16 MD2Transform md2_iv m)) = 16"
proof -
  have "length (fst sc) = 16 \<Longrightarrow> length (snd sc) = 16 \<Longrightarrow> \<forall>b \<in> set bs. length b = 16 \<Longrightarrow>
    length (fst (foldl MD2Transform sc bs)) = 16 \<and> length (snd (foldl MD2Transform sc bs)) = 16"
    for sc bs
    by (induction bs arbitrary: sc) (simp_all add: MD2Transform_lengths)
  then show ?thesis
    unfolding block_state_def by (simp add: md2_iv_def set_blocks_length)
qed

lemma length_md2_digest: "length (md2_digest m) = 16"
  by (simp add: md2_digest_def md2_state_lengths Let_def)

lemma MD2_End_absorbed:
  assumes "md2_absorbed cx m"
  shows "\<exists>pad. md2_absorbed (fst (MD2_End cx)) pad \<and> snd (MD2_End cx) = md2_digest m"
proof -
  define p where "p = m @ MD2_PADDING (16 - length m mod 16)"
  define cx1 where "cx1 = MD2_Update cx (MD2_PADDING (16 - length m mod 16))"
  have 1: "md2_absorbed cx1 p"
    unfolding cx1_def p_def by (rule MD2_Update_absorbed [OF assms])
  then have c: "md2_checksum cx1 = snd (block_state 16 MD2Transform md2_iv p)"
    unfolding md2_absorbed_def by (metis snd_conv)
  define cx2 where "cx2 = MD2_Update cx1 (md2_checksum cx1)"
  have 2: "md2_absorbed cx2 (p @ md2_checksum cx1)"
    unfolding cx2_def by (rule MD2_Update_absorbed [OF 1])
  then have "md2_state cx2 = fst (block_state 16 MD2Transform md2_iv (p @ md2_checksum cx1))"
    unfolding md2_absorbed_def by (metis fst_conv)
  then have "md2_state cx2 = md2_digest m"
    by (simp add: md2_digest_def p_def c Let_def)
  moreover have "MD2_End cx = (cx2, md2_state cx2)"
    using assms by (simp add: MD2_End_def md2_absorbed_def cx1_def cx2_def Let_def)
  ultimately show ?thesis using 2 by auto
qed

interpretation md2: stream_hash MD2_Begin MD2_Update MD2_End md2_valid md2_absorbed md2_digest 16
proof (unfold_locales, goal_cases)
  case (1 cx)
  show ?case by (rule MD2_Begin_absorbed)
next
  case (2 cx m d)
  then show ?case by (intro MD2_Update_absorbed)
next
  case (3 cx m)
  then show ?case using MD2_End_absorbed by blast
next
  case (4 cx m)
  then show ?case using MD2_End_absorbed by (fastforce simp: md2_absorbed_def md2_valid_def)
next
  case (5 m)
  show ?case by (rule length_md2_digest)
qed

section \<open>Properties\<close>

text \<open>
  C12. MD2, with its checksum block and the count that is kept modulo 16: the digest of
  pieces is the reference digest of their concatenation.
\<close>

theorem MD2_pieces:
  assumes "\<forall>d \<in> set ds. length d + 64 \<le> 2 ^ 32" and "length (md2_buffer cx) = 16"
  shows "snd (MD2_End (foldl MD2_Update (MD2_Begin cx) ds)) = md2_digest (concat ds)"
  using assms by (intro md2.digest_of_pieces) (simp_all add: md2_valid_def)

theorem MD2_pieces_witness:
  "snd (MD2_End (foldl MD2_Update (MD2_Begin MD2_NewContext) [[0x61], [], [0x62, 0x63]]))
     = md2_digest [0x61, 0x62, 0x63]"
  using MD2_pieces [of "[[0x61], [], [0x62, 0x63]]" MD2_NewContext]
  by (simp add: MD2_NewContext_def)

end
