(* ===== verification/MD5.thy ===== *)
theory MD5
  imports Stream_Hash
begin

text \<open>
  security/lib/hash/algmd5.c. \<open>UINT4\<close> is \<open>unsigned long\<close>, 32 bits wide on the
  platforms the code was built for. An \<open>unsigned\<close> length is the length of the list
  that is passed; the indices of \<open>MD5_Update\<close> are natural numbers, which is exact as
  long as \<open>i + 63\<close> does not pass \<open>2^32\<close>, the hypothesis of the update law.
\<close>

text \<open>The rotation amounts and the basic functions.\<close>

definition MD5_F :: "u32 \<Rightarrow> u32 \<Rightarrow> u32 \<Rightarrow> u32" where
  "MD5_F x y z = (x AND y) OR (NOT x AND z)"

definition MD5_G :: "u32 \<Rightarrow> u32 \<Rightarrow> u32 \<Rightarrow> u32" where
  "MD5_G x y z = (x AND z) OR (y AND NOT z)"

definition MD5_H :: "u32 \<Rightarrow> u32 \<Rightarrow> u32 \<Rightarrow> u32" where
  "MD5_H x y z = x XOR y XOR z"

definition MD5_I :: "u32 \<Rightarrow> u32 \<Rightarrow> u32 \<Rightarrow> u32" where
  "MD5_I x y z = y XOR (x OR NOT z)"

definition MD5_ROTATE_LEFT :: "u32 \<Rightarrow> nat \<Rightarrow> u32" where
  "MD5_ROTATE_LEFT x n = push_bit n x OR drop_bit (32 - n) x"

type_synonym md5_state = "u32 \<times> u32 \<times> u32 \<times> u32"

text \<open>
  One of the macros FF, GG, HH and II applied to the registers \<open>(a, b, c, d)\<close>: it
  assigns to \<open>a\<close>. The next line of the code names the registers \<open>(d, a, b, c)\<close>, so
  the result is given in that order.
\<close>

definition MD5_step ::
  "(u32 \<Rightarrow> u32 \<Rightarrow> u32 \<Rightarrow> u32) \<Rightarrow> u32 list \<Rightarrow> md5_state \<Rightarrow> nat \<times> nat \<times> u32 \<Rightarrow> md5_state" where
  "MD5_step g x = (\<lambda>(a, b, c, d) (k, s, ac).
     (d, MD5_ROTATE_LEFT (a + (g b c d + x ! k + ac)) s + b, b, c))"

definition MD5_Encode :: "u32 list \<Rightarrow> u8 list" where
  "MD5_Encode input = concat (map (\<lambda>w.
     [ucast (w AND 0xff), ucast (drop_bit 8 w AND 0xff),
      ucast (drop_bit 16 w AND 0xff), ucast (drop_bit 24 w AND 0xff)]) input)"

fun MD5_Decode :: "u8 list \<Rightarrow> u32 list" where
  "MD5_Decode (b0 # b1 # b2 # b3 # bs) =
     (ucast b0 OR push_bit 8 (ucast b1) OR push_bit 16 (ucast b2) OR push_bit 24 (ucast b3))
     # MD5_Decode bs"
| "MD5_Decode _ = []"

definition MD5_round1 :: "(nat \<times> nat \<times> u32) list" where
  "MD5_round1 =
    [(0, 7, 0xd76aa478), (1, 12, 0xe8c7b756), (2, 17, 0x242070db), (3, 22, 0xc1bdceee),
     (4, 7, 0xf57c0faf), (5, 12, 0x4787c62a), (6, 17, 0xa8304613), (7, 22, 0xfd469501),
     (8, 7, 0x698098d8), (9, 12, 0x8b44f7af), (10, 17, 0xffff5bb1), (11, 22, 0x895cd7be),
     (12, 7, 0x6b901122), (13, 12, 0xfd987193), (14, 17, 0xa679438e), (15, 22, 0x49b40821)]"

definition MD5_round2 :: "(nat \<times> nat \<times> u32) list" where
  "MD5_round2 =
    [(1, 5, 0xf61e2562), (6, 9, 0xc040b340), (11, 14, 0x265e5a51), (0, 20, 0xe9b6c7aa),
     (5, 5, 0xd62f105d), (10, 9, 0x2441453), (15, 14, 0xd8a1e681), (4, 20, 0xe7d3fbc8),
     (9, 5, 0x21e1cde6), (14, 9, 0xc33707d6), (3, 14, 0xf4d50d87), (8, 20, 0x455a14ed),
     (13, 5, 0xa9e3e905), (2, 9, 0xfcefa3f8), (7, 14, 0x676f02d9), (12, 20, 0x8d2a4c8a)]"

definition MD5_round3 :: "(nat \<times> nat \<times> u32) list" where
  "MD5_round3 =
    [(5, 4, 0xfffa3942), (8, 11, 0x8771f681), (11, 16, 0x6d9d6122), (14, 23, 0xfde5380c),
     (1, 4, 0xa4beea44), (4, 11, 0x4bdecfa9), (7, 16, 0xf6bb4b60), (10, 23, 0xbebfbc70),
     (13, 4, 0x289b7ec6), (0, 11, 0xeaa127fa), (3, 16, 0xd4ef3085), (6, 23, 0x4881d05),
     (9, 4, 0xd9d4d039), (12, 11, 0xe6db99e5), (15, 16, 0x1fa27cf8), (2, 23, 0xc4ac5665)]"

definition MD5_round4 :: "(nat \<times> nat \<times> u32) list" where
  "MD5_round4 =
    [(0, 6, 0xf4292244), (7, 10, 0x432aff97), (14, 15, 0xab9423a7), (5, 21, 0xfc93a039),
     (12, 6, 0x655b59c3), (3, 10, 0x8f0ccc92), (10, 15, 0xffeff47d), (1, 21, 0x85845dd1),
     (8, 6, 0x6fa87e4f), (15, 10, 0xfe2ce6e0), (6, 15, 0xa3014314), (13, 21, 0x4e0811a1),
     (4, 6, 0xf7537e82), (11, 10, 0xbd3af235), (2, 15, 0x2ad7d2bb), (9, 21, 0xeb86d391)]"

definition MD5Transform :: "md5_state \<Rightarrow> u8 list \<Rightarrow> md5_state" where
  "MD5Transform st block =
     (let x = MD5_Decode block;
          r1 = foldl (MD5_step MD5_F x) st MD5_round1;
          r2 = foldl (MD5_step MD5_G x) r1 MD5_round2;
          r3 = foldl (MD5_step MD5_H x) r2 MD5_round3;
          r4 = foldl (MD5_step MD5_I x) r3 MD5_round4
      in (case st of (s0, s1, s2, s3) \<Rightarrow> case r4 of (a, b, c, d) \<Rightarrow>
            (s0 + a, s1 + b, s2 + c, s3 + d)))"

record MD5Context =
  md5_state :: md5_state
  md5_count :: "u32 \<times> u32"   \<comment> \<open>number of bits, least significant word first\<close>
  md5_buffer :: "u8 list"

definition MD5_NewContext :: MD5Context where
  "MD5_NewContext = \<lparr>md5_state = (0, 0, 0, 0), md5_count = (0, 0), md5_buffer = replicate 64 0\<rparr>"

definition MD5_CloneContext :: "MD5Context \<Rightarrow> MD5Context" where
  "MD5_CloneContext cx = cx"

definition MD5_Begin :: "MD5Context \<Rightarrow> MD5Context" where
  "MD5_Begin cx = cx\<lparr>md5_count := (0, 0),
     md5_state := (0x67452301, 0xefcdab89, 0x98badcfe, 0x10325476)\<rparr>"

text \<open>The loop \<open>for (i = partLen; i + 63 < inputLen; i += 64)\<close> and the index it ends with.\<close>

function MD5_transform_loop :: "md5_state \<Rightarrow> u8 list \<Rightarrow> nat \<Rightarrow> md5_state \<times> nat" where
  "MD5_transform_loop st input i =
     (if i + 63 < length input
      then MD5_transform_loop (MD5Transform st (take 64 (drop i input))) input (i + 64)
      else (st, i))"
  by pat_completeness auto
termination
  by (relation "measure (\<lambda>(st, input, i). length input - i)") auto

declare MD5_transform_loop.simps [simp del]

definition MD5_Update :: "MD5Context \<Rightarrow> u8 list \<Rightarrow> MD5Context" where
  "MD5_Update cx input =
     (let (c0, c1) = md5_count cx;
          inputLen = (word_of_nat (length input) :: u32);
          index = unat (drop_bit 3 c0 AND 0x3F);
          c0' = c0 + push_bit 3 inputLen;
          c1' = (if c0' < push_bit 3 inputLen then c1 + 1 else c1) + drop_bit 29 inputLen;
          partLen = 64 - index;
          cx = cx\<lparr>md5_count := (c0', c1')\<rparr>
      in if partLen \<le> length input
         then (let buf = memcpy_at (md5_buffer cx) index (take partLen input);
                   st = MD5Transform (md5_state cx) buf;
                   (st', i) = MD5_transform_loop st input partLen
               in cx\<lparr>md5_state := st', md5_buffer := memcpy_at buf 0 (drop i input)\<rparr>)
         else cx\<lparr>md5_buffer := memcpy_at (md5_buffer cx) index input\<rparr>)"

definition MD5_PADDING :: "u8 list" where
  "MD5_PADDING = 0x80 # replicate 63 0"

definition MD5_End :: "MD5Context \<Rightarrow> MD5Context \<times> u8 list" where
  "MD5_End cx =
     (let (c0, c1) = md5_count cx;
          bits = MD5_Encode [c0, c1];
          index = unat (drop_bit 3 c0 AND 0x3f);
          padLen = (if index < 56 then 56 - index else 120 - index);
          cx = MD5_Update cx (take padLen MD5_PADDING);
          cx = MD5_Update cx bits;
          (s0, s1, s2, s3) = md5_state cx
      in (cx, MD5_Encode [s0, s1, s2, s3]))"

definition MD5_HashBuf :: "u8 list \<Rightarrow> u8 list" where
  "MD5_HashBuf src = snd (MD5_End (MD5_Update (MD5_Begin MD5_NewContext) src))"

definition MD5_Hash :: "u8 list \<Rightarrow> u8 list" where
  "MD5_Hash src = MD5_HashBuf (takeWhile (\<lambda>c. c \<noteq> 0) src)"

section \<open>Refinement to the one-shot digest\<close>


lemma md5_len_bytes:
  assumes "l < 2 ^ 32"
  shows "push_bit 3 (word_of_nat l :: u32) = count_lo (8 * l)"
    and "drop_bit 29 (word_of_nat l :: u32) = count_hi (8 * l)"
proof -
  show "push_bit 3 (word_of_nat l :: u32) = count_lo (8 * l)"
    by (simp add: count_lo_def push_bit_eq_mult)
  have "unat (drop_bit 29 (word_of_nat l :: u32)) = l div 2 ^ 29"
    using assms unfolding unat_drop_bit_eq by (simp add: drop_bit_eq_div unat_of_nat)
  moreover have "unat (count_hi (8 * l)) = l div 2 ^ 29"
    using assms by (simp add: count_hi_def unat_of_nat)
  ultimately show "drop_bit 29 (word_of_nat l :: u32) = count_hi (8 * l)"
    by (simp add: word_unat_eq_iff)
qed

lemma md5_index:
  "unat (drop_bit 3 (count_lo (8 * k)) AND 0x3F) = k mod 64"
proof -
  have "(0x3F :: u32) = mask 6" by (simp add: mask_eq_exp_minus_1)
  then have "unat (drop_bit 3 (count_lo (8 * k)) AND 0x3F) = take_bit 6 (drop_bit 3 (8 * k mod 2 ^ 32))"
    by (simp only: unsigned_take_bit_eq unat_drop_bit_eq count_lo_unat flip: take_bit_eq_mask)
  also have "\<dots> = 8 * (k mod 2 ^ 29) div 8 mod 64"
    using mult_mod_right [of 8 k "2 ^ 29"] by (simp add: take_bit_eq_mod drop_bit_eq_div)
  also have "\<dots> = k mod 64"
    using mod_mod_cancel [of 64 "2 ^ 29" k] by simp
  finally show ?thesis .
qed

lemma MD5_transform_loop_eq:
  "MD5_transform_loop st input i = (st', i') \<Longrightarrow>
   st' = foldl MD5Transform st (blocks 64 (drop i input)) \<and>
   drop i' input = leftover 64 (drop i input)"
proof (induction st input i rule: MD5_transform_loop.induct)
  case (1 st input i)
  show ?case
  proof (cases "i + 63 < length input")
    case True
    then have b: "drop i input = take 64 (drop i input) @ drop (i + 64) input"
      by (metis add.commute append_take_drop_id drop_drop)
    with True have "blocks 64 (drop i input) = take 64 (drop i input) # blocks 64 (drop (i + 64) input)"
      and "leftover 64 (drop i input) = leftover 64 (drop (i + 64) input)"
      using blocks_append_block [of 64 "take 64 (drop i input)" "drop (i + 64) input"]
        leftover_append_block [of 64 "take 64 (drop i input)" "drop (i + 64) input"] by auto
    with True 1 show ?thesis by (simp add: MD5_transform_loop.simps [of st input i])
  next
    case False
    with 1 show ?thesis by (simp add: MD5_transform_loop.simps [of st input i])
  qed
qed

definition md5_iv :: md5_state where
  "md5_iv = (0x67452301, 0xefcdab89, 0x98badcfe, 0x10325476)"

definition md5_valid :: "MD5Context \<Rightarrow> bool" where
  "md5_valid cx \<longleftrightarrow> length (md5_buffer cx) = 64"

definition md5_absorbed :: "MD5Context \<Rightarrow> u8 list \<Rightarrow> bool" where
  "md5_absorbed cx m \<longleftrightarrow>
     md5_state cx = block_state 64 MD5Transform md5_iv m \<and>
     md5_count cx = (count_lo (8 * length m), count_hi (8 * length m)) \<and>
     length (md5_buffer cx) = 64 \<and>
     take (length m mod 64) (md5_buffer cx) = leftover 64 m"

lemma MD5_Begin_absorbed: "md5_valid cx \<Longrightarrow> md5_absorbed (MD5_Begin cx) []"
  by (simp add: md5_absorbed_def md5_valid_def MD5_Begin_def md5_iv_def count_lo_def count_hi_def)

lemma MD5_Update_absorbed:
  assumes cx: "md5_absorbed cx m" and len: "length d + 64 \<le> 2 ^ 32"
  shows "md5_absorbed (MD5_Update cx d) (m @ d)"
proof -
  let ?n = "length m" and ?l = "length d"
  let ?idx = "?n mod 64"
  let ?count = "(count_lo (8 * ?n + 8 * ?l), count_hi (8 * ?n + 8 * ?l))"
  have st: "md5_state cx = block_state 64 MD5Transform md5_iv m"
    and cnt: "md5_count cx = (count_lo (8 * ?n), count_hi (8 * ?n))"
    and buf: "length (md5_buffer cx) = 64" "take ?idx (md5_buffer cx) = leftover 64 m"
    using cx by (auto simp: md5_absorbed_def)
  have lo: "push_bit 3 (word_of_nat ?l :: u32) = count_lo (8 * ?l)"
    and hi: "drop_bit 29 (word_of_nat ?l :: u32) = count_hi (8 * ?l)"
    using len by (simp_all add: md5_len_bytes)
  have idx: "unat (drop_bit 3 (count_lo (8 * ?n)) AND 0x3F) = ?idx"
    by (rule md5_index)
  have lm: "length (leftover 64 m) = ?idx" by (simp add: length_leftover)
  have c1: "(if count_lo (8 * ?n) + count_lo (8 * ?l) < count_lo (8 * ?l)
        then count_hi (8 * ?n) + 1 else count_hi (8 * ?n)) + count_hi (8 * ?l)
      = count_hi (8 * length (m @ d))"
    by (simp add: count_lo_add count_hi_add distrib_left)
  have c0: "count_lo (8 * ?n) + count_lo (8 * ?l) = count_lo (8 * length (m @ d))"
    by (simp add: count_lo_add distrib_left)
  show ?thesis
  proof (cases "64 - ?idx \<le> ?l")
    case True
    define a where "a = take (64 - ?idx) d"
    define r where "r = drop (64 - ?idx) d"
    have d: "d = a @ r" by (simp add: a_def r_def)
    have la: "length (leftover 64 m) + length a = 64" using True by (simp add: lm a_def)
    have full: "memcpy_at (md5_buffer cx) ?idx a = leftover 64 m @ a"
      using la buf lm by (simp add: memcpy_at_all)
    obtain st' i where loop:
      "MD5_transform_loop (MD5Transform (md5_state cx) (leftover 64 m @ a)) d (64 - ?idx) = (st', i)"
      by (cases "MD5_transform_loop (MD5Transform (md5_state cx) (leftover 64 m @ a)) d (64 - ?idx)") auto
    have st': "st' = block_state 64 MD5Transform md5_iv (m @ d)"
      using MD5_transform_loop_eq [OF loop] la unfolding d
      by (subst block_state_fill) (simp_all add: st d [symmetric] r_def [symmetric])
    have di: "drop i d = leftover 64 (m @ d)"
      using MD5_transform_loop_eq [OF loop] la unfolding d
      by (subst leftover_fill) (simp_all add: d [symmetric] r_def [symmetric])
    have ld: "length (leftover 64 (m @ d)) = (?n + ?l) mod 64" by (simp add: length_leftover)
    then have "length (leftover 64 (m @ d)) \<le> 64" by simp
    moreover have "MD5_Update cx d = cx\<lparr>md5_count := (count_lo (8 * length (m @ d)),
        count_hi (8 * length (m @ d))), md5_state := st',
        md5_buffer := memcpy_at (leftover 64 m @ a) 0 (leftover 64 (m @ d))\<rparr>"
      using True unfolding MD5_Update_def cnt Let_def prod.case lo hi idx c1
      by (simp add: a_def [symmetric] full loop di c0 [unfolded length_append])
    ultimately show ?thesis
      using st' ld la by (simp add: md5_absorbed_def memcpy_at_def)
  next
    case False
    then have short: "?idx + ?l < 64" by linarith
    then have "leftover 64 (m @ d) = leftover 64 m @ d"
      and "block_state 64 MD5Transform md5_iv (m @ d) = block_state 64 MD5Transform md5_iv m"
      using leftover_more [of 64 m d] block_state_short [of 64 m d] lm by simp_all
    moreover have "(?n + ?l) mod 64 = ?idx + ?l"
      using short mod_add_left_eq [of ?n 64 ?l] by simp
    moreover have "MD5_Update cx d = cx\<lparr>md5_count := (count_lo (8 * length (m @ d)),
        count_hi (8 * length (m @ d))), md5_buffer := memcpy_at (md5_buffer cx) ?idx d\<rparr>"
      using False unfolding MD5_Update_def cnt Let_def prod.case lo hi idx c1
      by (simp add: c0 [unfolded length_append])
    ultimately show ?thesis
      using False buf st take_memcpy_at [of ?idx "md5_buffer cx" d] by (simp add: md5_absorbed_def)
  qed
qed

definition md5_digest :: "u8 list \<Rightarrow> u8 list" where
  "md5_digest m =
     (case block_state 64 MD5Transform md5_iv
        (m @ md_padding (length m) @
         MD5_Encode [count_lo (8 * length m), count_hi (8 * length m)])
      of (a, b, c, d) \<Rightarrow> MD5_Encode [a, b, c, d])"

lemma length_MD5_Encode: "length (MD5_Encode ws) = 4 * length ws"
  by (induction ws) (auto simp: MD5_Encode_def)

lemma length_md5_digest: "length (md5_digest m) = 16"
  by (simp add: md5_digest_def length_MD5_Encode split: prod.splits)

lemma MD5_padding_eq:
  assumes "index = n mod 64"
  shows "take (if index < 56 then 56 - index else 120 - index) MD5_PADDING = md_padding n"
proof -
  define p where "p = (if index < 56 then 56 - index else 120 - index)"
  have "index < 64" using assms by simp
  then have p: "0 < p" "p \<le> 64" and z: "(119 - n mod 64) mod 64 = p - 1"
    using assms by (auto simp: p_def mod_if [of "119 - n mod 64"])
  then have "take p MD5_PADDING = 0x80 # replicate (p - 1) 0"
    by (cases p) (simp_all add: MD5_PADDING_def)
  then show ?thesis by (simp add: md_padding_def z p_def)
qed

lemma MD5_End_absorbed:
  assumes "md5_absorbed cx m"
  shows "\<exists>pad. md5_absorbed (fst (MD5_End cx)) pad \<and> snd (MD5_End cx) = md5_digest m"
proof -
  let ?n = "length m"
  have cnt: "md5_count cx = (count_lo (8 * ?n), count_hi (8 * ?n))"
    using assms by (simp add: md5_absorbed_def)
  let ?bits = "MD5_Encode [count_lo (8 * ?n), count_hi (8 * ?n)]"
  define cx' where "cx' = MD5_Update (MD5_Update cx (md_padding ?n)) ?bits"
  have "md5_absorbed (MD5_Update cx (md_padding ?n)) (m @ md_padding ?n)"
    by (rule MD5_Update_absorbed [OF assms]) (simp add: md_padding_def)
  then have abs: "md5_absorbed cx' ((m @ md_padding ?n) @ ?bits)"
    unfolding cx'_def by (rule MD5_Update_absorbed) (simp add: length_MD5_Encode)
  have "MD5_End cx = (cx', case md5_state cx' of (a, b, c, d) \<Rightarrow> MD5_Encode [a, b, c, d])"
    unfolding MD5_End_def cnt Let_def prod.case md5_index MD5_padding_eq [OF refl] cx'_def
    by (simp split: prod.splits)
  with abs show ?thesis
    by (auto simp: md5_digest_def md5_absorbed_def)
qed

interpretation md5: stream_hash MD5_Begin MD5_Update MD5_End md5_valid md5_absorbed md5_digest 16
proof (unfold_locales, goal_cases)
  case (1 cx)
  then show ?case by (rule MD5_Begin_absorbed)
next
  case (2 cx m d)
  then show ?case by (rule MD5_Update_absorbed)
next
  case (3 cx m)
  then show ?case using MD5_End_absorbed by blast
next
  case (4 cx m)
  then show ?case using MD5_End_absorbed by (fastforce simp: md5_absorbed_def md5_valid_def)
next
  case (5 m)
  show ?case by (rule length_md5_digest)
qed

lemma MD5_HashBuf_digest: "length src + 64 \<le> 2 ^ 32 \<Longrightarrow> MD5_HashBuf src = md5_digest src"
  using md5.digest_of_pieces [of MD5_NewContext "[src]"]
  by (simp add: MD5_HashBuf_def md5_valid_def MD5_NewContext_def)

section \<open>Properties\<close>

text \<open>
  C10. MD5 of a message does not depend on how the message is cut into calls of
  \<open>MD5_Update\<close>: for any list of pieces, the digest is the reference digest of their
  concatenation (padding to 56 mod 64, 64 bit length, blocks folded through
  \<open>MD5Transform\<close>), from any context, fresh or used before.
\<close>

theorem MD5_pieces:
  assumes "length (md5_buffer cx) = 64" and "\<forall>d \<in> set ds. length d + 64 \<le> 2 ^ 32"
  shows "snd (MD5_End (foldl MD5_Update (MD5_Begin cx) ds)) = md5_digest (concat ds)"
  using assms by (intro md5.digest_of_pieces) (simp_all add: md5_valid_def)

theorem MD5_pieces_witness:
  "snd (MD5_End (foldl MD5_Update (MD5_Begin MD5_NewContext) [[0x61], [], [0x62, 0x63]]))
     = md5_digest [0x61, 0x62, 0x63]"
  using MD5_pieces [of MD5_NewContext "[[0x61], [], [0x62, 0x63]]"]
  by (simp add: MD5_NewContext_def)

lemma MD5_abc_pad:
  "[0x61, 0x62, 0x63] @ md_padding 3 @ MD5_Encode [count_lo 24, count_hi 24]
     = [0x61, 0x62, 0x63, 0x80] @ replicate 52 0 @ [0x18, 0, 0, 0, 0, 0, 0, 0]"
  by (simp add: md_padding_def MD5_Encode_def count_lo_def count_hi_def)

lemma MD5_abc_decode:
  "MD5_Decode ([0x61, 0x62, 0x63, 0x80] @ replicate 52 0 @ [0x18, 0, 0, 0, 0, 0, 0, 0])
     = [0x80636261, 0, 0, 0, 0, 0, 0, 0, 0, 0, 0, 0, 0, 0, 0x18, 0]"
  by code_simp

lemma MD5_abc_transform:
  "MD5Transform md5_iv
      ([0x61, 0x62, 0x63, 0x80] @ replicate 52 0 @ [0x18, 0, 0, 0, 0, 0, 0, 0])
     = (0x98500190, 0xb04fd23c, 0x7d3f96d6, 0x727fe128)"
  unfolding MD5Transform_def Let_def MD5_abc_decode by code_simp

text \<open>
  The rounds and their tables compute MD5: \<open>MD5_Hash\<close> of the C string ``abc'' is the
  digest that RFC 1321 lists, 900150983cd24fb0d6963f7d28e17f72.
\<close>

theorem MD5_Hash_abc:
  "MD5_Hash [0x61, 0x62, 0x63, 0] =
     [0x90, 0x01, 0x50, 0x98, 0x3c, 0xd2, 0x4f, 0xb0, 0xd6, 0x96, 0x3f, 0x7d, 0x28, 0xe1, 0x7f, 0x72]"
proof -
  have "MD5_Hash [0x61, 0x62, 0x63, 0] = md5_digest [0x61, 0x62, 0x63]"
    by (simp add: MD5_Hash_def MD5_HashBuf_digest)
  also have "\<dots> = MD5_Encode [0x98500190, 0xb04fd23c, 0x7d3f96d6, 0x727fe128]"
  proof -
    let ?blk = "[0x61, 0x62, 0x63, 0x80] @ replicate 52 0 @ [0x18, 0, 0, 0, 0, 0, 0, 0] :: u8 list"
    have len: "length [0x61, 0x62, 0x63 :: u8] = 3" "8 * (3 :: nat) = 24" by simp_all
    have blk: "blocks 64 ?blk = [?blk]"
      using blocks_append_block [of 64 ?blk "[]"] by simp
    show ?thesis
      by (simp only: md5_digest_def len MD5_abc_pad block_state_def blk foldl.simps
            MD5_abc_transform prod.case)
  qed
  finally show ?thesis by (simp add: MD5_Encode_def)
qed

end
