(* ===== verification/SHA1.thy ===== *)
theory SHA1
  imports Stream_Hash
begin

text \<open>
  security/lib/hash/algsha.c. The context holds the 80 words \<open>w\<close>, of which the first 16
  collect the message bytes by shifting; \<open>shsHashBlock\<close> fills the others in place.
\<close>

record SHA1Context =
  sha1_h :: "u32 list"
  sha1_w :: "u32 list"
  sha1_lenW :: nat
  sha1_sizeHi :: u32
  sha1_sizeLo :: u32

definition SHS_ROTL :: "u32 \<Rightarrow> nat \<Rightarrow> u32" where
  "SHS_ROTL x n = push_bit n x OR drop_bit (32 - n) x"

text \<open>The assignment to \<open>w[t]\<close> in the first loop.\<close>

definition shs_expand_step :: "u32 list \<Rightarrow> nat \<Rightarrow> u32 list" where
  "shs_expand_step w t =
     w[t := SHS_ROTL (w ! (t - 3) XOR w ! (t - 8) XOR w ! (t - 14) XOR w ! (t - 16)) 1]"

text \<open>One iteration of the four loops; \<open>f\<close> and \<open>k\<close> are what differs between them.\<close>

definition shs_round ::
  "(u32 \<Rightarrow> u32 \<Rightarrow> u32 \<Rightarrow> u32) \<Rightarrow> u32 \<Rightarrow> u32 list \<Rightarrow> u32 \<times> u32 \<times> u32 \<times> u32 \<times> u32 \<Rightarrow> nat \<Rightarrow>
   u32 \<times> u32 \<times> u32 \<times> u32 \<times> u32" where
  "shs_round f k w = (\<lambda>(a, b, c, d, e) t.
     let temp = SHS_ROTL a 5 + f b c d + e + w ! t + k
     in (temp, a, SHS_ROTL b 30, c, d))"

definition shsHashWords :: "u32 list \<Rightarrow> u32 list \<Rightarrow> u32 list" where
  "shsHashWords h w =
     (let r0 = (h ! 0, h ! 1, h ! 2, h ! 3, h ! 4);
          r1 = foldl (shs_round (\<lambda>b c d. ((c XOR d) AND b) XOR d) 0x5a827999 w) r0 [0..<20];
          r2 = foldl (shs_round (\<lambda>b c d. b XOR c XOR d) 0x6ed9eba1 w) r1 [20..<40];
          r3 = foldl (shs_round (\<lambda>b c d. (b AND c) OR (d AND (b OR c))) 0x8f1bbcdc w) r2 [40..<60];
          (a, b, c, d, e) = foldl (shs_round (\<lambda>b c d. b XOR c XOR d) 0xca62c1d6 w) r3 [60..<80]
      in [h ! 0 + a, h ! 1 + b, h ! 2 + c, h ! 3 + d, h ! 4 + e])"

definition shs_expand :: "u32 list \<Rightarrow> u32 list" where
  "shs_expand w = foldl shs_expand_step w [16..<80]"

definition shsHashBlock :: "SHA1Context \<Rightarrow> SHA1Context" where
  "shsHashBlock ctx =
     (let w = shs_expand (sha1_w ctx)
      in ctx\<lparr>sha1_w := w, sha1_h := shsHashWords (sha1_h ctx) w\<rparr>)"

definition sha1_iv :: "u32 list" where
  "sha1_iv = [0x67452301, 0xefcdab89, 0x98badcfe, 0x10325476, 0xc3d2e1f0]"

definition SHA1_Begin :: "SHA1Context \<Rightarrow> SHA1Context" where
  "SHA1_Begin ctx = ctx\<lparr>sha1_lenW := 0, sha1_sizeHi := 0, sha1_sizeLo := 0,
     sha1_h := [0x67452301, 0xefcdab89, 0x98badcfe, 0x10325476, 0xc3d2e1f0]\<rparr>"

definition SHA1_NewContext :: SHA1Context where
  "SHA1_NewContext = \<lparr>sha1_h = replicate 5 0, sha1_w = replicate 80 0, sha1_lenW = 0,
     sha1_sizeHi = 0, sha1_sizeLo = 0\<rparr>"

definition SHA1_CloneContext :: "SHA1Context \<Rightarrow> SHA1Context" where
  "SHA1_CloneContext cx = cx"

text \<open>The body of the loop of \<open>SHA1_Update\<close>.\<close>

definition SHA1_update_byte :: "SHA1Context \<Rightarrow> u8 \<Rightarrow> SHA1Context" where
  "SHA1_update_byte ctx b =
     (let j = sha1_lenW ctx div 4;
          ctx = ctx\<lparr>sha1_w := (sha1_w ctx)[j := push_bit 8 (sha1_w ctx ! j) OR ucast b],
                    sha1_lenW := sha1_lenW ctx + 1\<rparr>;
          ctx = (if sha1_lenW ctx mod 64 = 0 then (shsHashBlock ctx)\<lparr>sha1_lenW := 0\<rparr> else ctx);
          lo = sha1_sizeLo ctx + 8
      in ctx\<lparr>sha1_sizeLo := lo, sha1_sizeHi := sha1_sizeHi ctx + (if lo < 8 then 1 else 0)\<rparr>)"

definition SHA1_Update :: "SHA1Context \<Rightarrow> u8 list \<Rightarrow> SHA1Context" where
  "SHA1_Update ctx dataIn = foldl SHA1_update_byte ctx dataIn"

lemma SHA1_update_byte_lenW:
  "sha1_lenW (SHA1_update_byte ctx b)
     = (if (sha1_lenW ctx + 1) mod 64 = 0 then 0 else sha1_lenW ctx + 1)"
  by (simp add: SHA1_update_byte_def Let_def shsHashBlock_def)

text \<open>
  The loop \<open>while (ctx->lenW != 56) SHA1_Update (ctx, &pad0x00, 1)\<close>. It stops from every
  context: \<open>lenW\<close> counts up to a multiple of 64, restarts at 0 and then meets 56.
\<close>

function SHA1_pad_loop :: "SHA1Context \<Rightarrow> SHA1Context" where
  "SHA1_pad_loop ctx = (if sha1_lenW ctx \<noteq> 56 then SHA1_pad_loop (SHA1_Update ctx [0]) else ctx)"
  by pat_completeness auto
termination
proof (relation "measure (\<lambda>ctx. if sha1_lenW ctx \<le> 56 then 56 - sha1_lenW ctx
    else 120 - sha1_lenW ctx mod 64)", goal_cases)
  case (2 ctx)
  let ?n = "sha1_lenW ctx"
  show ?case
  proof (cases "Suc ?n mod 64 = 0")
    case True
    then have "55 < ?n \<Longrightarrow> 56 < 120 - ?n mod 64"
      using mod_less_divisor [of 64 ?n] by linarith
    moreover have "\<not> ?n \<le> 55" using True by (intro notI) simp
    ultimately show ?thesis
      using 2 True by (simp add: SHA1_Update_def SHA1_update_byte_lenW)
  next
    case False
    then have "Suc ?n mod 64 = Suc (?n mod 64)" by (simp add: mod_Suc split: if_splits)
    moreover have "?n mod 64 < 64" by simp
    ultimately show ?thesis
      using 2 False by (auto simp: SHA1_Update_def SHA1_update_byte_lenW)
  qed
qed simp

declare SHA1_pad_loop.simps [simp del]

text \<open>The loop that writes the 20 bytes of \<open>hashout\<close> and shifts them out of \<open>h\<close>.\<close>

definition SHA1_output :: "u32 list \<Rightarrow> u32 list \<times> u8 list" where
  "SHA1_output h =
     foldl (\<lambda>(h, out) i. (h[i div 4 := push_bit 8 (h ! (i div 4))],
                          out @ [ucast (drop_bit 24 (h ! (i div 4)))])) (h, []) [0..<20]"

definition SHA1_End :: "SHA1Context \<Rightarrow> SHA1Context \<times> u8 list" where
  "SHA1_End ctx =
     (let hi = sha1_sizeHi ctx; lo = sha1_sizeLo ctx;
          padlen = [ucast (drop_bit 24 hi AND 255), ucast (drop_bit 16 hi AND 255),
                    ucast (drop_bit 8 hi AND 255), ucast (drop_bit 0 hi AND 255),
                    ucast (drop_bit 24 lo AND 255), ucast (drop_bit 16 lo AND 255),
                    ucast (drop_bit 8 lo AND 255), ucast (drop_bit 0 lo AND 255)];
          ctx = SHA1_Update ctx [0x80];
          ctx = SHA1_pad_loop ctx;
          ctx = SHA1_Update ctx padlen;
          (h, hashout) = SHA1_output (sha1_h ctx);
          ctx = ctx\<lparr>sha1_h := h\<rparr>
      in (SHA1_Begin ctx, hashout))"

text \<open>
  \<open>SHA1_HashBuf\<close> works on a context on the stack that \<open>SHA1_Begin\<close> does not fill
  completely; \<open>stack\<close> is what was there.
\<close>

definition SHA1_HashBuf :: "SHA1Context \<Rightarrow> u8 list \<Rightarrow> u8 list" where
  "SHA1_HashBuf stack src = snd (SHA1_End (SHA1_Update (SHA1_Begin stack) src))"

definition SHA1_Hash :: "SHA1Context \<Rightarrow> u8 list \<Rightarrow> u8 list" where
  "SHA1_Hash stack src = SHA1_HashBuf stack (takeWhile (\<lambda>c. c \<noteq> 0) src)"

section \<open>Refinement to the one-shot digest\<close>

text \<open>What the shift of one byte into a word does, and the words of a block.\<close>

definition wordfill :: "u32 \<Rightarrow> u8 \<Rightarrow> u32" where
  "wordfill x b = push_bit 8 x OR ucast b"

definition be_words :: "u8 list \<Rightarrow> u32 list" where
  "be_words blk = map (\<lambda>j. foldl wordfill 0 (take 4 (drop (4 * j) blk))) [0..<16]"

definition be_bytes :: "u32 \<Rightarrow> u8 list" where
  "be_bytes x = map (\<lambda>s. ucast (drop_bit s x)) [24, 16, 8, 0]"

lemma wordfill_forgets:
  assumes "length bs = 4"
  shows "foldl wordfill x bs = foldl wordfill 0 bs"
proof -
  obtain a b c d where bs: "bs = [a, b, c, d]"
    using assms by (auto simp: length_Suc_conv numeral_eq_Suc)
  have "push_bit 8 (push_bit 8 (push_bit 8 (push_bit 8 x))) = (0 :: u32)"
    by (rule bit_word_eqI) (auto simp: bit_simps)
  then show ?thesis
    by (simp add: bs wordfill_def)
qed

text \<open>The message schedule as FIPS 180-1 states it.\<close>

fun sha1_W :: "u32 list \<Rightarrow> nat \<Rightarrow> u32" where
  "sha1_W M t = (if t < 16 then M ! t else
     SHS_ROTL (sha1_W M (t - 3) XOR sha1_W M (t - 8) XOR sha1_W M (t - 14) XOR sha1_W M (t - 16)) 1)"

declare sha1_W.simps [simp del]

lemma shs_expand_W:
  assumes "length w = 80"
  shows "16 \<le> n \<Longrightarrow> n \<le> 80 \<Longrightarrow> length (foldl shs_expand_step w [16..<n]) = 80 \<and>
         (\<forall>t < n. foldl shs_expand_step w [16..<n] ! t = sha1_W (take 16 w) t)"
proof (induction n rule: nat_induct_at_least)
  case base
  with assms show ?case by (simp add: sha1_W.simps)
next
  case (Suc n)
  define v where "v = foldl shs_expand_step w [16..<n]"
  have IH: "length v = 80" "\<And>t. t < n \<Longrightarrow> v ! t = sha1_W (take 16 w) t"
    using Suc by (simp_all add: v_def)
  then have "shs_expand_step v n ! t = sha1_W (take 16 w) t" if "t < Suc n" for t
    using that Suc.hyps Suc.prems sha1_W.simps [of "take 16 w" n]
    by (cases "t = n") (simp_all add: shs_expand_step_def nth_list_update)
  moreover have "foldl shs_expand_step w [16..<Suc n] = shs_expand_step v n"
    using Suc.hyps by (simp add: v_def)
  moreover have "length (shs_expand_step v n) = 80" using IH by (simp add: shs_expand_step_def)
  ultimately show ?case by simp
qed

definition sha1_schedule :: "u32 list \<Rightarrow> u32 list" where
  "sha1_schedule M = map (sha1_W M) [0..<80]"

lemma length_sha1_schedule: "length (sha1_schedule M) = 80"
  by (simp add: sha1_schedule_def del: upt_rec_numeral)

lemma shs_expand_eq:
  assumes "length w = 80"
  shows "shs_expand w = sha1_schedule (take 16 w)"
  unfolding shs_expand_def sha1_schedule_def
  using shs_expand_W [OF assms, of 80] by (intro nth_equalityI) (simp_all del: upt_rec_numeral)

definition sha1_compress :: "u32 list \<Rightarrow> u8 list \<Rightarrow> u32 list" where
  "sha1_compress h blk = shsHashWords h (sha1_schedule (be_words blk))"

lemma be_words_nth: "j < 16 \<Longrightarrow> be_words blk ! j = foldl wordfill 0 (take 4 (drop (4 * j) blk))"
  by (simp add: be_words_def del: upt_rec_numeral)

lemma length_be_words: "length (be_words blk) = 16"
  by (simp add: be_words_def del: upt_rec_numeral)

definition sha1_valid :: "SHA1Context \<Rightarrow> bool" where
  "sha1_valid cx \<longleftrightarrow> length (sha1_w cx) = 80"

text \<open>The word \<open>j\<close> holds its bytes of the block so far, above whatever was there.\<close>

definition sha1_holds :: "u32 list \<Rightarrow> u8 list \<Rightarrow> bool" where
  "sha1_holds w l \<longleftrightarrow> length w = 80 \<and>
     (\<forall>j < 16. \<exists>x. w ! j = foldl wordfill x (take 4 (drop (4 * j) l)))"

definition sha1_absorbed :: "SHA1Context \<Rightarrow> u8 list \<Rightarrow> bool" where
  "sha1_absorbed cx m \<longleftrightarrow>
     sha1_h cx = block_state 64 sha1_compress sha1_iv m \<and>
     sha1_holds (sha1_w cx) (leftover 64 m) \<and>
     sha1_lenW cx = length m mod 64 \<and>
     sha1_sizeLo cx = count_lo (8 * length m) \<and> sha1_sizeHi cx = count_hi (8 * length m)"

lemma sha1_holds_Nil: "length w = 80 \<Longrightarrow> sha1_holds w []"
  by (simp add: sha1_holds_def)

lemma sha1_holds_byte:
  assumes w: "sha1_holds w l" and l: "length l < 64"
  shows "sha1_holds (w[length l div 4 := wordfill (w ! (length l div 4)) b]) (l @ [b])"
proof -
  let ?k = "length l"
  have len: "length w = 80" using w by (simp add: sha1_holds_def)
  have k: "?k = 4 * (?k div 4) + ?k mod 4" "?k mod 4 < 4" by simp_all
  have "\<exists>x. w[?k div 4 := wordfill (w ! (?k div 4)) b] ! j
      = foldl wordfill x (take 4 (drop (4 * j) (l @ [b])))" if j: "j < 16" for j
  proof -
    obtain x where x: "w ! j = foldl wordfill x (take 4 (drop (4 * j) l))"
      using w j by (auto simp: sha1_holds_def)
    consider "j < ?k div 4" | "j = ?k div 4" | "?k div 4 < j" by linarith
    then show ?thesis
    proof cases
      case 1
      then have "4 * j + 4 \<le> ?k" by linarith
      with 1 x show ?thesis by (intro exI [of _ x]) simp
    next
      case 2
      then have "4 * j \<le> ?k" "?k - 4 * j < 4" using k by linarith+
      with 2 x len j show ?thesis by (intro exI [of _ x]) simp
    next
      case 3
      then have "?k < 4 * j" using k by linarith
      with 3 x show ?thesis by (intro exI [of _ x]) simp
    qed
  qed
  with len show ?thesis by (simp add: sha1_holds_def)
qed

lemma sha1_holds_full:
  assumes "sha1_holds w blk" and "length blk = 64"
  shows "take 16 w = be_words blk"
proof (rule nth_equalityI)
  show "length (take 16 w) = length (be_words blk)"
    using assms by (simp add: sha1_holds_def length_be_words)
next
  fix j assume "j < length (take 16 w)"
  then have j: "j < 16" by simp
  then obtain x where "w ! j = foldl wordfill x (take 4 (drop (4 * j) blk))"
    using assms by (auto simp: sha1_holds_def)
  moreover have "length (take 4 (drop (4 * j) blk)) = 4" using assms j by simp
  ultimately have "w ! j = foldl wordfill 0 (take 4 (drop (4 * j) blk))"
    using wordfill_forgets by metis
  then show "take 16 w ! j = be_words blk ! j"
    using j by (simp add: be_words_nth)
qed

lemma shsHashBlock_compress:
  assumes "sha1_holds (sha1_w cx) blk" and "length blk = 64"
  shows "sha1_h (shsHashBlock cx) = sha1_compress (sha1_h cx) blk"
    and "length (sha1_w (shsHashBlock cx)) = 80"
proof -
  have "length (sha1_w cx) = 80" using assms by (simp add: sha1_holds_def)
  then have "shs_expand (sha1_w cx) = sha1_schedule (be_words blk)"
    by (simp only: shs_expand_eq sha1_holds_full [OF assms])
  then show "sha1_h (shsHashBlock cx) = sha1_compress (sha1_h cx) blk"
    and "length (sha1_w (shsHashBlock cx)) = 80"
    by (simp_all add: shsHashBlock_def sha1_compress_def Let_def length_sha1_schedule)
qed

lemma shsHashBlock_other [simp]:
  "sha1_lenW (shsHashBlock cx) = sha1_lenW cx" "sha1_sizeLo (shsHashBlock cx) = sha1_sizeLo cx"
  "sha1_sizeHi (shsHashBlock cx) = sha1_sizeHi cx"
  by (simp_all add: shsHashBlock_def Let_def)

lemma SHA1_count_byte:
  "count_lo (8 * length m) + 8 = count_lo (8 * length (m @ [b]))"
  "count_hi (8 * length m) + (if count_lo (8 * length (m @ [b])) < 8 then 1 else 0)
     = count_hi (8 * length (m @ [b]))"
proof -
  have 8: "count_lo 8 = 8" "count_hi 8 = 0" by (simp_all add: count_lo_def count_hi_def)
  show lo: "count_lo (8 * length m) + 8 = count_lo (8 * length (m @ [b]))"
    using count_lo_add [of "8 * length m" 8] by (simp add: 8 add.commute)
  have "8 * length (m @ [b]) = 8 * length m + 8" by simp
  then show "count_hi (8 * length m) + (if count_lo (8 * length (m @ [b])) < 8 then 1 else 0)
     = count_hi (8 * length (m @ [b]))"
    using count_hi_add [of "8 * length m" 8] by (simp only: 8) simp
qed

lemma SHA1_update_byte_absorbed:
  assumes cx: "sha1_absorbed cx m"
  shows "sha1_absorbed (SHA1_update_byte cx b) (m @ [b])"
proof -
  let ?l = "leftover 64 m"
  have ll: "length ?l = length m mod 64" by (simp add: length_leftover)
  have lenW: "sha1_lenW cx = length ?l" using cx ll by (simp add: sha1_absorbed_def)
  define cx' where "cx' = cx\<lparr>sha1_w := (sha1_w cx)[length ?l div 4 := wordfill (sha1_w cx ! (length ?l div 4)) b],
    sha1_lenW := length ?l + 1\<rparr>"
  have w: "sha1_holds (sha1_w cx') (?l @ [b])"
    using cx by (simp add: cx'_def sha1_absorbed_def sha1_holds_byte length_leftover_less)
  have size: "sha1_sizeLo cx' + 8 = count_lo (8 * length (m @ [b]))"
    "sha1_sizeHi cx' + (if count_lo (8 * length (m @ [b])) < 8 then 1 else 0)
      = count_hi (8 * length (m @ [b]))"
    using cx SHA1_count_byte [of m b] by (simp_all only: sha1_absorbed_def cx'_def) simp_all
  have h: "sha1_h cx' = block_state 64 sha1_compress sha1_iv m"
    using cx by (simp add: cx'_def sha1_absorbed_def)
  have step: "SHA1_update_byte cx b =
    (let c = (if length (?l @ [b]) mod 64 = 0 then (shsHashBlock cx')\<lparr>sha1_lenW := 0\<rparr> else cx')
     in c\<lparr>sha1_sizeLo := sha1_sizeLo cx' + 8,
          sha1_sizeHi := sha1_sizeHi cx' + (if sha1_sizeLo cx' + 8 < 8 then 1 else 0)\<rparr>)"
    by (simp add: SHA1_update_byte_def cx'_def lenW wordfill_def Let_def)
  show ?thesis
  proof (cases "length (?l @ [b]) = 64")
    case True
    then have lo: "leftover 64 (m @ [b]) = []"
      and st: "block_state 64 sha1_compress sha1_iv (m @ [b])
         = sha1_compress (block_state 64 sha1_compress sha1_iv m) (?l @ [b])"
      using leftover_fill [of 64 m "[b]" "[]"] block_state_fill [of 64 m "[b]" _ _ "[]"] by simp_all
    have "(length m + 1) mod 64 = 0" using True ll by (simp add: mod_Suc)
    then show ?thesis
      using True size shsHashBlock_compress [OF w True] unfolding step sha1_absorbed_def lo st
      by (simp add: h sha1_holds_Nil)
  next
    case False
    then have short: "length ?l + 1 < 64" using length_leftover_less [of 64 m] by simp
    then have "leftover 64 (m @ [b]) = ?l @ [b]"
      and "block_state 64 sha1_compress sha1_iv (m @ [b]) = block_state 64 sha1_compress sha1_iv m"
      using leftover_more [of 64 m "[b]"] block_state_short [of 64 m "[b]"] by simp_all
    moreover have "(length m + 1) mod 64 = length ?l + 1"
      using short ll by (simp add: mod_Suc)
    ultimately show ?thesis
      using False short size w unfolding step sha1_absorbed_def
      by (simp add: h) (simp add: cx'_def)
  qed
qed

lemma SHA1_Update_absorbed:
  "sha1_absorbed cx m \<Longrightarrow> sha1_absorbed (SHA1_Update cx d) (m @ d)"
proof (induction d arbitrary: cx m)
  case (Cons b d)
  have "sha1_absorbed (SHA1_Update (SHA1_update_byte cx b) d) ((m @ [b]) @ d)"
    by (rule Cons.IH) (rule SHA1_update_byte_absorbed [OF Cons.prems])
  then show ?case by (simp add: SHA1_Update_def)
qed (simp add: SHA1_Update_def)

lemma SHA1_Begin_absorbed: "sha1_valid cx \<Longrightarrow> sha1_absorbed (SHA1_Begin cx) []"
  by (simp add: sha1_absorbed_def sha1_valid_def SHA1_Begin_def sha1_iv_def sha1_holds_Nil
      count_lo_def count_hi_def)

lemma SHA1_pad_loop_zeros:
  "sha1_lenW ctx < 64 \<Longrightarrow>
   SHA1_pad_loop ctx = SHA1_Update ctx (replicate ((120 - sha1_lenW ctx) mod 64) 0)"
proof (induction ctx rule: SHA1_pad_loop.induct)
  case (1 ctx)
  let ?n = "sha1_lenW ctx"
  show ?case
  proof (cases "?n = 56")
    case True
    then show ?thesis by (simp add: SHA1_pad_loop.simps [of ctx] SHA1_Update_def)
  next
    case False
    define c where "c = SHA1_update_byte ctx 0"
    have c: "SHA1_Update ctx [0] = c" by (simp add: c_def SHA1_Update_def)
    have n: "sha1_lenW c = (if ?n = 63 then 0 else ?n + 1)"
      using 1 by (auto simp: c_def SHA1_update_byte_lenW mod_Suc)
    then have "sha1_lenW c < 64" using 1 by simp
    then have "SHA1_pad_loop ctx = SHA1_Update c (replicate ((120 - sha1_lenW c) mod 64) 0)"
      using 1 False c by (simp add: SHA1_pad_loop.simps [of ctx])
    moreover have "(120 - ?n) mod 64 = Suc ((120 - sha1_lenW c) mod 64)"
      using 1 False n by (auto simp: mod_if [of "120 - ?n"] mod_if [of "119 - ?n"])
    ultimately show ?thesis by (simp add: SHA1_Update_def c_def)
  qed
qed

lemma SHA1_output_bytes:
  assumes "length h = 5"
  shows "snd (SHA1_output h) = concat (map be_bytes h)"
proof -
  have sh: "ucast (drop_bit 24 (push_bit 8 x)) = (ucast (drop_bit 16 x) :: u8)"
    "ucast (drop_bit 24 (push_bit 8 (push_bit 8 x))) = (ucast (drop_bit 8 x) :: u8)"
    "ucast (drop_bit 24 (push_bit 8 (push_bit 8 (push_bit 8 x)))) = (ucast x :: u8)"
    "ucast (drop_bit 16 (push_bit 8 x)) = (ucast (drop_bit 8 x) :: u8)"
    "ucast (drop_bit 16 (push_bit 8 (push_bit 8 x))) = (ucast x :: u8)"
    "ucast (drop_bit 8 (push_bit 8 x)) = (ucast x :: u8)" for x :: u32
    by (rule bit_word_eqI; auto simp: bit_simps)+
  obtain a b c d e where h: "h = [a, b, c, d, e]"
    using assms by (auto simp: length_Suc_conv numeral_eq_Suc)
  have l: "[0..<20] = [0, 1, 2, 3, 4, 5, 6, 7, 8, 9, 10, 11, 12, 13, 14, 15, 16, 17, 18, 19 :: nat]"
    by (simp add: upt_conv_Cons)
  show ?thesis unfolding SHA1_output_def l h by (simp add: be_bytes_def sh del: push_bit_push_bit)
qed

definition sha1_digest :: "u8 list \<Rightarrow> u8 list" where
  "sha1_digest m = concat (map be_bytes (block_state 64 sha1_compress sha1_iv
     (m @ md_padding (length m) @
      be_bytes (count_hi (8 * length m)) @ be_bytes (count_lo (8 * length m)))))"

lemma length_be_bytes: "length (be_bytes x) = 4"
  by (simp add: be_bytes_def)

lemma length_sha1_state: "length (block_state 64 sha1_compress sha1_iv m) = 5"
proof -
  have "length h = 5 \<Longrightarrow> length (foldl sha1_compress h bs) = 5" for h bs
    by (induction bs arbitrary: h) (simp_all add: sha1_compress_def shsHashWords_def Let_def split: prod.splits)
  then show ?thesis by (simp add: block_state_def sha1_iv_def)
qed

lemma length_sha1_digest: "length (sha1_digest m) = 20"
proof -
  have "length (concat (map be_bytes ws)) = 4 * length ws" for ws
    by (induction ws) (simp_all add: length_be_bytes)
  then show ?thesis by (simp add: sha1_digest_def length_sha1_state)
qed

lemma SHA1_padlen_bytes:
  "[ucast (drop_bit 24 x AND 255), ucast (drop_bit 16 x AND 255),
    ucast (drop_bit 8 x AND 255), ucast (drop_bit 0 x AND 255)] = be_bytes (x :: u32)"
proof -
  have "ucast (y AND 255) = (ucast y :: u8)" for y :: u32
  proof -
    have "(255 :: u32) = mask 8" by (simp add: mask_eq_exp_minus_1)
    then have "y AND 255 = take_bit 8 y" by (simp only: take_bit_eq_mask)
    then show ?thesis by (simp only:) (rule bit_word_eqI, auto simp: bit_simps)
  qed
  then show ?thesis by (simp add: be_bytes_def)
qed

lemma SHA1_End_absorbed:
  assumes cx: "sha1_absorbed cx m"
  shows "snd (SHA1_End cx) = sha1_digest m" and "sha1_valid (fst (SHA1_End cx))"
proof -
  let ?n = "length m"
  define c1 where "c1 = SHA1_Update cx [0x80]"
  define c2 where "c2 = SHA1_pad_loop c1"
  let ?len = "be_bytes (count_hi (8 * ?n)) @ be_bytes (count_lo (8 * ?n))"
  define c3 where "c3 = SHA1_Update c2 ?len"
  have 1: "sha1_absorbed c1 (m @ [0x80])"
    unfolding c1_def by (rule SHA1_Update_absorbed [OF cx])
  then have n1: "sha1_lenW c1 = (?n + 1) mod 64" by (simp add: sha1_absorbed_def)
  have z: "(120 - (?n + 1) mod 64) mod 64 = (119 - ?n mod 64) mod 64"
    by (cases "Suc (?n mod 64) = 64") (simp_all add: mod_Suc)
  have "c2 = SHA1_Update c1 (replicate ((119 - ?n mod 64) mod 64) 0)"
    unfolding c2_def using SHA1_pad_loop_zeros [of c1] by (simp only: n1 z mod_less_divisor zero_less_numeral)
  with SHA1_Update_absorbed [OF 1] have "sha1_absorbed c2 (m @ md_padding ?n)"
    by (simp add: md_padding_def)
  from SHA1_Update_absorbed [OF this, of ?len]
  have 3: "sha1_absorbed c3 (m @ md_padding ?n @ ?len)" by (simp add: c3_def)
  have hi: "sha1_sizeHi cx = count_hi (8 * ?n)" and lo: "sha1_sizeLo cx = count_lo (8 * ?n)"
    using cx by (simp_all add: sha1_absorbed_def)
  have len: "[ucast (drop_bit 24 hi AND 255), ucast (drop_bit 16 hi AND 255),
                    ucast (drop_bit 8 hi AND 255), ucast (drop_bit 0 hi AND 255),
                    ucast (drop_bit 24 lo AND 255), ucast (drop_bit 16 lo AND 255),
                    ucast (drop_bit 8 lo AND 255), ucast (drop_bit 0 lo AND 255)]
      = be_bytes hi @ be_bytes lo" for hi lo :: u32
    using SHA1_padlen_bytes [of hi] SHA1_padlen_bytes [of lo] by simp
  obtain h out where o: "SHA1_output (sha1_h c3) = (h, out)" by (cases "SHA1_output (sha1_h c3)")
  have e: "SHA1_End cx = (SHA1_Begin (c3\<lparr>sha1_h := h\<rparr>), out)"
    unfolding SHA1_End_def Let_def len hi lo c1_def [symmetric] c2_def [symmetric] c3_def [symmetric]
    by (simp add: o)
  have "out = concat (map be_bytes (sha1_h c3))"
    using SHA1_output_bytes [of "sha1_h c3"] 3 o by (simp add: sha1_absorbed_def length_sha1_state)
  with 3 e show "snd (SHA1_End cx) = sha1_digest m"
    by (simp add: sha1_absorbed_def sha1_digest_def)
  from 3 e show "sha1_valid (fst (SHA1_End cx))"
    by (simp add: sha1_absorbed_def sha1_valid_def SHA1_Begin_def sha1_holds_def)
qed

interpretation sha1: stream_hash SHA1_Begin SHA1_Update SHA1_End sha1_valid sha1_absorbed sha1_digest 20
proof (unfold_locales, goal_cases)
  case (1 cx)
  then show ?case by (rule SHA1_Begin_absorbed)
next
  case (2 cx m d)
  then show ?case by (intro SHA1_Update_absorbed)
next
  case (3 cx m)
  then show ?case by (rule SHA1_End_absorbed)
next
  case (4 cx m)
  then show ?case by (rule SHA1_End_absorbed)
next
  case (5 m)
  show ?case by (rule length_sha1_digest)
qed

lemma SHA1_HashBuf_digest:
  "sha1_valid stack \<Longrightarrow> length src + 64 \<le> 2 ^ 32 \<Longrightarrow> SHA1_HashBuf stack src = sha1_digest src"
  using sha1.digest_of_pieces [of stack "[src]"] by (simp add: SHA1_HashBuf_def)

section \<open>Properties\<close>

text \<open>
  C11. The context of SHA-1 that is updated byte by byte, with the block collected by shifting
  into stale words and expanded in place, computes the FIPS 180-1 digest of the
  concatenation of the pieces: schedule, padding and big-endian 64 bit length.
\<close>

theorem SHA1_pieces:
  assumes "length (sha1_w cx) = 80" and "\<forall>d \<in> set ds. length d + 64 \<le> 2 ^ 32"
  shows "snd (SHA1_End (foldl SHA1_Update (SHA1_Begin cx) ds)) = sha1_digest (concat ds)"
  using assms by (intro sha1.digest_of_pieces) (simp_all add: sha1_valid_def)

theorem SHA1_pieces_witness:
  "snd (SHA1_End (foldl SHA1_Update (SHA1_Begin SHA1_NewContext) [[0x61], [], [0x62, 0x63]]))
     = sha1_digest [0x61, 0x62, 0x63]"
  using SHA1_pieces [of SHA1_NewContext "[[0x61], [], [0x62, 0x63]]"]
  by (simp add: SHA1_NewContext_def)

end
