(* ===== verification/HMAC.thy ===== *)
theory HMAC
  imports MD2 MD5 SHA1
begin

text \<open>
  The table \<open>SECRawHashObjects\<close> of security/lib/util/secinit.c and the keyed hash of
  security/lib/util/alghmac.c that works through it. The \<open>void *\<close> a hash object works on is
  a sum of the contexts; a routine that is called on a context of another type leaves it
  unchanged here (C leaves that undefined and no code does it).
\<close>

datatype hash_cx =
    Null_cx
  | MD2_cx MD2Context
  | MD5_cx MD5Context
  | SHA1_cx SHA1Context

record SECHashObject =
  so_length :: nat
  so_create :: hash_cx
  so_clone :: "hash_cx \<Rightarrow> hash_cx"
  so_begin :: "hash_cx \<Rightarrow> hash_cx"
  so_update :: "hash_cx \<Rightarrow> u8 list \<Rightarrow> hash_cx"
  so_end :: "hash_cx \<Rightarrow> hash_cx \<times> u8 list"   \<comment> \<open>the bytes stored, as many as \<open>*outLen\<close>\<close>

definition null_hash :: SECHashObject where
  "null_hash = \<lparr>so_length = 0, so_create = Null_cx, so_clone = (\<lambda>v. Null_cx),
     so_begin = (\<lambda>v. v), so_update = (\<lambda>v input. v), so_end = (\<lambda>v. (v, []))\<rparr>"

definition MD2_object :: SECHashObject where
  "MD2_object = \<lparr>so_length = 16, so_create = MD2_cx MD2_NewContext,
     so_clone = (\<lambda>v. case v of MD2_cx c \<Rightarrow> MD2_cx (MD2_CloneContext c) | _ \<Rightarrow> v),
     so_begin = (\<lambda>v. case v of MD2_cx c \<Rightarrow> MD2_cx (MD2_Begin c) | _ \<Rightarrow> v),
     so_update = (\<lambda>v d. case v of MD2_cx c \<Rightarrow> MD2_cx (MD2_Update c d) | _ \<Rightarrow> v),
     so_end = (\<lambda>v. case v of MD2_cx c \<Rightarrow> apfst MD2_cx (MD2_End c) | _ \<Rightarrow> (v, []))\<rparr>"

definition MD5_object :: SECHashObject where
  "MD5_object = \<lparr>so_length = 16, so_create = MD5_cx MD5_NewContext,
     so_clone = (\<lambda>v. case v of MD5_cx c \<Rightarrow> MD5_cx (MD5_CloneContext c) | _ \<Rightarrow> v),
     so_begin = (\<lambda>v. case v of MD5_cx c \<Rightarrow> MD5_cx (MD5_Begin c) | _ \<Rightarrow> v),
     so_update = (\<lambda>v d. case v of MD5_cx c \<Rightarrow> MD5_cx (MD5_Update c d) | _ \<Rightarrow> v),
     so_end = (\<lambda>v. case v of MD5_cx c \<Rightarrow> apfst MD5_cx (MD5_End c) | _ \<Rightarrow> (v, []))\<rparr>"

definition SHA1_object :: SECHashObject where
  "SHA1_object = \<lparr>so_length = 20, so_create = SHA1_cx SHA1_NewContext,
     so_clone = (\<lambda>v. case v of SHA1_cx c \<Rightarrow> SHA1_cx (SHA1_CloneContext c) | _ \<Rightarrow> v),
     so_begin = (\<lambda>v. case v of SHA1_cx c \<Rightarrow> SHA1_cx (SHA1_Begin c) | _ \<Rightarrow> v),
     so_update = (\<lambda>v d. case v of SHA1_cx c \<Rightarrow> SHA1_cx (SHA1_Update c d) | _ \<Rightarrow> v),
     so_end = (\<lambda>v. case v of SHA1_cx c \<Rightarrow> apfst SHA1_cx (SHA1_End c) | _ \<Rightarrow> (v, []))\<rparr>"

text \<open>The table, indexed by \<open>HASH_HashType\<close>.\<close>

datatype HASH_HashType = HASH_AlgNULL | HASH_AlgMD2 | HASH_AlgMD5 | HASH_AlgSHA1

fun SECRawHashObjects :: "HASH_HashType \<Rightarrow> SECHashObject" where
  "SECRawHashObjects HASH_AlgNULL = null_hash"
| "SECRawHashObjects HASH_AlgMD2 = MD2_object"
| "SECRawHashObjects HASH_AlgMD5 = MD5_object"
| "SECRawHashObjects HASH_AlgSHA1 = SHA1_object"

record HMACContext =
  hm_hash :: hash_cx
  hm_hashobj :: SECHashObject
  hm_ipad :: "u8 list"
  hm_opad :: "u8 list"

text \<open>The tags of \<open>HMAC_Create\<close>'s switch; the others stand for the rest of \<open>SECOidTag\<close>.\<close>

datatype SECOidTag = SEC_OID_MD2 | SEC_OID_MD5 | SEC_OID_SHA1 | SEC_OID_OTHER nat

text \<open>The loop \<open>for (i = 0; i < secret_len; i++) pad[i] ^= secret[i]\<close>.\<close>

definition hmac_fold :: "u8 list \<Rightarrow> u8 list \<Rightarrow> u8 list" where
  "hmac_fold secret pad =
     foldl (\<lambda>p i. p[i := (p ! i) XOR (secret ! i)]) pad [0..<length secret]"

text \<open>\<open>mem\<close> and \<open>hash_mem\<close> say whether the two allocations succeed.\<close>

definition HMAC_Create :: "bool \<Rightarrow> bool \<Rightarrow> SECOidTag \<Rightarrow> u8 list \<Rightarrow> HMACContext option" where
  "HMAC_Create mem hash_mem hash_alg secret =
     (if \<not> mem then None
      else case (case hash_alg of
                   SEC_OID_MD5 \<Rightarrow> Some (SECRawHashObjects HASH_AlgMD5)
                 | SEC_OID_MD2 \<Rightarrow> Some (SECRawHashObjects HASH_AlgMD2)
                 | SEC_OID_SHA1 \<Rightarrow> Some (SECRawHashObjects HASH_AlgSHA1)
                 | SEC_OID_OTHER n \<Rightarrow> None) of
        None \<Rightarrow> None
      | Some obj \<Rightarrow>
          if \<not> hash_mem then None
          else if length secret > 64 then None
          else Some \<lparr>hm_hash = so_create obj, hm_hashobj = obj,
                     hm_ipad = hmac_fold secret (replicate 64 0x36),
                     hm_opad = hmac_fold secret (replicate 64 0x5c)\<rparr>)"

definition HMAC_Begin :: "HMACContext \<Rightarrow> HMACContext" where
  "HMAC_Begin cx =
     (let obj = hm_hashobj cx; h = so_begin obj (hm_hash cx)
      in cx\<lparr>hm_hash := so_update obj h (hm_ipad cx)\<rparr>)"

definition HMAC_Update :: "HMACContext \<Rightarrow> u8 list \<Rightarrow> HMACContext" where
  "HMAC_Update cx data = cx\<lparr>hm_hash := so_update (hm_hashobj cx) (hm_hash cx) data\<rparr>"

text \<open>The result is \<open>None\<close> for \<open>SECFailure\<close> and the bytes of \<open>result\<close> otherwise.\<close>

definition HMAC_Finish :: "HMACContext \<Rightarrow> nat \<Rightarrow> HMACContext \<times> u8 list option" where
  "HMAC_Finish cx max_result_len =
     (let obj = hm_hashobj cx
      in if max_result_len < so_length obj then (cx, None)
         else (let (h, result) = so_end obj (hm_hash cx)
               in if length result \<noteq> so_length obj then (cx\<lparr>hm_hash := h\<rparr>, None)
                  else (let h = so_begin obj h;
                            h = so_update obj h (hm_opad cx);
                            h = so_update obj h result;
                            (h, result) = so_end obj h
                        in (cx\<lparr>hm_hash := h\<rparr>, Some result))))"

definition HMAC_Clone :: "bool \<Rightarrow> bool \<Rightarrow> HMACContext \<Rightarrow> HMACContext option" where
  "HMAC_Clone mem hash_mem cx =
     (if \<not> mem then None else if \<not> hash_mem then None
      else Some \<lparr>hm_hash = so_clone (hm_hashobj cx) (hm_hash cx), hm_hashobj = hm_hashobj cx,
                 hm_ipad = hm_ipad cx, hm_opad = hm_opad cx\<rparr>)"

section \<open>The client of a stream hash\<close>

text \<open>What \<open>HMAC_Create\<close> and the later calls rely on in a hash object.\<close>

locale hash_object =
  stream_hash "so_begin obj" "so_update obj" "so_end obj" valid absorbed digest "so_length obj"
  for obj :: SECHashObject
    and valid :: "hash_cx \<Rightarrow> bool"
    and absorbed :: "hash_cx \<Rightarrow> u8 list \<Rightarrow> bool"
    and digest :: "u8 list \<Rightarrow> u8 list" +
  assumes create_valid: "valid (so_create obj)"
    and clone_same: "so_clone obj v = v"
begin

lemma HMAC_updates:
  "hm_hashobj cx = obj \<Longrightarrow> absorbed (hm_hash cx) m \<Longrightarrow>
   \<forall>d \<in> set ds. length d + 64 \<le> 2 ^ 32 \<Longrightarrow>
   foldl HMAC_Update cx ds = cx\<lparr>hm_hash := foldl (so_update obj) (hm_hash cx) ds\<rparr> \<and>
   absorbed (foldl (so_update obj) (hm_hash cx) ds) (m @ concat ds)"
proof (induction ds arbitrary: cx m)
  case (Cons d ds)
  then have "absorbed (so_update obj (hm_hash cx) d) (m @ d)" by (simp add: update_absorbed)
  with Cons.IH [of "HMAC_Update cx d" "m @ d"] Cons.prems show ?case
    by (simp add: HMAC_Update_def)
qed simp

lemma HMAC_Finish_digest:
  assumes cx: "hm_hashobj cx = obj" "absorbed (hm_hash cx) m" "length (hm_opad cx) = 64"
    and maxlen: "so_length obj \<le> maxlen" and small: "so_length obj \<le> 64"
  shows "snd (HMAC_Finish cx maxlen) = Some (digest (hm_opad cx @ digest m))"
    and "valid (hm_hash (fst (HMAC_Finish cx maxlen)))"
proof -
  obtain h where h: "so_end obj (hm_hash cx) = (h, digest m)" and v: "valid h"
    using end_digest [OF cx(2)] end_valid [OF cx(2)] by (metis prod.collapse)
  have len: "length (hm_opad cx) + 64 \<le> 2 ^ 32" "length (digest m) + 64 \<le> 2 ^ 32"
    using cx(3) small by (simp_all add: length_digest)
  have 1: "absorbed (so_update obj (so_begin obj h) (hm_opad cx)) (hm_opad cx)"
    using update_absorbed [OF begin_absorbed [OF v] len(1)] by simp
  have 2: "absorbed (so_update obj (so_update obj (so_begin obj h) (hm_opad cx)) (digest m))
      (hm_opad cx @ digest m)"
    using update_absorbed [OF 1 len(2)] .
  show "snd (HMAC_Finish cx maxlen) = Some (digest (hm_opad cx @ digest m))"
    and "valid (hm_hash (fst (HMAC_Finish cx maxlen)))"
    using maxlen cx h end_digest [OF 2] end_valid [OF 2]
    by (simp_all add: HMAC_Finish_def length_digest case_prod_beta)
qed

lemma HMAC_value:
  assumes cx: "hm_hashobj cx = obj" "valid (hm_hash cx)"
      "length (hm_ipad cx) = 64" "length (hm_opad cx) = 64"
    and ds: "\<forall>d \<in> set ds. length d + 64 \<le> 2 ^ 32"
    and maxlen: "so_length obj \<le> maxlen" and small: "so_length obj \<le> 64"
  shows "snd (HMAC_Finish (foldl HMAC_Update (HMAC_Begin cx) ds) maxlen)
           = Some (digest (hm_opad cx @ digest (hm_ipad cx @ concat ds)))"
proof -
  have "absorbed (so_update obj (so_begin obj (hm_hash cx)) (hm_ipad cx)) (hm_ipad cx)"
    using update_absorbed [OF begin_absorbed [OF cx(2)], of "hm_ipad cx"] cx by simp
  then have "foldl HMAC_Update (HMAC_Begin cx) ds
        = (HMAC_Begin cx)\<lparr>hm_hash := foldl (so_update obj) (hm_hash (HMAC_Begin cx)) ds\<rparr>"
    and "absorbed (foldl (so_update obj) (hm_hash (HMAC_Begin cx)) ds) (hm_ipad cx @ concat ds)"
    using HMAC_updates [of "HMAC_Begin cx" "hm_ipad cx" ds] ds cx
    by (simp_all add: HMAC_Begin_def Let_def)
  with HMAC_Finish_digest [of "foldl HMAC_Update (HMAC_Begin cx) ds" _ maxlen] cx maxlen small
  show ?thesis by (simp add: HMAC_Begin_def Let_def)
qed

end

section \<open>The three hash objects\<close>

text \<open>A predicate on one of the contexts, on their sum.\<close>

fun on_MD2 :: "(MD2Context \<Rightarrow> bool) \<Rightarrow> hash_cx \<Rightarrow> bool" where
  "on_MD2 P (MD2_cx c) = P c" | "on_MD2 P _ = False"

fun on_MD5 :: "(MD5Context \<Rightarrow> bool) \<Rightarrow> hash_cx \<Rightarrow> bool" where
  "on_MD5 P (MD5_cx c) = P c" | "on_MD5 P _ = False"

fun on_SHA1 :: "(SHA1Context \<Rightarrow> bool) \<Rightarrow> hash_cx \<Rightarrow> bool" where
  "on_SHA1 P (SHA1_cx c) = P c" | "on_SHA1 P _ = False"

interpretation hmac_md2: hash_object MD2_object "on_MD2 md2_valid"
  "\<lambda>v m. on_MD2 (\<lambda>c. md2_absorbed c m) v" md2_digest
proof (unfold_locales, goal_cases)
  case (1 cx)
  then show ?case by (cases cx) (simp_all add: MD2_object_def md2.begin_absorbed)
next
  case (2 cx m d)
  then show ?case by (cases cx) (simp_all add: MD2_object_def md2.update_absorbed)
next
  case (3 cx m)
  then show ?case by (cases cx) (simp_all add: MD2_object_def md2.end_digest)
next
  case (4 cx m)
  then show ?case by (cases cx) (simp_all add: MD2_object_def md2.end_valid)
next
  case (5 m)
  show ?case by (simp add: MD2_object_def md2.length_digest)
next
  case 6
  show ?case by (simp add: MD2_object_def MD2_NewContext_def md2_valid_def)
next
  case (7 v)
  show ?case by (cases v) (simp_all add: MD2_object_def MD2_CloneContext_def)
qed

interpretation hmac_md5: hash_object MD5_object "on_MD5 md5_valid"
  "\<lambda>v m. on_MD5 (\<lambda>c. md5_absorbed c m) v" md5_digest
proof (unfold_locales, goal_cases)
  case (1 cx)
  then show ?case by (cases cx) (simp_all add: MD5_object_def md5.begin_absorbed)
next
  case (2 cx m d)
  then show ?case by (cases cx) (simp_all add: MD5_object_def md5.update_absorbed)
next
  case (3 cx m)
  then show ?case by (cases cx) (simp_all add: MD5_object_def md5.end_digest)
next
  case (4 cx m)
  then show ?case by (cases cx) (simp_all add: MD5_object_def md5.end_valid)
next
  case (5 m)
  show ?case by (simp add: MD5_object_def md5.length_digest)
next
  case 6
  show ?case by (simp add: MD5_object_def MD5_NewContext_def md5_valid_def)
next
  case (7 v)
  show ?case by (cases v) (simp_all add: MD5_object_def MD5_CloneContext_def)
qed

interpretation hmac_sha1: hash_object SHA1_object "on_SHA1 sha1_valid"
  "\<lambda>v m. on_SHA1 (\<lambda>c. sha1_absorbed c m) v" sha1_digest
proof (unfold_locales, goal_cases)
  case (1 cx)
  then show ?case by (cases cx) (simp_all add: SHA1_object_def sha1.begin_absorbed)
next
  case (2 cx m d)
  then show ?case by (cases cx) (simp_all add: SHA1_object_def sha1.update_absorbed)
next
  case (3 cx m)
  then show ?case by (cases cx) (simp_all add: SHA1_object_def sha1.end_digest)
next
  case (4 cx m)
  then show ?case by (cases cx) (simp_all add: SHA1_object_def sha1.end_valid)
next
  case (5 m)
  show ?case by (simp add: SHA1_object_def sha1.length_digest)
next
  case 6
  show ?case by (simp add: SHA1_object_def SHA1_NewContext_def sha1_valid_def)
next
  case (7 v)
  show ?case by (cases v) (simp_all add: SHA1_object_def SHA1_CloneContext_def)
qed

section \<open>The keyed hash of RFC 2104\<close>

definition raw_digest :: "SECOidTag \<Rightarrow> u8 list \<Rightarrow> u8 list" where
  "raw_digest alg = (case alg of SEC_OID_MD2 \<Rightarrow> md2_digest | SEC_OID_MD5 \<Rightarrow> md5_digest
     | SEC_OID_SHA1 \<Rightarrow> sha1_digest | SEC_OID_OTHER n \<Rightarrow> (\<lambda>m. []))"

definition rfc2104 :: "(u8 list \<Rightarrow> u8 list) \<Rightarrow> u8 list \<Rightarrow> u8 list \<Rightarrow> u8 list" where
  "rfc2104 H key text =
     (let K = key @ replicate (64 - length key) 0
      in H (map (\<lambda>b. b XOR 0x5c) K @ H (map (\<lambda>b. b XOR 0x36) K @ text)))"

lemma hmac_fold_upto:
  assumes "length secret \<le> length pad" and "n \<le> length secret"
  shows "foldl (\<lambda>p i. p[i := (p ! i) XOR (secret ! i)]) pad [0..<n]
           = map2 (XOR) (take n pad) (take n secret) @ drop n pad"
  using assms(2)
proof (induction n)
  case (Suc n)
  let ?l = "map2 (XOR) (take n pad) (take n secret)"
  have n: "n < length secret" "n < length pad" using Suc assms by simp_all
  then have l: "length ?l = n" by simp
  have "drop n pad = pad ! n # drop (Suc n) pad" using n by (simp add: Cons_nth_drop_Suc)
  then have "(?l @ drop n pad)[n := ((?l @ drop n pad) ! n) XOR (secret ! n)]
      = ?l @ ((pad ! n) XOR (secret ! n)) # drop (Suc n) pad"
    using l by (simp add: list_update_append nth_append)
  moreover have "map2 (XOR) (take (Suc n) pad) (take (Suc n) secret)
      = ?l @ [(pad ! n) XOR (secret ! n)]"
    using n by (simp add: take_Suc_conv_app_nth)
  ultimately show ?case using Suc by simp
qed simp

lemma hmac_fold_key:
  assumes "length key \<le> 64"
  shows "hmac_fold key (replicate 64 c) = map (\<lambda>b. b XOR c) (key @ replicate (64 - length key) 0)"
proof -
  have z: "map2 (XOR) (replicate (length key) c) key = map (\<lambda>b. b XOR c) key"
    by (induction key) (simp_all add: xor.commute)
  show ?thesis
    using hmac_fold_upto [of key "replicate 64 c" "length key"] assms z
    by (simp add: hmac_fold_def)
qed

lemma length_hmac_fold: "length key \<le> 64 \<Longrightarrow> length (hmac_fold key (replicate 64 c)) = 64"
  by (simp add: hmac_fold_key)

text \<open>
  C5. HMAC over each of the three digests: a context that \<open>HMAC_Create\<close> returns, begun and
  then updated with any pieces, yields the value RFC 2104 defines for the key and
  the concatenation of the pieces, as soon as the result buffer is large enough.
\<close>

theorem HMAC_rfc2104:
  assumes "HMAC_Create mem hash_mem alg key = Some cx"
    and "\<forall>d \<in> set ds. length d + 64 \<le> 2 ^ 32"
    and "so_length (hm_hashobj cx) \<le> maxlen"
  shows "snd (HMAC_Finish (foldl HMAC_Update (HMAC_Begin cx) ds) maxlen)
           = Some (rfc2104 (raw_digest alg) key (concat ds))"
proof -
  have key: "length key \<le> 64"
    and pads: "hm_ipad cx = hmac_fold key (replicate 64 0x36)"
      "hm_opad cx = hmac_fold key (replicate 64 0x5c)"
    using assms(1) by (auto simp: HMAC_Create_def split: if_splits SECOidTag.splits)
  have small: "so_length MD2_object \<le> 64" "so_length MD5_object \<le> 64" "so_length SHA1_object \<le> 64"
    by (simp_all add: MD2_object_def MD5_object_def SHA1_object_def)
  consider "alg = SEC_OID_MD2" "hm_hashobj cx = MD2_object" "hm_hash cx = so_create MD2_object"
    | "alg = SEC_OID_MD5" "hm_hashobj cx = MD5_object" "hm_hash cx = so_create MD5_object"
    | "alg = SEC_OID_SHA1" "hm_hashobj cx = SHA1_object" "hm_hash cx = so_create SHA1_object"
    using assms(1) by (auto simp: HMAC_Create_def split: if_splits SECOidTag.splits)
  then show ?thesis
    using assms(2,3) small key pads
      hmac_md2.HMAC_value [of cx ds maxlen] hmac_md5.HMAC_value [of cx ds maxlen]
      hmac_sha1.HMAC_value [of cx ds maxlen]
    by cases (simp_all add: length_hmac_fold hmac_md2.create_valid hmac_md5.create_valid
        hmac_sha1.create_valid rfc2104_def raw_digest_def Let_def hmac_fold_key)
qed

theorem HMAC_rfc2104_witness:
  "\<exists>cx. HMAC_Create True True SEC_OID_MD5 [1, 2] = Some cx \<and>
     snd (HMAC_Finish (foldl HMAC_Update (HMAC_Begin cx) [[3], [4]]) 16)
       = Some (rfc2104 (raw_digest SEC_OID_MD5) [1, 2] [3, 4])"
proof -
  obtain cx where cx: "HMAC_Create True True SEC_OID_MD5 [1, 2] = Some cx"
    by (simp add: HMAC_Create_def)
  then have "so_length (hm_hashobj cx) = 16"
    by (auto simp: HMAC_Create_def MD5_object_def)
  with HMAC_rfc2104 [OF cx, of "[[3], [4]]" 16] cx show ?thesis by simp
qed

end
