(* ===== verification/Block_Cipher.thy ===== *)
theory Block_Cipher
  imports Prelude
begin

text \<open>
  What the block ciphers of security/lib/crypto share: their loops
  \<open>while (inLen) { ...; out += 8; in += 8; inLen -= 8; }\<close>, the chaining of CBC mode through the
  eight bytes \<open>last\<close>, the length checks of the exported routines, and the interface of a block
  cipher, under which decryption is the inverse of encryption over any sequence of calls.
\<close>

definition xor8 :: "u8 list \<Rightarrow> u8 list \<Rightarrow> u8 list" where
  "xor8 a b = map2 (XOR) a b"

text \<open>
  The loop over the input. Its body maps the state and one block to the new state and the
  output block. An input that ends inside a block makes \<open>inLen -= 8\<close> wrap around and the
  loop run past the buffer: that is \<open>OUT_OF_BOUNDS\<close>.
\<close>

function block_loop ::
  "('s \<Rightarrow> u8 list \<Rightarrow> 's \<times> u8 list) \<Rightarrow> 's \<Rightarrow> u8 list \<Rightarrow> c_error + 's \<times> u8 list" where
  "block_loop body s inp =
     (if inp = [] then Inr (s, [])
      else if length inp < 8 then Inl OUT_OF_BOUNDS
      else (let (s, out) = body s (take 8 inp)
            in case block_loop body s (drop 8 inp) of
                 Inl e \<Rightarrow> Inl e
               | Inr (s, outs) \<Rightarrow> Inr (s, out @ outs)))"
  by pat_completeness auto
termination
  by (relation "measure (\<lambda>(body, s, inp). length inp)") auto

declare block_loop.simps [simp del]

text \<open>The bodies of the loops: a block on its own, and CBC encryption and decryption.\<close>

definition ecb_body :: "(u8 list \<Rightarrow> u8 list) \<Rightarrow> u8 list \<Rightarrow> u8 list \<Rightarrow> u8 list \<times> u8 list" where
  "ecb_body f carry blk = (carry, f blk)"

definition cbc_enc_body :: "(u8 list \<Rightarrow> u8 list) \<Rightarrow> u8 list \<Rightarrow> u8 list \<Rightarrow> u8 list \<times> u8 list" where
  "cbc_enc_body enc carry blk = (let out = enc (xor8 blk carry) in (out, out))"

definition cbc_dec_body :: "(u8 list \<Rightarrow> u8 list) \<Rightarrow> u8 list \<Rightarrow> u8 list \<Rightarrow> u8 list \<times> u8 list" where
  "cbc_dec_body dec carry blk = (blk, xor8 (dec blk) carry)"

text \<open>The checks of the routines of RC2 and RC5 before they call \<open>enc\<close> or \<open>dec\<close>.\<close>

definition checked_crypt ::
  "('cx \<Rightarrow> u8 list \<Rightarrow> c_error + 'cx \<times> u8 list) \<Rightarrow> 'cx \<Rightarrow> nat \<Rightarrow> u8 list \<Rightarrow> c_error + 'cx \<times> u8 list" where
  "checked_crypt crypt cx maxOut inp =
     (if length inp mod 8 \<noteq> 0 then Inl SEC_ERROR_INPUT_LEN
      else if maxOut < length inp then Inl SEC_ERROR_OUTPUT_LEN
      else crypt cx inp)"

text \<open>A sequence of calls on one context, with their outputs.\<close>

fun crypt_calls ::
  "('cx \<Rightarrow> u8 list \<Rightarrow> c_error + 'cx \<times> u8 list) \<Rightarrow> 'cx \<Rightarrow> u8 list list \<Rightarrow> c_error + 'cx \<times> u8 list list" where
  "crypt_calls f cx [] = Inr (cx, [])"
| "crypt_calls f cx (d # ds) =
     (case f cx d of
        Inl e \<Rightarrow> Inl e
      | Inr (cx, out) \<Rightarrow> (case crypt_calls f cx ds of
            Inl e \<Rightarrow> Inl e
          | Inr (cx, outs) \<Rightarrow> Inr (cx, out # outs)))"

section \<open>The loops on whole blocks\<close>

lemma length_xor8 [simp]: "length (xor8 a b) = min (length a) (length b)"
  by (simp add: xor8_def)

lemma xor8_twice: "length b = length a \<Longrightarrow> xor8 (xor8 a b) b = a"
  unfolding xor8_def by (induction a b rule: list_induct2') (simp_all add: xor.assoc)

lemma block_loop_Nil [simp]: "block_loop body s [] = Inr (s, [])"
  by (simp add: block_loop.simps)

lemma block_loop_block:
  "length b = 8 \<Longrightarrow> body s b = (s', out) \<Longrightarrow>
   block_loop body s (b @ bs)
     = (case block_loop body s' bs of Inl e \<Rightarrow> Inl e | Inr (s, outs) \<Rightarrow> Inr (s, out @ outs))"
  using block_loop.simps [of body s "b @ bs"] by auto

lemma block_induct [consumes 1, case_names Nil Block]:
  assumes "length xs mod 8 = 0" and "P []"
    and "\<And>b bs. length b = 8 \<Longrightarrow> length bs mod 8 = 0 \<Longrightarrow> P bs \<Longrightarrow> P (b @ bs)"
  shows "P xs"
  using assms(1)
proof (induction "length xs" arbitrary: xs rule: less_induct)
  case less
  show ?case
  proof (cases "xs = []")
    case False
    with less.prems have l: "8 \<le> length xs"
      by (metis length_0_conv mod_less not_le)
    then have "P (drop 8 xs)"
      using less by (intro less.hyps) (auto simp: le_mod_geq)
    then have "P (take 8 xs @ drop 8 xs)"
      using l less.prems by (intro assms(3)) (simp_all add: le_mod_geq)
    then show ?thesis by simp
  qed (simp add: assms(2))
qed

text \<open>
  Two loops whose bodies undo each other, on states that are related by \<open>R\<close>.
\<close>

lemma block_loop_inverse:
  assumes body: "\<And>s t b s' o'. R s t \<Longrightarrow> length b = 8 \<Longrightarrow> enc s b = (s', o') \<Longrightarrow>
      length o' = 8 \<and> (\<exists>t'. dec t o' = (t', b) \<and> R s' t')"
    and "length p mod 8 = 0" and "R s t"
  shows "\<exists>s' c t'. block_loop enc s p = Inr (s', c) \<and> block_loop dec t c = Inr (t', p) \<and>
           R s' t' \<and> length c = length p"
  using assms(2,3)
proof (induction p arbitrary: s t rule: block_induct)
  case (Block b bs)
  obtain s1 o1 where e: "enc s b = (s1, o1)" by (cases "enc s b")
  from body [OF Block.prems Block.hyps(1) e] obtain t1
    where d: "dec t o1 = (t1, b)" "R s1 t1" and l: "length o1 = 8" by blast
  from Block.IH [OF d(2)] obtain s' c t' where
    "block_loop enc s1 bs = Inr (s', c)" "block_loop dec t1 c = Inr (t', bs)" "R s' t'"
    "length c = length bs" by blast
  with d e l Block.hyps(1) show ?case
    by (intro exI [of _ s'] exI [of _ "o1 @ c"] exI [of _ t']) (simp add: block_loop_block)
qed simp

text \<open>The same for sequences of calls.\<close>

lemma crypt_calls_inverse:
  assumes call: "\<And>cx cy p. R cx cy \<Longrightarrow> ok p \<Longrightarrow>
      \<exists>cx' c cy'. enc cx p = Inr (cx', c) \<and> dec cy c = Inr (cy', p) \<and> R cx' cy'"
  shows "R cx cy \<Longrightarrow> \<forall>p \<in> set ps. ok p \<Longrightarrow>
      \<exists>cx' cs cy'. crypt_calls enc cx ps = Inr (cx', cs) \<and> crypt_calls dec cy cs = Inr (cy', ps) \<and>
        R cx' cy'"
proof (induction ps arbitrary: cx cy)
  case (Cons p ps)
  from call [OF Cons.prems(1), of p] Cons.prems(2) obtain cx1 c cy1 where
    1: "enc cx p = Inr (cx1, c)" "dec cy c = Inr (cy1, p)" "R cx1 cy1" by auto
  from Cons.IH [OF 1(3)] Cons.prems(2) obtain cx' cs cy' where
    "crypt_calls enc cx1 ps = Inr (cx', cs)" "crypt_calls dec cy1 cs = Inr (cy', ps)" "R cx' cy'"
    by auto
  with 1 show ?case by (intro exI [of _ cx'] exI [of _ "c # cs"] exI [of _ cy']) simp
qed simp

section \<open>The interface of a block cipher\<close>

text \<open>
  The routine that encrypts a block and the one that decrypts it, as the loops call them.
\<close>

locale block_cipher =
  fixes E :: "u8 list \<Rightarrow> u8 list"
    and D :: "u8 list \<Rightarrow> u8 list"
  assumes length_E: "length b = 8 \<Longrightarrow> length (E b) = 8"
    and D_E: "length b = 8 \<Longrightarrow> D (E b) = b"
begin

lemma ecb_inverse:
  assumes "length p mod 8 = 0"
  shows "\<exists>c. block_loop (ecb_body E) carry p = Inr (carry, c) \<and>
             block_loop (ecb_body D) carry' c = Inr (carry', p) \<and> length c = length p"
proof -
  from assms have "\<exists>s' c t'. block_loop (ecb_body E) carry p = Inr (s', c) \<and>
      block_loop (ecb_body D) carry' c = Inr (t', p) \<and> (s' = carry \<and> t' = carry') \<and> length c = length p"
    by (intro block_loop_inverse [where R = "\<lambda>s t. s = carry \<and> t = carry'"])
      (auto simp: ecb_body_def length_E D_E)
  then show ?thesis by blast
qed

lemma cbc_inverse:
  assumes "length p mod 8 = 0" and "length carry = 8"
  shows "\<exists>c carry'. block_loop (cbc_enc_body E) carry p = Inr (carry', c) \<and>
             block_loop (cbc_dec_body D) carry c = Inr (carry', p) \<and>
             length carry' = 8 \<and> length c = length p"
proof -
  from assms have "\<exists>s' c t'. block_loop (cbc_enc_body E) carry p = Inr (s', c) \<and>
      block_loop (cbc_dec_body D) carry c = Inr (t', p) \<and> (s' = t' \<and> length s' = 8) \<and> length c = length p"
    by (intro block_loop_inverse [where R = "\<lambda>s t. s = t \<and> length s = 8"])
      (auto simp: cbc_enc_body_def cbc_dec_body_def Let_def length_E D_E xor8_twice)
  then show ?thesis by blast
qed

end

text \<open>A cipher whose encryption also undoes its decryption.\<close>

locale block_permutation = block_cipher +
  assumes length_D: "length b = 8 \<Longrightarrow> length (D b) = 8"
    and E_D: "length b = 8 \<Longrightarrow> E (D b) = b"

text \<open>Three of them, composed as encrypt, decrypt, encrypt.\<close>

locale ede_cipher =
  k0: block_cipher E0 D0 + k1: block_permutation E1 D1 + k2: block_cipher E2 D2
  for E0 D0 E1 D1 E2 D2

sublocale block_permutation \<subseteq> inverse: block_cipher D E
  by unfold_locales (simp_all add: length_D E_D)

sublocale ede_cipher \<subseteq> ede: block_cipher "\<lambda>b. E2 (D1 (E0 b))" "\<lambda>b. D0 (E1 (D2 b))"
  by unfold_locales (simp_all add: k0.length_E k0.D_E k1.length_D k1.E_D k2.length_E k2.D_E)

end
