(* ===== verification/RC2.thy ===== *)
theory RC2
  imports Block_Cipher
begin

text \<open>
  security/lib/crypto/algrc2.c. \<open>UINT2\<close> is a 16 bit word; the working block is a list of four
  of them and \<open>keyTable\<close> a list of 64. The function pointers \<open>enc\<close> and \<open>dec\<close> of the context are
  given by its mode. Output and input are separate lists: that the decryption loop copies
  eight bytes of input first, in case the buffers are the same, is the use of the old \<open>blk\<close>
  in \<open>cbc_dec_body\<close>.
\<close>

definition RC2_PI_SUBST :: "u8 list" where
  "RC2_PI_SUBST =
    [217, 120, 249, 196, 25, 221, 181, 237, 40, 233, 253, 121, 74, 160, 216, 157,
     198, 126, 55, 131, 43, 118, 83, 142, 98, 76, 100, 136, 68, 139, 251, 162,
     23, 154, 89, 245, 135, 179, 79, 19, 97, 69, 109, 141, 9, 129, 125, 50,
     189, 143, 64, 235, 134, 183, 123, 11, 240, 149, 33, 34, 92, 107, 78, 130,
     84, 214, 101, 147, 206, 96, 178, 28, 115, 86, 192, 20, 167, 140, 241, 220,
     18, 117, 202, 31, 59, 190, 228, 209, 66, 61, 212, 48, 163, 60, 182, 38,
     111, 191, 14, 218, 70, 105, 7, 87, 39, 242, 29, 155, 188, 148, 67, 3,
     248, 17, 199, 246, 144, 239, 62, 231, 6, 195, 213, 47, 200, 102, 30, 215,
     8, 232, 234, 222, 128, 82, 238, 247, 132, 170, 114, 172, 53, 77, 106, 42,
     150, 26, 210, 113, 90, 21, 73, 116, 75, 159, 208, 94, 4, 24, 164, 236,
     194, 224, 65, 110, 15, 81, 203, 204, 36, 145, 175, 80, 161, 244, 112, 57,
     153, 124, 58, 133, 35, 184, 180, 122, 252, 2, 54, 91, 37, 85, 151, 49,
     45, 93, 250, 152, 227, 138, 146, 174, 5, 223, 41, 16, 103, 108, 186, 201,
     211, 0, 230, 207, 225, 158, 168, 44, 99, 22, 1, 63, 88, 226, 137, 169,
     13, 56, 52, 27, 171, 51, 255, 176, 187, 72, 12, 95, 185, 177, 205, 46,
     197, 243, 219, 71, 229, 165, 156, 119, 10, 166, 32, 104, 254, 127, 193, 173]"

definition RC2_LEFT :: "nat list" where "RC2_LEFT = [3, 0, 1, 2]"

definition RC2_RIGHT :: "nat list" where "RC2_RIGHT = [1, 2, 3, 0]"

definition RC2_ACROSS :: "nat list" where "RC2_ACROSS = [2, 3, 0, 1]"

definition RC2_ROTATION :: "nat list" where "RC2_ROTATION = [1, 2, 3, 5]"

definition RC2_ROTATE_LEFT :: "u16 \<Rightarrow> nat \<Rightarrow> u16" where
  "RC2_ROTATE_LEFT x n = push_bit n x OR drop_bit (16 - n) x"

definition RC2_ROTATE_RIGHT :: "u16 \<Rightarrow> nat \<Rightarrow> u16" where
  "RC2_ROTATE_RIGHT x n = drop_bit n x OR push_bit (16 - n) x"

text \<open>
  The bodies of the four rounds; the mixing rounds get the pointer \<open>&keyTable[j]\<close> as the
  list and \<open>j\<close>.
\<close>

definition ForwardMix_step :: "u16 list \<Rightarrow> nat \<Rightarrow> u16 list \<Rightarrow> nat \<Rightarrow> u16 list" where
  "ForwardMix_step keyTable j w i =
     (let w = w[i := w ! i + keyTable ! (j + i)];
          w = w[i := w ! i + (w ! (RC2_LEFT ! i) AND w ! (RC2_ACROSS ! i))];
          w = w[i := w ! i + (NOT (w ! (RC2_LEFT ! i)) AND w ! (RC2_RIGHT ! i))]
      in w[i := RC2_ROTATE_LEFT (w ! i) (RC2_ROTATION ! i)])"

definition ForwardMixRound :: "u16 list \<Rightarrow> u16 list \<Rightarrow> nat \<Rightarrow> u16 list" where
  "ForwardMixRound keyTable w j = foldl (ForwardMix_step keyTable j) w [0, 1, 2, 3]"

definition ReverseMix_step :: "u16 list \<Rightarrow> nat \<Rightarrow> u16 list \<Rightarrow> nat \<Rightarrow> u16 list" where
  "ReverseMix_step keyTable j w i =
     (let w = w[i := RC2_ROTATE_RIGHT (w ! i) (RC2_ROTATION ! i)];
          w = w[i := w ! i - (NOT (w ! (RC2_LEFT ! i)) AND w ! (RC2_RIGHT ! i))];
          w = w[i := w ! i - (w ! (RC2_LEFT ! i) AND w ! (RC2_ACROSS ! i))]
      in w[i := w ! i - keyTable ! (j + i)])"

definition ReverseMixRound :: "u16 list \<Rightarrow> u16 list \<Rightarrow> nat \<Rightarrow> u16 list" where
  "ReverseMixRound keyTable w j = foldl (ReverseMix_step keyTable j) w [3, 2, 1, 0]"

definition ForwardMash_step :: "u16 list \<Rightarrow> u16 list \<Rightarrow> nat \<Rightarrow> u16 list" where
  "ForwardMash_step keyTable w i =
     w[i := w ! i + keyTable ! unat (w ! (RC2_LEFT ! i) AND 0x3F)]"

definition ForwardMashRound :: "u16 list \<Rightarrow> u16 list \<Rightarrow> u16 list" where
  "ForwardMashRound keyTable w = foldl (ForwardMash_step keyTable) w [0, 1, 2, 3]"

definition ReverseMash_step :: "u16 list \<Rightarrow> u16 list \<Rightarrow> nat \<Rightarrow> u16 list" where
  "ReverseMash_step keyTable w i =
     w[i := w ! i - keyTable ! unat (w ! (RC2_LEFT ! i) AND 0x3F)]"

definition ReverseMashRound :: "u16 list \<Rightarrow> u16 list \<Rightarrow> u16 list" where
  "ReverseMashRound keyTable w = foldl (ReverseMash_step keyTable) w [3, 2, 1, 0]"

text \<open>Loading and storing the working block, low byte first.\<close>

definition RC2_load :: "u8 list \<Rightarrow> u16 list" where
  "RC2_load inp = map (\<lambda>i. push_bit 8 (ucast (inp ! (2 * i + 1))) OR ucast (inp ! (2 * i))) [0, 1, 2, 3]"

definition RC2_store :: "u16 list \<Rightarrow> u8 list" where
  "RC2_store w = concat (map (\<lambda>i. [ucast (w ! i AND 0xFF), ucast (drop_bit 8 (w ! i) AND 0xFF)]) [0, 1, 2, 3])"

definition RC2_rounds :: "u16 list \<Rightarrow> bool \<Rightarrow> u16 list \<Rightarrow> u16 list" where
  "RC2_rounds keyTable encryptFlag w =
     (let MixRound = (if encryptFlag then ForwardMixRound else ReverseMixRound);
          MashRound = (if encryptFlag then ForwardMashRound else ReverseMashRound);
          j = (if encryptFlag then (\<lambda>n. 4 * n) else (\<lambda>n. 60 - 4 * n));
          w = foldl (MixRound keyTable) w (map j [0, 1, 2, 3, 4]);
          w = MashRound keyTable w;
          w = foldl (MixRound keyTable) w (map j [5, 6, 7, 8, 9, 10]);
          w = MashRound keyTable w
      in foldl (MixRound keyTable) w (map j [11, 12, 13, 14, 15]))"

definition RC2 :: "u16 list \<Rightarrow> bool \<Rightarrow> u8 list \<Rightarrow> u8 list" where
  "RC2 keyTable encryptFlag inp = RC2_store (RC2_rounds keyTable encryptFlag (RC2_load inp))"

datatype rc2_mode = SEC_RC2 | SEC_RC2_CBC | RC2_OTHER_MODE int

record RC2Context =
  rc2_keyTable :: "u16 list"
  rc2_last :: "u8 list"
  rc2_mode :: rc2_mode   \<comment> \<open>the pointers \<open>enc\<close> and \<open>dec\<close>\<close>

text \<open>The loops \<open>RC2_Enc\<close>, \<open>RC2_Dec\<close>, \<open>RC2CBC_Enc\<close> and \<open>RC2CBC_Dec\<close>, on a context.\<close>

definition rc2_run ::
  "(u8 list \<Rightarrow> u8 list \<Rightarrow> u8 list \<times> u8 list) \<Rightarrow> RC2Context \<Rightarrow> u8 list \<Rightarrow> c_error + RC2Context \<times> u8 list" where
  "rc2_run body cx inp =
     map_sum id (\<lambda>(last', out). (cx\<lparr>rc2_last := last'\<rparr>, out)) (block_loop body (rc2_last cx) inp)"

definition RC2_Enc :: "RC2Context \<Rightarrow> u8 list \<Rightarrow> c_error + RC2Context \<times> u8 list" where
  "RC2_Enc cx = rc2_run (ecb_body (RC2 (rc2_keyTable cx) True)) cx"

definition RC2_Dec :: "RC2Context \<Rightarrow> u8 list \<Rightarrow> c_error + RC2Context \<times> u8 list" where
  "RC2_Dec cx = rc2_run (ecb_body (RC2 (rc2_keyTable cx) False)) cx"

definition RC2CBC_Enc :: "RC2Context \<Rightarrow> u8 list \<Rightarrow> c_error + RC2Context \<times> u8 list" where
  "RC2CBC_Enc cx = rc2_run (cbc_enc_body (RC2 (rc2_keyTable cx) True)) cx"

definition RC2CBC_Dec :: "RC2Context \<Rightarrow> u8 list \<Rightarrow> c_error + RC2Context \<times> u8 list" where
  "RC2CBC_Dec cx = rc2_run (cbc_dec_body (RC2 (rc2_keyTable cx) False)) cx"

definition RC2_Encrypt :: "nat \<Rightarrow> RC2Context \<Rightarrow> u8 list \<Rightarrow> c_error + RC2Context \<times> u8 list" where
  "RC2_Encrypt maxOut cx =
     checked_crypt (if rc2_mode cx = SEC_RC2 then RC2_Enc else RC2CBC_Enc) cx maxOut"

definition RC2_Decrypt :: "nat \<Rightarrow> RC2Context \<Rightarrow> u8 list \<Rightarrow> c_error + RC2Context \<times> u8 list" where
  "RC2_Decrypt maxOut cx =
     checked_crypt (if rc2_mode cx = SEC_RC2 then RC2_Dec else RC2CBC_Dec) cx maxOut"

text \<open>
  The key table. An index outside \<open>preTable[128]\<close>, from a key of 0 or more than 128 bytes or
  an effective length outside 1 to 128, is \<open>OUT_OF_BOUNDS\<close>: the code does not check them.
  \<open>garbage\<close> is what the array on the stack holds before.
\<close>

definition RC2_preTable :: "u8 list \<Rightarrow> u8 list \<Rightarrow> nat \<Rightarrow> u8 list" where
  "RC2_preTable garbage key eff =
     (let pi = (\<lambda>b :: u8. RC2_PI_SUBST ! unat b);
          keyLen = length key;
          t = memcpy_at garbage 0 key;
          t = foldl (\<lambda>t i. t[i := pi (t ! (i - 1) + t ! (i - keyLen))]) t [keyLen..<128];
          t = t[128 - eff := pi (t ! (128 - eff))]
      in foldl (\<lambda>t i. t[i := pi (t ! (i + 1) XOR t ! (i + eff))]) t (rev [0..<128 - eff]))"

definition RC2_CreateContext ::
  "bool \<Rightarrow> u8 list \<Rightarrow> u8 list \<Rightarrow> u8 list \<Rightarrow> rc2_mode \<Rightarrow> nat \<Rightarrow> c_error + RC2Context" where
  "RC2_CreateContext mem garbage key iv mode effectiveKeyLen =
     (if \<not> mem then Inl NO_MEMORY
      else case mode of
        RC2_OTHER_MODE m \<Rightarrow> Inl SEC_ERROR_INVALID_ARGS
      | _ \<Rightarrow>
         if length key < 1 \<or> 128 < length key \<or> effectiveKeyLen < 1 \<or> 128 < effectiveKeyLen
         then Inl OUT_OF_BOUNDS
         else (let t = RC2_preTable garbage key effectiveKeyLen
               in Inr \<lparr>rc2_keyTable = map (\<lambda>i. push_bit 8 (ucast (t ! (2 * i + 1))) OR ucast (t ! (2 * i))) [0..<64],
                       rc2_last = (if mode = SEC_RC2_CBC then take 8 iv else replicate 8 0),
                       rc2_mode = mode\<rparr>))"

section \<open>Decryption of a block undoes encryption\<close>

lemma RC2_rotate_inverse:
  assumes "n < 16"
  shows "RC2_ROTATE_RIGHT (RC2_ROTATE_LEFT x n) n = x"
proof (rule bit_word_eqI)
  fix k assume "k < LENGTH(16)"
  moreover have "16 + (k + n - 16) = k + n" if "\<not> n + k < 16" using that by simp
  ultimately show "bit (RC2_ROTATE_RIGHT (RC2_ROTATE_LEFT x n) n) k = bit x k"
    using assms unfolding RC2_ROTATE_RIGHT_def RC2_ROTATE_LEFT_def
    by (cases "n + k < 16") (auto simp: bit_simps)
qed

lemma length_4_cases:
  assumes "length w = 4"
  obtains a b c d where "w = [a, b, c, d]"
  using assms by (auto simp: length_Suc_conv numeral_eq_Suc)

lemma ForwardMix_step_inverse:
  assumes "length w = 4" and "i \<in> {0, 1, 2, 3}"
  shows "ReverseMix_step kt j (ForwardMix_step kt j w i) i = w"
proof -
  obtain a b c d where w: "w = [a, b, c, d]" using assms(1) by (rule length_4_cases)
  from assms(2) show ?thesis
    by (auto simp: w ForwardMix_step_def ReverseMix_step_def Let_def RC2_rotate_inverse
        RC2_LEFT_def RC2_RIGHT_def RC2_ACROSS_def RC2_ROTATION_def numeral_2_eq_2 numeral_3_eq_3)
qed

lemma ForwardMash_step_inverse:
  assumes "length w = 4" and "i \<in> {0, 1, 2, 3}"
  shows "ReverseMash_step kt (ForwardMash_step kt w i) i = w"
proof -
  obtain a b c d where w: "w = [a, b, c, d]" using assms(1) by (rule length_4_cases)
  from assms(2) show ?thesis
    by (auto simp: w ForwardMash_step_def ReverseMash_step_def RC2_LEFT_def numeral_2_eq_2 numeral_3_eq_3)
qed

lemma length_RC2_steps [simp]:
  "length (ForwardMix_step kt j w i) = length w" "length (ReverseMix_step kt j w i) = length w"
  "length (ForwardMash_step kt w i) = length w" "length (ReverseMash_step kt w i) = length w"
  by (simp_all add: ForwardMix_step_def ReverseMix_step_def ForwardMash_step_def
      ReverseMash_step_def Let_def)

lemma length_RC2_mix [simp]:
  "length (ForwardMixRound kt w j) = length w" "length (ForwardMashRound kt w) = length w"
  "length (ReverseMixRound kt w j) = length w" "length (ReverseMashRound kt w) = length w"
  by (simp_all add: ForwardMixRound_def ForwardMashRound_def ReverseMixRound_def ReverseMashRound_def)

text \<open>Both folds below: undoing the steps in reverse order undoes them all.\<close>

lemma foldl_inverse:
  assumes "\<And>w x. x \<in> set xs \<Longrightarrow> P w \<Longrightarrow> g (f w x) x = w \<and> P (f w x)" and "P w"
  shows "foldl g (foldl f w xs) (rev xs) = w"
  using assms
proof (induction xs arbitrary: w)
  case (Cons x xs)
  then have "foldl g (foldl f (f w x) xs) (rev xs) = f w x" by simp
  with Cons.prems show ?case by simp
qed simp

lemma MixRound_inverse: "length w = 4 \<Longrightarrow> ReverseMixRound kt (ForwardMixRound kt w j) j = w"
  using foldl_inverse [of "[0, 1, 2, 3]" "\<lambda>w. length w = 4" "ReverseMix_step kt j" "ForwardMix_step kt j" w]
  by (simp add: ForwardMixRound_def ReverseMixRound_def ForwardMix_step_inverse)

lemma MashRound_inverse: "length w = 4 \<Longrightarrow> ReverseMashRound kt (ForwardMashRound kt w) = w"
  using foldl_inverse [of "[0, 1, 2, 3]" "\<lambda>w. length w = 4" "ReverseMash_step kt" "ForwardMash_step kt" w]
  by (simp add: ForwardMashRound_def ReverseMashRound_def ForwardMash_step_inverse)

lemma RC2_mixes_inverse:
  "length w = 4 \<Longrightarrow> foldl (ReverseMixRound kt) (foldl (ForwardMixRound kt) w js) (rev js) = w"
  by (rule foldl_inverse [where P = "\<lambda>w. length w = 4"]) (simp_all add: MixRound_inverse)

lemma length_RC2_mixes:
  "length (foldl (ForwardMixRound kt) w js) = length w" "length (foldl (ReverseMixRound kt) w js) = length w"
  by (induction js arbitrary: w) simp_all

lemma RC2_rounds_inverse:
  assumes "length w = 4"
  shows "RC2_rounds kt False (RC2_rounds kt True w) = w"
proof -
  define w1 where "w1 = foldl (ForwardMixRound kt) w [0, 4, 8, 12, 16]"
  define w2 where "w2 = ForwardMashRound kt w1"
  define w3 where "w3 = foldl (ForwardMixRound kt) w2 [20, 24, 28, 32, 36, 40]"
  define w4 where "w4 = ForwardMashRound kt w3"
  define w5 where "w5 = foldl (ForwardMixRound kt) w4 [44, 48, 52, 56, 60]"
  have len: "length w1 = 4" "length w2 = 4" "length w3 = 4" "length w4 = 4" "length w5 = 4"
    unfolding w5_def w4_def w3_def w2_def w1_def by (simp_all only: length_RC2_mixes length_RC2_mix assms)
  have enc: "RC2_rounds kt True w = w5"
    by (simp add: RC2_rounds_def Let_def w5_def w4_def w3_def w2_def w1_def)
  have "foldl (ReverseMixRound kt) w5 [60, 56, 52, 48, 44] = w4"
    using RC2_mixes_inverse [OF len(4), of kt "[44, 48, 52, 56, 60]"] by (simp add: w5_def)
  moreover have "ReverseMashRound kt w4 = w3"
    using MashRound_inverse [OF len(3)] by (simp add: w4_def)
  moreover have "foldl (ReverseMixRound kt) w3 [40, 36, 32, 28, 24, 20] = w2"
    using RC2_mixes_inverse [OF len(2), of kt "[20, 24, 28, 32, 36, 40]"] by (simp add: w3_def)
  moreover have "ReverseMashRound kt w2 = w1"
    using MashRound_inverse [OF len(1)] by (simp add: w2_def)
  moreover have "foldl (ReverseMixRound kt) w1 [16, 12, 8, 4, 0] = w"
    using RC2_mixes_inverse [OF assms, of kt "[0, 4, 8, 12, 16]"] by (simp add: w1_def)
  ultimately show ?thesis
    unfolding enc by (simp add: RC2_rounds_def Let_def)
qed

lemma length_RC2_rounds: "length w = 4 \<Longrightarrow> length (RC2_rounds kt flag w) = 4"
  by (cases flag) (simp_all only: RC2_rounds_def Let_def if_True if_False length_RC2_mixes length_RC2_mix)

lemma RC2_load_store: "length w = 4 \<Longrightarrow> RC2_load (RC2_store w) = w"
proof -
  have "push_bit 8 (ucast (ucast (drop_bit 8 x AND 0xFF) :: u8)) OR ucast (ucast (x AND 0xFF) :: u8) = (x :: u16)" for x
  proof -
    have m: "(0xFF :: u16) = mask 8" by (simp add: mask_eq_exp_minus_1)
    show ?thesis unfolding m by (rule bit_word_eqI) (auto simp: bit_simps)
  qed
  then show "length w = 4 \<Longrightarrow> RC2_load (RC2_store w) = w"
    by (erule_tac length_4_cases) (simp add: RC2_load_def RC2_store_def numeral_2_eq_2 numeral_3_eq_3)
qed

lemma RC2_store_load: "length b = 8 \<Longrightarrow> RC2_store (RC2_load b) = b"
proof -
  have "ucast ((push_bit 8 (ucast y) OR ucast x :: u16) AND 0xFF) = x"
    and "ucast (drop_bit 8 (push_bit 8 (ucast y) OR ucast x :: u16) AND 0xFF) = y" for x y :: u8
  proof -
    have m: "(0xFF :: u16) = mask 8" by (simp add: mask_eq_exp_minus_1)
    show "ucast ((push_bit 8 (ucast y) OR ucast x :: u16) AND 0xFF) = x"
      unfolding m by (rule bit_word_eqI) (auto simp: bit_simps)
    show "ucast (drop_bit 8 (push_bit 8 (ucast y) OR ucast x :: u16) AND 0xFF) = y"
      unfolding m by (rule bit_word_eqI) (auto simp: bit_simps dest: bit_imp_le_length)
  qed
  moreover assume "length b = 8"
  then obtain b0 b1 b2 b3 b4 b5 b6 b7 where "b = [b0, b1, b2, b3, b4, b5, b6, b7]"
    by (auto simp: length_Suc_conv numeral_eq_Suc)
  ultimately show ?thesis
    by (simp add: RC2_load_def RC2_store_def)
qed

lemma length_RC2_load: "length (RC2_load b) = 4"
  by (simp add: RC2_load_def)

lemma RC2_block_inverse: "length b = 8 \<Longrightarrow> RC2 kt False (RC2 kt True b) = b"
  by (simp add: RC2_def RC2_load_store RC2_store_load RC2_rounds_inverse length_RC2_rounds length_RC2_load)

interpretation rc2: block_cipher "RC2 kt True" "RC2 kt False" for kt
proof (unfold_locales, goal_cases)
  case (1 b)
  show ?case by (simp add: RC2_def RC2_store_def)
next
  case (2 b)
  then show ?case by (rule RC2_block_inverse)
qed

section \<open>Round trips\<close>

definition rc2_wf :: "RC2Context \<Rightarrow> bool" where
  "rc2_wf cx \<longleftrightarrow> length (rc2_last cx) = 8"

lemma RC2_call_inverse:
  assumes "rc2_wf cx" and p: "length p mod 8 = 0" "length p \<le> maxOut"
  shows "\<exists>cx' c. RC2_Encrypt maxOut cx p = Inr (cx', c) \<and> RC2_Decrypt maxOut cx c = Inr (cx', p) \<and>
           rc2_wf cx'"
proof (cases "rc2_mode cx = SEC_RC2")
  case True
  from rc2.ecb_inverse [OF p(1), of "rc2_keyTable cx" "rc2_last cx" "rc2_last cx"] obtain c where
    "block_loop (ecb_body (RC2 (rc2_keyTable cx) True)) (rc2_last cx) p = Inr (rc2_last cx, c)"
    "block_loop (ecb_body (RC2 (rc2_keyTable cx) False)) (rc2_last cx) c = Inr (rc2_last cx, p)"
    "length c = length p" by blast
  with True p assms(1) show ?thesis
    by (simp add: RC2_Encrypt_def RC2_Decrypt_def checked_crypt_def RC2_Enc_def RC2_Dec_def rc2_run_def rc2_wf_def)
next
  case False
  from rc2.cbc_inverse [OF p(1), of "rc2_last cx" "rc2_keyTable cx"] assms(1) obtain c last' where
    "block_loop (cbc_enc_body (RC2 (rc2_keyTable cx) True)) (rc2_last cx) p = Inr (last', c)"
    "block_loop (cbc_dec_body (RC2 (rc2_keyTable cx) False)) (rc2_last cx) c = Inr (last', p)"
    "length last' = 8" "length c = length p" unfolding rc2_wf_def by blast
  with False p show ?thesis
    by (simp add: RC2_Encrypt_def RC2_Decrypt_def checked_crypt_def RC2CBC_Enc_def RC2CBC_Dec_def rc2_run_def rc2_wf_def)
qed

text \<open>
  C21. RC2 in either mode: from two contexts created alike, a sequence of encryption calls on
  whole blocks succeeds, and the same sequence of decryption calls on what it produced gives the
  plaintexts back, the CBC state carried from call to call on both sides; both contexts
  end equal.
\<close>

theorem RC2_roundtrip:
  assumes "RC2_CreateContext mem garbage key iv mode eff = Inr cx"
    and "length iv = 8" and "\<forall>p \<in> set ps. length p mod 8 = 0 \<and> length p \<le> maxOut"
  shows "\<exists>cx' cs. crypt_calls (RC2_Encrypt maxOut) cx ps = Inr (cx', cs) \<and>
           crypt_calls (RC2_Decrypt maxOut) cx cs = Inr (cx', ps)"
proof -
  have "rc2_wf cx"
    using assms(1,2) by (auto simp: RC2_CreateContext_def rc2_wf_def Let_def split: if_splits rc2_mode.splits)
  moreover have "\<exists>cx' c cy'. RC2_Encrypt maxOut cx p = Inr (cx', c) \<and>
      RC2_Decrypt maxOut cy c = Inr (cy', p) \<and> (cx' = cy' \<and> rc2_wf cx')"
    if "cx = cy \<and> rc2_wf cx" and "length p mod 8 = 0 \<and> length p \<le> maxOut" for cx cy p
    using RC2_call_inverse [of cx p maxOut] that by auto
  ultimately show ?thesis
    using crypt_calls_inverse [where R = "\<lambda>cx cy. cx = cy \<and> rc2_wf cx" and enc = "RC2_Encrypt maxOut"
        and dec = "RC2_Decrypt maxOut" and ok = "\<lambda>p. length p mod 8 = 0 \<and> length p \<le> maxOut"
        and cx = cx and cy = cx and ps = ps] assms(3) by blast
qed

theorem RC2_roundtrip_witness:
  "\<exists>cx cx' cs. RC2_CreateContext True (replicate 128 0) [1, 2, 3] (replicate 8 9) SEC_RC2_CBC 5 = Inr cx \<and>
     crypt_calls (RC2_Encrypt 16) cx [replicate 8 1, replicate 16 2] = Inr (cx', cs) \<and>
     crypt_calls (RC2_Decrypt 16) cx cs = Inr (cx', [replicate 8 1, replicate 16 2])"
proof -
  obtain cx where cx: "RC2_CreateContext True (replicate 128 0) [1, 2, 3] (replicate 8 9) SEC_RC2_CBC 5 = Inr cx"
    by (simp add: RC2_CreateContext_def Let_def)
  from RC2_roundtrip [OF cx, of "[replicate 8 1, replicate 16 2]" 16] cx show ?thesis by simp
qed

end
