(* ===== verification/RC4.thy ===== *)
theory RC4
  imports Prelude
begin

text \<open>
  security/lib/crypto/algrc4.c. The indices \<open>i\<close>, \<open>j\<close>, \<open>k\<close> of the code are masked with
  255 or taken modulo the key length before they are used: they are natural numbers below
  that bound here. The field \<open>encrypt\<close> of the structure is never read or written.
\<close>

record RC4Context =
  rc4_initialized :: bool
  rc4_i :: nat
  rc4_j :: nat
  rc4_table :: "u8 list"

definition RC4_DupContext :: "bool \<Rightarrow> RC4Context \<Rightarrow> RC4Context option" where
  "RC4_DupContext mem rc4 = (if mem then Some rc4 else None)"

text \<open>One iteration of the loop that permutes the table: the state is \<open>(table, j, k)\<close>.\<close>

definition RC4_key_step :: "u8 list \<Rightarrow> u8 list \<times> nat \<times> nat \<Rightarrow> nat \<Rightarrow> u8 list \<times> nat \<times> nat" where
  "RC4_key_step key = (\<lambda>(table, j, k) i.
     let ti = table ! i;
         j = (j + unat ti + unat (key ! k)) mod 256;
         table = table[i := table ! j];
         table = table[j := ti]
     in (table, j, (k + 1) mod length key))"

definition RC4_CreateContext :: "bool \<Rightarrow> u8 list \<Rightarrow> c_error + RC4Context" where
  "RC4_CreateContext mem key =
     (if length key < 1 \<or> length key > 256 then Inl SEC_ERROR_INVALID_ARGS
      else if \<not> mem then Inl NO_MEMORY
      else (let table = map word_of_nat [0..<256];
                (table, j, k) = foldl (RC4_key_step key) (table, 0, 0) [0..<256]
            in Inr \<lparr>rc4_initialized = True, rc4_i = 0, rc4_j = 0, rc4_table = table\<rparr>))"

text \<open>One iteration of the loop of \<open>RC4_Encrypt\<close>, with the byte it stores.\<close>

definition RC4_step :: "RC4Context \<Rightarrow> u8 \<Rightarrow> RC4Context \<times> u8" where
  "RC4_step cx b =
     (let table = rc4_table cx;
          i = (rc4_i cx + 1) mod 256;
          ti = table ! i;
          j = (rc4_j cx + unat ti) mod 256;
          tj = table ! j;
          table = table[i := tj];
          table = table[j := ti]
      in (cx\<lparr>rc4_i := i, rc4_j := j, rc4_table := table\<rparr>,
          b XOR (table ! ((unat ti + unat tj) mod 256))))"

fun RC4_loop :: "RC4Context \<Rightarrow> u8 list \<Rightarrow> RC4Context \<times> u8 list" where
  "RC4_loop cx [] = (cx, [])"
| "RC4_loop cx (b # bs) =
     (let (cx, c) = RC4_step cx b; (cx, cs) = RC4_loop cx bs in (cx, c # cs))"

definition RC4_Encrypt :: "RC4Context \<Rightarrow> nat \<Rightarrow> u8 list \<Rightarrow> c_error + RC4Context \<times> u8 list" where
  "RC4_Encrypt cx maxOutputLen input =
     (if maxOutputLen < length input then Inl SEC_ERROR_OUTPUT_LEN else Inr (RC4_loop cx input))"

definition RC4_Decrypt :: "RC4Context \<Rightarrow> nat \<Rightarrow> u8 list \<Rightarrow> c_error + RC4Context \<times> u8 list" where
  "RC4_Decrypt cx maxOutputLen input = RC4_Encrypt cx maxOutputLen input"

section \<open>The table stays a permutation\<close>

definition rc4_perm :: "u8 list \<Rightarrow> bool" where
  "rc4_perm t \<longleftrightarrow> length t = 256 \<and> distinct t"

lemma rc4_perm_swap:
  "rc4_perm t \<Longrightarrow> i < 256 \<Longrightarrow> j < 256 \<Longrightarrow> rc4_perm (t[i := t ! j, j := t ! i])"
  by (simp add: rc4_perm_def)

lemma rc4_perm_start: "rc4_perm (map word_of_nat [0..<256])"
proof -
  have "inj_on (word_of_nat :: nat \<Rightarrow> u8) {0..<256}"
    by (rule inj_onI) (simp add: word_of_nat_eq_iff take_bit_eq_mod)
  then show ?thesis by (simp add: rc4_perm_def distinct_map del: upt_rec_numeral)
qed

lemma RC4_key_step_perm:
  "rc4_perm t \<Longrightarrow> \<forall>i \<in> set is. i < 256 \<Longrightarrow> rc4_perm (fst (foldl (RC4_key_step key) (t, j, k) is))"
proof (induction "is" arbitrary: t j k)
  case (Cons i "is")
  then show ?case by (simp add: RC4_key_step_def Let_def rc4_perm_swap)
qed simp

lemma RC4_CreateContext_perm:
  assumes "RC4_CreateContext mem key = Inr cx"
  shows "rc4_perm (rc4_table cx)"
proof -
  have "rc4_table cx = fst (foldl (RC4_key_step key) (map word_of_nat [0..<256], 0, 0) [0..<256])"
    using assms
    by (auto simp: RC4_CreateContext_def Let_def split: if_splits prod.splits simp del: upt_rec_numeral)
  then show ?thesis
    using RC4_key_step_perm [OF rc4_perm_start, of "[0..<256]" key 0 0] by (simp del: upt_rec_numeral)
qed

lemma RC4_step_perm:
  assumes "rc4_perm (rc4_table cx)"
  shows "rc4_perm (rc4_table (fst (RC4_step cx b)))"
  using assms by (simp add: RC4_step_def Let_def rc4_perm_swap)

lemma RC4_loop_perm:
  "rc4_perm (rc4_table cx) \<Longrightarrow> rc4_perm (rc4_table (fst (RC4_loop cx bs)))"
proof (induction cx bs rule: RC4_loop.induct)
  case (2 cx b bs)
  obtain cx' c where s: "RC4_step cx b = (cx', c)" by (cases "RC4_step cx b")
  with 2 RC4_step_perm [of cx b] show ?case by (simp add: case_prod_beta)
qed simp

section \<open>The key stream\<close>

text \<open>What the loop exclusive-ors onto zeros is the key stream; it does not depend on the data.\<close>

lemma RC4_step_stream:
  "fst (RC4_step cx b) = fst (RC4_step cx 0)" "snd (RC4_step cx b) = b XOR snd (RC4_step cx 0)"
  by (simp_all add: RC4_step_def Let_def)

definition rc4_stream :: "RC4Context \<Rightarrow> nat \<Rightarrow> u8 list" where
  "rc4_stream cx n = snd (RC4_loop cx (replicate n 0))"

lemma RC4_loop_stream:
  "RC4_loop cx bs = (fst (RC4_loop cx (replicate (length bs) 0)), map2 (XOR) bs (rc4_stream cx (length bs)))"
proof (induction cx bs rule: RC4_loop.induct)
  case (2 cx b bs)
  obtain cx' k where s: "RC4_step cx 0 = (cx', k)" by (cases "RC4_step cx 0")
  with RC4_step_stream [of cx b] have "RC4_step cx b = (cx', b XOR k)" by (metis prod.collapse fst_conv snd_conv)
  with s 2 [of "(cx', b XOR k)" cx'] show ?case
    by (simp add: rc4_stream_def case_prod_beta)
qed (simp add: rc4_stream_def)

lemma RC4_loop_length: "length (snd (RC4_loop cx bs)) = length bs"
  by (induction bs arbitrary: cx) (simp_all add: Let_def case_prod_beta)

lemma RC4_loop_append:
  "RC4_loop cx (xs @ ys) = (let (cx, a) = RC4_loop cx xs; (cx, b) = RC4_loop cx ys in (cx, a @ b))"
  by (induction xs arbitrary: cx) (simp_all add: Let_def case_prod_beta)

lemma map2_XOR_twice:
  "length ks = length (xs :: u8 list) \<Longrightarrow> map2 (XOR) (map2 (XOR) xs ks) ks = xs"
  by (induction xs ks rule: list_induct2') (simp_all add: xor.assoc)

lemma RC4_loop_inverse:
  assumes "RC4_loop cx p = (cx', c)"
  shows "RC4_loop cx c = (cx', p)"
proof -
  have l: "length (rc4_stream cx (length p)) = length p"
    using RC4_loop_length by (simp add: rc4_stream_def)
  have c: "c = map2 (XOR) p (rc4_stream cx (length p))"
    and cx': "cx' = fst (RC4_loop cx (replicate (length p) 0))"
    using RC4_loop_stream [of cx p] assms by simp_all
  from c l have "length c = length p" by simp
  with RC4_loop_stream [of cx c] l show ?thesis by (simp only: cx' c map2_XOR_twice)
qed

section \<open>Properties\<close>

text \<open>
  C23. RC4 is its own inverse from equal contexts and works as a stream: if a message is
  encrypted in two calls, one call on the whole ciphertext from the first context decrypts
  both parts and leaves the context where the second call left it.
\<close>

theorem RC4_stream_roundtrip:
  assumes "RC4_Encrypt cx m1 p1 = Inr (cx1, c1)" and "RC4_Encrypt cx1 m2 p2 = Inr (cx2, c2)"
    and "length p1 + length p2 \<le> m"
  shows "RC4_Decrypt cx m (c1 @ c2) = Inr (cx2, p1 @ p2)"
proof -
  have 1: "RC4_loop cx p1 = (cx1, c1)" and 2: "RC4_loop cx1 p2 = (cx2, c2)"
    using assms by (auto simp: RC4_Encrypt_def split: if_splits)
  then have "RC4_loop cx (c1 @ c2) = (cx2, p1 @ p2)"
    using RC4_loop_inverse [OF 1] RC4_loop_inverse [OF 2] by (simp add: RC4_loop_append)
  moreover have "length (c1 @ c2) \<le> m"
    using assms(3) RC4_loop_length [of cx p1] RC4_loop_length [of cx1 p2] 1 2 by simp
  ultimately show ?thesis by (simp add: RC4_Decrypt_def RC4_Encrypt_def)
qed

theorem RC4_stream_roundtrip_witness:
  "\<exists>cx cx1 c1 cx2 c2. RC4_CreateContext True [1, 2, 3] = Inr cx \<and>
     RC4_Encrypt cx 2 [10, 20] = Inr (cx1, c1) \<and> RC4_Encrypt cx1 1 [30] = Inr (cx2, c2) \<and>
     RC4_Decrypt cx 3 (c1 @ c2) = Inr (cx2, [10, 20, 30])"
proof -
  obtain cx where cx: "RC4_CreateContext True [1, 2, 3] = Inr cx"
    by (simp add: RC4_CreateContext_def case_prod_beta Let_def del: upt_rec_numeral)
  obtain cx1 c1 where 1: "RC4_Encrypt cx 2 [10, 20] = Inr (cx1, c1)"
    by (cases "RC4_loop cx [10, 20]") (simp add: RC4_Encrypt_def)
  obtain cx2 c2 where 2: "RC4_Encrypt cx1 1 [30] = Inr (cx2, c2)"
    by (cases "RC4_loop cx1 [30]") (simp add: RC4_Encrypt_def)
  from RC4_stream_roundtrip [OF 1 2, of 3] cx 1 2 show ?thesis by auto
qed

text \<open>A sequence of calls of \<open>RC4_Encrypt\<close>, up to the first that fails.\<close>

fun RC4_calls :: "RC4Context \<Rightarrow> nat \<Rightarrow> u8 list list \<Rightarrow> c_error + RC4Context" where
  "RC4_calls cx m [] = Inr cx"
| "RC4_calls cx m (d # ds) =
     (case RC4_Encrypt cx m d of Inl e \<Rightarrow> Inl e | Inr (cx, c) \<Rightarrow> RC4_calls cx m ds)"

lemma RC4_calls_perm:
  "rc4_perm (rc4_table cx) \<Longrightarrow> RC4_calls cx m ds = Inr cx' \<Longrightarrow> rc4_perm (rc4_table cx')"
proof (induction cx m ds rule: RC4_calls.induct)
  case (2 cx m d ds)
  obtain c out where r: "RC4_loop cx d = (c, out)" by (cases "RC4_loop cx d")
  with 2 RC4_loop_perm [of cx d] show ?case
    by (auto simp: RC4_Encrypt_def split: if_splits)
qed simp

text \<open>
  C26. The table of a context that \<open>RC4_CreateContext\<close> returns is a permutation of the 256
  bytes, and it stays one under every sequence of calls of \<open>RC4_Encrypt\<close>.
\<close>

theorem RC4_table_permutation:
  assumes "RC4_CreateContext mem key = Inr cx" and "RC4_calls cx m ds = Inr cx'"
  shows "length (rc4_table cx') = 256 \<and> distinct (rc4_table cx') \<and> set (rc4_table cx') = UNIV"
proof -
  have p: "rc4_perm (rc4_table cx')"
    using RC4_calls_perm [OF RC4_CreateContext_perm [OF assms(1)] assms(2)] .
  then have "card (set (rc4_table cx')) = card (UNIV :: u8 set)"
    by (simp add: rc4_perm_def distinct_card card_word)
  then have "set (rc4_table cx') = UNIV" by (intro card_subset_eq) simp_all
  with p show ?thesis by (simp add: rc4_perm_def)
qed

theorem RC4_table_permutation_witness:
  "\<exists>cx cx'. RC4_CreateContext True [1, 2, 3] = Inr cx \<and> RC4_calls cx 2 [[10, 20], [30]] = Inr cx' \<and>
     distinct (rc4_table cx')"
proof -
  obtain cx where cx: "RC4_CreateContext True [1, 2, 3] = Inr cx"
    by (simp add: RC4_CreateContext_def case_prod_beta Let_def del: upt_rec_numeral)
  obtain cx' where "RC4_calls cx 2 [[10, 20], [30]] = Inr cx'"
    by (simp add: RC4_Encrypt_def case_prod_beta Let_def)
  with RC4_table_permutation [OF cx this] cx show ?thesis by blast
qed

end
