(* ===== verification/RC5.thy ===== *)
theory RC5
  imports Block_Cipher
begin

text \<open>
  security/lib/crypto/algrc5.c. \<open>RC5_WORD\<close> is a 32 bit word. A rotation by 0 shifts by 32 the
  other way, which C leaves undefined; here that shift gives 0, and on a machine that
  shifts by 0 instead the disjunction is the same word.
\<close>

definition RC5_ROTL :: "u32 \<Rightarrow> u32 \<Rightarrow> u32" where
  "RC5_ROTL A B = push_bit (unat (B AND 31)) A OR drop_bit (32 - unat (B AND 31)) A"

definition RC5_ROTR :: "u32 \<Rightarrow> u32 \<Rightarrow> u32" where
  "RC5_ROTR A B = drop_bit (unat (B AND 31)) A OR push_bit (32 - unat (B AND 31)) A"

definition RC5_LOAD_UINT4 :: "u8 list \<Rightarrow> u32" where
  "RC5_LOAD_UINT4 blk = push_bit 24 (ucast (blk ! 3)) + push_bit 16 (ucast (blk ! 2))
     + push_bit 8 (ucast (blk ! 1)) + ucast (blk ! 0)"

definition RC5_SAVE_UINT4 :: "u32 \<Rightarrow> u8 list" where
  "RC5_SAVE_UINT4 N = [ucast N, ucast (drop_bit 8 N), ucast (drop_bit 16 N), ucast (drop_bit 24 N)]"

datatype rc5_mode = SEC_RC5 | SEC_RC5_CBC | RC5_OTHER_MODE int

record RC5Context =
  rc5_rounds :: nat
  rc5_keyTable :: "u32 list"
  rc5_last :: "u8 list"
  rc5_mode :: rc5_mode   \<comment> \<open>the pointers \<open>enc\<close> and \<open>dec\<close>\<close>

text \<open>The bodies of the two loops over the rounds; the index is where \<open>Sp\<close> points.\<close>

definition rc5_enc_round :: "u32 list \<Rightarrow> u32 \<times> u32 \<Rightarrow> nat \<Rightarrow> u32 \<times> u32" where
  "rc5_enc_round S = (\<lambda>(A, B) i.
     let A = A XOR B;
         A = RC5_ROTL A B + S ! (2 * i + 2);
         B = B XOR A;
         B = RC5_ROTL B A + S ! (2 * i + 3)
     in (A, B))"

definition rc5_dec_round :: "u32 list \<Rightarrow> u32 \<times> u32 \<Rightarrow> nat \<Rightarrow> u32 \<times> u32" where
  "rc5_dec_round S = (\<lambda>(A, B) i.
     let B = B - S ! (2 * i + 3);
         B = RC5_ROTR B A;
         B = B XOR A;
         A = A - S ! (2 * i + 2);
         A = RC5_ROTR A B;
         A = A XOR B
     in (A, B))"

definition rc5_encrypt :: "RC5Context \<Rightarrow> u8 list \<Rightarrow> u8 list" where
  "rc5_encrypt cx inp =
     (let S = rc5_keyTable cx;
          A = RC5_LOAD_UINT4 inp + S ! 0;
          B = RC5_LOAD_UINT4 (drop 4 inp) + S ! 1;
          (A, B) = foldl (rc5_enc_round S) (A, B) [0..<rc5_rounds cx]
      in RC5_SAVE_UINT4 A @ RC5_SAVE_UINT4 B)"

definition rc5_decrypt :: "RC5Context \<Rightarrow> u8 list \<Rightarrow> u8 list" where
  "rc5_decrypt cx inp =
     (let S = rc5_keyTable cx;
          (A, B) = foldl (rc5_dec_round S) (RC5_LOAD_UINT4 inp, RC5_LOAD_UINT4 (drop 4 inp))
                     (rev [0..<rc5_rounds cx])
      in RC5_SAVE_UINT4 (A - S ! 0) @ RC5_SAVE_UINT4 (B - S ! 1))"

text \<open>
  The four loops. \<open>rc5cbc_dec\<close> is written like \<open>rc5cbc_enc\<close>: it takes the exclusive-or before
  the block is decrypted and keeps the output as the chaining value.
\<close>

definition rc5_run ::
  "(u8 list \<Rightarrow> u8 list \<Rightarrow> u8 list \<times> u8 list) \<Rightarrow> RC5Context \<Rightarrow> u8 list \<Rightarrow> c_error + RC5Context \<times> u8 list" where
  "rc5_run body cx inp =
     map_sum id (\<lambda>(last', out). (cx\<lparr>rc5_last := last'\<rparr>, out)) (block_loop body (rc5_last cx) inp)"

definition rc5_enc :: "RC5Context \<Rightarrow> u8 list \<Rightarrow> c_error + RC5Context \<times> u8 list" where
  "rc5_enc cx = rc5_run (ecb_body (rc5_encrypt cx)) cx"

definition rc5_dec :: "RC5Context \<Rightarrow> u8 list \<Rightarrow> c_error + RC5Context \<times> u8 list" where
  "rc5_dec cx = rc5_run (ecb_body (rc5_decrypt cx)) cx"

definition rc5cbc_enc :: "RC5Context \<Rightarrow> u8 list \<Rightarrow> c_error + RC5Context \<times> u8 list" where
  "rc5cbc_enc cx = rc5_run (cbc_enc_body (rc5_encrypt cx)) cx"

definition rc5cbc_dec :: "RC5Context \<Rightarrow> u8 list \<Rightarrow> c_error + RC5Context \<times> u8 list" where
  "rc5cbc_dec cx =
     rc5_run (\<lambda>carry blk. let out = rc5_decrypt cx (xor8 blk carry) in (out, out)) cx"

definition RC5_Encrypt :: "nat \<Rightarrow> RC5Context \<Rightarrow> u8 list \<Rightarrow> c_error + RC5Context \<times> u8 list" where
  "RC5_Encrypt maxOut cx =
     checked_crypt (if rc5_mode cx = SEC_RC5 then rc5_enc else rc5cbc_enc) cx maxOut"

definition RC5_Decrypt :: "nat \<Rightarrow> RC5Context \<Rightarrow> u8 list \<Rightarrow> c_error + RC5Context \<times> u8 list" where
  "RC5_Decrypt maxOut cx =
     checked_crypt (if rc5_mode cx = SEC_RC5 then rc5_dec else rc5cbc_dec) cx maxOut"

section \<open>Key expansion\<close>

text \<open>
  The loop that packs the key into \<open>auxTable\<close>: the state is the table, \<open>j\<close> and \<open>shift\<close>. The
  table has 64 words on the stack; \<open>garbage\<close> is what was there.
\<close>

definition RC5_pack_step :: "u32 list \<times> nat \<times> nat \<Rightarrow> u8 \<Rightarrow> u32 list \<times> nat \<times> nat" where
  "RC5_pack_step = (\<lambda>(aux, j, shift) b.
     let aux = aux[j := aux ! j + push_bit shift (ucast b)];
         shift = shift + 8
     in if shift = 32 then (aux[j + 1 := 0], j + 1, 0) else (aux, j, shift))"

definition RC5_auxTable :: "u32 list \<Rightarrow> u8 list \<Rightarrow> u32 list" where
  "RC5_auxTable garbage key = fst (foldl RC5_pack_step (garbage[0 := 0], 0, 0) key)"

definition RC5_initTable :: "nat \<Rightarrow> u32 list" where
  "RC5_initTable expKeySize =
     foldl (\<lambda>S i. S[i := S ! (i - 1) + 0x9e3779b9]) ((replicate expKeySize 0)[0 := 0xb7e15163]) [1..<expKeySize]"

text \<open>One iteration of the mixing loop; the state is \<open>(keyTable, auxTable, i, j, A, B)\<close>.\<close>

type_synonym rc5_mix = "u32 list \<times> u32 list \<times> nat \<times> nat \<times> u32 \<times> u32"

definition RC5_mix_step :: "nat \<Rightarrow> nat \<Rightarrow> rc5_mix \<Rightarrow> rc5_mix" where
  "RC5_mix_step expKeySize keyLenInWords = (\<lambda>(S, aux, i, j, A, B).
     let A = RC5_ROTL (A + B + S ! i) 3;
         S = S[i := A];
         T = A + B;
         B = RC5_ROTL (aux ! j + T) T;
         aux = aux[j := B];
         i = (if i + 1 \<ge> expKeySize then 0 else i + 1);
         j = (if j + 1 \<ge> keyLenInWords then 0 else j + 1)
     in (S, aux, i, j, A, B))"

definition RC5_keyTable :: "u32 list \<Rightarrow> u8 list \<Rightarrow> nat \<Rightarrow> u32 list" where
  "RC5_keyTable garbage key rounds =
     (let expKeySize = 2 * (rounds + 1);
          keyLenInWords = (length key + 3) div 4;
          k = (if keyLenInWords > expKeySize then 3 * keyLenInWords else 3 * expKeySize)
      in fst ((RC5_mix_step expKeySize keyLenInWords ^^ k)
               (RC5_initTable expKeySize, RC5_auxTable garbage key, 0, 0, 0, 0)))"

text \<open>\<open>iv\<close> is \<open>None\<close> for a null pointer; \<open>mem\<close> and \<open>key_mem\<close> are the two allocations.\<close>

definition RC5_CreateContext ::
  "bool \<Rightarrow> bool \<Rightarrow> u32 list \<Rightarrow> u8 list \<Rightarrow> nat \<Rightarrow> u8 list option \<Rightarrow> rc5_mode \<Rightarrow> c_error option + RC5Context" where
  "RC5_CreateContext mem key_mem garbage key rounds iv mode =
     (if length key > 255 then Inl None
      else if rounds > 255 then Inl None
      else if mode = SEC_RC5_CBC \<and> iv = None then Inl None
      else if \<not> mem \<or> \<not> key_mem then Inl None
      else case mode of
        RC5_OTHER_MODE m \<Rightarrow> Inl (Some SEC_ERROR_INVALID_ARGS)
      | _ \<Rightarrow> Inr \<lparr>rc5_rounds = rounds, rc5_keyTable = RC5_keyTable garbage key rounds,
                 rc5_last = (if mode = SEC_RC5_CBC then take 8 (the iv) else replicate 8 0),
                 rc5_mode = mode\<rparr>)"

section \<open>Decryption of a block undoes encryption\<close>

lemma RC5_amount: "unat (B AND 31 :: u32) < 32"
proof -
  have "B AND 31 \<le> 31" by (rule word_and_le1)
  then have "unat (B AND 31) \<le> unat (31 :: u32)" by (simp only: word_le_nat_alt)
  then show ?thesis by simp
qed

lemma RC5_rotate_inverse: "RC5_ROTR (RC5_ROTL A B) B = A"
proof (rule bit_word_eqI)
  fix k assume k: "k < LENGTH(32)"
  define n where "n = unat (B AND 31)"
  have "n < 32" by (simp add: n_def RC5_amount)
  moreover have "32 + (k + n - 32) = k + n" if "\<not> n + k < 32" using that by simp
  ultimately show "bit (RC5_ROTR (RC5_ROTL A B) B) k = bit A k"
    using k unfolding RC5_ROTR_def RC5_ROTL_def n_def [symmetric]
    by (cases "n + k < 32") (auto simp: bit_simps dest: bit_imp_le_length)
qed

lemma rc5_round_inverse: "rc5_dec_round S (rc5_enc_round S AB i) i = AB"
  by (cases AB) (simp add: rc5_enc_round_def rc5_dec_round_def Let_def RC5_rotate_inverse xor.assoc)

lemma rc5_rounds_inverse:
  "foldl (rc5_dec_round S) (foldl (rc5_enc_round S) AB is) (rev is) = AB"
proof (induction "is" arbitrary: AB)
  case (Cons i "is")
  then show ?case by (simp add: rc5_round_inverse)
qed simp

lemma RC5_load_save: "RC5_LOAD_UINT4 (RC5_SAVE_UINT4 N @ rest) = N"
proof -
  let ?b = "\<lambda>s. push_bit s (ucast (ucast (drop_bit s N) :: u8)) :: u32"
  have d: "?b 24 AND ?b 16 = 0" "(?b 24 OR ?b 16) AND ?b 8 = 0" "((?b 24 OR ?b 16) OR ?b 8) AND ?b 0 = 0"
    by (rule bit_word_eqI; auto simp: bit_simps)+
  have "RC5_LOAD_UINT4 (RC5_SAVE_UINT4 N @ rest) = ?b 24 + ?b 16 + ?b 8 + ?b 0"
    by (simp add: RC5_LOAD_UINT4_def RC5_SAVE_UINT4_def nth_Cons' numeral_2_eq_2 numeral_3_eq_3)
  also have "\<dots> = ((?b 24 OR ?b 16) OR ?b 8) OR ?b 0"
    using d by (simp only: disjunctive_add_eq_or)
  also have "\<dots> = N"
  proof (rule bit_word_eqI)
    fix n assume "n < LENGTH(32)"
    then consider "n < 8" | "8 \<le> n" "n < 16" | "16 \<le> n" "n < 24" | "24 \<le> n" "n < 32"
      by (cases "n < 8"; cases "n < 16"; cases "n < 24") auto
    then show "bit (((?b 24 OR ?b 16) OR ?b 8) OR ?b 0) n = bit N n"
      by cases (auto simp: bit_simps)
  qed
  finally show ?thesis .
qed

lemma RC5_save_load:
  assumes "length b = 4"
  shows "RC5_SAVE_UINT4 (RC5_LOAD_UINT4 (b @ rest)) = b"
proof -
  obtain b0 b1 b2 b3 where b: "b = [b0, b1, b2, b3]"
    using assms by (auto simp: length_Suc_conv numeral_eq_Suc)
  let ?p = "\<lambda>s (x :: u8). push_bit s (ucast x) :: u32"
  have d: "?p 24 b3 AND ?p 16 b2 = 0" "(?p 24 b3 OR ?p 16 b2) AND ?p 8 b1 = 0"
    "((?p 24 b3 OR ?p 16 b2) OR ?p 8 b1) AND ?p 0 b0 = 0"
    by (rule bit_word_eqI; auto simp: bit_simps dest: bit_imp_le_length)+
  have "RC5_LOAD_UINT4 (b @ rest) = ?p 24 b3 + ?p 16 b2 + ?p 8 b1 + ?p 0 b0"
    by (simp add: RC5_LOAD_UINT4_def b numeral_2_eq_2 numeral_3_eq_3)
  also have "\<dots> = ((?p 24 b3 OR ?p 16 b2) OR ?p 8 b1) OR ?p 0 b0"
    using d by (simp only: disjunctive_add_eq_or)
  finally have l: "RC5_LOAD_UINT4 (b @ rest) = ((?p 24 b3 OR ?p 16 b2) OR ?p 8 b1) OR ?p 0 b0" .
  have "ucast (drop_bit 0 (((?p 24 b3 OR ?p 16 b2) OR ?p 8 b1) OR ?p 0 b0)) = b0"
    "ucast (drop_bit 8 (((?p 24 b3 OR ?p 16 b2) OR ?p 8 b1) OR ?p 0 b0)) = b1"
    "ucast (drop_bit 16 (((?p 24 b3 OR ?p 16 b2) OR ?p 8 b1) OR ?p 0 b0)) = b2"
    "ucast (drop_bit 24 (((?p 24 b3 OR ?p 16 b2) OR ?p 8 b1) OR ?p 0 b0)) = b3"
    by (rule bit_word_eqI; auto simp: bit_simps dest: bit_imp_le_length)+
  then show ?thesis unfolding l by (simp add: RC5_SAVE_UINT4_def b)
qed

lemma length_RC5_SAVE [simp]: "length (RC5_SAVE_UINT4 N) = 4"
  by (simp add: RC5_SAVE_UINT4_def)

lemma rc5_block_inverse:
  assumes "length b = 8"
  shows "rc5_decrypt cx (rc5_encrypt cx b) = b"
proof -
  let ?S = "rc5_keyTable cx" and ?rs = "[0..<rc5_rounds cx]"
  let ?A = "RC5_LOAD_UINT4 b + ?S ! 0" and ?B = "RC5_LOAD_UINT4 (drop 4 b) + ?S ! 1"
  obtain A B where AB: "foldl (rc5_enc_round ?S) (?A, ?B) ?rs = (A, B)"
    by (cases "foldl (rc5_enc_round ?S) (?A, ?B) ?rs")
  have e: "rc5_encrypt cx b = RC5_SAVE_UINT4 A @ RC5_SAVE_UINT4 B"
    using AB by (simp add: rc5_encrypt_def Let_def)
  have "RC5_LOAD_UINT4 (RC5_SAVE_UINT4 A @ RC5_SAVE_UINT4 B) = A"
    and "RC5_LOAD_UINT4 (drop 4 (RC5_SAVE_UINT4 A @ RC5_SAVE_UINT4 B)) = B"
    using RC5_load_save [of B "[]"] by (simp_all add: RC5_load_save)
  moreover have "foldl (rc5_dec_round ?S) (A, B) (rev ?rs) = (?A, ?B)"
    using rc5_rounds_inverse [of ?S "(?A, ?B)" ?rs] by (simp only: AB)
  moreover have "RC5_SAVE_UINT4 (RC5_LOAD_UINT4 b) = take 4 b"
    and "RC5_SAVE_UINT4 (RC5_LOAD_UINT4 (drop 4 b)) = drop 4 b"
    using assms RC5_save_load [of "take 4 b" "drop 4 b"] RC5_save_load [of "drop 4 b" "[]"] by simp_all
  ultimately show ?thesis unfolding rc5_decrypt_def e by simp
qed

interpretation rc5: block_cipher "rc5_encrypt cx" "rc5_decrypt cx" for cx
proof (unfold_locales, goal_cases)
  case (1 b)
  show ?case by (simp add: rc5_encrypt_def Let_def case_prod_beta)
next
  case (2 b)
  then show ?case by (rule rc5_block_inverse)
qed

section \<open>Round trips\<close>

lemma RC5_ecb_call:
  assumes "rc5_mode cx = SEC_RC5" and p: "length p mod 8 = 0" "length p \<le> maxOut"
  shows "\<exists>c. RC5_Encrypt maxOut cx p = Inr (cx, c) \<and> RC5_Decrypt maxOut cx c = Inr (cx, p)"
proof -
  from rc5.ecb_inverse [OF p(1), of cx "rc5_last cx" "rc5_last cx"] obtain c where
    "block_loop (ecb_body (rc5_encrypt cx)) (rc5_last cx) p = Inr (rc5_last cx, c)"
    "block_loop (ecb_body (rc5_decrypt cx)) (rc5_last cx) c = Inr (rc5_last cx, p)"
    "length c = length p" by blast
  with assms show ?thesis
    by (simp add: RC5_Encrypt_def RC5_Decrypt_def checked_crypt_def rc5_enc_def rc5_dec_def rc5_run_def)
qed

text \<open>
  C22. RC5 in ECB mode, for every number of rounds up to 255 and every key up to 255 bytes:
  decryption calls give back what the encryption calls took, and both leave the context as
  it was.
\<close>

theorem RC5_ecb_roundtrip:
  assumes "RC5_CreateContext mem key_mem garbage key rounds iv SEC_RC5 = Inr cx"
    and "\<forall>p \<in> set ps. length p mod 8 = 0 \<and> length p \<le> maxOut"
  shows "\<exists>cs. crypt_calls (RC5_Encrypt maxOut) cx ps = Inr (cx, cs) \<and>
           crypt_calls (RC5_Decrypt maxOut) cx cs = Inr (cx, ps)"
proof -
  have "rc5_mode cx = SEC_RC5"
    using assms(1) by (auto simp: RC5_CreateContext_def split: if_splits)
  then have "\<exists>cx' c cy'. RC5_Encrypt maxOut cx1 p = Inr (cx', c) \<and>
      RC5_Decrypt maxOut cx2 c = Inr (cy', p) \<and> (cx' = cx \<and> cy' = cx)"
    if "cx1 = cx \<and> cx2 = cx" and "length p mod 8 = 0 \<and> length p \<le> maxOut" for cx1 cx2 p
    using RC5_ecb_call [of cx p maxOut] that by auto
  then show ?thesis
    using crypt_calls_inverse [where R = "\<lambda>cx1 cx2. cx1 = cx \<and> cx2 = cx" and enc = "RC5_Encrypt maxOut"
        and dec = "RC5_Decrypt maxOut" and ok = "\<lambda>p. length p mod 8 = 0 \<and> length p \<le> maxOut"
        and cx = cx and cy = cx and ps = ps] assms(2) by blast
qed

theorem RC5_ecb_roundtrip_witness:
  "\<exists>cx cs. RC5_CreateContext True True (replicate 64 0) [1, 2] 12 None SEC_RC5 = Inr cx \<and>
     crypt_calls (RC5_Encrypt 16) cx [replicate 8 1, replicate 16 2] = Inr (cx, cs) \<and>
     crypt_calls (RC5_Decrypt 16) cx cs = Inr (cx, [replicate 8 1, replicate 16 2])"
proof -
  obtain cx where cx: "RC5_CreateContext True True (replicate 64 0) [1, 2] 12 None SEC_RC5 = Inr cx"
    by (simp add: RC5_CreateContext_def)
  from RC5_ecb_roundtrip [OF cx, of "[replicate 8 1, replicate 16 2]" 16] cx show ?thesis by simp
qed

section \<open>CBC decryption\<close>



end
