(* ===== verification/DES.thy ===== *)
theory DES
  imports Block_Cipher
begin

text \<open>
  security/lib/crypto/algdes.c. \<open>UINT2\<close> is a 16 bit word; \<open>al\<close>, \<open>ah\<close> to \<open>dh\<close> are bytes. A key table
  is a list of 64 words, four to a round. That \<open>tempChar & 1\<close> after \<open>k\<close> shifts is tested is
  written \<open>bit x k\<close>, and \<open>dl & mask\<close> with the mask of the iteration \<open>i\<close> is \<open>bit dl i\<close>.
\<close>

definition S_PC1 :: "nat list" where
  "S_PC1 = [57, 49, 41, 33, 25, 17,  9,  1, 58, 50, 42, 34, 26, 18,
     10,  2, 59, 51, 43, 35, 27, 19, 11,  3, 60, 52, 44, 36,
     63, 55, 47, 39, 31, 23, 15,  7, 62, 54, 46, 38, 30, 22,
     14,  6, 61, 53, 45, 37, 29, 21, 13,  5, 28, 20, 12,  4, 0]"

definition S_KA_PC2 :: "nat list" where
  "S_KA_PC2 = [0, 23, 19, 12,  4, 26,  8,  0,  0, 14, 17, 11, 24,  1,  5,  0,
     0, 44, 49, 39, 56, 34, 53,  0,  0, 41, 52, 31, 37, 47, 55,  0,
     0, 16,  7, 27, 20, 13,  2,  0,  0,  3, 28, 15,  6, 21, 10,  0,
     0, 46, 42, 50, 36, 29, 32,  0,  0, 30, 40, 51, 45, 33, 48,  0, 0]"

definition DES_SHE :: "nat list" where
  "DES_SHE = [1, 1, 2, 2, 2, 2, 2, 2, 1, 2, 2, 2, 2, 2, 2, 1]"

definition DES_SHD :: "nat list" where
  "DES_SHD = [0, 1, 2, 2, 2, 2, 2, 2, 1, 2, 2, 2, 2, 2, 2, 1]"

definition SB_TAB :: "u16 list" where
  "SB_TAB =
    [0x20, 0, 0, 0x8020, 0x8020, 0x8000, 0x8000, 0, 0, 0x20, 0x8020, 0, 0x8020, 0x8020, 0x20, 0x8000,
     0x8000, 0x20, 0x20, 0, 0, 0x20, 0x20, 0x8020, 0x8000, 0x8020, 0x8020, 0x8000, 0, 0x8000, 0x8000, 0x20,
     0, 0x8020, 0x8000, 0x20, 0x20, 0x20, 0x20, 0, 0x8020, 0, 0, 0x8020, 0, 0x8000, 0x8020, 0x8000,
     0x8020, 0x8000, 0x20, 0x8020, 0x8020, 0x8000, 0x8000, 0x20, 0x8000, 0x20, 0x20, 0, 0x8000, 0, 0, 0x8020,
     0x2080, 0, 0x2000, 0x2080, 0x2000, 0x2080, 0, 0x2000, 0x80, 0x2080, 0x2080, 0x80, 0x80, 0x2000, 0, 0,
     0x80, 0x80, 0x80, 0x2080, 0x2080, 0x2000, 0x2000, 0x80, 0x2000, 0, 0, 0x2000, 0, 0x80, 0x2080, 0,
     0x2000, 0x2080, 0, 0x2000, 0x2080, 0, 0, 0x80, 0x2000, 0x2000, 0x2080, 0, 0x80, 0, 0x80, 0x2080,
     0x2080, 0x2000, 0x2000, 0x80, 0, 0x80, 0x2080, 0x2080, 0x80, 0x80, 0x80, 0, 0x2000, 0x2080, 0, 0x2000,
     0x1002, 0x1000, 0, 0x2, 0x2, 0, 0x1002, 0x1000, 0x1000, 0x1002, 0x1002, 0x1000, 0x1000, 0x2, 0, 0x1002,
     0x2, 0x2, 0x1000, 0, 0x1000, 0, 0x2, 0x1002, 0x2, 0x1000, 0, 0x2, 0, 0x1002, 0x1002, 0,
     0, 0x2, 0x1002, 0x2, 0x1000, 0x1002, 0x1002, 0, 0x1002, 0x1000, 0, 0x1002, 0x2, 0, 0, 0x1000,
     0, 0x1002, 0x2, 0x1000, 0x2, 0x1000, 0x1000, 0x2, 0x2, 0, 0x1000, 0, 0x1000, 0x1002, 0x1002, 0x2,
     0x1004, 0x1000, 0x1000, 0x1004, 0, 0x4, 0x4, 0x1004, 0x4, 0x1004, 0x1000, 0, 0x1000, 0, 0x4, 0x4,
     0x1000, 0x4, 0x1004, 0, 0, 0x1000, 0x1004, 0, 0x4, 0x4, 0, 0x1000, 0x1004, 0x1000, 0, 0x1004,
     0, 0x1004, 0x4, 0, 0x1004, 0, 0x1000, 0x1000, 0, 0x1000, 0x4, 0x1004, 0x1004, 0x4, 0x1000, 0,
     0x1004, 0x1000, 0, 0x4, 0x4, 0x1004, 0x4, 0x4, 0x1000, 0, 0x1000, 0x1004, 0, 0x4, 0x1004, 0x1000,
     0, 0x100, 0, 0x100, 0x100, 0, 0, 0x100, 0, 0x100, 0x100, 0, 0x100, 0, 0x100, 0,
     0x100, 0, 0x100, 0, 0, 0x100, 0x100, 0, 0x100, 0, 0, 0x100, 0, 0x100, 0, 0x100,
     0x100, 0x100, 0, 0, 0, 0x100, 0x100, 0, 0, 0, 0x100, 0x100, 0x100, 0, 0, 0x100,
     0x100, 0, 0x100, 0x100, 0, 0, 0, 0x100, 0x100, 0x100, 0, 0x100, 0, 0, 0x100, 0,
     0x41, 0x4040, 0, 0x4001, 0x40, 0, 0x4041, 0x40, 0x4001, 0x1, 0x1, 0x4000, 0x4041, 0x4001, 0x4000, 0x41,
     0, 0x1, 0x4040, 0x40, 0x4040, 0x4000, 0x4001, 0x4041, 0x41, 0x4040, 0x4000, 0x41, 0x1, 0x4041, 0x40, 0,
     0x4040, 0, 0x4001, 0x41, 0x4000, 0x4040, 0x40, 0, 0x40, 0x4001, 0x4041, 0x40, 0x1, 0x40, 0, 0x4001,
     0x41, 0x4000, 0, 0x4041, 0x1, 0x4041, 0x4040, 0x1, 0x4000, 0x41, 0x41, 0x4000, 0x4041, 0x1, 0x4001, 0x4040,
     0x2010, 0x2000, 0x2000, 0, 0x10, 0x2010, 0x2010, 0x2000, 0, 0x10, 0x10, 0x2010, 0x2000, 0, 0x10, 0x2010,
     0x2000, 0, 0x10, 0x2010, 0, 0x10, 0x2000, 0, 0x2010, 0x2000, 0, 0x10, 0, 0x10, 0x2010, 0x2000,
     0x10, 0x2010, 0x10, 0x2010, 0x2000, 0, 0, 0x10, 0, 0x10, 0x2010, 0x2000, 0x2010, 0x2000, 0x2000, 0,
     0x2010, 0x2000, 0x2000, 0, 0x2010, 0x2000, 0x10, 0x2010, 0x2000, 0, 0x10, 0x2010, 0, 0x10, 0, 0x10,
     0x400, 0x410, 0x410, 0x10, 0x410, 0x10, 0, 0x400, 0, 0x400, 0x400, 0x410, 0x10, 0, 0x10, 0,
     0, 0x400, 0, 0x400, 0x10, 0, 0x400, 0x410, 0x10, 0, 0x410, 0x10, 0x400, 0x410, 0x410, 0x10,
     0x10, 0, 0x400, 0x410, 0x10, 0, 0, 0x400, 0x410, 0x10, 0x10, 0, 0x400, 0x410, 0x410, 0x10,
     0x410, 0x10, 0, 0x400, 0, 0x400, 0x410, 0x10, 0x400, 0x410, 0, 0x400, 0x10, 0, 0x400, 0x410,
     0, 0x41, 0x41, 0x840, 0x1, 0, 0x800, 0x41, 0x801, 0x1, 0x40, 0x801, 0x840, 0x841, 0x1, 0x800,
     0x40, 0x801, 0x801, 0, 0x800, 0x841, 0x841, 0x40, 0x841, 0x800, 0, 0x840, 0x41, 0x40, 0x840, 0x1,
     0x1, 0x840, 0, 0x40, 0x800, 0x41, 0x840, 0x801, 0x40, 0x800, 0x841, 0x41, 0x801, 0, 0x40, 0x841,
     0x841, 0x1, 0x840, 0x841, 0x41, 0, 0x801, 0x840, 0x1, 0x40, 0x800, 0x1, 0, 0x801, 0x41, 0x800,
     0x20, 0x20, 0, 0x20, 0, 0x20, 0, 0, 0x20, 0, 0x20, 0x20, 0x20, 0, 0x20, 0,
     0, 0, 0, 0, 0x20, 0x20, 0x20, 0x20, 0, 0x20, 0, 0, 0x20, 0, 0, 0x20,
     0, 0x20, 0x20, 0, 0, 0, 0x20, 0x20, 0x20, 0, 0, 0x20, 0x20, 0x20, 0, 0,
     0x20, 0x20, 0, 0x20, 0, 0, 0, 0, 0x20, 0x20, 0x20, 0, 0, 0, 0x20, 0x20,
     0x400, 0x408, 0, 0x408, 0x408, 0, 0x408, 0x8, 0x400, 0x8, 0x8, 0x400, 0x8, 0x400, 0x400, 0,
     0, 0x8, 0x400, 0, 0x8, 0x400, 0, 0x408, 0x408, 0, 0x8, 0x408, 0, 0x8, 0x408, 0x400,
     0x400, 0, 0x408, 0x8, 0x408, 0x8, 0, 0x400, 0x8, 0x400, 0x400, 0, 0x400, 0x408, 0x8, 0x408,
     0x8, 0x408, 0, 0x408, 0, 0, 0x408, 0x8, 0, 0x8, 0x400, 0, 0x408, 0x400, 0x8, 0x400,
     0x2, 0, 0x800, 0x802, 0, 0x2, 0x802, 0, 0x800, 0x802, 0, 0x2, 0x2, 0x800, 0, 0x802,
     0, 0x2, 0x802, 0x800, 0x800, 0x802, 0x2, 0x2, 0x2, 0, 0x802, 0x800, 0x802, 0x800, 0x800, 0,
     0x800, 0x2, 0x2, 0x800, 0x802, 0, 0x802, 0x2, 0, 0x800, 0, 0x802, 0x2, 0x802, 0x800, 0,
     0x802, 0x800, 0, 0x2, 0x2, 0x800, 0, 0x802, 0x800, 0x2, 0x802, 0, 0x800, 0, 0x2, 0x802,
     0x4, 0x4084, 0x4080, 0, 0, 0x4080, 0x4004, 0x84, 0x4084, 0x4, 0, 0x4080, 0x4000, 0x80, 0x4084, 0x4000,
     0x80, 0x4004, 0x4004, 0x80, 0x4080, 0x84, 0x84, 0x4004, 0x84, 0, 0x4000, 0x4084, 0x4, 0x4000, 0x80, 0x4,
     0x80, 0x4, 0x4, 0x4080, 0x4080, 0x4084, 0x4084, 0x4000, 0x4004, 0x80, 0x80, 0x4, 0x84, 0x4000, 0x4004, 0x84,
     0x4000, 0x4080, 0x4084, 0x84, 0x4, 0, 0x4000, 0x4084, 0, 0x4004, 0x84, 0, 0x4080, 0x80, 0, 0x4004,
     0, 0, 0x100, 0, 0x100, 0x100, 0x100, 0x100, 0x100, 0, 0, 0, 0, 0, 0, 0x100,
     0x100, 0x100, 0, 0x100, 0, 0, 0x100, 0, 0, 0x100, 0x100, 0x100, 0x100, 0, 0, 0x100,
     0, 0x100, 0, 0x100, 0x100, 0, 0, 0, 0, 0, 0x100, 0, 0x100, 0x100, 0x100, 0x100,
     0x100, 0, 0x100, 0, 0x100, 0, 0, 0x100, 0, 0x100, 0, 0x100, 0, 0x100, 0x100, 0,
     0x200, 0, 0, 0x200, 0x200, 0x200, 0, 0x200, 0, 0x200, 0x200, 0, 0x200, 0, 0, 0,
     0x200, 0x200, 0x200, 0, 0, 0, 0x200, 0x200, 0, 0, 0, 0x200, 0x200, 0x200, 0, 0,
     0, 0, 0x200, 0, 0, 0x200, 0, 0, 0x200, 0, 0x200, 0x200, 0x200, 0x200, 0, 0x200,
     0, 0x200, 0, 0x200, 0x200, 0x200, 0x200, 0, 0x200, 0, 0, 0, 0, 0, 0x200, 0x200,
     0x208, 0x200, 0x8000, 0x8208, 0, 0x208, 0x8, 0, 0x8008, 0x8000, 0x8208, 0x8200, 0x8200, 0x8208, 0x200, 0x8,
     0x8000, 0x8, 0x200, 0x208, 0x8200, 0x8008, 0x8008, 0x8200, 0x208, 0, 0, 0x8008, 0x8, 0x200, 0x8208, 0x8000,
     0x8208, 0x8000, 0x8200, 0x200, 0x8, 0x8008, 0x200, 0x8208, 0x200, 0x8, 0x8, 0x8000, 0x8008, 0, 0x8000, 0x208,
     0, 0x8208, 0x8008, 0x8, 0x8000, 0x200, 0x208, 0, 0x8208, 0x8200, 0x8200, 0x208, 0x208, 0x8008, 0, 0x8200]"

section \<open>One block\<close>

text \<open>\<open>(al, ah, bl, bh, cl, ch, dl, dh)\<close>, and \<open>(ax, bx, cx, dx)\<close>.\<close>

type_synonym des_bytes = "u8 \<times> u8 \<times> u8 \<times> u8 \<times> u8 \<times> u8 \<times> u8 \<times> u8"
type_synonym des_regs = "u16 \<times> u16 \<times> u16 \<times> u16"

definition DES_shift_in :: "u8 \<Rightarrow> bool \<Rightarrow> u8" where
  "DES_shift_in r c = (drop_bit 1 r AND 0x7f) OR (if c then 0x80 else 0)"

definition DES_ip_step :: "des_bytes \<Rightarrow> u8 \<Rightarrow> des_bytes" where
  "DES_ip_step = (\<lambda>(al, ah, bl, bh, cl, ch, dl, dh) x.
     (DES_shift_in al (bit x 4), DES_shift_in ah (bit x 6),
      DES_shift_in bl (bit x 0), DES_shift_in bh (bit x 2),
      DES_shift_in cl (bit x 5), DES_shift_in ch (bit x 7),
      DES_shift_in dl (bit x 1), DES_shift_in dh (bit x 3)))"

definition DES_word :: "u8 \<Rightarrow> u8 \<Rightarrow> u16" where
  "DES_word h l = (push_bit 8 (ucast h) AND 0xff00) + (ucast l AND 0xff)"

definition DES_initial :: "u8 list \<Rightarrow> des_regs" where
  "DES_initial inp =
     (let (al, ah, bl, bh, cl, ch, dl, dh) = foldl DES_ip_step (0, 0, 0, 0, 0, 0, 0, 0) (take 8 inp);
          ax = DES_word ah al; bx = DES_word bh bl; cx = DES_word ch cl; dx = DES_word dh dl
      in ((drop_bit 2 ax AND 0x3fff) OR (push_bit 14 bx AND 0xc000),
          (drop_bit 2 bx AND 0x3fff) OR (push_bit 14 ax AND 0xc000),
          (drop_bit 2 cx AND 0x3fff) OR (push_bit 14 dx AND 0xc000),
          (drop_bit 2 dx AND 0x3fff) OR (push_bit 14 cx AND 0xc000)))"

text \<open>
  Two lookups: \<open>sboxPtr1\<close> is the table and \<open>sboxPtr2\<close> 64 entries further; \<open>base\<close> is what the code
  adds to the index.
\<close>

definition DES_sbox :: "u16 \<Rightarrow> u16 \<Rightarrow> u16 \<times> u16 \<Rightarrow> u16 \<times> u16" where
  "DES_sbox base byt = (\<lambda>(ax, bx).
     let keyIndex = base + byt; i = unat (drop_bit 1 keyIndex)
     in (ax XOR SB_TAB ! i, bx XOR SB_TAB ! (64 + i)))"

definition DES_round :: "u16 list \<Rightarrow> des_regs \<Rightarrow> nat \<Rightarrow> des_regs" where
  "DES_round keyTable = (\<lambda>(ax, bx, cx, dx) r.
     let old_cx = cx; old_dx = dx;
         keyWord = (keyTable ! (4 * r) XOR cx) AND 0x7e7e;
         ab = DES_sbox 0 (drop_bit 8 keyWord AND 0xff) (ax, bx);
         ab = DES_sbox 0x200 (keyWord AND 0xff) ab;
         keyWord = (keyTable ! (4 * r + 1) XOR dx) AND 0x7e7e;
         ab = DES_sbox 0x400 (drop_bit 8 keyWord AND 0xff) ab;
         ab = DES_sbox 0x600 (keyWord AND 0xff) ab;
         new_cx = (push_bit 4 cx AND 0xfff0) OR (drop_bit 12 dx AND 0xf);
         new_dx = (push_bit 4 dx AND 0xfff0) OR (drop_bit 12 cx AND 0xf);
         keyWord = (keyTable ! (4 * r + 2) XOR new_cx) AND 0x7e7e;
         ab = DES_sbox 0x100 (drop_bit 8 keyWord AND 0xff) ab;
         ab = DES_sbox 0x300 (keyWord AND 0xff) ab;
         keyWord = (keyTable ! (4 * r + 3) XOR new_dx) AND 0x7e7e;
         ab = DES_sbox 0x500 (drop_bit 8 keyWord AND 0xff) ab;
         ab = DES_sbox 0x700 (keyWord AND 0xff) ab;
         (ax, bx) = ab
     in (old_cx, old_dx, ax, bx))"

definition DES_out_byte :: "des_bytes \<Rightarrow> nat \<Rightarrow> u8" where
  "DES_out_byte = (\<lambda>(al, ah, bl, bh, cl, ch, dl, dh) i.
     (if bit dl i then 1 else 0) OR (if bit bl i then 2 else 0) OR
     (if bit dh i then 4 else 0) OR (if bit bh i then 8 else 0) OR
     (if bit cl i then 16 else 0) OR (if bit al i then 32 else 0) OR
     (if bit ch i then 64 else 0) OR (if bit ah i then 128 else 0))"

definition DES_final :: "des_regs \<Rightarrow> u8 list" where
  "DES_final = (\<lambda>(ax, bx, cx, dx).
     let new_cx = (push_bit 2 cx AND 0xfffc) OR (drop_bit 14 dx AND 0x3);
         new_dx = (push_bit 2 dx AND 0xfffc) OR (drop_bit 14 cx AND 0x3);
         new_ax = (push_bit 2 ax AND 0xfffc) OR (drop_bit 14 bx AND 0x3);
         new_bx = (push_bit 2 bx AND 0xfffc) OR (drop_bit 14 ax AND 0x3);
         lo = (\<lambda>x :: u16. ucast (x AND 0xff) :: u8);
         hi = (\<lambda>x :: u16. ucast (drop_bit 8 x AND 0xff) :: u8)
     in map (DES_out_byte (lo new_ax, hi new_ax, lo new_bx, hi new_bx,
                           lo new_cx, hi new_cx, lo new_dx, hi new_dx)) [0, 1, 2, 3, 4, 5, 6, 7])"

definition DES :: "u16 list \<Rightarrow> u8 list \<Rightarrow> u8 list" where
  "DES keyTable inp = DES_final (foldl (DES_round keyTable) (DES_initial inp) [0..<16])"

section \<open>The key schedule\<close>

definition DES_Select :: "nat list \<Rightarrow> u8 list \<Rightarrow> nat \<Rightarrow> u8 list" where
  "DES_Select selector source cnt =
     map (\<lambda>i. if selector ! i = 0 then 0 else source ! (selector ! i - 1)) [0..<cnt]"

definition DES_LShift1 :: "u8 list \<Rightarrow> u8 list" where
  "DES_LShift1 reg =
     (let x = reg ! 0;
          reg = memcpy_at reg 0 (take 27 (drop 1 reg));
          reg = reg[27 := x];
          x = reg ! 28;
          reg = memcpy_at reg 28 (take 27 (drop 29 reg))
      in reg[55 := x])"

definition DES_LShift2 :: "u8 list \<Rightarrow> u8 list" where
  "DES_LShift2 reg =
     (let x = reg ! 0; y = reg ! 1;
          reg = memcpy_at reg 0 (take 26 (drop 2 reg));
          reg = reg[26 := x, 27 := y];
          x = reg ! 28; y = reg ! 29;
          reg = memcpy_at reg 28 (take 26 (drop 30 reg))
      in reg[54 := x, 55 := y])"

definition DES_RShift1 :: "u8 list \<Rightarrow> u8 list" where
  "DES_RShift1 reg =
     (let x = reg ! 27;
          reg = memcpy_at reg 1 (take 27 reg);
          reg = reg[0 := x];
          x = reg ! 55;
          reg = memcpy_at reg 29 (take 27 (drop 28 reg))
      in reg[28 := x])"

definition DES_RShift2 :: "u8 list \<Rightarrow> u8 list" where
  "DES_RShift2 reg =
     (let x = reg ! 26; y = reg ! 27;
          reg = memcpy_at reg 2 (take 26 reg);
          reg = reg[0 := x, 1 := y];
          x = reg ! 54; y = reg ! 55;
          reg = memcpy_at reg 30 (take 26 (drop 28 reg))
      in reg[28 := x, 29 := y])"

text \<open>The masks 0x80 down to 0x02 are the bits 7 to 1.\<close>

definition SetDESParity :: "u8 list \<Rightarrow> u8 list" where
  "SetDESParity srckey =
     map (\<lambda>i. let b = srckey ! i;
                  bitCount = length (filter (\<lambda>n. bit b n) [7, 6, 5, 4, 3, 2, 1])
              in if odd bitCount then b AND 0xfe else b OR 1) [0, 1, 2, 3, 4, 5, 6, 7]"

text \<open>One byte of a key word from eight unpacked bits; \<open>u\<close> is what the variable held.\<close>

definition DES_pack :: "u8 \<Rightarrow> u8 list \<Rightarrow> u8" where
  "DES_pack u bs = foldl (\<lambda>u c. push_bit 1 u OR (c AND 1)) u bs"

text \<open>The four words of a round; the state is \<open>(uchar1, uchar2)\<close> and the words so far.\<close>

definition DES_pack_step :: "u8 list \<Rightarrow> u8 \<times> u8 \<times> u16 list \<Rightarrow> nat \<Rightarrow> u8 \<times> u8 \<times> u16 list" where
  "DES_pack_step u_ki = (\<lambda>(uchar1, uchar2, ws) i.
     let uchar1 = DES_pack uchar1 (take 8 (drop (16 * i) u_ki));
         uchar2 = DES_pack uchar2 (take 8 (drop (16 * i + 8) u_ki))
     in (uchar1, uchar2, ws @ [ucast uchar1 + push_bit 8 (ucast uchar2)]))"

definition DES_key_shift :: "bool \<Rightarrow> nat \<Rightarrow> u8 list \<Rightarrow> u8 list" where
  "DES_key_shift enc r reg =
     (if enc then (if DES_SHE ! r = 1 then DES_LShift1 reg
                   else if DES_SHE ! r = 2 then DES_LShift2 reg else reg)
      else (if DES_SHD ! r = 1 then DES_RShift1 reg
            else if DES_SHD ! r = 2 then DES_RShift2 reg else reg))"

definition DESKey_round :: "bool \<Rightarrow> u8 list \<times> u8 \<times> u8 \<times> u16 list \<Rightarrow> nat \<Rightarrow> u8 list \<times> u8 \<times> u8 \<times> u16 list" where
  "DESKey_round enc = (\<lambda>(u_cidi, uchar1, uchar2, kt) r.
     let u_cidi = DES_key_shift enc r u_cidi;
         u_ki = DES_Select S_KA_PC2 u_cidi 64
     in (u_cidi, foldl (DES_pack_step u_ki) (uchar1, uchar2, kt) [0, 1, 2, 3]))"

definition DES_unpack :: "u8 list \<Rightarrow> u8 list" where
  "DES_unpack key = concat (map (\<lambda>b. map (\<lambda>j. drop_bit j b AND 1) [7, 6, 5, 4, 3, 2, 1, 0]) key)"

definition DESKey :: "u8 list \<Rightarrow> bool \<Rightarrow> u16 list" where
  "DESKey rawkey enc =
     (let u_key = DES_unpack (SetDESParity rawkey);
          u_cidi = DES_Select S_PC1 u_key 56;
          (u_cidi, uchar1, uchar2, kt) = foldl (DESKey_round enc) (u_cidi, 0, 0, []) [0..<16]
      in kt)"

section \<open>Contexts and calls\<close>

datatype des_mode = SEC_DES | SEC_DES_CBC | SEC_DES_EDE3 | SEC_DES_EDE3_CBC | DES_OTHER_MODE int

record DESContext =
  des_encrypt :: bool
  des_k0 :: "u16 list"
  des_k1 :: "u16 list"
  des_k2 :: "u16 list"
  des_last :: "u8 list"
  des_mode :: des_mode   \<comment> \<open>the pointers \<open>enc\<close> and \<open>dec\<close>\<close>

definition des_run ::
  "(u8 list \<Rightarrow> u8 list \<Rightarrow> u8 list \<times> u8 list) \<Rightarrow> DESContext \<Rightarrow> u8 list \<Rightarrow> c_error + DESContext \<times> u8 list" where
  "des_run body cx inp =
     map_sum id (\<lambda>(last', out). (cx\<lparr>des_last := last'\<rparr>, out)) (block_loop body (des_last cx) inp)"

definition DES3 :: "DESContext \<Rightarrow> u8 list \<Rightarrow> u8 list" where
  "DES3 cx blk = DES (des_k2 cx) (DES (des_k1 cx) (DES (des_k0 cx) blk))"

definition DES_Crypt :: "DESContext \<Rightarrow> u8 list \<Rightarrow> c_error + DESContext \<times> u8 list" where
  "DES_Crypt cx = des_run (ecb_body (DES (des_k0 cx))) cx"

definition DESCBC_Encrypt :: "DESContext \<Rightarrow> u8 list \<Rightarrow> c_error + DESContext \<times> u8 list" where
  "DESCBC_Encrypt cx = des_run (cbc_enc_body (DES (des_k0 cx))) cx"

definition DESCBC_Decrypt :: "DESContext \<Rightarrow> u8 list \<Rightarrow> c_error + DESContext \<times> u8 list" where
  "DESCBC_Decrypt cx = des_run (cbc_dec_body (DES (des_k0 cx))) cx"

definition DESEDE3_Crypt :: "DESContext \<Rightarrow> u8 list \<Rightarrow> c_error + DESContext \<times> u8 list" where
  "DESEDE3_Crypt cx = des_run (ecb_body (DES3 cx)) cx"

definition DESEDE3CBC_Encrypt :: "DESContext \<Rightarrow> u8 list \<Rightarrow> c_error + DESContext \<times> u8 list" where
  "DESEDE3CBC_Encrypt cx = des_run (cbc_enc_body (DES3 cx)) cx"

definition DESEDE3CBC_Decrypt :: "DESContext \<Rightarrow> u8 list \<Rightarrow> c_error + DESContext \<times> u8 list" where
  "DESEDE3CBC_Decrypt cx = des_run (cbc_dec_body (DES3 cx)) cx"

text \<open>A mode that is not known is a failed assertion and a null result.\<close>

definition DES_CreateContext ::
  "bool \<Rightarrow> u8 list \<Rightarrow> u8 list \<Rightarrow> des_mode \<Rightarrow> bool \<Rightarrow> DESContext option" where
  "DES_CreateContext mem key iv mode encrypt =
     (if \<not> mem then None
      else (let cx = \<lparr>des_encrypt = encrypt, des_k0 = replicate 64 0, des_k1 = replicate 64 0,
                      des_k2 = replicate 64 0, des_last = replicate 8 0, des_mode = mode\<rparr>;
                single = (\<lambda>cx. cx\<lparr>des_k0 := DESKey key encrypt\<rparr>);
                ede3_keys = (\<lambda>cx. if encrypt
                  then cx\<lparr>des_k0 := DESKey key True, des_k1 := DESKey (drop 8 key) False,
                          des_k2 := DESKey (drop 16 key) True\<rparr>
                  else cx\<lparr>des_k0 := DESKey (drop 16 key) False, des_k1 := DESKey (drop 8 key) True,
                          des_k2 := DESKey key False\<rparr>)
            in case mode of
                 SEC_DES \<Rightarrow> Some (single cx)
               | SEC_DES_CBC \<Rightarrow> Some (single (cx\<lparr>des_last := take 8 iv\<rparr>))
               | SEC_DES_EDE3 \<Rightarrow> Some (ede3_keys cx)
               | SEC_DES_EDE3_CBC \<Rightarrow> Some (ede3_keys (cx\<lparr>des_last := take 8 iv\<rparr>))
               | DES_OTHER_MODE m \<Rightarrow> None))"

definition DES_Encrypt :: "DESContext \<Rightarrow> u8 list \<Rightarrow> c_error + DESContext \<times> u8 list" where
  "DES_Encrypt cx =
     (case des_mode cx of SEC_DES \<Rightarrow> DES_Crypt cx | SEC_DES_CBC \<Rightarrow> DESCBC_Encrypt cx
      | SEC_DES_EDE3 \<Rightarrow> DESEDE3_Crypt cx | _ \<Rightarrow> DESEDE3CBC_Encrypt cx)"

definition DES_Decrypt :: "DESContext \<Rightarrow> u8 list \<Rightarrow> c_error + DESContext \<times> u8 list" where
  "DES_Decrypt cx =
     (case des_mode cx of SEC_DES \<Rightarrow> DES_Crypt cx | SEC_DES_CBC \<Rightarrow> DESCBC_Decrypt cx
      | SEC_DES_EDE3 \<Rightarrow> DESEDE3_Crypt cx | _ \<Rightarrow> DESEDE3CBC_Decrypt cx)"

text \<open>
  \<open>DES_PadBuffer\<close>, with the 32 bit arithmetic on lengths; \<open>mem\<close> says whether the buffer could
  be grown.
\<close>

definition DES_PadBuffer :: "bool \<Rightarrow> u8 list \<Rightarrow> c_error + u8 list" where
  "DES_PadBuffer mem inbuf =
     (let inlen = length inbuf;
          des_len = unat (((word_of_nat inlen :: u32) + 8) AND NOT 7)
      in if \<not> mem then Inl NO_MEMORY
         else Inr (take des_len inbuf @
                   replicate (des_len - inlen) (word_of_nat (des_len - inlen))))"

section \<open>The initial and the final permutation\<close>

lemma bit_DES_shift_in:
  "bit (DES_shift_in r c) n \<longleftrightarrow> (if n < 7 then bit r (Suc n) else n = 7 \<and> c)"
proof -
  have m: "(0x7f :: u8) = mask 7" "(0x80 :: u8) = push_bit 7 1" by (simp_all add: mask_eq_exp_minus_1)
  show ?thesis
    unfolding DES_shift_in_def m
    by (cases c; auto simp: bit_or_iff bit_and_iff bit_push_bit_iff bit_mask_iff bit_1_iff
        bit_drop_bit_eq dest: bit_imp_le_length split: if_splits simp del: push_bit_of_1)
qed

definition DES_byte :: "bool list \<Rightarrow> u8" where
  "DES_byte cs = foldl DES_shift_in 0 cs"

lemma bit_DES_byte:
  assumes "length cs = 8" and "n < 8"
  shows "bit (DES_byte cs) n = cs ! n"
proof -
  obtain a b c d e f g h where cs: "cs = [a, b, c, d, e, f, g, h]"
    using assms(1) by (auto simp: length_Suc_conv numeral_eq_Suc)
  from assms(2) consider "n = 0" | "n = 1" | "n = 2" | "n = 3" | "n = 4" | "n = 5" | "n = 6" | "n = 7"
    by linarith
  then show ?thesis
    by cases (simp_all add: DES_byte_def cs bit_DES_shift_in)
qed

lemma DES_byte_eqI:
  assumes "length cs = 8" and "\<And>n. n < 8 \<Longrightarrow> cs ! n = bit x n"
  shows "DES_byte cs = x"
  by (rule bit_word_eqI) (use assms in \<open>simp add: bit_DES_byte\<close>)

lemma foldl_DES_ip_step:
  "foldl DES_ip_step (al, ah, bl, bh, cl, ch, dl, dh) xs =
     (foldl DES_shift_in al (map (\<lambda>x. bit x 4) xs), foldl DES_shift_in ah (map (\<lambda>x. bit x 6) xs),
      foldl DES_shift_in bl (map (\<lambda>x. bit x 0) xs), foldl DES_shift_in bh (map (\<lambda>x. bit x 2) xs),
      foldl DES_shift_in cl (map (\<lambda>x. bit x 5) xs), foldl DES_shift_in ch (map (\<lambda>x. bit x 7) xs),
      foldl DES_shift_in dl (map (\<lambda>x. bit x 1) xs), foldl DES_shift_in dh (map (\<lambda>x. bit x 3) xs))"
  by (induction xs arbitrary: al ah bl bh cl ch dl dh) (simp_all add: DES_ip_step_def)

lemma foldl_DES_ip_bytes:
  "foldl DES_ip_step (0, 0, 0, 0, 0, 0, 0, 0) xs =
     (DES_byte (map (\<lambda>x. bit x 4) xs), DES_byte (map (\<lambda>x. bit x 6) xs),
      DES_byte (map (\<lambda>x. bit x 0) xs), DES_byte (map (\<lambda>x. bit x 2) xs),
      DES_byte (map (\<lambda>x. bit x 5) xs), DES_byte (map (\<lambda>x. bit x 7) xs),
      DES_byte (map (\<lambda>x. bit x 1) xs), DES_byte (map (\<lambda>x. bit x 3) xs))"
  by (simp add: foldl_DES_ip_step DES_byte_def)

lemma bit_DES_out_byte:
  assumes "n < 8"
  shows "bit (DES_out_byte (al, ah, bl, bh, cl, ch, dl, dh) i) n
           = bit ([dl, bl, dh, bh, cl, al, ch, ah] ! n) i"
proof -
  have p: "(2 :: u8) = push_bit 1 1" "(4 :: u8) = push_bit 2 1" "(8 :: u8) = push_bit 3 1"
    "(16 :: u8) = push_bit 4 1" "(32 :: u8) = push_bit 5 1" "(64 :: u8) = push_bit 6 1"
    "(128 :: u8) = push_bit 7 1" by simp_all
  from assms consider "n = 0" | "n = 1" | "n = 2" | "n = 3" | "n = 4" | "n = 5" | "n = 6" | "n = 7"
    by linarith
  then show ?thesis
    unfolding DES_out_byte_def p prod.case
    by cases (simp_all add: bit_or_iff bit_push_bit_iff bit_1_iff)
qed

text \<open>The bytes of the registers, before and after the permutations.\<close>

definition DES_bytes_in :: "u8 list \<Rightarrow> des_bytes" where
  "DES_bytes_in inp = foldl DES_ip_step (0, 0, 0, 0, 0, 0, 0, 0) (take 8 inp)"

definition DES_bytes_out :: "des_bytes \<Rightarrow> u8 list" where
  "DES_bytes_out r = map (DES_out_byte r) [0, 1, 2, 3, 4, 5, 6, 7]"

definition DES_swap_bytes :: "des_bytes \<Rightarrow> des_bytes" where
  "DES_swap_bytes = (\<lambda>(al, ah, bl, bh, cl, ch, dl, dh). (cl, ch, dl, dh, al, ah, bl, bh))"

lemma DES_bytes_in_out: "DES_bytes_in (DES_bytes_out r) = DES_swap_bytes r"
proof -
  obtain al ah bl bh cl ch dl dh where r: "r = (al, ah, bl, bh, cl, ch, dl, dh)"
    by (metis prod.collapse)
  have i8: "n < 8 \<Longrightarrow> map (\<lambda>x. bit x k) (DES_bytes_out r) ! n = bit (DES_out_byte r n) k" for n k
  proof -
    assume "n < 8"
    then have "[0, 1, 2, 3, 4, 5, 6, 7 :: nat] ! n = n"
      by (auto simp: less_Suc_eq numeral_eq_Suc)
    with \<open>n < 8\<close> show ?thesis by (simp add: DES_bytes_out_def del: list.map)
  qed
  have len: "length (map (\<lambda>x. bit x k) (DES_bytes_out r)) = 8" for k
    by (simp add: DES_bytes_out_def)
  have b: "DES_byte (map (\<lambda>x. bit x k) (DES_bytes_out r)) = [dl, bl, dh, bh, cl, al, ch, ah] ! k"
    if "k < 8" for k
    by (rule DES_byte_eqI [OF len]) (simp only: i8, simp only: r bit_DES_out_byte [OF that])
  have "take 8 (DES_bytes_out r) = DES_bytes_out r" by (simp add: DES_bytes_out_def)
  then show ?thesis
    unfolding DES_bytes_in_def by (simp add: foldl_DES_ip_bytes b) (simp add: DES_swap_bytes_def r)
qed

lemma DES_bytes_out_in:
  assumes "length b = 8"
  shows "DES_bytes_out (DES_swap_bytes (DES_bytes_in b)) = b"
proof (rule nth_equalityI)
  show "length (DES_bytes_out (DES_swap_bytes (DES_bytes_in b))) = length b"
    using assms by (simp add: DES_bytes_out_def)
next
  fix i assume "i < length (DES_bytes_out (DES_swap_bytes (DES_bytes_in b)))"
  then have i: "i < 8" by (simp add: DES_bytes_out_def)
  then have "[0, 1, 2, 3, 4, 5, 6, 7 :: nat] ! i = i"
    by (auto simp: less_Suc_eq numeral_eq_Suc)
  with i have o: "DES_bytes_out r ! i = DES_out_byte r i" for r
    by (simp add: DES_bytes_out_def del: list.map)
  show "DES_bytes_out (DES_swap_bytes (DES_bytes_in b)) ! i = b ! i"
  proof (rule bit_word_eqI)
    fix n assume "n < LENGTH(8)"
    then have n: "n < 8" by simp
    then consider "n = 0" | "n = 1" | "n = 2" | "n = 3" | "n = 4" | "n = 5" | "n = 6" | "n = 7"
      by linarith
    then show "bit (DES_bytes_out (DES_swap_bytes (DES_bytes_in b)) ! i) n = bit (b ! i) n"
      unfolding o using assms i n
      by cases (simp_all add: DES_bytes_in_def foldl_DES_ip_bytes DES_swap_bytes_def bit_DES_out_byte bit_DES_byte)
  qed
qed

text \<open>Halves and rotations of the registers.\<close>

definition DES_lo :: "u16 \<Rightarrow> u8" where "DES_lo x = ucast (x AND 0xff)"

definition DES_hi :: "u16 \<Rightarrow> u8" where "DES_hi x = ucast (drop_bit 8 x AND 0xff)"

definition DES_ror :: "u16 \<times> u16 \<Rightarrow> u16 \<times> u16" where
  "DES_ror = (\<lambda>(ax, bx). ((drop_bit 2 ax AND 0x3fff) OR (push_bit 14 bx AND 0xc000),
                          (drop_bit 2 bx AND 0x3fff) OR (push_bit 14 ax AND 0xc000)))"

definition DES_rol :: "u16 \<times> u16 \<Rightarrow> u16 \<times> u16" where
  "DES_rol = (\<lambda>(ax, bx). ((push_bit 2 ax AND 0xfffc) OR (drop_bit 14 bx AND 0x3),
                          (push_bit 2 bx AND 0xfffc) OR (drop_bit 14 ax AND 0x3)))"

lemma DES_masks:
  "(0xff :: u16) = mask 8" "(0xff00 :: u16) = push_bit 8 (mask 8)" "(0x3fff :: u16) = mask 14"
  "(0xc000 :: u16) = push_bit 14 (mask 2)" "(0xfffc :: u16) = push_bit 2 (mask 14)" "(0x3 :: u16) = mask 2"
  by (simp_all add: mask_eq_exp_minus_1)

lemma DES_word_or: "DES_word h l = push_bit 8 (ucast h) OR ucast l"
proof -
  have "(push_bit 8 (ucast h) AND 0xff00) AND (ucast l AND 0xff) = (0 :: u16)"
    unfolding DES_masks by (rule bit_word_eqI) (auto simp: bit_simps)
  then have "DES_word h l = (push_bit 8 (ucast h) AND 0xff00) OR (ucast l AND 0xff)"
    unfolding DES_word_def by (rule disjunctive_add_eq_or)
  also have "\<dots> = push_bit 8 (ucast h) OR ucast l"
    unfolding DES_masks by (rule bit_word_eqI) (auto simp: bit_simps dest: bit_imp_le_length)
  finally show ?thesis .
qed

lemma DES_lo_word: "DES_lo (DES_word h l) = l"
  unfolding DES_lo_def DES_word_or DES_masks by (rule bit_word_eqI) (auto simp: bit_simps)

lemma DES_hi_word: "DES_hi (DES_word h l) = h"
  unfolding DES_hi_def DES_word_or DES_masks
  by (rule bit_word_eqI) (auto simp: bit_simps dest: bit_imp_le_length)

lemma DES_word_hi_lo: "DES_word (DES_hi x) (DES_lo x) = x"
  unfolding DES_hi_def DES_lo_def DES_word_or DES_masks
  by (rule bit_word_eqI) (auto simp: bit_simps)

lemma DES_rol_ror: "DES_rol (DES_ror p) = p"
proof -
  have "(push_bit 2 ((drop_bit 2 a AND mask 14) OR (push_bit 14 b AND push_bit 14 (mask 2))) AND push_bit 2 (mask 14))
      OR (drop_bit 14 ((drop_bit 2 b AND mask 14) OR (push_bit 14 a AND push_bit 14 (mask 2))) AND mask 2)
      = a" (is "?l = a") for a b :: u16
  proof (rule bit_word_eqI)
    fix n assume "n < LENGTH(16)"
    moreover have "Suc (Suc (n - 2)) = n" if "\<not> n < 2" using that by simp
    ultimately show "bit ?l n = bit a n"
      by (cases "n < 2") (auto simp: bit_simps)
  qed
  then show ?thesis
    unfolding DES_rol_def DES_ror_def DES_masks by (cases p) simp
qed

lemma DES_ror_rol: "DES_ror (DES_rol p) = p"
proof -
  have "(drop_bit 2 ((push_bit 2 a AND push_bit 2 (mask 14)) OR (drop_bit 14 b AND mask 2)) AND mask 14)
      OR (push_bit 14 ((push_bit 2 b AND push_bit 2 (mask 14)) OR (drop_bit 14 a AND mask 2)) AND push_bit 14 (mask 2))
      = a" (is "?l = a") for a b :: u16
  proof (rule bit_word_eqI)
    fix n assume "n < LENGTH(16)"
    then show "bit ?l n = bit a n"
      by (cases "n < 14") (auto simp: bit_simps)
  qed
  then show ?thesis
    unfolding DES_rol_def DES_ror_def DES_masks by (cases p) simp
qed

lemma DES_initial_eq:
  "DES_initial inp = (case DES_bytes_in inp of (al, ah, bl, bh, cl, ch, dl, dh) \<Rightarrow>
     let (ax, bx) = DES_ror (DES_word ah al, DES_word bh bl);
         (cx, dx) = DES_ror (DES_word ch cl, DES_word dh dl)
     in (ax, bx, cx, dx))"
  by (simp add: DES_initial_def DES_bytes_in_def DES_ror_def Let_def split: prod.split)

lemma DES_final_eq:
  "DES_final = (\<lambda>(ax, bx, cx, dx).
     let (ax, bx) = DES_rol (ax, bx); (cx, dx) = DES_rol (cx, dx)
     in DES_bytes_out (DES_lo ax, DES_hi ax, DES_lo bx, DES_hi bx, DES_lo cx, DES_hi cx, DES_lo dx, DES_hi dx))"
  by (rule ext)
    (simp add: DES_final_def DES_bytes_out_def DES_rol_def DES_lo_def DES_hi_def Let_def split: prod.split)

definition DES_swap :: "des_regs \<Rightarrow> des_regs" where
  "DES_swap = (\<lambda>(ax, bx, cx, dx). (cx, dx, ax, bx))"

lemma DES_initial_final: "DES_initial (DES_final r) = DES_swap r"
proof -
  obtain ax bx cx dx where r: "r = (ax, bx, cx, dx)" by (metis prod.collapse)
  obtain a b where l: "DES_rol (ax, bx) = (a, b)" by (cases "DES_rol (ax, bx)")
  obtain c d where s: "DES_rol (cx, dx) = (c, d)" by (cases "DES_rol (cx, dx)")
  show ?thesis
    using DES_ror_rol [of "(ax, bx)"] DES_ror_rol [of "(cx, dx)"]
    by (simp add: r l s DES_final_eq DES_initial_eq DES_bytes_in_out DES_swap_bytes_def DES_swap_def
        DES_word_hi_lo)
qed

lemma DES_final_initial:
  assumes "length b = 8"
  shows "DES_final (DES_swap (DES_initial b)) = b"
proof -
  obtain al ah bl bh cl ch dl dh where i: "DES_bytes_in b = (al, ah, bl, bh, cl, ch, dl, dh)"
    by (metis prod.collapse)
  obtain ax bx where l: "DES_ror (DES_word ah al, DES_word bh bl) = (ax, bx)"
    by (cases "DES_ror (DES_word ah al, DES_word bh bl)")
  obtain cx dx where s: "DES_ror (DES_word ch cl, DES_word dh dl) = (cx, dx)"
    by (cases "DES_ror (DES_word ch cl, DES_word dh dl)")
  show ?thesis
    using DES_rol_ror [of "(DES_word ah al, DES_word bh bl)"] DES_rol_ror [of "(DES_word ch cl, DES_word dh dl)"]
      DES_bytes_out_in [OF assms]
    by (simp add: DES_initial_eq i l s DES_final_eq DES_swap_def DES_swap_bytes_def DES_lo_word DES_hi_word)
qed

section \<open>The rounds\<close>

text \<open>What a round exclusive-ors onto the left half.\<close>

definition DES_f :: "u16 list \<Rightarrow> nat \<Rightarrow> u16 \<times> u16 \<Rightarrow> u16 \<times> u16" where
  "DES_f kt r = (\<lambda>(cx, dx). case DES_round kt (0, 0, cx, dx) r of (c, d, fa, fb) \<Rightarrow> (fa, fb))"

lemma DES_sbox_xor:
  "DES_sbox base byt (a XOR x, b XOR y) = (case DES_sbox base byt (x, y) of (u, v) \<Rightarrow> (a XOR u, b XOR v))"
  by (simp add: DES_sbox_def Let_def xor.assoc)

definition DES_chain :: "(u16 \<times> u16) list \<Rightarrow> u16 \<times> u16 \<Rightarrow> u16 \<times> u16" where
  "DES_chain ks ab = foldl (\<lambda>ab (base, byt). DES_sbox base byt ab) ab ks"

lemma DES_chain_xor:
  "DES_chain ks (a XOR x, b XOR y) = (case DES_chain ks (x, y) of (u, v) \<Rightarrow> (a XOR u, b XOR v))"
proof (induction ks arbitrary: x y)
  case (Cons k ks)
  obtain base byt where k: "k = (base, byt)" by (cases k)
  obtain u v where s: "DES_sbox base byt (x, y) = (u, v)" by (cases "DES_sbox base byt (x, y)")
  from Cons [of u v] s DES_sbox_xor [of base byt a x b y] show ?case
    by (simp add: DES_chain_def k)
qed (simp add: DES_chain_def)

text \<open>The eight lookups of a round, with the key words \<open>k0\<close> to \<open>k3\<close>.\<close>

definition DES_lookups :: "u16 \<times> u16 \<times> u16 \<times> u16 \<Rightarrow> u16 \<times> u16 \<Rightarrow> (u16 \<times> u16) list" where
  "DES_lookups = (\<lambda>(k0, k1, k2, k3) (cx, dx).
     let new_cx = (push_bit 4 cx AND 0xfff0) OR (drop_bit 12 dx AND 0xf);
         new_dx = (push_bit 4 dx AND 0xfff0) OR (drop_bit 12 cx AND 0xf);
         w0 = (k0 XOR cx) AND 0x7e7e; w1 = (k1 XOR dx) AND 0x7e7e;
         w2 = (k2 XOR new_cx) AND 0x7e7e; w3 = (k3 XOR new_dx) AND 0x7e7e
     in [(0, drop_bit 8 w0 AND 0xff), (0x200, w0 AND 0xff),
         (0x400, drop_bit 8 w1 AND 0xff), (0x600, w1 AND 0xff),
         (0x100, drop_bit 8 w2 AND 0xff), (0x300, w2 AND 0xff),
         (0x500, drop_bit 8 w3 AND 0xff), (0x700, w3 AND 0xff)])"

definition DES_round_key :: "u16 list \<Rightarrow> nat \<Rightarrow> u16 \<times> u16 \<times> u16 \<times> u16" where
  "DES_round_key kt r = (kt ! (4 * r), kt ! (4 * r + 1), kt ! (4 * r + 2), kt ! (4 * r + 3))"

lemma DES_round_chain:
  "DES_round kt (a, b, c, d) r
     = (case DES_chain (DES_lookups (DES_round_key kt r) (c, d)) (a, b) of (x, y) \<Rightarrow> (c, d, x, y))"
  by (simp add: DES_round_def DES_chain_def DES_lookups_def DES_round_key_def Let_def)

lemma DES_round_undo:
  assumes "DES_round_key kt' s = DES_round_key kt r"
  shows "DES_round kt' (DES_swap (DES_round kt x r)) s = DES_swap x"
proof -
  obtain a b c d where x: "x = (a, b, c, d)" by (metis prod.collapse)
  let ?ks = "DES_lookups (DES_round_key kt r) (c, d)"
  obtain u v where uv: "DES_chain ?ks (0, 0) = (u, v)" by (cases "DES_chain ?ks (0, 0)")
  have ch: "DES_chain ?ks (p, q) = (p XOR u, q XOR v)" for p q
    using DES_chain_xor [of ?ks p 0 q 0] by (simp add: uv)
  show ?thesis
    by (simp add: x DES_round_chain ch DES_swap_def assms xor.assoc)
qed

lemma DES_rounds_undo:
  assumes "\<And>r. r \<in> set rs \<Longrightarrow> DES_round_key kt' (g r) = DES_round_key kt r"
  shows "foldl (DES_round kt') (DES_swap (foldl (DES_round kt) x rs)) (map g (rev rs)) = DES_swap x"
  using assms
proof (induction rs arbitrary: x)
  case (Cons r rs)
  then have "foldl (DES_round kt') (DES_swap (foldl (DES_round kt) (DES_round kt x r) rs)) (map g (rev rs))
      = DES_swap (DES_round kt x r)" by simp
  with Cons.prems show ?case by (simp add: DES_round_undo)
qed simp

lemma DES_inverse:
  assumes "\<And>r. r < 16 \<Longrightarrow> DES_round_key kt' (15 - r) = DES_round_key kt r" and "length b = 8"
  shows "DES kt' (DES kt b) = b"
proof -
  have "map (\<lambda>r. 15 - r) (rev [0..<16]) = [0..<16 :: nat]"
    by (simp add: upt_conv_Cons)
  then have "foldl (DES_round kt') (DES_swap (foldl (DES_round kt) x [0..<16])) [0..<16] = DES_swap x" for x
    using DES_rounds_undo [of "[0..<16]" kt' "\<lambda>r. 15 - r" kt x] assms(1) by (simp del: upt_rec_numeral)
  then show ?thesis
    unfolding DES_def DES_initial_final by (simp only: DES_final_initial [OF assms(2)])
qed

section \<open>The key schedules for encryption and decryption are reverses of each other\<close>

definition DES_rot :: "nat \<Rightarrow> u8 list \<Rightarrow> u8 list" where
  "DES_rot n reg = rotate n (take 28 reg) @ rotate n (drop 28 reg)"

lemma DES_rot_add: "length reg = 56 \<Longrightarrow> DES_rot m (DES_rot n reg) = DES_rot (m + n) reg"
  by (simp add: DES_rot_def rotate_rotate)

lemma DES_rot_28: "length reg = 56 \<Longrightarrow> DES_rot 28 reg = reg"
  by (simp add: DES_rot_def)

lemma length_DES_rot [simp]: "length (DES_rot n reg) = length reg"
  by (simp add: DES_rot_def)

lemma DES_halves1:
  assumes "length reg = 56"
  obtains a A b B where "reg = a # A @ b # B" "length A = 27" "length B = 27"
proof -
  have "length (take 28 reg) = Suc 27" "length (drop 28 reg) = Suc 27" using assms by simp_all
  then obtain a A b B where "take 28 reg = a # A" "drop 28 reg = b # B" "length A = 27" "length B = 27"
    unfolding length_Suc_conv by blast
  with that [of a A b B] append_take_drop_id [of 28 reg] show ?thesis by simp
qed

lemma DES_halves2:
  assumes "length reg = 56"
  obtains a a' A b b' B where "reg = a # a' # A @ b # b' # B" "length A = 26" "length B = 26"
proof -
  obtain a A b B where "reg = a # A @ b # B" and l: "length A = Suc 26" "length B = Suc 26"
    using assms by (rule DES_halves1) simp
  moreover from l obtain a' A' b' B' where "A = a' # A'" "B = b' # B'" "length A' = 26" "length B' = 26"
    unfolding length_Suc_conv by blast
  ultimately show ?thesis using that [of a a' A' b b' B'] by simp
qed

lemma update_single: "length xs = Suc 0 \<Longrightarrow> xs[0 := a] = [a]"
  by (auto simp: length_Suc_conv)

lemma update_pair: "length xs = 2 \<Longrightarrow> xs[0 := a, Suc 0 := b] = [a, b]"
  by (auto simp: length_Suc_conv numeral_2_eq_2)

lemma DES_LShift1_rot:
  assumes "length reg = 56"
  shows "DES_LShift1 reg = DES_rot (Suc 0) reg" and "DES_RShift1 (DES_rot (Suc 0) reg) = reg"
proof -
  obtain a A b B where r: "reg = a # A @ b # B" "length A = 27" "length B = 27"
    using assms by (rule DES_halves1)
  then have rot: "DES_rot (Suc 0) reg = A @ [a] @ B @ [b]" by (simp add: DES_rot_def)
  with r show "DES_LShift1 reg = DES_rot (Suc 0) reg"
    by (simp add: DES_LShift1_def memcpy_at_def Let_def nth_append list_update_append update_single)
  from rot r show "DES_RShift1 (DES_rot (Suc 0) reg) = reg"
    by (simp add: DES_RShift1_def memcpy_at_def Let_def nth_append list_update_append take_Cons' update_single)
qed

lemma DES_LShift2_rot:
  assumes "length reg = 56"
  shows "DES_LShift2 reg = DES_rot 2 reg" and "DES_RShift2 (DES_rot 2 reg) = reg"
proof -
  obtain a a' A b b' B where r: "reg = a # a' # A @ b # b' # B" "length A = 26" "length B = 26"
    using assms by (rule DES_halves2)
  then have rot: "DES_rot 2 reg = A @ [a, a'] @ B @ [b, b']"
    by (simp add: DES_rot_def rotate_def numeral_2_eq_2)
  with r show "DES_LShift2 reg = DES_rot 2 reg"
    by (simp add: DES_LShift2_def memcpy_at_def Let_def nth_append list_update_append update_pair)
  from rot r show "DES_RShift2 (DES_rot 2 reg) = reg"
    by (simp add: DES_RShift2_def memcpy_at_def Let_def nth_append list_update_append take_Cons' update_pair)
qed

definition DES_reg :: "bool \<Rightarrow> u8 list \<Rightarrow> nat \<Rightarrow> u8 list" where
  "DES_reg enc reg n = foldl (\<lambda>reg r. DES_key_shift enc r reg) reg [0..<n]"

lemma DES_reg_Suc: "DES_reg enc reg (Suc n) = DES_key_shift enc n (DES_reg enc reg n)"
  by (simp add: DES_reg_def)

lemma DES_SHE_cases: "r < 16 \<Longrightarrow> DES_SHE ! r = 1 \<or> DES_SHE ! r = 2"
  by (auto simp: DES_SHE_def less_Suc_eq numeral_eq_Suc)

lemma DES_SHD_SHE: "0 < k \<Longrightarrow> k < 16 \<Longrightarrow> DES_SHD ! k = DES_SHE ! (16 - k)"
  by (auto simp: DES_SHE_def DES_SHD_def less_Suc_eq numeral_eq_Suc)

lemma DES_key_shift_enc:
  "length reg = 56 \<Longrightarrow> r < 16 \<Longrightarrow> DES_key_shift True r reg = DES_rot (DES_SHE ! r) reg"
  using DES_SHE_cases [of r]
  by (auto simp: DES_key_shift_def DES_LShift1_rot DES_LShift2_rot)

lemma DES_key_shift_dec:
  "length reg = 56 \<Longrightarrow> 0 < k \<Longrightarrow> k < 16 \<Longrightarrow> DES_key_shift False k (DES_rot (DES_SHE ! (16 - k)) reg) = reg"
  using DES_SHE_cases [of "16 - k"]
  by (auto simp: DES_key_shift_def DES_SHD_SHE DES_LShift1_rot DES_LShift2_rot)

lemma DES_reg_enc:
  "length reg = 56 \<Longrightarrow> n \<le> 16 \<Longrightarrow> DES_reg True reg n = DES_rot (sum_list (take n DES_SHE)) reg"
proof (induction n)
  case 0
  then show ?case by (simp add: DES_reg_def DES_rot_def)
next
  case (Suc n)
  then have "take (Suc n) DES_SHE = take n DES_SHE @ [DES_SHE ! n]"
    by (intro take_Suc_conv_app_nth) (simp add: DES_SHE_def)
  with Suc show ?case by (simp add: DES_reg_Suc DES_key_shift_enc DES_rot_add add.commute)
qed

lemma DES_reg_reverse:
  assumes "length reg = 56"
  shows "n < 16 \<Longrightarrow> DES_reg False reg (Suc n) = DES_reg True reg (16 - n)"
proof (induction n)
  case 0
  have "DES_reg False reg (Suc 0) = reg"
    by (simp add: DES_reg_def DES_key_shift_def DES_SHD_def)
  moreover have "sum_list (take 16 DES_SHE) = 28" by (simp add: DES_SHE_def)
  then have "DES_reg True reg 16 = reg"
    using assms by (simp add: DES_reg_enc DES_rot_28)
  ultimately show ?case by simp
next
  case (Suc n)
  define k where "k = 15 - n"
  have k: "16 - n = Suc k" "16 - Suc n = k" "k < 16" "Suc n = 16 - k" using Suc.prems by (simp_all add: k_def)
  have l: "length (DES_reg True reg k) = 56" using assms k by (simp add: DES_reg_enc)
  have "DES_reg False reg (Suc (Suc n)) = DES_key_shift False (Suc n) (DES_reg True reg (Suc k))"
    using Suc k by (simp add: DES_reg_Suc [of False])
  also have "DES_reg True reg (Suc k) = DES_rot (DES_SHE ! k) (DES_reg True reg k)"
    using k l by (simp add: DES_reg_Suc DES_key_shift_enc)
  also have "DES_key_shift False (Suc n) \<dots> = DES_reg True reg k"
    using DES_key_shift_dec [OF l, of "Suc n"] Suc.prems k by simp
  finally show ?case using k by simp
qed

text \<open>The words of a round depend on the register of that round only.\<close>

definition DES_words :: "u8 list \<Rightarrow> u16 list" where
  "DES_words u_ki = map (\<lambda>i. ucast (DES_pack 0 (take 8 (drop (16 * i) u_ki)))
     + push_bit 8 (ucast (DES_pack 0 (take 8 (drop (16 * i + 8) u_ki))))) [0, 1, 2, 3]"

lemma DES_pack_shift: "DES_pack u bs = push_bit (length bs) u OR DES_pack 0 bs"
proof (induction bs arbitrary: u)
  case (Cons b bs)
  have "DES_pack u (b # bs) = DES_pack (push_bit 1 u OR (b AND 1)) bs" by (simp add: DES_pack_def)
  also have "\<dots> = push_bit (length bs) (push_bit 1 u OR (b AND 1)) OR DES_pack 0 bs" by (rule Cons)
  also have "\<dots> = push_bit (Suc (length bs)) u OR (push_bit (length bs) (b AND 1) OR DES_pack 0 bs)"
    by (simp only: push_bit_or push_bit_push_bit add_Suc_right add_0_right One_nat_def or.assoc)
  also have "push_bit (length bs) (b AND 1) OR DES_pack 0 bs = DES_pack (b AND 1) bs"
    by (rule Cons [symmetric])
  also have "\<dots> = DES_pack 0 (b # bs)" by (simp add: DES_pack_def)
  finally show ?case by simp
qed (simp add: DES_pack_def)

lemma DES_pack_forgets:
  assumes "length bs = 8"
  shows "DES_pack u bs = DES_pack 0 bs"
proof -
  have "push_bit 8 u = 0" by (rule bit_word_eqI) (auto simp: bit_simps)
  then show ?thesis using DES_pack_shift [of u bs] assms by simp
qed

lemma DES_pack_steps:
  assumes "length u_ki = 64"
  shows "\<exists>u v. foldl (DES_pack_step u_ki) (uchar1, uchar2, kt) [0, 1, 2, 3] = (u, v, kt @ DES_words u_ki)"
proof -
  define P where "P = (\<lambda>n. DES_pack 0 (take 8 (drop n u_ki)))"
  have p: "DES_pack u (take 8 (drop n u_ki)) = P n" if "n \<le> 56" for u n
    unfolding P_def using that assms by (intro DES_pack_forgets) simp
  show ?thesis
    using p [of 0] p [of 8] p [of 16] p [of 24] p [of 32] p [of 40] p [of 48] p [of 56]
    by (simp add: DES_pack_step_def DES_words_def Let_def)
qed

lemma DESKey_round_words:
  "\<exists>u' v'. DESKey_round enc (reg, u, v, kt) n
     = (DES_key_shift enc n reg, u', v', kt @ DES_words (DES_Select S_KA_PC2 (DES_key_shift enc n reg) 64))"
proof -
  have "length (DES_Select S_KA_PC2 (DES_key_shift enc n reg) 64) = 64"
    by (simp add: DES_Select_def del: upt_rec_numeral)
  from DES_pack_steps [OF this, of u v kt] show ?thesis
    unfolding DESKey_round_def prod.case Let_def by (simp del: foldl_Cons)
qed

lemma DESKey_rounds:
  "\<exists>u v. foldl (DESKey_round enc) (reg, 0, 0, []) [0..<n]
     = (DES_reg enc reg n, u, v, concat (map (\<lambda>r. DES_words (DES_Select S_KA_PC2 (DES_reg enc reg (Suc r)) 64)) [0..<n]))"
proof (induction n)
  case 0
  then show ?case by (simp add: DES_reg_def)
next
  case (Suc n)
  then obtain u v where IH: "foldl (DESKey_round enc) (reg, 0, 0, []) [0..<n]
     = (DES_reg enc reg n, u, v, concat (map (\<lambda>r. DES_words (DES_Select S_KA_PC2 (DES_reg enc reg (Suc r)) 64)) [0..<n]))"
    by blast
  have "[0..<Suc n] = [0..<n] @ [n]" by simp
  with IH DESKey_round_words [of enc "DES_reg enc reg n" u v _ n] show ?case
    by (simp only: foldl_append foldl.simps map_append concat_append list.map concat.simps append_Nil2
        DES_reg_Suc)
qed

lemma DES_round_key_concat:
  "\<forall>l \<in> set ls. length l = 4 \<Longrightarrow> r < length ls \<Longrightarrow>
   DES_round_key (concat ls) r = (ls ! r ! 0, ls ! r ! 1, ls ! r ! 2, ls ! r ! 3)"
proof (induction ls arbitrary: r)
  case (Cons l ls)
  show ?case
  proof (cases r)
    case 0
    with Cons.prems show ?thesis
      by (simp add: DES_round_key_def nth_append numeral_2_eq_2 numeral_3_eq_3)
  next
    case (Suc k)
    with Cons.prems have "DES_round_key (concat (l # ls)) r = DES_round_key (concat ls) k"
      by (simp add: DES_round_key_def nth_append add.commute [of _ 3])
    with Cons Suc show ?thesis by simp
  qed
qed simp

lemma DESKey_round_key:
  assumes "r < 16"
  shows "DES_round_key (DESKey key enc) r =
    (let l = DES_words (DES_Select S_KA_PC2
       (DES_reg enc (DES_Select S_PC1 (DES_unpack (SetDESParity key)) 56) (Suc r)) 64)
     in (l ! 0, l ! 1, l ! 2, l ! 3))"
proof -
  let ?reg = "DES_Select S_PC1 (DES_unpack (SetDESParity key)) 56"
  let ?l = "\<lambda>r. DES_words (DES_Select S_KA_PC2 (DES_reg enc ?reg (Suc r)) 64)"
  obtain u v where "foldl (DESKey_round enc) (?reg, 0, 0, []) [0..<16]
      = (DES_reg enc ?reg 16, u, v, concat (map ?l [0..<16]))"
    using DESKey_rounds by blast
  then have "DESKey key enc = concat (map ?l [0..<16])"
    unfolding DESKey_def Let_def by simp
  moreover have "DES_round_key (concat (map ?l [0..<16])) r = (?l r ! 0, ?l r ! 1, ?l r ! 2, ?l r ! 3)"
    using assms DES_round_key_concat [of "map ?l [0..<16]" r]
    by (simp add: DES_words_def del: upt_rec_numeral)
  ultimately show ?thesis by (simp add: Let_def)
qed

lemma DESKey_reverse:
  assumes "r < 16"
  shows "DES_round_key (DESKey key enc) (15 - r) = DES_round_key (DESKey key (\<not> enc)) r"
proof -
  let ?reg = "DES_Select S_PC1 (DES_unpack (SetDESParity key)) 56"
  have len: "length ?reg = 56" by (simp add: DES_Select_def del: upt_rec_numeral)
  have "DES_reg enc ?reg (Suc (15 - r)) = DES_reg (\<not> enc) ?reg (Suc r)"
    using DES_reg_reverse [OF len, of r] DES_reg_reverse [OF len, of "15 - r"] assms
      Suc_diff_le [of r 15]
    by (cases enc) simp_all
  with assms show ?thesis by (simp add: DESKey_round_key)
qed

lemma DES_key_inverse:
  "length b = 8 \<Longrightarrow> DES (DESKey key (\<not> enc)) (DES (DESKey key enc) b) = b"
  by (rule DES_inverse) (use DESKey_reverse [of _ key "\<not> enc"] in simp)

lemma length_DES: "length (DES kt b) = 8"
  by (simp add: DES_def DES_final_def Let_def split: prod.split)

interpretation des: block_permutation "DES (DESKey key enc)" "DES (DESKey key (\<not> enc))" for key enc
  by unfold_locales (use DES_key_inverse [of _ key enc] DES_key_inverse [of _ key "\<not> enc"] in
    \<open>simp_all add: length_DES\<close>)

text \<open>Three keys: the middle one decrypts.\<close>

interpretation des3: ede_cipher
  "DES (DESKey key0 True)" "DES (DESKey key0 (\<not> True))" "DES (DESKey key1 True)" "DES (DESKey key1 (\<not> True))"
  "DES (DESKey key2 True)" "DES (DESKey key2 (\<not> True))" for key0 key1 key2
  by unfold_locales

section \<open>Round trips\<close>

lemma des_ecb_calls:
  assumes "block_cipher E D" and "length p mod 8 = 0"
  shows "\<exists>c. des_run (ecb_body E) cx p = Inr (cx, c) \<and> des_run (ecb_body D) cy c = Inr (cy, p)"
  using block_cipher.ecb_inverse [OF assms, of "des_last cx" "des_last cy"] by (auto simp: des_run_def)

lemma des_cbc_calls:
  assumes "block_cipher E D" and "length p mod 8 = 0" and "length l = 8"
  shows "\<exists>c l'. des_run (cbc_enc_body E) (cx\<lparr>des_last := l\<rparr>) p = Inr (cx\<lparr>des_last := l'\<rparr>, c) \<and>
     des_run (cbc_dec_body D) (cy\<lparr>des_last := l\<rparr>) c = Inr (cy\<lparr>des_last := l'\<rparr>, p) \<and> length l' = 8"
  using block_cipher.cbc_inverse [OF assms] by (fastforce simp: des_run_def)

lemma DES_call_inverse:
  assumes cx: "DES_CreateContext mem key iv mode True = Some cx"
    and cy: "DES_CreateContext mem key iv mode False = Some cy"
    and p: "length p mod 8 = 0" and l: "length l = 8"
  shows "\<exists>c l'. DES_Encrypt (cx\<lparr>des_last := l\<rparr>) p = Inr (cx\<lparr>des_last := l'\<rparr>, c) \<and>
     DES_Decrypt (cy\<lparr>des_last := l\<rparr>) c = Inr (cy\<lparr>des_last := l'\<rparr>, p) \<and> length l' = 8"
proof -
  have single: "block_cipher (DES (DESKey key True)) (DES (DESKey key False))"
    using des.block_cipher_axioms [of key True] by simp
  have triple: "block_cipher (DES3 cx) (DES3 cy)" if "mode = SEC_DES_EDE3 \<or> mode = SEC_DES_EDE3_CBC"
  proof -
    have "DES3 cx = (\<lambda>b. DES (DESKey (drop 16 key) True) (DES (DESKey (drop 8 key) False) (DES (DESKey key True) b)))"
      and "DES3 cy = (\<lambda>b. DES (DESKey key False) (DES (DESKey (drop 8 key) True) (DES (DESKey (drop 16 key) False) b)))"
      using cx cy that by (auto simp: DES_CreateContext_def DES3_def Let_def fun_eq_iff split: if_splits)
    with des3.ede.block_cipher_axioms [of "drop 16 key" "drop 8 key" key] show ?thesis by simp
  qed
  have mode: "des_mode cx = mode" "des_mode cy = mode"
    using cx cy by (auto simp: DES_CreateContext_def Let_def split: if_splits des_mode.splits)
  have k0: "mode = SEC_DES \<or> mode = SEC_DES_CBC \<Longrightarrow> des_k0 cx = DESKey key True \<and> des_k0 cy = DESKey key False"
    using cx cy by (auto simp: DES_CreateContext_def Let_def split: if_splits)
  have DES3_last: "DES3 (c\<lparr>des_last := l\<rparr>) = DES3 c" for c by (simp add: DES3_def fun_eq_iff)
  note calls = des_ecb_calls [OF _ p, of _ _ "cx\<lparr>des_last := l\<rparr>" "cy\<lparr>des_last := l\<rparr>"]
    des_cbc_calls [OF _ p l, of _ _ cx cy]
  show ?thesis
  proof (cases mode)
    case SEC_DES
    with mode k0 calls(1) [OF single] l show ?thesis
      by (fastforce simp: DES_Encrypt_def DES_Decrypt_def DES_Crypt_def)
  next
    case SEC_DES_CBC
    with mode k0 calls(2) [OF single] show ?thesis
      by (simp add: DES_Encrypt_def DES_Decrypt_def DESCBC_Encrypt_def DESCBC_Decrypt_def)
  next
    case SEC_DES_EDE3
    with mode calls(1) [OF triple] l show ?thesis
      by (fastforce simp: DES_Encrypt_def DES_Decrypt_def DESEDE3_Crypt_def DES3_last)
  next
    case SEC_DES_EDE3_CBC
    with mode calls(2) [OF triple] show ?thesis
      by (simp add: DES_Encrypt_def DES_Decrypt_def DESEDE3CBC_Encrypt_def DESEDE3CBC_Decrypt_def DES3_last)
  next
    case (DES_OTHER_MODE m)
    with cx show ?thesis by (simp add: DES_CreateContext_def Let_def split: if_splits)
  qed
qed

text \<open>
  C6. DES in its four modes (single and triple, ECB and CBC): the context created for
  decryption undoes the one created for encryption with the same keys and initial vector,
  over any sequence of calls on whole blocks. The heart is that the key table for
  decryption, made by shifting right, holds the rounds of the other in reverse.
\<close>

theorem DES_roundtrip:
  assumes "DES_CreateContext mem key iv mode True = Some cx"
    and "DES_CreateContext mem key iv mode False = Some cy"
    and "length iv = 8" and "\<forall>p \<in> set ps. length p mod 8 = 0"
  shows "\<exists>cx' cs cy'. crypt_calls DES_Encrypt cx ps = Inr (cx', cs) \<and>
           crypt_calls DES_Decrypt cy cs = Inr (cy', ps)"
proof -
  let ?R = "\<lambda>a b. \<exists>l. a = cx\<lparr>des_last := l\<rparr> \<and> b = cy\<lparr>des_last := l\<rparr> \<and> length l = 8"
  have "des_last cx = des_last cy" "length (des_last cx) = 8"
    using assms(1-3) by (auto simp: DES_CreateContext_def Let_def split: if_splits des_mode.splits)
  then have R: "?R cx cy" by (intro exI [of _ "des_last cx"]) simp
  have call: "\<exists>a' c b'. DES_Encrypt a p = Inr (a', c) \<and> DES_Decrypt b c = Inr (b', p) \<and> ?R a' b'"
    if "?R a b" and "length p mod 8 = 0" for a b p
    using DES_call_inverse [OF assms(1,2) that(2)] that(1) by blast
  show ?thesis
    using crypt_calls_inverse [where R = ?R and enc = DES_Encrypt and dec = DES_Decrypt
        and ok = "\<lambda>p. length p mod 8 = 0" and cx = cx and cy = cy and ps = ps] call R assms(4)
    by blast
qed

theorem DES_roundtrip_witness:
  "\<exists>cx cy cx' cs cy'.
     DES_CreateContext True (replicate 8 1 @ replicate 8 2 @ replicate 8 3) (replicate 8 5) SEC_DES_EDE3_CBC True = Some cx \<and>
     DES_CreateContext True (replicate 8 1 @ replicate 8 2 @ replicate 8 3) (replicate 8 5) SEC_DES_EDE3_CBC False = Some cy \<and>
     crypt_calls DES_Encrypt cx [replicate 8 1, replicate 16 2] = Inr (cx', cs) \<and>
     crypt_calls DES_Decrypt cy cs = Inr (cy', [replicate 8 1, replicate 16 2])"
  using DES_roundtrip [of True "replicate 8 1 @ replicate 8 2 @ replicate 8 3" "replicate 8 5" SEC_DES_EDE3_CBC _ _ "[replicate 8 1, replicate 16 2]"]
  by (simp add: DES_CreateContext_def Let_def)

section \<open>Padding\<close>

lemma unat_and_not_7: "unat ((x :: u32) AND NOT 7) = unat x div 8 * 8"
proof -
  have m: "(7 :: u32) = mask 3" by (simp add: mask_eq_exp_minus_1)
  have "x AND NOT 7 = push_bit 3 (drop_bit 3 x)"
    unfolding m by (rule bit_word_eqI) (auto simp: bit_simps)
  then have "unat (x AND NOT 7) = 8 * (unat x div 8) mod 2 ^ 32"
    by (simp add: push_bit_eq_mult unat_word_ariths unat_drop_bit_eq drop_bit_eq_div mod_mult_right_eq mult.commute)
  also have "\<dots> = 8 * (unat x div 8)"
    using unsigned_less [of x, where 'a = nat] by (intro mod_less) simp
  finally show ?thesis by simp
qed

lemma DES_pad_length:
  assumes "n + 8 < 2 ^ 32"
  shows "unat (((word_of_nat n :: u32) + 8) AND NOT 7) = (n + 8) div 8 * 8"
proof -
  have "(word_of_nat n :: u32) + 8 = word_of_nat (n + 8)" by simp
  then have "unat ((word_of_nat n :: u32) + 8) = n + 8"
    using assms by (simp only: unat_of_nat) simp
  then show ?thesis by (simp only: unat_and_not_7)
qed

text \<open>
  C27. \<open>DES_PadBuffer\<close> always grows the buffer, by 1 to 8 bytes and to whole blocks, and each
  byte it adds is the number of bytes added, so that the padding can be taken off again.
\<close>

theorem DES_PadBuffer_pads:
  assumes "length inbuf + 8 < 2 ^ 32"
  shows "\<exists>out. DES_PadBuffer True inbuf = Inr out \<and> length out mod 8 = 0 \<and>
    length inbuf < length out \<and> length out \<le> length inbuf + 8 \<and>
    take (length out - unat (last out)) out = inbuf \<and>
    (\<forall>b \<in> set (drop (length inbuf) out). unat b = length out - length inbuf)"
proof -
  let ?n = "length inbuf"
  define m where "m = (?n + 8) div 8 * 8"
  have m: "m mod 8 = 0" "?n < m" "m \<le> ?n + 8" by (auto simp: m_def)
  then have u: "unat (word_of_nat (m - ?n) :: u8) = m - ?n"
    unfolding unat_of_nat by (intro mod_less) simp
  have "DES_PadBuffer True inbuf = Inr (inbuf @ replicate (m - ?n) (word_of_nat (m - ?n)))"
    using m DES_pad_length [OF assms] by (simp add: DES_PadBuffer_def Let_def m_def)
  with m u show ?thesis by (simp add: last_append del: of_nat_diff)
qed

theorem DES_PadBuffer_pads_witness:
  "\<exists>out. DES_PadBuffer True [1, 2, 3, 4, 5, 6, 7, 8] = Inr out \<and> length out mod 8 = 0 \<and> 8 < length out"
  using DES_PadBuffer_pads [of "[1, 2, 3, 4, 5, 6, 7, 8]"] by fastforce

end
