(* ===== verification/CMP_Base.thy ===== *)
theory CMP_Base
  imports Prelude
begin

text \<open>
  The integers of security/lib/crypto/cmp.h. \<open>CMPWord\<close> is a 32 bit word. A \<open>CMPInt\<close> has its allocated
  space in words and the words in use, least significant first; the field \<open>length\<close> of the code is
  the length of that list, and what lies behind it in the allocated block is not kept. The null
  pointer is no space. \<open>mem n\<close> says whether an allocation of \<open>n\<close> words succeeds. Operands and
  results of a routine are different objects. A routine that fails returns its status only.
\<close>

datatype CMPStatus =
    CMP_MEMORY | CMP_INVALID_ADDRESS | CMP_LENGTH | CMP_INVALID_VALUE | CMP_INVALID_ARGUMENT
  | CMP_INSUFFICIENT_SPACE | CMP_ZERO_DIVIDE | CMP_MODULUS | CMP_RANGE | CMP_NEGATIVE | CMP_DOMAIN
  | CMP_INVERSE | CMP_OUTPUT_LENGTH
  | CMP_OUT_OF_BOUNDS   \<comment> \<open>no status: an access outside the block, undefined in C\<close>
  | CMP_NO_RETURN   \<comment> \<open>no status: a loop that does not end, or a division by zero\<close>

record CMPInt =
  cmp_space :: nat
  cmp_words :: "u32 list"

abbreviation cmp_len :: "CMPInt \<Rightarrow> nat" where
  "cmp_len x \<equiv> length (cmp_words x)"

text \<open>Leaving a routine at the first status that is not 0.\<close>

fun on_success :: "'e + 'a \<Rightarrow> ('a \<Rightarrow> 'e + 'b) \<Rightarrow> 'e + 'b" where
  "on_success (Inl e) f = Inl e"
| "on_success (Inr x) f = f x"

lemma on_success_Inr: "on_success m f = Inr y \<longleftrightarrow> (\<exists>x. m = Inr x \<and> f x = Inr y)"
  by (cases m) auto

section \<open>The number that is represented\<close>

fun cmp_val :: "u32 list \<Rightarrow> nat" where
  "cmp_val [] = 0"
| "cmp_val (w # ws) = unat w + 2 ^ 32 * cmp_val ws"

text \<open>The most significant word is not zero, except for the number zero of length 1.\<close>

definition cmp_normal :: "u32 list \<Rightarrow> bool" where
  "cmp_normal ws \<longleftrightarrow> ws \<noteq> [] \<and> (last ws \<noteq> 0 \<or> length ws = 1)"

definition cmp_ok :: "CMPInt \<Rightarrow> bool" where
  "cmp_ok x \<longleftrightarrow> cmp_normal (cmp_words x) \<and> cmp_len x \<le> cmp_space x"

lemma unat_32: "unat (w :: u32) < 4294967296"
  using unsigned_less [of w] by simp

lemma cmp_val_append: "cmp_val (xs @ ys) = cmp_val xs + 2 ^ (32 * length xs) * cmp_val ys"
  by (induction xs) (simp_all add: algebra_simps power_add)

lemma cmp_val_less: "cmp_val ws < 2 ^ (32 * length ws)"
proof (induction ws)
  case (Cons w ws)
  then have "cmp_val ws + 1 \<le> 2 ^ (32 * length ws)" by simp
  then have "2 ^ 32 * (cmp_val ws + 1) \<le> 2 ^ 32 * 2 ^ (32 * length ws)" by (rule mult_le_mono2)
  with unat_32 [of w] show ?case by (simp add: power_add)
qed simp

lemma cmp_val_zeros [simp]: "cmp_val (replicate n 0) = 0"
  by (induction n) simp_all

lemma cmp_val_zeros_append: "cmp_val (replicate n 0 @ ws) = 2 ^ (32 * n) * cmp_val ws"
  by (simp add: cmp_val_append)

lemma cmp_val_0: "cmp_val ws = 0 \<longleftrightarrow> (\<forall>w \<in> set ws. w = 0)"
  by (induction ws) (auto simp: unat_eq_0)

lemma cmp_val_last: "ws \<noteq> [] \<Longrightarrow> cmp_val ws = cmp_val (butlast ws) + 2 ^ (32 * (length ws - 1)) * unat (last ws)"
  using cmp_val_append [of "butlast ws" "[last ws]"] by simp

lemma cmp_val_butlast_0: "ws \<noteq> [] \<Longrightarrow> last ws = 0 \<Longrightarrow> cmp_val (butlast ws) = cmp_val ws"
  by (simp add: cmp_val_last)

lemma cmp_normal_ge: "cmp_normal ws \<Longrightarrow> 1 < length ws \<Longrightarrow> 2 ^ (32 * (length ws - 1)) \<le> cmp_val ws"
proof -
  assume "cmp_normal ws" "1 < length ws"
  then have ne: "ws \<noteq> []" and "last ws \<noteq> 0" by (auto simp: cmp_normal_def)
  then have "1 \<le> unat (last ws)" by (metis less_one not_le unat_eq_0)
  then have "2 ^ (32 * (length ws - 1)) * 1 \<le> 2 ^ (32 * (length ws - 1)) * unat (last ws)" by (rule mult_le_mono2)
  with cmp_val_last [OF ne] show ?thesis by linarith
qed

lemma cmp_val_inj: "length xs = length ys \<Longrightarrow> cmp_val xs = cmp_val ys \<Longrightarrow> xs = ys"
proof (induction xs ys rule: list_induct2)
  case (Cons x xs y ys)
  have "cmp_val (x # xs) mod 2 ^ 32 = unat x" "cmp_val (x # xs) div 2 ^ 32 = cmp_val xs"
    "cmp_val (y # ys) mod 2 ^ 32 = unat y" "cmp_val (y # ys) div 2 ^ 32 = cmp_val ys"
    using unat_32 [of x] unat_32 [of y] by simp_all
  with Cons show ?case by (metis word_unat_eq_iff)
qed simp

lemma cmp_normal_inj:
  assumes "cmp_normal xs" and "cmp_normal ys" and "cmp_val xs = cmp_val ys"
  shows "xs = ys"
proof -
  have le: "length u \<le> length v" if "cmp_normal u" "cmp_normal v" "cmp_val u = cmp_val v" for u v
  proof (rule ccontr)
    assume l: "\<not> length u \<le> length v"
    with that(2) have u: "1 < length u" by (cases v) (auto simp: cmp_normal_def)
    have "(2 :: nat) ^ (32 * length v) \<le> 2 ^ (32 * (length u - 1))" using l by (intro power_increasing) auto
    with cmp_normal_ge [OF that(1) u] cmp_val_less [of v] that(3) show False by linarith
  qed
  show ?thesis by (rule cmp_val_inj [OF le_antisym]) (use le assms in simp_all)
qed

section \<open>Allocation\<close>

text \<open>cmpmem.c. Only \<open>CMP_realloc\<close> keeps the words; both give up the old block when they fail.\<close>

definition CMP_Constructor :: CMPInt where
  "CMP_Constructor = \<lparr>cmp_space = 0, cmp_words = []\<rparr>"

definition CMP_realloc :: "(nat \<Rightarrow> bool) \<Rightarrow> nat \<Rightarrow> CMPInt \<Rightarrow> CMPStatus + CMPInt" where
  "CMP_realloc mem wordsNeeded x =
     (if cmp_space x \<ge> wordsNeeded then Inr x
      else if mem wordsNeeded then Inr (x\<lparr>cmp_space := wordsNeeded\<rparr>)
      else Inl CMP_MEMORY)"

definition CMP_reallocNoCopy :: "(nat \<Rightarrow> bool) \<Rightarrow> nat \<Rightarrow> CMPInt \<Rightarrow> CMPStatus + CMPInt" where
  "CMP_reallocNoCopy mem wordsNeeded x =
     (if cmp_space x \<ge> wordsNeeded then Inr x
      else if mem wordsNeeded then Inr \<lparr>cmp_space = wordsNeeded, cmp_words = []\<rparr>
      else Inl CMP_MEMORY)"

text \<open>
  The two uses in the code: \<open>if (SPACE (x) < needed) if ((status = realloc (asked, x)) != 0) return
  (status)\<close>.
\<close>

definition CMP_ensure :: "(nat \<Rightarrow> bool) \<Rightarrow> nat \<Rightarrow> nat \<Rightarrow> CMPInt \<Rightarrow> CMPStatus + CMPInt" where
  "CMP_ensure mem needed asked x = (if cmp_space x < needed then CMP_realloc mem asked x else Inr x)"

definition CMP_ensureNoCopy :: "(nat \<Rightarrow> bool) \<Rightarrow> nat \<Rightarrow> nat \<Rightarrow> CMPInt \<Rightarrow> CMPStatus + CMPInt" where
  "CMP_ensureNoCopy mem needed asked x =
     (if cmp_space x < needed then CMP_reallocNoCopy mem asked x else Inr x)"

lemma CMP_ensure_cases:
  assumes "needed \<le> asked"
  shows "CMP_ensure mem needed asked x = Inl CMP_MEMORY \<and> \<not> mem asked \<or>
    (\<exists>s. CMP_ensure mem needed asked x = Inr (x\<lparr>cmp_space := s\<rparr>) \<and> needed \<le> s \<and> cmp_space x \<le> s)"
proof (cases "needed \<le> cmp_space x")
  case True
  then show ?thesis by (intro disjI2 exI [of _ "cmp_space x"]) (simp add: CMP_ensure_def)
next
  case False
  with assms show ?thesis by (auto simp: CMP_ensure_def CMP_realloc_def intro!: exI [of _ asked])
qed

lemma CMP_ensureNoCopy_cases:
  assumes "needed \<le> asked"
  shows "CMP_ensureNoCopy mem needed asked x = Inl CMP_MEMORY \<and> \<not> mem asked \<or>
    (\<exists>y. CMP_ensureNoCopy mem needed asked x = Inr y \<and> needed \<le> cmp_space y)"
  using assms by (auto simp: CMP_ensureNoCopy_def CMP_reallocNoCopy_def)

section \<open>Copying and comparing\<close>

definition CMP_Move :: "(nat \<Rightarrow> bool) \<Rightarrow> CMPInt \<Rightarrow> CMPInt \<Rightarrow> CMPStatus + CMPInt" where
  "CMP_Move mem source destination =
     on_success (CMP_ensureNoCopy mem (cmp_len source) (cmp_len source) destination)
       (\<lambda>d. Inr (d\<lparr>cmp_words := cmp_words source\<rparr>))"

lemma CMP_Move_correct:
  assumes "\<And>n. mem n"
  shows "\<exists>d. CMP_Move mem x y = Inr d \<and> cmp_words d = cmp_words x \<and> cmp_len x \<le> cmp_space d"
  using CMP_ensureNoCopy_cases [of "cmp_len x" "cmp_len x" mem y] assms by (auto simp: CMP_Move_def)

text \<open>The loop from the most significant word down: -1, 0 or 1.\<close>

fun CMP_Compare_loop :: "u32 list \<Rightarrow> u32 list \<Rightarrow> int" where
  "CMP_Compare_loop (a # as) (b # bs) =
     (if a = b then CMP_Compare_loop as bs else if a > b then 1 else -1)"
| "CMP_Compare_loop as bs = 0"

definition CMP_Compare :: "CMPInt \<Rightarrow> CMPInt \<Rightarrow> int" where
  "CMP_Compare x y =
     (if cmp_len x = cmp_len y then CMP_Compare_loop (rev (cmp_words x)) (rev (cmp_words y))
      else if cmp_len x > cmp_len y then 1 else -1)"

lemma CMP_Compare_loop_sgn:
  "length xs = length ys \<Longrightarrow> CMP_Compare_loop (rev xs) (rev ys) = sgn (int (cmp_val xs) - int (cmp_val ys))"
proof (induction xs ys rule: rev_induct2)
  case (4 x xs y ys)
  then have l: "length xs = length ys" by simp
  let ?B = "2 ^ (32 * length ys) :: nat"
  have lt: "cmp_val xs < ?B" "cmp_val ys < ?B" using cmp_val_less [of xs] cmp_val_less [of ys] l by simp_all
  have v: "cmp_val (xs @ [x]) = cmp_val xs + ?B * unat x" "cmp_val (ys @ [y]) = cmp_val ys + ?B * unat y"
    using l by (simp_all add: cmp_val_append)
  consider "x = y" | "unat y < unat x" | "unat x < unat y"
    by (metis linorder_neqE_nat word_unat_eq_iff)
  then show ?case
  proof cases
    case 1
    with 4 l v show ?thesis by simp
  next
    case 2
    then have "?B * (unat y + 1) \<le> ?B * unat x" by (intro mult_le_mono2) simp
    with v lt have "cmp_val (ys @ [y]) < cmp_val (xs @ [x])" by simp
    moreover have "y < x" using 2 by (simp add: word_less_nat_alt)
    ultimately show ?thesis by auto
  next
    case 3
    then have "?B * (unat x + 1) \<le> ?B * unat y" by (intro mult_le_mono2) simp
    with v lt have "cmp_val (xs @ [x]) < cmp_val (ys @ [y])" by simp
    moreover have "x < y" using 3 by (simp add: word_less_nat_alt)
    ultimately show ?thesis by auto
  qed
qed auto

lemma cmp_longer_greater:
  assumes "cmp_normal xs" and "length ys < length xs" and "ys \<noteq> []"
  shows "cmp_val ys < cmp_val xs"
proof -
  have "1 < length xs" using assms by (cases ys) auto
  from cmp_normal_ge [OF assms(1) this] have "2 ^ (32 * (length xs - 1)) \<le> cmp_val xs" .
  moreover have "(2 :: nat) ^ (32 * length ys) \<le> 2 ^ (32 * (length xs - 1))"
    using assms(2) by (intro power_increasing) auto
  ultimately show ?thesis using cmp_val_less [of ys] by linarith
qed

lemma CMP_Compare_sgn:
  assumes "cmp_normal (cmp_words x)" and "cmp_normal (cmp_words y)"
  shows "CMP_Compare x y = sgn (int (cmp_val (cmp_words x)) - int (cmp_val (cmp_words y)))"
proof -
  have ne: "cmp_words x \<noteq> []" "cmp_words y \<noteq> []" using assms by (auto simp: cmp_normal_def)
  consider "cmp_len x = cmp_len y" | "cmp_len y < cmp_len x" | "cmp_len x < cmp_len y" by linarith
  then show ?thesis
  proof cases
    case 1
    then show ?thesis by (simp add: CMP_Compare_def CMP_Compare_loop_sgn)
  next
    case 2
    with cmp_longer_greater [OF assms(1) 2 ne(2)] show ?thesis by (simp add: CMP_Compare_def)
  next
    case 3
    with cmp_longer_greater [OF assms(2) 3 ne(1)] show ?thesis by (simp add: CMP_Compare_def)
  qed
qed

lemma CMP_Compare_iff:
  assumes "cmp_normal (cmp_words x)" and "cmp_normal (cmp_words y)"
  shows "CMP_Compare x y < 0 \<longleftrightarrow> cmp_val (cmp_words x) < cmp_val (cmp_words y)"
    and "CMP_Compare x y > 0 \<longleftrightarrow> cmp_val (cmp_words x) > cmp_val (cmp_words y)"
    and "CMP_Compare x y \<ge> 0 \<longleftrightarrow> cmp_val (cmp_words x) \<ge> cmp_val (cmp_words y)"
    and "CMP_Compare x y \<le> 0 \<longleftrightarrow> cmp_val (cmp_words x) \<le> cmp_val (cmp_words y)"
    and "CMP_Compare x y = 0 \<longleftrightarrow> cmp_val (cmp_words x) = cmp_val (cmp_words y)"
  by (simp_all add: CMP_Compare_sgn [OF assms] sgn_if)

end
