(* ===== verification/CMP_Arith.thy ===== *)
theory CMP_Arith
  imports CMP_Base
begin

text \<open>
  Addition and subtraction: cmparith.c, and the routines of cmpspprt.c that work in place. The
  loops over words are recursions on the lists of words.
\<close>

section \<open>The model\<close>

text \<open>The loop over the words of the shorter operand: the sum, the carry, and the words left.\<close>

fun CMP_add_loop :: "u32 \<Rightarrow> u32 list \<Rightarrow> u32 list \<Rightarrow> u32 list \<times> u32 \<times> u32 list" where
  "CMP_add_loop carry (a1 # a1s) (a2 # a2s) =
     (let intermediateSum = a2 + a1;
          s = intermediateSum + carry;
          carry = (if intermediateSum < a2 \<or> s < intermediateSum then 1 else 0);
          (ss, carry, rest) = CMP_add_loop carry a1s a2s
      in (s # ss, carry, rest))"
| "CMP_add_loop carry a1s [] = ([], carry, a1s)"
| "CMP_add_loop carry [] a2s = ([], carry, [])"

fun CMP_carry_loop :: "u32 \<Rightarrow> u32 list \<Rightarrow> u32 list \<times> u32" where
  "CMP_carry_loop carry [] = ([], carry)"
| "CMP_carry_loop carry (a # as) =
     (let s = a + carry; carry = (if s < a then 1 else 0); (ss, carry) = CMP_carry_loop carry as
      in (s # ss, carry))"

definition CMP_Add :: "(nat \<Rightarrow> bool) \<Rightarrow> CMPInt \<Rightarrow> CMPInt \<Rightarrow> CMPInt \<Rightarrow> CMPStatus + CMPInt" where
  "CMP_Add mem addend1 addend2 result =
     (let (a1, a2) = (if cmp_len addend1 \<ge> cmp_len addend2 then (cmp_words addend1, cmp_words addend2)
                      else (cmp_words addend2, cmp_words addend1))
      in on_success (CMP_ensureNoCopy mem (length a1) (length a1 + 1) result) (\<lambda>result.
           let (low, carry, rest) = CMP_add_loop 0 a1 a2;
               (high, carry) = CMP_carry_loop carry rest;
               result = result\<lparr>cmp_words := low @ high\<rparr>
           in if carry = 0 then Inr result
              else on_success (CMP_ensure mem (length a1 + 1) (length a1 + 1) result) (\<lambda>result.
                     Inr (result\<lparr>cmp_words := cmp_words result @ [1]\<rparr>))))"

text \<open>Adding 1 until there is no carry; the flag says that one is left.\<close>

fun CMP_inc_loop :: "u32 list \<Rightarrow> u32 list \<times> bool" where
  "CMP_inc_loop [] = ([], True)"
| "CMP_inc_loop (w # ws) =
     (let w = w + 1 in if w \<noteq> 0 then (w # ws, False) else (let (ws, c) = CMP_inc_loop ws in (w # ws, c)))"

definition CMP_AddCMPWord :: "(nat \<Rightarrow> bool) \<Rightarrow> u32 \<Rightarrow> CMPInt \<Rightarrow> CMPStatus + CMPInt" where
  "CMP_AddCMPWord mem increment base =
     (case cmp_words base of [] \<Rightarrow> Inl CMP_OUT_OF_BOUNDS | w # rest \<Rightarrow>
        (let w0 = w + increment
         in if w0 \<ge> increment then Inr (base\<lparr>cmp_words := w0 # rest\<rparr>)
            else (let (rest, carry) = CMP_inc_loop rest; base = base\<lparr>cmp_words := w0 # rest\<rparr>
                  in if \<not> carry then Inr base
                     else on_success (CMP_ensure mem (cmp_len base + 1) (cmp_len base + 2) base) (\<lambda>base.
                            Inr (base\<lparr>cmp_words := cmp_words base @ [1]\<rparr>)))))"

text \<open>\<open>while ((WORD (x, len - 1) == 0) && (len > 1)) len--\<close>\<close>

function CMP_strip :: "u32 list \<Rightarrow> u32 list" where
  "CMP_strip ws = (if length ws > 1 \<and> last ws = 0 then CMP_strip (butlast ws) else ws)"
  by pat_completeness auto
termination
  by (relation "measure length") auto

declare CMP_strip.simps [simp del]

text \<open>The loop of \<open>CMP_Subtract\<close> over the words of the subtrahend: difference, borrow, words left.\<close>

fun CMP_sub_loop :: "bool \<Rightarrow> u32 list \<Rightarrow> u32 list \<Rightarrow> u32 list \<times> bool \<times> u32 list" where
  "CMP_sub_loop borrow (m # ms) (s # ss) =
     (let d = m - s;
          (d, borrow) = (if \<not> borrow then (d, d > m) else (d - 1, d - 1 \<ge> m));
          (ds, borrow, rest) = CMP_sub_loop borrow ms ss
      in (d # ds, borrow, rest))"
| "CMP_sub_loop borrow ms [] = ([], borrow, ms)"
| "CMP_sub_loop borrow [] ss = ([], borrow, [])"

fun CMP_borrow_loop :: "bool \<Rightarrow> u32 list \<Rightarrow> u32 list \<times> bool" where
  "CMP_borrow_loop borrow [] = ([], borrow)"
| "CMP_borrow_loop borrow (m # ms) =
     (let d = m - (if borrow then 1 else 0); (ds, borrow) = CMP_borrow_loop (d > m) ms
      in (d # ds, borrow))"

definition CMP_Subtract :: "(nat \<Rightarrow> bool) \<Rightarrow> CMPInt \<Rightarrow> CMPInt \<Rightarrow> CMPInt \<Rightarrow> CMPStatus + CMPInt" where
  "CMP_Subtract mem minuend subtrahend difference =
     (if cmp_len subtrahend > cmp_len minuend then Inl CMP_NEGATIVE
      else on_success (CMP_ensureNoCopy mem (cmp_len minuend) (cmp_len minuend + 1) difference) (\<lambda>difference.
        let (ds, borrow, rest) = CMP_sub_loop False (cmp_words minuend) (cmp_words subtrahend)
        in if rest = []
           then (if borrow then Inl CMP_NEGATIVE else Inr (difference\<lparr>cmp_words := ds\<rparr>))
           else if \<not> borrow then Inr (difference\<lparr>cmp_words := ds @ rest\<rparr>)
           else (let (high, borrow) = CMP_borrow_loop borrow rest
                 in if borrow then Inl CMP_NEGATIVE
                    else Inr (difference\<lparr>cmp_words := CMP_strip (ds @ high)\<rparr>))))"

text \<open>Subtracting 1 until there is no borrow; the number is that of words passed over.\<close>

fun CMP_dec_loop :: "u32 list \<Rightarrow> u32 list \<times> nat" where
  "CMP_dec_loop [] = ([], 0)"
| "CMP_dec_loop (w # ws) =
     (let w = w - 1
      in if w \<noteq> 0xffffffff then (w # ws, 0) else (let (ws, n) = CMP_dec_loop ws in (w # ws, n + 1)))"

definition CMP_SubtractCMPWord :: "u32 \<Rightarrow> CMPInt \<Rightarrow> CMPStatus + CMPInt" where
  "CMP_SubtractCMPWord decrement base =
     (case cmp_words base of [] \<Rightarrow> Inl CMP_OUT_OF_BOUNDS | w0 # rest \<Rightarrow>
        (if w0 \<ge> decrement then Inr (base\<lparr>cmp_words := (w0 - decrement) # rest\<rparr>)
         else (let (rest, n) = CMP_dec_loop rest;
                   pos = n + 1;
                   mswIndex = cmp_len base - 1;
                   ws = (w0 - decrement) # rest
               in if pos < mswIndex then Inr (base\<lparr>cmp_words := ws\<rparr>)
                  else if pos > mswIndex then Inl CMP_NEGATIVE
                  else if ws ! pos = 0 then Inr (base\<lparr>cmp_words := butlast ws\<rparr>)
                  else Inr (base\<lparr>cmp_words := ws\<rparr>))))"

definition CMP_AddInPlace :: "(nat \<Rightarrow> bool) \<Rightarrow> CMPInt \<Rightarrow> CMPInt \<Rightarrow> CMPStatus + CMPInt" where
  "CMP_AddInPlace mem increment base =
     on_success
       (if cmp_len base < cmp_len increment
        then on_success (CMP_ensure mem (cmp_len increment) (cmp_len increment + 1) base) (\<lambda>base.
               Inr (base\<lparr>cmp_words := cmp_words base @ replicate (cmp_len increment - cmp_len base) 0\<rparr>))
        else Inr base)
       (\<lambda>base.
          let (low, carry, rest) = CMP_add_loop 0 (cmp_words base) (cmp_words increment)
          in if carry = 0 then Inr (base\<lparr>cmp_words := low @ rest\<rparr>)
             else (let (high, c) = CMP_inc_loop rest; base = base\<lparr>cmp_words := low @ high\<rparr>
                   in if \<not> c then Inr base
                      else on_success (CMP_ensure mem (cmp_len base + 1) (cmp_len base + 1) base) (\<lambda>base.
                             Inr (base\<lparr>cmp_words := cmp_words base @ [1]\<rparr>))))"

text \<open>The inner loop of \<open>CMP_SubtractInPlace\<close>, and the outer one with its variable \<open>carry\<close>.\<close>

fun CMP_borrow_in :: "u32 list \<Rightarrow> u32 list \<times> bool" where
  "CMP_borrow_in [] = ([], True)"
| "CMP_borrow_in (w # ws) =
     (let v = w - 1 in if v > w then (let (ws, c) = CMP_borrow_in ws in (v # ws, c)) else (v # ws, False))"

fun CMP_sub_in :: "u32 list \<Rightarrow> u32 list \<Rightarrow> bool \<Rightarrow> u32 list \<times> bool" where
  "CMP_sub_in (b # bs) (d # ds) carry =
     (let v = b - d;
          (bs, carry) = (if v > b then CMP_borrow_in bs else (bs, False));
          (bs, carry) = CMP_sub_in bs ds carry
      in (v # bs, carry))"
| "CMP_sub_in bs ds carry = (bs, carry)"

definition CMP_SubtractInPlace :: "CMPInt \<Rightarrow> CMPInt \<Rightarrow> CMPStatus + CMPInt" where
  "CMP_SubtractInPlace decrement base =
     (if cmp_len decrement > cmp_len base then Inl CMP_NEGATIVE
      else (let (ws, carry) = CMP_sub_in (cmp_words base) (cmp_words decrement) False
            in if carry then Inl CMP_NEGATIVE else Inr (base\<lparr>cmp_words := CMP_strip ws\<rparr>)))"

section \<open>Words\<close>

lemma word_add_carry:
  fixes a b c :: u32
  assumes "c \<le> 1"
  shows "unat (b + a + c) + 4294967296 * unat (if b + a < b \<or> b + a + c < b + a then 1 else 0 :: u32)
    = unat a + unat b + unat c"
proof -
  have "unat c \<le> 1" using assms by (simp add: word_le_nat_alt)
  then show ?thesis
    using unat_32 [of a] unat_32 [of b] by (auto simp: word_less_nat_alt unat_plus_if')
qed

lemma word_sub_borrow:
  fixes m s :: u32
  shows "unat m + 4294967296 * of_bool (m - s > m) = unat (m - s) + unat s"
    and "unat m + 4294967296 * of_bool (m - s - 1 \<ge> m) = unat (m - s - 1) + unat s + 1"
  using unat_32 [of m] unat_32 [of s]
  by (auto simp: word_less_nat_alt word_le_nat_alt unat_sub_if')

section \<open>Addition\<close>

lemma CMP_add_loop_val:
  "CMP_add_loop c a1s a2s = (ss, c', rest) \<Longrightarrow> c \<le> 1 \<Longrightarrow> length a2s \<le> length a1s \<Longrightarrow>
   c' \<le> 1 \<and> length ss = length a2s \<and> rest = drop (length a2s) a1s \<and>
   cmp_val ss + 2 ^ (32 * length a2s) * unat c' = cmp_val (take (length a2s) a1s) + cmp_val a2s + unat c"
proof (induction c a1s a2s arbitrary: ss rule: CMP_add_loop.induct)
  case (1 c a1 a1s a2 a2s)
  define i where "i = a2 + a1"
  define d where "d = (if i < a2 \<or> i + c < i then 1 else 0 :: u32)"
  obtain ts where r: "CMP_add_loop d a1s a2s = (ts, c', rest)" "ss = (i + c) # ts"
    using "1.prems"(1) by (auto simp: i_def d_def Let_def split: prod.splits)
  have w: "unat (i + c) + 4294967296 * unat d = unat a1 + unat a2 + unat c"
    using word_add_carry [OF "1.prems"(2), of a2 a1] by (simp add: i_def d_def)
  have "d \<le> 1" by (simp add: d_def)
  with "1.IH" [OF i_def refl d_def r(1)] "1.prems"(3) have
    IH: "c' \<le> 1" "length ts = length a2s" "rest = drop (length a2s) a1s"
      "cmp_val ts + 2 ^ (32 * length a2s) * unat c' = cmp_val (take (length a2s) a1s) + cmp_val a2s + unat d"
    by simp_all
  have "cmp_val ss + 2 ^ (32 * length (a2 # a2s)) * unat c'
      = unat (i + c) + 4294967296 * (cmp_val ts + 2 ^ (32 * length a2s) * unat c')"
    by (simp add: r(2) power_add algebra_simps)
  with w IH show ?case by (simp add: r(2) algebra_simps)
qed simp_all

lemma CMP_carry_loop_val:
  "CMP_carry_loop c as = (ss, c') \<Longrightarrow> c \<le> 1 \<Longrightarrow>
   c' \<le> 1 \<and> length ss = length as \<and> cmp_val ss + 2 ^ (32 * length as) * unat c' = cmp_val as + unat c"
proof (induction c as arbitrary: ss rule: CMP_carry_loop.induct)
  case (2 c a as)
  define d where "d = (if a + c < a then 1 else 0 :: u32)"
  obtain ts where r: "CMP_carry_loop d as = (ts, c')" "ss = (a + c) # ts"
    using "2.prems"(1) by (auto simp: d_def Let_def split: prod.splits)
  have w: "unat (a + c) + 4294967296 * unat d = unat a + unat c"
    using word_add_carry [OF "2.prems"(2), of a 0] by (simp add: d_def)
  have "d \<le> 1" by (simp add: d_def)
  with "2.IH" [OF refl d_def r(1)] have
    IH: "c' \<le> 1" "length ts = length as" "cmp_val ts + 2 ^ (32 * length as) * unat c' = cmp_val as + unat d"
    by simp_all
  have "cmp_val ss + 2 ^ (32 * length (a # as)) * unat c'
      = unat (a + c) + 4294967296 * (cmp_val ts + 2 ^ (32 * length as) * unat c')"
    by (simp add: r(2) power_add algebra_simps)
  with w IH show ?case by (simp add: r(2) algebra_simps)
qed simp

lemma word_le_1: "(c :: u32) \<le> 1 \<Longrightarrow> c = 0 \<or> c = 1"
  by (metis leD linorder_neqE word_less_1)

text \<open>A sum keeps its most significant word from being zero.\<close>

lemma cmp_normal_if_ge:
  assumes "ws \<noteq> []" and "length ws = 1 \<or> 2 ^ (32 * (length ws - 1)) \<le> cmp_val ws"
  shows "cmp_normal ws"
proof (rule ccontr)
  assume n: "\<not> cmp_normal ws"
  with assms have l: "last ws = 0" "length ws \<noteq> 1" "2 ^ (32 * (length ws - 1)) \<le> cmp_val ws"
    by (auto simp: cmp_normal_def)
  then show False
    using cmp_val_less [of "butlast ws"] cmp_val_butlast_0 [OF assms(1)] by simp
qed

lemma cmp_normal_iff:
  "cmp_normal ws \<longleftrightarrow> ws \<noteq> [] \<and> (length ws = 1 \<or> 2 ^ (32 * (length ws - 1)) \<le> cmp_val ws)"
proof (cases "1 < length ws")
  case True
  then show ?thesis
    by (metis cmp_normal_ge cmp_normal_if_ge list.size(3) not_one_less_zero)
next
  case False
  then have "length ws = 0 \<or> length ws = 1" by linarith
  then show ?thesis
  proof
    assume "length ws = 1"
    then show ?thesis by (simp only: cmp_normal_def) auto
  qed (simp add: cmp_normal_def)
qed

lemma CMP_Add_correct:
  assumes mem: "\<And>n. mem n" and n: "cmp_normal (cmp_words x)" "cmp_normal (cmp_words y)"
  shows "\<exists>z. CMP_Add mem x y s = Inr z \<and> cmp_ok z \<and>
    cmp_val (cmp_words z) = cmp_val (cmp_words x) + cmp_val (cmp_words y)"
proof -
  define a1 where "a1 = (if cmp_len x \<ge> cmp_len y then cmp_words x else cmp_words y)"
  define a2 where "a2 = (if cmp_len x \<ge> cmp_len y then cmp_words y else cmp_words x)"
  have le: "length a2 \<le> length a1" and na: "cmp_normal a1"
    and val: "cmp_val a1 + cmp_val a2 = cmp_val (cmp_words x) + cmp_val (cmp_words y)"
    using n by (simp_all add: a1_def a2_def)
  obtain low c rest where 1: "CMP_add_loop 0 a1 a2 = (low, c, rest)" by (metis prod_cases3)
  from CMP_add_loop_val [OF 1 _ le] have L: "c \<le> 1" "length low = length a2" "rest = drop (length a2) a1"
    "cmp_val low + 2 ^ (32 * length a2) * unat c = cmp_val (take (length a2) a1) + cmp_val a2" by simp_all
  obtain high d where 2: "CMP_carry_loop c rest = (high, d)" by fastforce
  from CMP_carry_loop_val [OF 2 L(1)] have H: "d \<le> 1" "length high = length rest"
    "cmp_val high + 2 ^ (32 * length rest) * unat d = cmp_val rest + unat c" by blast+
  have len: "length (low @ high) = length a1" using le by (simp add: L H)
  define B where "B = (2 :: nat) ^ (32 * length a2)"
  have B: "2 ^ (32 * length a1) = B * 2 ^ (32 * length rest)"
    using le by (simp add: B_def L(3) flip: power_add)
  have a1: "cmp_val a1 = cmp_val (take (length a2) a1) + B * cmp_val rest"
    using cmp_val_append [of "take (length a2) a1" rest] le by (simp add: L(3) B_def)
  have "cmp_val (low @ high) + 2 ^ (32 * length a1) * unat d
      = cmp_val low + B * (cmp_val high + 2 ^ (32 * length rest) * unat d)"
    unfolding B by (simp add: cmp_val_append L(2) B_def algebra_simps)
  also have "\<dots> = (cmp_val low + B * unat c) + B * cmp_val rest"
    unfolding H(3) by (simp add: algebra_simps)
  also have "\<dots> = cmp_val a1 + cmp_val a2"
    using L(4) a1 by (simp add: B_def)
  finally have sum: "cmp_val (low @ high) + 2 ^ (32 * length a1) * unat d = cmp_val a1 + cmp_val a2" .
  obtain z0 where z0: "CMP_ensureNoCopy mem (length a1) (length a1 + 1) s = Inr z0" "length a1 \<le> cmp_space z0"
    using CMP_ensureNoCopy_cases [of "length a1" "length a1 + 1" mem s] mem by auto
  let ?z = "z0\<lparr>cmp_words := low @ high\<rparr>"
  have def: "CMP_Add mem x y s = (if d = 0 then Inr ?z
      else on_success (CMP_ensure mem (length a1 + 1) (length a1 + 1) ?z) (\<lambda>z.
        Inr (z\<lparr>cmp_words := cmp_words z @ [1]\<rparr>)))"
    using z0 1 2 by (auto simp: CMP_Add_def a1_def a2_def)
  show ?thesis
  proof (cases "d = 0")
    case True
    have "cmp_val a1 \<le> cmp_val (low @ high)" using sum True by simp
    then have "cmp_normal (low @ high)" using na len by (auto simp: cmp_normal_iff)
    with True def sum val len z0 show ?thesis by (simp add: cmp_ok_def)
  next
    case False
    with word_le_1 [OF H(1)] have d: "d = 1" by simp
    from CMP_ensure_cases [of "length a1 + 1" "length a1 + 1" mem ?z] mem obtain sp where
      e: "CMP_ensure mem (length a1 + 1) (length a1 + 1) ?z = Inr (?z\<lparr>cmp_space := sp\<rparr>)" "length a1 + 1 \<le> sp"
      by auto
    have "cmp_val (low @ high @ [1]) = cmp_val a1 + cmp_val a2"
      using sum len d cmp_val_append [of "low @ high" "[1]"] by simp
    with e def d val len show ?thesis by (simp add: cmp_ok_def cmp_normal_def)
  qed
qed

lemma CMP_inc_loop_val:
  "CMP_inc_loop ws = (vs, c) \<Longrightarrow> length vs = length ws \<and>
   cmp_val vs + 2 ^ (32 * length ws) * of_bool c = cmp_val ws + 1"
proof (induction ws arbitrary: vs)
  case (Cons w ws)
  show ?case
  proof (cases "w + 1 = 0")
    case True
    then have "unat w + 1 = 4294967296"
      using unat_plus_if' [of w 1] unat_32 [of w] by (auto split: if_splits)
    moreover obtain us where "CMP_inc_loop ws = (us, c)" "vs = 0 # us"
      using Cons.prems True by (auto simp: Let_def split: prod.splits)
    ultimately show ?thesis using Cons.IH [of us] by (auto simp: power_add algebra_simps)
  next
    case False
    then have "unat (w + 1) = unat w + 1"
      using unat_plus_if' [of w 1] unat_32 [of w] by (auto simp: unat_eq_0 split: if_splits)
    with False Cons.prems show ?thesis by auto
  qed
qed simp

lemma CMP_AddCMPWord_correct:
  assumes mem: "\<And>n. mem n" and n: "cmp_ok x"
  shows "\<exists>z. CMP_AddCMPWord mem w x = Inr z \<and> cmp_ok z \<and>
    cmp_val (cmp_words z) = cmp_val (cmp_words x) + unat w"
proof -
  obtain v vs where x: "cmp_words x = v # vs" using n by (cases "cmp_words x") (auto simp: cmp_ok_def cmp_normal_def)
  have le: "cmp_normal (v # vs)" "length (v # vs) \<le> cmp_space x" using n by (simp_all add: cmp_ok_def x)
  have keep: "cmp_normal us" if "length us = length (v # vs)" "cmp_val (v # vs) \<le> cmp_val us" for us
    using le(1) that by (auto simp: cmp_normal_iff)
  show ?thesis
  proof (cases "v + w \<ge> w")
    case True
    then have "unat (v + w) = unat v + unat w"
      using unat_32 [of v] unat_32 [of w] by (auto simp: word_le_nat_alt unat_plus_if' split: if_splits)
    with True keep [of "(v + w) # vs"] le show ?thesis
      by (simp add: CMP_AddCMPWord_def x cmp_ok_def)
  next
    case False
    then have s: "unat (v + w) + 4294967296 = unat v + unat w"
      using unat_32 [of v] unat_32 [of w] by (auto simp: word_le_nat_alt unat_plus_if' split: if_splits)
    obtain us c where i: "CMP_inc_loop vs = (us, c)" by fastforce
    from CMP_inc_loop_val [OF i] have u: "length us = length vs"
      "cmp_val us + 2 ^ (32 * length vs) * of_bool c = cmp_val vs + 1" by simp_all
    let ?z = "x\<lparr>cmp_words := (v + w) # us\<rparr>"
    show ?thesis
    proof (cases c)
      case True
      from CMP_ensure_cases [of "cmp_len ?z + 1" "cmp_len ?z + 2" mem ?z] mem obtain sp where
        e: "CMP_ensure mem (cmp_len ?z + 1) (cmp_len ?z + 2) ?z = Inr (?z\<lparr>cmp_space := sp\<rparr>)" "cmp_len ?z + 1 \<le> sp"
        by auto
      have "cmp_val (((v + w) # us) @ [1]) = cmp_val (v # vs) + unat w"
        using u s True by (simp add: cmp_val_append power_add algebra_simps)
      with e False i True show ?thesis
        by (simp add: CMP_AddCMPWord_def x cmp_ok_def cmp_normal_def)
    next
      case nc: False
      have "cmp_val ((v + w) # us) = cmp_val (v # vs) + unat w" using u s nc by simp
      with keep [of "(v + w) # us"] u le False i nc show ?thesis
        by (simp add: CMP_AddCMPWord_def x cmp_ok_def)
    qed
  qed
qed

section \<open>Subtraction\<close>

lemma CMP_strip_props:
  assumes "ws \<noteq> []"
  shows "cmp_val (CMP_strip ws) = cmp_val ws" and "cmp_normal (CMP_strip ws)"
    and "length (CMP_strip ws) \<le> length ws"
  using assms
proof (induction ws rule: CMP_strip.induct)
  case (1 ws)
  {
    case 1
    then show ?case using "1.IH"(1) cmp_val_butlast_0 [of ws]
      by (subst CMP_strip.simps) (cases ws, auto)
  next
    case 2
    then show ?case using "1.IH"(2)
      by (subst CMP_strip.simps) (cases ws, auto simp: cmp_normal_def)
  next
    case 3
    then show ?case using "1.IH"(3)
      by (subst CMP_strip.simps) (cases ws, auto)
  }
qed

lemma CMP_sub_loop_val:
  "CMP_sub_loop b ms ss = (ds, b', rest) \<Longrightarrow> length ss \<le> length ms \<Longrightarrow>
   length ds = length ss \<and> rest = drop (length ss) ms \<and>
   cmp_val (take (length ss) ms) + 2 ^ (32 * length ss) * of_bool b' = cmp_val ds + cmp_val ss + of_bool b"
proof (induction b ms ss arbitrary: ds rule: CMP_sub_loop.induct)
  case (1 b m ms s ss)
  define d where "d = (if \<not> b then m - s else m - s - 1)"
  define c where "c = (if \<not> b then m - s > m else m - s - 1 \<ge> m)"
  obtain ts where r: "CMP_sub_loop c ms ss = (ts, b', rest)" "ds = d # ts"
    using "1.prems"(1) by (auto simp: d_def c_def Let_def split: prod.splits if_splits)
  have w: "unat m + 4294967296 * of_bool c = unat d + unat s + of_bool b"
    using word_sub_borrow [of m s] by (simp add: d_def c_def)
  have dc: "(d, c) = (if \<not> b then (m - s, m - s > m) else (m - s - 1, m - s - 1 \<ge> m))"
    by (simp add: d_def c_def)
  from "1.IH" [OF refl dc refl r(1)] "1.prems"(2) have
    IH: "length ts = length ss" "rest = drop (length ss) ms"
      "cmp_val (take (length ss) ms) + 2 ^ (32 * length ss) * of_bool b' = cmp_val ts + cmp_val ss + of_bool c"
    by simp_all
  have "cmp_val (take (length (s # ss)) (m # ms)) + 2 ^ (32 * length (s # ss)) * of_bool b'
      = unat m + 4294967296 * (cmp_val (take (length ss) ms) + 2 ^ (32 * length ss) * of_bool b')"
    by (simp add: power_add algebra_simps)
  with w IH show ?case by (simp add: r(2) algebra_simps)
qed simp_all

lemma CMP_borrow_loop_val:
  "CMP_borrow_loop b ms = (ds, b') \<Longrightarrow>
   length ds = length ms \<and> cmp_val ms + 2 ^ (32 * length ms) * of_bool b' = cmp_val ds + of_bool b"
proof (induction b ms arbitrary: ds rule: CMP_borrow_loop.induct)
  case (2 b m ms)
  define d where "d = m - (if b then 1 else 0)"
  obtain ts where r: "CMP_borrow_loop (d > m) ms = (ts, b')" "ds = d # ts"
    using "2.prems" by (auto simp: d_def Let_def split: prod.splits)
  have w: "unat m + 4294967296 * of_bool (d > m) = unat d + of_bool b"
    using word_sub_borrow(1) [of m 1] by (simp add: d_def)
  from "2.IH" [OF d_def r(1)] have
    IH: "length ts = length ms" "cmp_val ms + 2 ^ (32 * length ms) * of_bool b' = cmp_val ts + of_bool (d > m)"
    by simp_all
  have "cmp_val (m # ms) + 2 ^ (32 * length (m # ms)) * of_bool b'
      = unat m + 4294967296 * (cmp_val ms + 2 ^ (32 * length ms) * of_bool b')"
    by (simp add: power_add algebra_simps)
  with w IH show ?case by (simp add: r(2) algebra_simps)
qed simp

text \<open>
  The difference. Only when the operands have different lengths it is sure to be without a zero
  word at its end.
\<close>

lemma CMP_Subtract_gen:
  assumes mem: "\<And>n. mem n" and n: "cmp_normal (cmp_words x)" "cmp_words y \<noteq> []"
    and len: "cmp_len y \<le> cmp_len x" and le: "cmp_val (cmp_words y) \<le> cmp_val (cmp_words x)"
  shows "\<exists>z. CMP_Subtract mem x y s = Inr z \<and> cmp_len z \<le> cmp_len x \<and> cmp_len x \<le> cmp_space z \<and> cmp_words z \<noteq> [] \<and>
    cmp_val (cmp_words z) = cmp_val (cmp_words x) - cmp_val (cmp_words y) \<and>
    (cmp_len x \<noteq> cmp_len y \<longrightarrow> cmp_normal (cmp_words z)) \<and> (cmp_len x = cmp_len y \<longrightarrow> cmp_len z = cmp_len x)"
proof -
  let ?m = "cmp_words x" and ?s = "cmp_words y"
  have ne: "?m \<noteq> []" "?s \<noteq> []" using n by (auto simp: cmp_normal_def)
  obtain ds b rest where r: "CMP_sub_loop False ?m ?s = (ds, b, rest)" by (metis prod_cases3)
  from CMP_sub_loop_val [OF r len] have L: "length ds = length ?s" "rest = drop (length ?s) ?m"
    "cmp_val (take (length ?s) ?m) + 2 ^ (32 * length ?s) * of_bool b = cmp_val ds + cmp_val ?s" by simp_all
  have val: "cmp_val ?m = cmp_val (take (length ?s) ?m) + 2 ^ (32 * length ?s) * cmp_val rest"
    using cmp_val_append [of "take (length ?s) ?m" rest] len by (simp add: L(2))
  obtain z where z: "CMP_ensureNoCopy mem (cmp_len x) (cmp_len x + 1) s = Inr z" "cmp_len x \<le> cmp_space z"
    using CMP_ensureNoCopy_cases [of "cmp_len x" "cmp_len x + 1" mem s] mem by auto
  consider "rest = []" | "rest \<noteq> []" "\<not> b" | "rest \<noteq> []" "b" by blast
  then show ?thesis
  proof cases
    case 1
    then have eq: "length ?m = length ?s" using len by (simp add: L(2))
    have "\<not> b"
    proof
      assume b
      with L(3) val 1 le have "2 ^ (32 * length ?s) \<le> cmp_val ds" by simp
      with cmp_val_less [of ds] L(1) show False by simp
    qed
    then have "CMP_Subtract mem x y s = Inr (z\<lparr>cmp_words := ds\<rparr>)"
      using r z eq 1 by (simp add: CMP_Subtract_def)
    moreover have "cmp_val ds = cmp_val ?m - cmp_val ?s" using \<open>\<not> b\<close> L(3) val 1 by simp
    moreover have "ds \<noteq> []" using L(1) ne(2) by auto
    ultimately show ?thesis using L(1) eq z(2) by simp
  next
    case 2
    then have "last (ds @ rest) = last ?m" using len by (simp add: L(2))
    then have "cmp_normal (ds @ rest)" using n(1) 2 len L(1,2) by (auto simp: cmp_normal_def)
    moreover have "cmp_val (ds @ rest) = cmp_val ?m - cmp_val ?s"
      using L(1,3) val 2 by (simp add: cmp_val_append)
    moreover have "CMP_Subtract mem x y s = Inr (z\<lparr>cmp_words := ds @ rest\<rparr>)"
      using r 2 z len by (simp add: CMP_Subtract_def)
    moreover have "length (ds @ rest) = length ?m" "length ?m \<noteq> length ?s" using len L(1,2) 2 by auto
    ultimately show ?thesis using z(2) by (intro exI [of _ "z\<lparr>cmp_words := ds @ rest\<rparr>"]) (simp add: cmp_normal_def)
  next
    case 3
    obtain high c where h: "CMP_borrow_loop b rest = (high, c)" by fastforce
    from CMP_borrow_loop_val [OF h] 3 have H: "length high = length rest"
      "cmp_val rest + 2 ^ (32 * length rest) * of_bool c = cmp_val high + 1" by simp_all
    have "\<not> c"
    proof
      assume c
      with H cmp_val_less [of high] have "cmp_val rest = 0" by simp
      with val L(3) 3 le have "2 ^ (32 * length ?s) \<le> cmp_val ds" by simp
      with cmp_val_less [of ds] L(1) show False by simp
    qed
    moreover from this H(2) have "cmp_val rest = cmp_val high + 1" by simp
    then have "cmp_val (ds @ high) = cmp_val ?m - cmp_val ?s"
      using L(1,3) val 3 by (simp add: cmp_val_append algebra_simps)
    moreover have "ds @ high \<noteq> []" using L(1) ne by auto
    moreover have "length (ds @ high) = length ?m" "length ?m \<noteq> length ?s" using L(1,2) H(1) len 3 by auto
    moreover from \<open>\<not> c\<close> have "CMP_Subtract mem x y s = Inr (z\<lparr>cmp_words := CMP_strip (ds @ high)\<rparr>)"
      using r 3 z h len by (simp add: CMP_Subtract_def)
    ultimately show ?thesis
      using z(2) CMP_strip_props [of "ds @ high"]
      by (intro exI [of _ "z\<lparr>cmp_words := CMP_strip (ds @ high)\<rparr>"]) (simp add: cmp_normal_def)
  qed
qed

lemma CMP_Subtract_correct:
  assumes mem: "\<And>n. mem n" and n: "cmp_normal (cmp_words x)" "cmp_normal (cmp_words y)"
    and le: "cmp_val (cmp_words y) \<le> cmp_val (cmp_words x)"
  shows "\<exists>z. CMP_Subtract mem x y s = Inr z \<and> cmp_len z \<le> cmp_len x \<and> cmp_len x \<le> cmp_space z \<and> cmp_words z \<noteq> [] \<and>
    cmp_val (cmp_words z) = cmp_val (cmp_words x) - cmp_val (cmp_words y) \<and>
    (cmp_len x \<noteq> cmp_len y \<longrightarrow> cmp_normal (cmp_words z)) \<and> (cmp_len x = cmp_len y \<longrightarrow> cmp_len z = cmp_len x)"
proof (rule CMP_Subtract_gen [of mem, OF mem n(1) _ _ le])
  show "cmp_words y \<noteq> []" using n(2) by (simp add: cmp_normal_def)
  have "cmp_words x \<noteq> []" using n(1) by (simp add: cmp_normal_def)
  then show "cmp_len y \<le> cmp_len x" using cmp_longer_greater [OF n(2)] le by (meson not_le)
qed

lemma CMP_Subtract_negative:
  assumes mem: "\<And>n. mem n" and n: "cmp_normal (cmp_words x)" "cmp_normal (cmp_words y)"
    and lt: "cmp_val (cmp_words x) < cmp_val (cmp_words y)"
  shows "CMP_Subtract mem x y s = Inl CMP_NEGATIVE"
proof (cases "cmp_len x < cmp_len y")
  case False
  let ?m = "cmp_words x" and ?s = "cmp_words y"
  have "?s \<noteq> []" using n by (auto simp: cmp_normal_def)
  with cmp_longer_greater [OF n(1)] lt False have eq: "length ?m = length ?s" by force
  obtain ds b rest where 1: "CMP_sub_loop False ?m ?s = (ds, b, rest)" by (metis prod_cases3)
  from CMP_sub_loop_val [OF 1] eq have "rest = []"
    "cmp_val ?m + 2 ^ (32 * length ?s) * of_bool b = cmp_val ds + cmp_val ?s" by simp_all
  moreover from this lt have b by (cases b) auto
  moreover obtain z where "CMP_ensureNoCopy mem (cmp_len x) (cmp_len x + 1) s = Inr z"
    using CMP_ensureNoCopy_cases [of "cmp_len x" "cmp_len x + 1" mem s] mem by auto
  ultimately show ?thesis using 1 False by (simp add: CMP_Subtract_def)
qed (simp add: CMP_Subtract_def)

section \<open>Subtraction in place\<close>

lemma radix_le: "4294967296 * x \<le> u + 4294967296 * y \<Longrightarrow> u < 4294967296 \<Longrightarrow> x \<le> y" for x y u :: nat
  by linarith

lemma CMP_borrow_in_val:
  "CMP_borrow_in ws = (vs, c) \<Longrightarrow> length vs = length ws \<and>
   cmp_val ws + 2 ^ (32 * length ws) * of_bool c = cmp_val vs + 1"
proof (induction ws arbitrary: vs)
  case (Cons w ws)
  have w: "unat w + 4294967296 * of_bool (w - 1 > w) = unat (w - 1) + 1"
    using word_sub_borrow(1) [of w 1] by simp
  show ?case
  proof (cases "w - 1 > w")
    case True
    with Cons.prems obtain us where "CMP_borrow_in ws = (us, c)" "vs = (w - 1) # us"
      by (auto simp: Let_def split: prod.splits)
    with Cons.IH [of us] w True show ?thesis by (simp add: power_add algebra_simps)
  next
    case False
    with Cons.prems w show ?thesis by (auto simp: Let_def)
  qed
qed simp

text \<open>As long as no borrow leaves the top, which it can only with the last word of the decrement.\<close>

lemma CMP_sub_in_val:
  "ds \<noteq> [] \<Longrightarrow> length ds \<le> length bs \<Longrightarrow> cmp_val (butlast ds) \<le> cmp_val bs \<Longrightarrow>
   CMP_sub_in bs ds c = (vs, c') \<Longrightarrow>
   length vs = length bs \<and> cmp_val bs + 2 ^ (32 * length bs) * of_bool c' = cmp_val vs + cmp_val ds"
proof (induction bs ds c arbitrary: vs rule: CMP_sub_in.induct)
  case (1 b bs d ds c)
  define p where "p = (if b - d > b then CMP_borrow_in bs else (bs, False))"
  obtain us e where p: "p = (us, e)" by fastforce
  have w: "unat b + 4294967296 * of_bool (b - d > b) = unat (b - d) + unat d"
    using word_sub_borrow(1) [of b d] by simp
  have u: "length us = length bs"
    "cmp_val bs + 2 ^ (32 * length bs) * of_bool e = cmp_val us + of_bool (b - d > b)"
    using CMP_borrow_in_val [of bs us e] p by (auto simp: p_def split: if_splits)
  obtain ts where r: "CMP_sub_in us ds e = (ts, c')" "vs = (b - d) # ts"
    using "1.prems"(4) p by (auto simp: p_def Let_def split: prod.splits if_splits)
  have step: "cmp_val bs + 2 ^ (32 * length bs) * of_bool c' = cmp_val ts + cmp_val ds + of_bool (b - d > b)"
    and len: "length ts = length bs"
  proof (atomize (full), cases "ds = []")
    case True
    with r have "ts = us" "c' = e" by (cases us; simp)+
    with u True show "cmp_val bs + 2 ^ (32 * length bs) * of_bool c' = cmp_val ts + cmp_val ds + of_bool (b - d > b) \<and>
        length ts = length bs" by simp
  next
    case False
    have "unat d + 4294967296 * cmp_val (butlast ds) \<le> unat b + 4294967296 * cmp_val bs"
      using "1.prems"(3) False by simp
    with w have "4294967296 * (cmp_val (butlast ds) + of_bool (b - d > b)) \<le> unat (b - d) + 4294967296 * cmp_val bs"
      by (simp add: algebra_simps)
    from radix_le [OF this unat_32] have le: "cmp_val (butlast ds) + of_bool (b - d > b) \<le> cmp_val bs" .
    have "\<not> e"
    proof
      assume e
      with u cmp_val_less [of us] have "cmp_val bs < of_bool (b - d > b)" by simp
      with le show False by simp
    qed
    with u le have "cmp_val (butlast ds) \<le> cmp_val us" by simp
    with "1.IH" [OF refl p [symmetric, unfolded p_def] refl False _ _ r(1)] "1.prems"(2) u \<open>\<not> e\<close>
    show "cmp_val bs + 2 ^ (32 * length bs) * of_bool c' = cmp_val ts + cmp_val ds + of_bool (b - d > b) \<and>
        length ts = length bs" by simp
  qed
  have "cmp_val (b # bs) + 2 ^ (32 * length (b # bs)) * of_bool c'
      = unat b + 4294967296 * (cmp_val bs + 2 ^ (32 * length bs) * of_bool c')"
    by (simp add: power_add algebra_simps)
  with step w len show ?case by (simp add: r(2) algebra_simps)
qed simp_all

lemma cmp_val_butlast_le: "cmp_val (butlast ws) \<le> cmp_val ws"
  by (cases "ws = []") (simp_all add: cmp_val_last)

lemma CMP_SubtractInPlace_gen:
  assumes "cmp_words y \<noteq> []" and "cmp_len y \<le> cmp_len x" and "cmp_val (cmp_words y) \<le> cmp_val (cmp_words x)"
  shows "\<exists>z. CMP_SubtractInPlace y x = Inr z \<and> cmp_normal (cmp_words z) \<and> cmp_len z \<le> cmp_len x \<and>
    cmp_space z = cmp_space x \<and> cmp_val (cmp_words z) = cmp_val (cmp_words x) - cmp_val (cmp_words y)"
proof -
  let ?b = "cmp_words x" and ?d = "cmp_words y"
  obtain vs c where r: "CMP_sub_in ?b ?d False = (vs, c)" by fastforce
  have "cmp_val (butlast ?d) \<le> cmp_val ?b" using cmp_val_butlast_le [of ?d] assms(3) by linarith
  from CMP_sub_in_val [OF assms(1,2) this r] have V: "length vs = length ?b"
    "cmp_val ?b + 2 ^ (32 * length ?b) * of_bool c = cmp_val vs + cmp_val ?d" by simp_all
  have "\<not> c"
  proof
    assume c
    with V(2) assms(3) have "2 ^ (32 * length ?b) \<le> cmp_val vs" by simp
    with cmp_val_less [of vs] V(1) show False by simp
  qed
  moreover have "vs \<noteq> []" using V(1) assms by auto
  ultimately show ?thesis
    using r V assms CMP_strip_props [of vs] by (simp add: CMP_SubtractInPlace_def)
qed

lemma CMP_SubtractInPlace_correct:
  assumes "cmp_normal (cmp_words y)" and "cmp_ok x" and "cmp_val (cmp_words y) \<le> cmp_val (cmp_words x)"
  shows "\<exists>z. CMP_SubtractInPlace y x = Inr z \<and> cmp_ok z \<and> cmp_space z = cmp_space x \<and> cmp_len z \<le> cmp_len x \<and>
    cmp_val (cmp_words z) = cmp_val (cmp_words x) - cmp_val (cmp_words y)"
proof -
  have "cmp_words y \<noteq> []" "cmp_words x \<noteq> []" using assms by (auto simp: cmp_normal_def cmp_ok_def)
  moreover from this have "cmp_len y \<le> cmp_len x"
    using cmp_longer_greater [OF assms(1)] assms(3) by (metis leD leI)
  ultimately show ?thesis
    using CMP_SubtractInPlace_gen [of y x] assms by (fastforce simp: cmp_ok_def)
qed

lemma CMP_SubtractInPlace_negative:
  assumes "cmp_normal (cmp_words y)" and "cmp_normal (cmp_words x)" and "cmp_val (cmp_words x) < cmp_val (cmp_words y)"
  shows "CMP_SubtractInPlace y x = Inl CMP_NEGATIVE"
proof (cases "cmp_len y > cmp_len x")
  case False
  let ?b = "cmp_words x" and ?d = "cmp_words y"
  have ne: "?d \<noteq> []" using assms by (auto simp: cmp_normal_def)
  with cmp_longer_greater [OF assms(2)] assms(3) False have eq: "length ?d = length ?b" by (metis leD leI order_le_less)
  obtain vs c where r: "CMP_sub_in ?b ?d False = (vs, c)" by fastforce
  have "cmp_val (butlast ?d) \<le> cmp_val ?b"
  proof (cases "length ?b = 1")
    case True
    with eq have "butlast ?d = []" by (metis diff_self_eq_0 length_0_conv length_butlast)
    then show ?thesis by simp
  next
    case F: False
    with ne eq have "1 < length ?b" by (cases "length ?b") auto
    with cmp_normal_ge [OF assms(2)] have "2 ^ (32 * (length ?b - 1)) \<le> cmp_val ?b" by simp
    moreover have "cmp_val (butlast ?d) < 2 ^ (32 * (length ?b - 1))"
      using cmp_val_less [of "butlast ?d"] eq by simp
    ultimately show ?thesis by linarith
  qed
  from CMP_sub_in_val [OF ne _ this r] eq have
    "cmp_val ?b + 2 ^ (32 * length ?b) * of_bool c = cmp_val vs + cmp_val ?d" by simp
  with assms(3) have c by (cases c) auto
  with r eq show ?thesis by (simp add: CMP_SubtractInPlace_def)
qed (simp add: CMP_SubtractInPlace_def)

section \<open>Addition in place\<close>

lemma CMP_AddInPlace_correct:
  assumes mem: "\<And>n. mem n" and n: "cmp_ok x" "cmp_normal (cmp_words y)"
  shows "\<exists>z. CMP_AddInPlace mem y x = Inr z \<and> cmp_ok z \<and>
    cmp_val (cmp_words z) = cmp_val (cmp_words x) + cmp_val (cmp_words y)"
proof -
  define b where "b = cmp_words x @ replicate (cmp_len y - cmp_len x) 0"
  let ?y = "cmp_words y"
  have vb: "cmp_val b = cmp_val (cmp_words x)" by (simp add: b_def cmp_val_append)
  have lb: "length b = max (cmp_len x) (cmp_len y)" by (simp add: b_def)
  have "\<exists>sp. (if cmp_len x < cmp_len y
        then on_success (CMP_ensure mem (cmp_len y) (cmp_len y + 1) x) (\<lambda>base.
               Inr (base\<lparr>cmp_words := cmp_words base @ replicate (cmp_len y - cmp_len base) 0\<rparr>))
        else Inr x) = (Inr \<lparr>cmp_space = sp, cmp_words = b\<rparr> :: CMPStatus + CMPInt) \<and> length b \<le> sp"
  proof (cases "cmp_len x < cmp_len y")
    case True
    from CMP_ensure_cases [of "cmp_len y" "cmp_len y + 1" mem x] mem obtain sp where
      "CMP_ensure mem (cmp_len y) (cmp_len y + 1) x = Inr (x\<lparr>cmp_space := sp\<rparr>)" "cmp_len y \<le> sp" by auto
    with True show ?thesis by (intro exI [of _ sp]) (simp add: lb b_def)
  next
    case False
    with n(1) show ?thesis by (intro exI [of _ "cmp_space x"]) (simp add: b_def cmp_ok_def)
  qed
  then obtain sp where base: "(if cmp_len x < cmp_len y
        then on_success (CMP_ensure mem (cmp_len y) (cmp_len y + 1) x) (\<lambda>base.
               Inr (base\<lparr>cmp_words := cmp_words base @ replicate (cmp_len y - cmp_len base) 0\<rparr>))
        else Inr x) = (Inr \<lparr>cmp_space = sp, cmp_words = b\<rparr> :: CMPStatus + CMPInt)" and sp: "length b \<le> sp"
    by blast
  obtain low c rest where 1: "CMP_add_loop 0 b ?y = (low, c, rest)" by (metis prod_cases3)
  from CMP_add_loop_val [OF 1] lb have L: "c \<le> 1" "length low = cmp_len y" "rest = drop (cmp_len y) b"
    "cmp_val low + 2 ^ (32 * cmp_len y) * unat c = cmp_val (take (cmp_len y) b) + cmp_val ?y" by simp_all
  have bb: "cmp_val b = cmp_val (take (cmp_len y) b) + 2 ^ (32 * cmp_len y) * cmp_val rest"
    using cmp_val_append [of "take (cmp_len y) b" rest] lb by (simp add: L(3))
  have big: "length b = 1 \<or> 2 ^ (32 * (length b - 1)) \<le> cmp_val (cmp_words x) + cmp_val ?y"
    using n lb by (auto simp: cmp_ok_def cmp_normal_iff max_def split: if_splits)
  have bne: "b \<noteq> []" using n by (auto simp: b_def cmp_ok_def cmp_normal_def)
  have keep: "cmp_normal ws" if "length ws = length b" "cmp_val ws = cmp_val (cmp_words x) + cmp_val ?y" for ws
    using that big bne by (auto simp: cmp_normal_iff)
  show ?thesis
  proof (cases "c = 0")
    case True
    have "cmp_val (low @ rest) = cmp_val (cmp_words x) + cmp_val ?y" "length (low @ rest) = length b"
      using L bb vb lb True by (simp_all add: cmp_val_append)
    with keep base sp 1 True show ?thesis by (simp add: CMP_AddInPlace_def cmp_ok_def)
  next
    case False
    with word_le_1 [OF L(1)] have c: "c = 1" by simp
    obtain high d where i: "CMP_inc_loop rest = (high, d)" by fastforce
    from CMP_inc_loop_val [OF i] have H: "length high = length rest"
      "cmp_val high + 2 ^ (32 * length rest) * of_bool d = cmp_val rest + 1" by simp_all
    have len: "length (low @ high) = length b" using L(2,3) H(1) lb by simp
    define B where "B = (2 :: nat) ^ (32 * cmp_len y)"
    have B: "2 ^ (32 * length b) = B * 2 ^ (32 * length rest)"
      using lb by (simp add: B_def L(3) flip: power_add)
    have "cmp_val (low @ high) + 2 ^ (32 * length b) * of_bool d
        = cmp_val low + B * (cmp_val high + 2 ^ (32 * length rest) * of_bool d)"
      unfolding B by (simp add: cmp_val_append L(2) B_def algebra_simps)
    also have "\<dots> = (cmp_val low + B * unat c) + B * cmp_val rest"
      unfolding H(2) by (simp add: c algebra_simps)
    also have "\<dots> = cmp_val (cmp_words x) + cmp_val ?y"
      using L(4) bb vb by (simp add: B_def)
    finally have v: "cmp_val (low @ high) + 2 ^ (32 * length b) * of_bool d = cmp_val (cmp_words x) + cmp_val ?y" .
    let ?z = "\<lparr>cmp_space = sp, cmp_words = low @ high\<rparr>"
    show ?thesis
    proof (cases d)
      case True
      from CMP_ensure_cases [of "cmp_len ?z + 1" "cmp_len ?z + 1" mem ?z] mem obtain sp' where
        e: "CMP_ensure mem (cmp_len ?z + 1) (cmp_len ?z + 1) ?z = Inr (?z\<lparr>cmp_space := sp'\<rparr>)" "cmp_len ?z + 1 \<le> sp'"
        by auto
      have "cmp_val ((low @ high) @ [1]) = cmp_val (cmp_words x) + cmp_val ?y"
        using v True by (simp only: cmp_val_append len) simp
      with e base 1 i False True show ?thesis
        by (simp add: CMP_AddInPlace_def cmp_ok_def cmp_normal_def)
    next
      case nd: False
      with v have "cmp_val (low @ high) = cmp_val (cmp_words x) + cmp_val ?y" by simp
      with keep [OF len] len base sp 1 i False nd show ?thesis by (simp add: CMP_AddInPlace_def cmp_ok_def)
    qed
  qed
qed

section \<open>Subtracting a word\<close>

lemma CMP_dec_loop_val:
  "CMP_dec_loop ws = (vs, n) \<Longrightarrow> length vs = length ws \<and> n \<le> length ws \<and>
   cmp_val ws + 2 ^ (32 * length ws) * of_bool (n = length ws) = cmp_val vs + 1 \<and>
   (\<forall>i < n. vs ! i = 0xffffffff) \<and> (n + 1 < length ws \<longrightarrow> last vs = last ws)"
proof (induction ws arbitrary: vs n)
  case (Cons w ws)
  have "(0xffffffff :: u32) = -1" by simp
  then have m: "w - 1 = 0xffffffff \<longleftrightarrow> w = 0" by (metis diff_0 diff_add_cancel)
  show ?case
  proof (cases "w = 0")
    case True
    with Cons.prems m obtain us k where u: "CMP_dec_loop ws = (us, k)" "vs = 0xffffffff # us" "n = k + 1"
      by (auto simp: Let_def split: prod.splits)
    from Cons.IH [OF u(1)] have "length us = length ws" "k \<le> length ws"
      "cmp_val ws + 2 ^ (32 * length ws) * of_bool (k = length ws) = cmp_val us + 1"
      "\<forall>i < k. us ! i = 0xffffffff" "k + 1 < length ws \<longrightarrow> last us = last ws" by blast+
    moreover have "unat (0xffffffff :: u32) = 4294967295" by simp
    ultimately show ?thesis
      using True u by (auto simp: nth_Cons' power_add algebra_simps)
  next
    case False
    then have "unat w = unat (w - 1) + 1"
      using unat_minus_one [OF False] by (metis Suc_eq_plus1 Suc_pred' not_gr_zero unat_eq_0)
    with False Cons.prems m show ?thesis by (auto simp: Let_def)
  qed
qed simp

lemma CMP_SubtractCMPWord_correct:
  assumes n: "cmp_ok x" and le: "unat w \<le> cmp_val (cmp_words x)"
  shows "\<exists>z. CMP_SubtractCMPWord w x = Inr z \<and> cmp_ok z \<and>
    cmp_val (cmp_words z) = cmp_val (cmp_words x) - unat w"
proof -
  obtain v vs where x: "cmp_words x = v # vs" using n by (cases "cmp_words x") (auto simp: cmp_ok_def cmp_normal_def)
  have nx: "cmp_normal (v # vs)" "length (v # vs) \<le> cmp_space x" using n by (simp_all add: cmp_ok_def x)
  have w: "unat v + 4294967296 * of_bool (v - w > v) = unat (v - w) + unat w"
    by (rule word_sub_borrow(1))
  show ?thesis
  proof (cases "v \<ge> w")
    case True
    then have "unat (v - w) = unat v - unat w" by (simp add: unat_sub)
    moreover have "unat w \<le> unat v" using True by (simp add: word_le_nat_alt)
    moreover have "cmp_normal ((v - w) # vs)" using nx(1) by (cases vs) (simp_all add: cmp_normal_def)
    ultimately show ?thesis using True nx by (simp add: CMP_SubtractCMPWord_def x cmp_ok_def)
  next
    case False
    then have lt: "unat v < unat w" by (simp add: word_le_nat_alt not_le)
    then have w': "unat v + 4294967296 = unat (v - w) + unat w"
      using w by (cases "v < v - w") simp_all
    have vs: "vs \<noteq> []" using le lt by (auto simp: x)
    obtain us k where d: "CMP_dec_loop vs = (us, k)" by fastforce
    from CMP_dec_loop_val [OF d] have D: "length us = length vs" "k \<le> length vs"
      "cmp_val vs + 2 ^ (32 * length vs) * of_bool (k = length vs) = cmp_val us + 1"
      "\<forall>i < k. us ! i = 0xffffffff" "k + 1 < length vs \<longrightarrow> last us = last vs" by blast+
    have "cmp_val vs \<noteq> 0" using le lt unat_32 [of w] by (auto simp: x)
    have k: "k \<noteq> length vs"
    proof
      assume "k = length vs"
      with D(3) cmp_val_less [of us] D(1) have "cmp_val vs = 0" by simp
      with \<open>cmp_val vs \<noteq> 0\<close> show False by simp
    qed
    with D(3) have vu: "cmp_val vs = cmp_val us + 1" by simp
    have val: "cmp_val ((v - w) # us) = cmp_val (v # vs) - unat w"
      using w' by (simp add: vu)
    have us: "us \<noteq> []" using D(1) vs by auto
    have lastvs: "last vs \<noteq> 0" using nx vs by (auto simp: cmp_normal_def)
    have hd: "v - w \<noteq> 0" using lt by auto
    have res: "CMP_SubtractCMPWord w x =
        (if k + 1 < length vs then Inr (x\<lparr>cmp_words := (v - w) # us\<rparr>)
         else if last us = 0 then Inr (x\<lparr>cmp_words := butlast ((v - w) # us)\<rparr>)
         else Inr (x\<lparr>cmp_words := (v - w) # us\<rparr>))"
    proof -
      have "k + 1 = length vs \<Longrightarrow> us ! k = last us" by (metis D(1) add_diff_cancel_right' last_conv_nth us)
      then show ?thesis
        using False d k D(2) vs us by (auto simp: CMP_SubtractCMPWord_def x)
    qed
    show ?thesis
    proof (cases "k + 1 < length vs")
      case True
      then have "cmp_normal ((v - w) # us)" using D(5) lastvs us by (simp add: cmp_normal_def)
      with res True val nx D(1) show ?thesis by (simp add: cmp_ok_def x)
    next
      case top: False
      with k D(2) have k1: "length vs = k + 1" by simp
      show ?thesis
      proof (cases "last us = 0")
        case l0: True
        have "last (butlast ((v - w) # us)) \<noteq> 0"
        proof (cases "k = 0")
          case True
          with k1 D(1) us have "butlast us = []" by (simp add: butlast_conv_take)
          with us hd show ?thesis by simp
        next
          case False
          have b: "butlast us \<noteq> []" using k1 D(1) False by (auto simp flip: length_0_conv)
          then have "last (butlast us) = us ! (k - 1)"
            using k1 D(1) False by (simp add: last_conv_nth nth_butlast)
          with D(4) False b us show ?thesis by simp
        qed
        then have "cmp_normal (butlast ((v - w) # us))" using us by (auto simp: cmp_normal_def)
        moreover have "cmp_val (butlast ((v - w) # us)) = cmp_val ((v - w) # us)"
          using l0 us by (intro cmp_val_butlast_0) auto
        ultimately show ?thesis using res top l0 val nx D(1) us by (simp add: cmp_ok_def x)
      next
        case False
        then have "cmp_normal ((v - w) # us)" using us by (simp add: cmp_normal_def)
        with res top False val nx D(1) show ?thesis by (simp add: cmp_ok_def x)
      qed
    qed
  qed
qed

end
