(* ===== verification/CMP_Shift.thy ===== *)
theory CMP_Shift
  imports CMP_Arith
begin

text \<open>
  Bits and shifts: cmpbits.c and the shifting routines of cmpspprt.c.
\<close>

section \<open>The model\<close>

text \<open>The loop \<open>while (temp > 0) {bitIndex++; temp >>= 1;}\<close>.\<close>

function CMP_bits_loop :: "u32 \<Rightarrow> nat" where
  "CMP_bits_loop temp = (if temp > 0 then CMP_bits_loop (drop_bit 1 temp) + 1 else 0)"
  by pat_completeness auto
termination
proof (relation "measure unat")
  fix temp :: u32
  assume "temp > 0"
  then have "0 < unat temp" by (simp add: word_greater_zero_iff unat_gt_0)
  then show "(drop_bit 1 temp, temp) \<in> measure unat"
    unfolding in_measure unat_drop_bit_eq by (simp add: drop_bit_eq_div)
qed simp

declare CMP_bits_loop.simps [simp del]

definition CMP_BitLengthOfCMPInt :: "CMPInt \<Rightarrow> nat" where
  "CMP_BitLengthOfCMPInt x =
     (if cmp_space x = 0 then 0
      else (let mswIndex = cmp_len x - 1
            in mswIndex * 32 + (1 + CMP_bits_loop (drop_bit 1 (cmp_words x ! mswIndex)))))"

definition CMP_GetBit :: "nat \<Rightarrow> CMPInt \<Rightarrow> nat" where
  "CMP_GetBit bitPosition x =
     (let wordIndex = bitPosition div 32; bitIndex = bitPosition mod 32
      in if wordIndex < cmp_len x then unat (drop_bit bitIndex (cmp_words x ! wordIndex) AND 1) else 0)"

text \<open>\<open>CMP_RecomputeLength\<close>, for an index inside the words in use.\<close>

definition CMP_RecomputeLength :: "nat \<Rightarrow> CMPInt \<Rightarrow> CMPStatus + CMPInt" where
  "CMP_RecomputeLength targIndex x =
     (if targIndex < cmp_len x then Inr (x\<lparr>cmp_words := CMP_strip (take (targIndex + 1) (cmp_words x))\<rparr>)
      else Inl CMP_OUT_OF_BOUNDS)"

definition CMP_ClearBit :: "nat \<Rightarrow> CMPInt \<Rightarrow> CMPStatus + CMPInt" where
  "CMP_ClearBit bitPosition x =
     (let wordIndex = bitPosition div 32; bitIndex = bitPosition mod 32
      in if cmp_len x > wordIndex
         then CMP_RecomputeLength (cmp_len x - 1)
                (x\<lparr>cmp_words := (cmp_words x)[wordIndex :=
                      (cmp_words x ! wordIndex) AND (0xffffffff XOR push_bit bitIndex 1)]\<rparr>)
         else Inr x)"

text \<open>Behind the words in use the block is filled with zeros.\<close>

definition CMP_SetBit :: "(nat \<Rightarrow> bool) \<Rightarrow> nat \<Rightarrow> CMPInt \<Rightarrow> CMPStatus + CMPInt" where
  "CMP_SetBit mem bitPosition x =
     (let wordIndex = bitPosition div 32; bitIndex = bitPosition mod 32
      in if wordIndex < cmp_len x
         then Inr (x\<lparr>cmp_words := (cmp_words x)[wordIndex := (cmp_words x ! wordIndex) OR push_bit bitIndex 1]\<rparr>)
         else on_success (CMP_ensure mem (wordIndex + 1) (wordIndex + 2) x) (\<lambda>x.
           let ws = cmp_words x @ replicate (cmp_space x - cmp_len x) 0
           in CMP_RecomputeLength wordIndex (x\<lparr>cmp_words := ws[wordIndex := push_bit bitIndex 1]\<rparr>)))"

definition CMP_ShiftLeftByCMPWords :: "(nat \<Rightarrow> bool) \<Rightarrow> nat \<Rightarrow> CMPInt \<Rightarrow> CMPStatus + CMPInt" where
  "CMP_ShiftLeftByCMPWords mem shiftCount base =
     (if shiftCount = 0 then Inr base
      else let totalLen = cmp_len base + shiftCount
           in if cmp_space base < totalLen
              then on_success (CMP_Move mem base CMP_Constructor) (\<lambda>oldBase.
                   on_success (CMP_reallocNoCopy mem (totalLen + 1) base) (\<lambda>base.
                     Inr (base\<lparr>cmp_words := CMP_strip (replicate shiftCount 0 @ cmp_words oldBase)\<rparr>)))
              else Inr (base\<lparr>cmp_words := CMP_strip (replicate shiftCount 0 @ cmp_words base)\<rparr>))"

text \<open>
  The words shifted left by 1 to 31 bits: each takes in the high bits of its predecessor.
\<close>

fun CMP_shl_loop :: "nat \<Rightarrow> u32 \<Rightarrow> u32 list \<Rightarrow> u32 list" where
  "CMP_shl_loop leftShift prev [] = []"
| "CMP_shl_loop leftShift prev (w # ws) =
     (push_bit leftShift w OR drop_bit (32 - leftShift) prev) # CMP_shl_loop leftShift w ws"

definition CMP_ShiftLeftByBits :: "(nat \<Rightarrow> bool) \<Rightarrow> nat \<Rightarrow> CMPInt \<Rightarrow> CMPStatus + CMPInt" where
  "CMP_ShiftLeftByBits mem leftShift base =
     (if leftShift = 0 then Inr base
      else on_success
        (if leftShift \<ge> 32 then CMP_ShiftLeftByCMPWords mem (leftShift div 32) base else Inr base)
        (\<lambda>base.
           let leftShift = leftShift mod 32
           in if leftShift = 0 then Inr base
              else let count = cmp_len base;
                       msw = drop_bit (32 - leftShift) (cmp_words base ! (count - 1));
                       ws = CMP_shl_loop leftShift 0 (cmp_words base)
                   in if msw \<noteq> 0
                      then on_success (CMP_ensure mem (count + 1) (count + 2) base) (\<lambda>base.
                             Inr (base\<lparr>cmp_words := ws @ [msw]\<rparr>))
                      else Inr (base\<lparr>cmp_words := ws\<rparr>)))"

definition CMP_ShiftRightByCMPWords :: "nat \<Rightarrow> CMPInt \<Rightarrow> CMPInt" where
  "CMP_ShiftRightByCMPWords shiftCount base =
     base\<lparr>cmp_words := (if cmp_len base > shiftCount then drop shiftCount (cmp_words base) else [0])\<rparr>"

fun CMP_shr_loop :: "nat \<Rightarrow> u32 list \<Rightarrow> u32 list" where
  "CMP_shr_loop rightShift [] = []"
| "CMP_shr_loop rightShift [w] = [drop_bit rightShift w]"
| "CMP_shr_loop rightShift (w # v # ws) =
     (drop_bit rightShift w OR push_bit (32 - rightShift) v) # CMP_shr_loop rightShift (v # ws)"

definition CMP_ShiftRightByBits :: "nat \<Rightarrow> CMPInt \<Rightarrow> CMPInt" where
  "CMP_ShiftRightByBits rightShift base =
     (if rightShift = 0 then base
      else let base = (if rightShift \<ge> 32 then CMP_ShiftRightByCMPWords (rightShift div 32) base else base);
               rightShift = rightShift mod 32
           in if rightShift = 0 then base
              else let ws = CMP_shr_loop rightShift (cmp_words base)
                   in base\<lparr>cmp_words := (if last ws = 0 \<and> length ws \<noteq> 1 then butlast ws else ws)\<rparr>)"

text \<open>The loop \<open>while (!(w & CMP_MSB_MASK)) {w <<= 1; shift++;}\<close>, for a word that is not 0.\<close>

function CMP_msb_loop :: "u32 \<Rightarrow> nat" where
  "CMP_msb_loop w = (if w = 0 \<or> bit w 31 then 0 else CMP_msb_loop (push_bit 1 w) + 1)"
  by pat_completeness auto
termination
proof (relation "measure (\<lambda>w. 4294967296 - unat w)")
  fix w :: u32
  assume "\<not> (w = 0 \<or> bit w 31)"
  then have w: "w \<noteq> 0" and "\<not> bit w 31" by simp_all
  then have "\<not> bit (unat w) 31" by (simp add: bit_unsigned_iff)
  then have "unat w div 2 ^ 31 mod 2 = 0" by (simp add: bit_iff_odd even_iff_mod_2_eq_zero)
  then have "unat w < 2147483648" using unat_32 [of w] by (simp add: div_eq_0_iff)
  moreover from this have "unat (push_bit 1 w) = 2 * unat w"
    unfolding unsigned_push_bit_eq by (simp add: take_bit_nat_eq_self push_bit_eq_mult)
  moreover have "0 < unat w" using w by (metis not_gr_zero unat_eq_0)
  ultimately show "(push_bit 1 w, w) \<in> measure (\<lambda>w. 4294967296 - unat w)" by simp
qed simp

declare CMP_msb_loop.simps [simp del]

definition CMP_GetOffsetOfMSB :: "CMPInt \<Rightarrow> nat" where
  "CMP_GetOffsetOfMSB x =
     (let msw = cmp_words x ! (cmp_len x - 1) in if msw \<noteq> 0 then CMP_msb_loop msw else 32)"

section \<open>Shifts are multiplication and division\<close>

lemma unat_shl_or:
  fixes w p :: u32
  assumes "n \<le> 32"
  shows "unat (push_bit n w OR drop_bit (32 - n) p) = (unat w * 2 ^ n) mod 2 ^ 32 + unat p div 2 ^ (32 - n)"
proof -
  have "unat (push_bit n w) AND unat (drop_bit (32 - n) p) = 0"
  proof (rule bit_eqI)
    fix k
    show "bit (unat (push_bit n w) AND unat (drop_bit (32 - n) p)) k = bit 0 k"
      using assms bit_imp_le_length [of p "32 - n + k"] by (auto simp: bit_simps)
  qed
  then have "unat (push_bit n w OR drop_bit (32 - n) p) = unat (push_bit n w) + unat (drop_bit (32 - n) p)"
    by (simp add: unsigned_or_eq disjunctive_add_eq_or)
  then show ?thesis
    unfolding unsigned_push_bit_eq unat_drop_bit_eq by (simp add: take_bit_eq_mod push_bit_eq_mult drop_bit_eq_div)
qed

lemma CMP_shl_loop_val:
  assumes "n < 32"
  shows "cmp_val (CMP_shl_loop n p ws) + 2 ^ (32 * length ws) * (unat (last (p # ws)) div 2 ^ (32 - n))
    = cmp_val ws * 2 ^ n + unat p div 2 ^ (32 - n)"
proof (induction ws arbitrary: p)
  case (Cons w ws)
  have hi: "(unat w * 2 ^ n) div 2 ^ 32 = unat w div 2 ^ (32 - n)"
  proof -
    have "(2 :: nat) ^ 32 = 2 ^ (32 - n) * 2 ^ n" using assms by (simp flip: power_add)
    then show ?thesis by (metis div_mult_mult2 power_not_zero zero_neq_numeral)
  qed
  have w: "unat w * 2 ^ n = (unat w * 2 ^ n) mod 2 ^ 32 + 2 ^ 32 * (unat w div 2 ^ (32 - n))"
    using mod_mult_div_eq [of "unat w * 2 ^ n" "2 ^ 32"] hi by metis
  have "cmp_val (CMP_shl_loop n p (w # ws)) + 2 ^ (32 * length (w # ws)) * (unat (last (p # w # ws)) div 2 ^ (32 - n))
    = (unat w * 2 ^ n) mod 2 ^ 32 + unat p div 2 ^ (32 - n)
      + 2 ^ 32 * (cmp_val (CMP_shl_loop n w ws) + 2 ^ (32 * length ws) * (unat (last (w # ws)) div 2 ^ (32 - n)))"
    using assms by (simp add: unat_shl_or power_add algebra_simps)
  also have "\<dots> = (unat w * 2 ^ n) mod 2 ^ 32 + unat p div 2 ^ (32 - n)
      + 2 ^ 32 * (cmp_val ws * 2 ^ n + unat w div 2 ^ (32 - n))"
    unfolding Cons.IH ..
  also have "\<dots> = cmp_val (w # ws) * 2 ^ n + unat p div 2 ^ (32 - n)"
    using w by (simp add: algebra_simps)
  finally show ?case .
qed simp

lemma length_shl_loop [simp]: "length (CMP_shl_loop n p ws) = length ws"
  by (induction n p ws rule: CMP_shl_loop.induct) simp_all

lemma CMP_ShiftLeftByCMPWords_correct:
  assumes mem: "\<And>n. mem n" and ok: "cmp_ok x"
  shows "\<exists>z. CMP_ShiftLeftByCMPWords mem k x = Inr z \<and> cmp_ok z \<and>
    cmp_val (cmp_words z) = cmp_val (cmp_words x) * 2 ^ (32 * k)"
proof (cases "k = 0")
  case True
  with ok show ?thesis by (simp add: CMP_ShiftLeftByCMPWords_def)
next
  case False
  let ?ws = "replicate k 0 @ cmp_words x"
  have ne: "?ws \<noteq> []" using False by simp
  note S = CMP_strip_props [OF ne]
  show ?thesis
  proof (cases "cmp_space x < cmp_len x + k")
    case True
    obtain old where "CMP_Move mem x CMP_Constructor = Inr old" "cmp_words old = cmp_words x"
      using CMP_Move_correct [of mem x CMP_Constructor] mem by blast
    then have "CMP_ShiftLeftByCMPWords mem k x = Inr \<lparr>cmp_space = cmp_len x + k + 1, cmp_words = CMP_strip ?ws\<rparr>"
      using False True mem by (simp add: CMP_ShiftLeftByCMPWords_def CMP_reallocNoCopy_def)
    with S show ?thesis by (simp add: cmp_ok_def cmp_val_zeros_append mult.commute)
  next
    case sp: False
    then have "CMP_ShiftLeftByCMPWords mem k x = Inr (x\<lparr>cmp_words := CMP_strip ?ws\<rparr>)"
      using False by (simp add: CMP_ShiftLeftByCMPWords_def)
    with S sp show ?thesis by (simp add: cmp_ok_def cmp_val_zeros_append mult.commute)
  qed
qed

lemma cmp_normal_mono:
  assumes "cmp_normal us" and "length ws = length us" and "cmp_val us \<le> cmp_val ws"
  shows "cmp_normal ws"
  using assms unfolding cmp_normal_iff by (metis le_trans length_0_conv)

lemma CMP_ShiftLeftByBits_correct:
  assumes mem: "\<And>n. mem n" and ok: "cmp_ok x"
  shows "\<exists>z. CMP_ShiftLeftByBits mem n x = Inr z \<and> cmp_ok z \<and>
    cmp_val (cmp_words z) = cmp_val (cmp_words x) * 2 ^ n"
proof -
  have "\<exists>y. (if n \<ge> 32 then CMP_ShiftLeftByCMPWords mem (n div 32) x else Inr x) = Inr y \<and> cmp_ok y \<and>
      cmp_val (cmp_words y) = cmp_val (cmp_words x) * 2 ^ (32 * (n div 32))"
    using CMP_ShiftLeftByCMPWords_correct [OF mem ok, where k = "n div 32"] ok by simp
  then obtain y where y: "(if n \<ge> 32 then CMP_ShiftLeftByCMPWords mem (n div 32) x else Inr x) = Inr y"
    "cmp_ok y" "cmp_val (cmp_words y) = cmp_val (cmp_words x) * 2 ^ (32 * (n div 32))" by blast
  have split: "cmp_val (cmp_words y) * 2 ^ (n mod 32) = cmp_val (cmp_words x) * 2 ^ n"
    unfolding y(3) by (simp add: mult.assoc flip: power_add)
  show ?thesis
  proof (cases "n mod 32 = 0")
    case True
    then show ?thesis
      using y ok split by (cases "n = 0") (simp_all add: CMP_ShiftLeftByBits_def)
  next
    case False
    define m where "m = n mod 32"
    have m: "0 < m" "m < 32" using False by (simp_all add: m_def)
    define ws where "ws = CMP_shl_loop m 0 (cmp_words y)"
    define msw where "msw = drop_bit (32 - m) (last (cmp_words y))"
    have ne: "cmp_words y \<noteq> []" using y(2) by (auto simp: cmp_ok_def cmp_normal_def)
    then have top: "cmp_words y ! (cmp_len y - 1) = last (cmp_words y)" by (simp add: last_conv_nth)
    have val: "cmp_val ws + 2 ^ (32 * cmp_len y) * unat msw = cmp_val (cmp_words x) * 2 ^ n"
      using CMP_shl_loop_val [OF m(2), of 0 "cmp_words y"] ne split
      by (simp add: ws_def msw_def unat_drop_bit_eq drop_bit_nat_def m_def)
    have def: "CMP_ShiftLeftByBits mem n x =
       (if msw \<noteq> 0 then on_success (CMP_ensure mem (cmp_len y + 1) (cmp_len y + 2) y) (\<lambda>base.
             Inr (base\<lparr>cmp_words := ws @ [msw]\<rparr>))
        else Inr (y\<lparr>cmp_words := ws\<rparr>))"
      using False y(1) top by (simp add: CMP_ShiftLeftByBits_def ws_def msw_def m_def Let_def)
    have len: "length ws = cmp_len y" by (simp add: ws_def)
    show ?thesis
    proof (cases "msw = 0")
      case True
      have "cmp_val (cmp_words y) * 1 \<le> cmp_val (cmp_words y) * 2 ^ (n mod 32)" by (rule mult_le_mono2) simp
      moreover have v: "cmp_val ws = cmp_val (cmp_words x) * 2 ^ n" using val True by simp
      ultimately have le: "cmp_val (cmp_words y) \<le> cmp_val ws" using split by linarith
      have "cmp_normal ws" by (rule cmp_normal_mono [OF _ len le]) (use y(2) in \<open>simp add: cmp_ok_def\<close>)
      moreover have "CMP_ShiftLeftByBits mem n x = Inr (y\<lparr>cmp_words := ws\<rparr>)" using def True by simp
      ultimately show ?thesis using v len y(2) by (simp add: cmp_ok_def)
    next
      case nz: False
      from CMP_ensure_cases [of "cmp_len y + 1" "cmp_len y + 2" mem y] mem obtain sp where
        "CMP_ensure mem (cmp_len y + 1) (cmp_len y + 2) y = Inr (y\<lparr>cmp_space := sp\<rparr>)" "cmp_len y + 1 \<le> sp" by auto
      with nz def val len show ?thesis by (simp add: cmp_ok_def cmp_normal_def cmp_val_append)
    qed
  qed
qed

lemma CMP_ShiftRightByCMPWords_correct:
  assumes ok: "cmp_ok x"
  shows "cmp_ok (CMP_ShiftRightByCMPWords k x)" and "cmp_space (CMP_ShiftRightByCMPWords k x) = cmp_space x"
    and "cmp_val (cmp_words (CMP_ShiftRightByCMPWords k x)) = cmp_val (cmp_words x) div 2 ^ (32 * k)"
proof -
  let ?w = "cmp_words x"
  have ne: "?w \<noteq> []" "length ?w \<le> cmp_space x" using ok by (auto simp: cmp_ok_def cmp_normal_def)
  show "cmp_space (CMP_ShiftRightByCMPWords k x) = cmp_space x"
    by (simp add: CMP_ShiftRightByCMPWords_def)
  show "cmp_ok (CMP_ShiftRightByCMPWords k x)"
  proof (cases "cmp_len x > k")
    case True
    then have "last (drop k ?w) = last ?w" by simp
    then have "cmp_normal (drop k ?w)"
      using ok True by (simp add: cmp_ok_def cmp_normal_def) linarith
    with True ne(2) show ?thesis by (simp add: CMP_ShiftRightByCMPWords_def cmp_ok_def)
  next
    case False
    have "1 \<le> cmp_space x" using ne by (cases ?w) auto
    with False show ?thesis by (simp add: CMP_ShiftRightByCMPWords_def cmp_ok_def cmp_normal_def)
  qed
  show "cmp_val (cmp_words (CMP_ShiftRightByCMPWords k x)) = cmp_val ?w div 2 ^ (32 * k)"
  proof (cases "cmp_len x > k")
    case True
    then have "cmp_val ?w = cmp_val (take k ?w) + 2 ^ (32 * k) * cmp_val (drop k ?w)"
      using cmp_val_append [of "take k ?w" "drop k ?w"] by simp
    moreover have "cmp_val (take k ?w) < 2 ^ (32 * k)" using cmp_val_less [of "take k ?w"] True by simp
    ultimately show ?thesis using True by (simp add: CMP_ShiftRightByCMPWords_def)
  next
    case False
    then have "(2 :: nat) ^ (32 * length ?w) \<le> 2 ^ (32 * k)" by (intro power_increasing) auto
    with cmp_val_less [of ?w] have "cmp_val ?w < 2 ^ (32 * k)" by linarith
    with False show ?thesis by (simp add: CMP_ShiftRightByCMPWords_def)
  qed
qed

lemma length_shr_loop [simp]: "length (CMP_shr_loop n ws) = length ws"
  by (induction n ws rule: CMP_shr_loop.induct) simp_all

lemma CMP_shr_loop_val:
  "0 < n \<Longrightarrow> n < 32 \<Longrightarrow> cmp_val (CMP_shr_loop n ws) = cmp_val ws div 2 ^ n"
proof (induction n ws rule: CMP_shr_loop.induct)
  case (2 n w)
  show ?case by (simp only: CMP_shr_loop.simps cmp_val.simps unat_drop_bit_eq drop_bit_nat_def) simp
next
  case (3 n w v ws)
  define V where "V = cmp_val (v # ws)"
  have IH: "cmp_val (CMP_shr_loop n (v # ws)) = V div 2 ^ n" using 3 by (simp add: V_def)
  have p: "(2 :: nat) ^ 32 = 2 ^ n * 2 ^ (32 - n)" using 3 by (simp flip: power_add)
  have word: "unat (drop_bit n w OR push_bit (32 - n) v) = (unat v * 2 ^ (32 - n)) mod 2 ^ 32 + unat w div 2 ^ n"
    using unat_shl_or [of "32 - n" v w] 3 by (simp add: or.commute)
  have vm: "(V * 2 ^ (32 - n)) mod 2 ^ 32 = (unat v * 2 ^ (32 - n)) mod 2 ^ 32"
    by (simp add: V_def distrib_right mult.assoc)
  have vd: "(V * 2 ^ (32 - n)) div 2 ^ 32 = V div 2 ^ n"
    unfolding p by (simp add: mult.commute [of "2 ^ n"] )
  have "cmp_val (w # v # ws) div 2 ^ n = (unat w + 2 ^ n * (2 ^ (32 - n) * V)) div 2 ^ n"
    by (simp only: cmp_val.simps p V_def mult.assoc)
  also have "\<dots> = V * 2 ^ (32 - n) + unat w div 2 ^ n"
    by (simp add: mult.commute)
  also have "V * 2 ^ (32 - n) = (unat v * 2 ^ (32 - n)) mod 2 ^ 32 + 2 ^ 32 * (V div 2 ^ n)"
    using mod_mult_div_eq [of "V * 2 ^ (32 - n)" "2 ^ 32"] vm vd by metis
  finally show ?case
    using word IH by simp
qed simp

lemma CMP_ShiftRightByBits_correct:
  assumes ok: "cmp_ok x"
  shows "cmp_ok (CMP_ShiftRightByBits n x)" and "cmp_space (CMP_ShiftRightByBits n x) = cmp_space x"
    and "cmp_val (cmp_words (CMP_ShiftRightByBits n x)) = cmp_val (cmp_words x) div 2 ^ n"
proof -
  define y where "y = (if n \<ge> 32 then CMP_ShiftRightByCMPWords (n div 32) x else x)"
  have y: "cmp_ok y" "cmp_space y = cmp_space x" "cmp_val (cmp_words y) = cmp_val (cmp_words x) div 2 ^ (32 * (n div 32))"
    using ok CMP_ShiftRightByCMPWords_correct [OF ok, of "n div 32"] by (simp_all add: y_def)
  have split: "cmp_val (cmp_words y) div 2 ^ (n mod 32) = cmp_val (cmp_words x) div 2 ^ n"
    unfolding y(3) by (simp add: div_mult2_eq [symmetric] flip: power_add)
  have "cmp_ok (CMP_ShiftRightByBits n x) \<and> cmp_space (CMP_ShiftRightByBits n x) = cmp_space x \<and>
    cmp_val (cmp_words (CMP_ShiftRightByBits n x)) = cmp_val (cmp_words x) div 2 ^ n"
  proof (cases "n mod 32 = 0")
    case True
    then show ?thesis using y ok split by (cases "n = 0") (simp_all add: CMP_ShiftRightByBits_def y_def)
  next
    case False
    define m where "m = n mod 32"
    have m: "0 < m" "m < 32" using False by (simp_all add: m_def)
    define ws where "ws = CMP_shr_loop m (cmp_words y)"
    have len: "length ws = cmp_len y" by (simp add: ws_def)
    have val: "cmp_val ws = cmp_val (cmp_words x) div 2 ^ n"
      using CMP_shr_loop_val [OF m] split by (simp add: ws_def m_def)
    have ny: "cmp_normal (cmp_words y)" "cmp_len y \<le> cmp_space x" using y by (auto simp: cmp_ok_def)
    have "cmp_words y \<noteq> []" using ny(1) by (simp add: cmp_normal_def)
    then have ne: "ws \<noteq> []" using len by (metis length_0_conv)
    have def: "CMP_ShiftRightByBits n x = y\<lparr>cmp_words := (if last ws = 0 \<and> length ws \<noteq> 1 then butlast ws else ws)\<rparr>"
    proof -
      have "n \<noteq> 0" using False by (cases n) auto
      with False show ?thesis
        unfolding CMP_ShiftRightByBits_def Let_def y_def [symmetric] m_def [symmetric] ws_def [symmetric]
        by (simp add: m_def)
    qed
    show ?thesis
    proof (cases "last ws = 0 \<and> length ws \<noteq> 1")
      case True
      then have l2: "2 \<le> length ws" using ne by (cases ws) (auto simp: Suc_le_eq)
      then have "2 ^ (32 * (length ws - 1)) \<le> cmp_val (cmp_words y)" using ny(1) len by (simp add: cmp_normal_iff)
      then have "2 ^ (32 * (length ws - 1)) div 2 ^ m \<le> cmp_val ws"
        using split val by (metis div_le_mono m_def)
      moreover have "(2 :: nat) ^ (32 * (length ws - 1)) div 2 ^ m = 2 ^ (32 * (length ws - 1) - m)"
        using m l2 by (intro power_diff [symmetric]) auto
      moreover have "(2 :: nat) ^ (32 * (length ws - 2)) \<le> 2 ^ (32 * (length ws - 1) - m)"
        using m l2 by (intro power_increasing) auto
      ultimately have "2 ^ (32 * (length ws - 2)) \<le> cmp_val ws" by (metis le_trans)
      moreover have "length (butlast ws) - 1 = length ws - 2" by simp
      ultimately have "2 ^ (32 * (length (butlast ws) - 1)) \<le> cmp_val (butlast ws)"
        using True ne by (metis cmp_val_butlast_0)
      moreover have "butlast ws \<noteq> []" using l2 by (auto simp flip: length_0_conv)
      ultimately have "cmp_normal (butlast ws)" by (intro cmp_normal_if_ge) auto
      moreover have "CMP_ShiftRightByBits n x = y\<lparr>cmp_words := butlast ws\<rparr>" using def True by simp
      ultimately show ?thesis using True val len ny(2) y(2) ne by (simp add: cmp_ok_def cmp_val_butlast_0)
    next
      case F: False
      then have "cmp_normal ws" using ne by (auto simp: cmp_normal_def)
      moreover have "CMP_ShiftRightByBits n x = y\<lparr>cmp_words := ws\<rparr>" using def F by auto
      ultimately show ?thesis using val len ny(2) y(2) by (simp add: cmp_ok_def)
    qed
  qed
  then show "cmp_ok (CMP_ShiftRightByBits n x)" and "cmp_space (CMP_ShiftRightByBits n x) = cmp_space x"
    and "cmp_val (cmp_words (CMP_ShiftRightByBits n x)) = cmp_val (cmp_words x) div 2 ^ n" by blast+
qed

end
