(* ===== verification/CMP_Multiply.thy ===== *)
theory CMP_Multiply
  imports CMP_Shift
begin

text \<open>
  Multiplication: the macros of cmpspprt.h for the product of two words, the vector routines of
  cmpvectr.c, and \<open>CMP_Multiply\<close> of cmpmuldv.c.
\<close>


section \<open>The model\<close>

definition CMP_LOW_WORD :: "u32 \<Rightarrow> u32" where
  "CMP_LOW_WORD x = x AND 0xffff"

definition CMP_HIGH_WORD :: "u32 \<Rightarrow> u32" where
  "CMP_HIGH_WORD x = drop_bit 16 x"

definition CMP_MULT_LOW :: "u32 \<Rightarrow> u32 \<Rightarrow> u32" where
  "CMP_MULT_LOW a b =
     (let lowWordA = CMP_LOW_WORD a; lowWordB = CMP_LOW_WORD b;
          highWordA = CMP_HIGH_WORD a; highWordB = CMP_HIGH_WORD b;
          lowProd = lowWordA * lowWordB;
          mixProd = lowWordA * highWordB + highWordA * lowWordB;
          mixProd = push_bit 16 mixProd
      in lowProd + mixProd)"

text \<open>The macro for the GNU compiler, over 64 bit integers, and the portable one: (low, high).\<close>

definition CMP_MULT_HIGHLOW_gnu :: "u32 \<Rightarrow> u32 \<Rightarrow> u32 \<times> u32" where
  "CMP_MULT_HIGHLOW_gnu a b =
     (let foo = (ucast a :: 64 word) * ucast b in (ucast foo, ucast (drop_bit 32 foo)))"

definition CMP_MULT_HIGHLOW :: "u32 \<Rightarrow> u32 \<Rightarrow> u32 \<times> u32" where
  "CMP_MULT_HIGHLOW a b =
     (let lowWordA = CMP_LOW_WORD a; lowWordB = CMP_LOW_WORD b;
          highWordA = CMP_HIGH_WORD a; highWordB = CMP_HIGH_WORD b;
          lowProd = lowWordA * lowWordB;
          highProd = highWordA * highWordB;
          a0b1 = lowWordA * highWordB;
          a1b0 = lowWordB * highWordA;
          mixProd = a0b1 + a1b0;
          highProd = (if mixProd < a0b1 then highProd + push_bit 16 1 else highProd);
          highProd = highProd + CMP_HIGH_WORD mixProd;
          mixProd = push_bit 16 mixProd;
          lowProd = lowProd + mixProd;
          highProd = (if lowProd < mixProd then highProd + 1 else highProd)
      in (lowProd, highProd))"

definition CMP_SQUARE_HIGHLOW :: "u32 \<Rightarrow> u32 \<times> u32" where
  "CMP_SQUARE_HIGHLOW a =
     (let lowHalfA = CMP_LOW_WORD a; highHalfA = CMP_HIGH_WORD a;
          lowProd = lowHalfA * lowHalfA;
          highProd = highHalfA * highHalfA;
          a0a1 = lowHalfA * highHalfA;
          mixProd = push_bit 1 a0a1;
          highProd = (if mixProd < a0a1 then highProd + push_bit 16 1 else highProd);
          highProd = highProd + CMP_HIGH_WORD mixProd;
          mixProd = push_bit 16 mixProd;
          lowProd = lowProd + mixProd;
          highProd = (if lowProd < mixProd then highProd + 1 else highProd)
      in (lowProd, highProd))"

text \<open>\<open>scaler * valueA + valueB + carry\<close>, from the product in two words.\<close>

definition CMP_inner_product :: "u32 \<times> u32 \<Rightarrow> u32 \<Rightarrow> u32 \<Rightarrow> u32 \<times> u32" where
  "CMP_inner_product product valueB carry =
     (let (lowProd, highProd) = product;
          lowProd = lowProd + valueB;
          highProd = highProd + (if lowProd < valueB then 1 else 0);
          lowProd = lowProd + carry;
          highProd = highProd + (if lowProd < carry then 1 else 0)
      in (lowProd, highProd))"

text \<open>
  \<open>CMP_VectorMultiply\<close> works on the words of \<open>vectorB\<close> from \<open>indexB\<close> on, to the end of the block; the
  result is None if it would run over that end. The first list is what is left of \<open>vectorA\<close>.
\<close>

fun CMP_propagate :: "u32 list \<Rightarrow> u32 list option" where
  "CMP_propagate [] = None"
| "CMP_propagate (b # bs) =
     (if b = 0xffffffff then map_option ((#) 0) (CMP_propagate bs) else Some ((b + 1) # bs))"

fun CMP_final_carry :: "u32 \<Rightarrow> u32 list \<Rightarrow> u32 list option" where
  "CMP_final_carry carry [] = None"
| "CMP_final_carry carry (b # bs) =
     (let b = b + carry in if b < carry then map_option ((#) b) (CMP_propagate bs) else Some (b # bs))"

fun CMP_vector_loop :: "u32 \<Rightarrow> u32 \<times> u32 \<Rightarrow> u32 list \<Rightarrow> u32 list \<Rightarrow> u32 \<Rightarrow> u32 list option" where
  "CMP_vector_loop scaler prod1 (a2 # a1 # as) (b1 # b2 # bs) carry =
     (let prod2 = CMP_MULT_HIGHLOW scaler a2;
          (low1, carry) = CMP_inner_product prod1 b1 carry;
          prod1 = CMP_MULT_HIGHLOW scaler a1;
          (low2, carry) = CMP_inner_product prod2 b2 carry
      in map_option (\<lambda>bs. low1 # low2 # bs) (CMP_vector_loop scaler prod1 as bs carry))"
| "CMP_vector_loop scaler prod1 [] (b # bs) carry =
     (let (low, carry) = CMP_inner_product prod1 b carry
      in map_option ((#) low) (CMP_final_carry carry bs))"
| "CMP_vector_loop scaler prod1 as bs carry = None"

definition CMP_VectorMultiply :: "u32 \<Rightarrow> u32 list \<Rightarrow> nat \<Rightarrow> nat \<Rightarrow> u32 list \<Rightarrow> nat \<Rightarrow> u32 list option" where
  "CMP_VectorMultiply scaler vectorA indexA lengthA vectorB indexB =
     (if lengthA = 0 \<or> length vectorA < indexA + lengthA then None
      else map_option ((@) (take indexB vectorB))
        (let as = take lengthA (drop indexA vectorA); bs = drop indexB vectorB
         in if even lengthA
            then (case (as, bs) of
                    (a # a' # as, b # bs) \<Rightarrow>
                      (let (low, carry) = CMP_inner_product (CMP_MULT_HIGHLOW scaler a) b 0
                       in map_option ((#) low) (CMP_vector_loop scaler (CMP_MULT_HIGHLOW scaler a') as bs carry))
                  | _ \<Rightarrow> None)
            else CMP_vector_loop scaler (CMP_MULT_HIGHLOW scaler (hd as)) (tl as) bs 0))"

text \<open>The squares of the words of \<open>vectorA\<close> added to pairs of words of \<open>vectorB\<close>.\<close>

fun CMP_trace_loop :: "u32 list \<Rightarrow> u32 list \<Rightarrow> u32 \<Rightarrow> u32 list option" where
  "CMP_trace_loop (a # as) (b1 # b2 # bs) carry =
     (let (lowProd, highProd) = CMP_SQUARE_HIGHLOW a;
          lowProd = lowProd + b1;
          highProd = (if lowProd < b1 then highProd + 1 else highProd);
          lowProd = lowProd + carry;
          highProd = (if lowProd < carry then highProd + 1 else highProd);
          highProd = highProd + b2;
          carry = (if highProd < b2 then 1 else 0)
      in map_option (\<lambda>bs. lowProd # highProd # bs) (CMP_trace_loop as bs carry))"
| "CMP_trace_loop [] bs carry = (if carry = 0 then Some bs else CMP_propagate bs)"
| "CMP_trace_loop as bs carry = None"

definition CMP_AddInTrace :: "u32 list \<Rightarrow> u32 list \<Rightarrow> u32 list option" where
  "CMP_AddInTrace vectorA vectorB = CMP_trace_loop vectorA vectorB 0"

text \<open>The loop over the words of the multiplier, from index \<open>i\<close>.\<close>

fun CMP_multiply_loop :: "u32 list \<Rightarrow> nat \<Rightarrow> u32 list \<Rightarrow> u32 list \<Rightarrow> u32 list option" where
  "CMP_multiply_loop [] i multiplicand product = Some product"
| "CMP_multiply_loop (w # ws) i multiplicand product =
     (case CMP_VectorMultiply w multiplicand 0 (length multiplicand) product i of
        None \<Rightarrow> None
      | Some product \<Rightarrow> CMP_multiply_loop ws (i + 1) multiplicand product)"

text \<open>\<open>while ((prodLength > 0) && (pval[--prodLength] == 0)); ++prodLength\<close>\<close>

fun CMP_prod_length :: "nat \<Rightarrow> u32 list \<Rightarrow> nat" where
  "CMP_prod_length 0 ws = 1"
| "CMP_prod_length (Suc n) ws = (if ws ! n = 0 then CMP_prod_length n ws else n + 1)"

definition CMP_Multiply :: "(nat \<Rightarrow> bool) \<Rightarrow> CMPInt \<Rightarrow> CMPInt \<Rightarrow> CMPInt \<Rightarrow> CMPStatus + CMPInt" where
  "CMP_Multiply mem multiplicand multiplier product =
     (let prodLength = cmp_len multiplicand + cmp_len multiplier
      in on_success (CMP_ensureNoCopy mem prodLength prodLength product) (\<lambda>product.
           case CMP_multiply_loop (cmp_words multiplier) 0 (cmp_words multiplicand) (replicate prodLength 0) of
             None \<Rightarrow> Inl CMP_OUT_OF_BOUNDS
           | Some ws \<Rightarrow> Inr (product\<lparr>cmp_words := take (CMP_prod_length prodLength ws) ws\<rparr>)))"

section \<open>The product of two words\<close>

lemma unat_LOW_WORD: "unat (CMP_LOW_WORD x) = unat x mod 65536"
proof -
  have "CMP_LOW_WORD x = take_bit 16 x"
    by (simp add: CMP_LOW_WORD_def take_bit_eq_mask mask_eq_exp_minus_1)
  then have "unat (CMP_LOW_WORD x) = take_bit 16 (unat x)" by (simp only: unsigned_take_bit_eq)
  then show ?thesis by (simp add: take_bit_eq_mod)
qed

lemma unat_HIGH_WORD: "unat (CMP_HIGH_WORD x) = unat x div 65536"
  unfolding CMP_HIGH_WORD_def unat_drop_bit_eq by (simp add: drop_bit_eq_div)

lemma unat_half_product:
  fixes x y :: u32
  assumes "unat x < 65536" and "unat y < 65536"
  shows "unat (x * y) = unat x * unat y" and "unat x * unat y \<le> 65535 * 65535"
proof -
  show le: "unat x * unat y \<le> 65535 * 65535" using assms by (intro mult_le_mono) auto
  then show "unat (x * y) = unat x * unat y" by (simp add: unat_word_ariths)
qed

lemma word_add_bit:
  fixes a b :: u32
  shows "unat (a + b) + 4294967296 * of_bool (a + b < a) = unat a + unat b"
  using unat_32 [of a] unat_32 [of b] by (auto simp: word_less_nat_alt unat_plus_if')

text \<open>Adding a word and a carry bit into a number of two words.\<close>

lemma two_words_carry:
  fixes l h x :: u32
  assumes "unat l + 4294967296 * unat h + unat x < 4294967296 * 4294967296"
  shows "unat (l + x) + 4294967296 * unat (h + (if l + x < x then 1 else 0)) = unat l + 4294967296 * unat h + unat x"
proof (cases "unat l + unat x < 4294967296")
  case True
  then have "unat (l + x) = unat l + unat x" by (simp add: unat_word_ariths)
  then show ?thesis by (simp add: word_less_nat_alt)
next
  case False
  then have s: "unat (l + x) + 4294967296 = unat l + unat x"
    using unat_32 [of l] unat_32 [of x] by (simp add: unat_plus_if')
  then have lt: "l + x < x" using unat_32 [of l] by (simp add: word_less_nat_alt)
  from False assms have "unat h + 1 < 4294967296" by simp
  then have "unat (h + 1) = unat h + 1" by (simp add: unat_word_ariths)
  with s lt show ?thesis by simp
qed

lemma push_16_parts:
  fixes m :: u32
  shows "unat (push_bit 16 m) + 4294967296 * (unat m div 65536) = unat m * 65536"
proof -
  have "unat (push_bit 16 m) = (unat m * 65536) mod 4294967296"
    unfolding unsigned_push_bit_eq by (simp add: take_bit_eq_mod push_bit_eq_mult)
  moreover have "(unat m * 65536) div 4294967296 = unat m div 65536"
    by simp
  ultimately show ?thesis using mod_mult_div_eq [of "unat m * 65536" 4294967296] by simp
qed

text \<open>
  The assembly of the two macros: \<open>mid\<close> is the sum of the mixed products, \<open>m\<close> its word, \<open>c\<close> its carry.
\<close>

lemma assemble_product:
  fixes p0 p1 m :: u32
  assumes mid: "unat m + 4294967296 * of_bool c = mid"
    and lt: "unat p0 + 65536 * mid + 4294967296 * unat p1 < 4294967296 * 4294967296"
  shows "unat (p0 + push_bit 16 m) + 4294967296 *
      unat ((if c then p1 + push_bit 16 1 else p1) + CMP_HIGH_WORD m + (if p0 + push_bit 16 m < push_bit 16 m then 1 else 0))
    = unat p0 + 65536 * mid + 4294967296 * unat p1"
proof -
  note P = push_16_parts [of m]
  have one: "push_bit 16 1 = (65536 :: u32)" by (simp add: push_bit_eq_mult)
  define h1 where "h1 = (if c then p1 + push_bit 16 1 else p1) + CMP_HIGH_WORD m"
  have b: "65536 * of_bool c + unat p1 + unat m div 65536 < 4294967296"
    using mid lt P by (cases c) auto
  have h1: "unat h1 = unat p1 + 65536 * of_bool c + unat m div 65536"
    using b by (cases c) (simp_all add: h1_def one unat_word_ariths unat_HIGH_WORD)
  have "unat p0 + 4294967296 * unat h1 + unat (push_bit 16 m) = unat p0 + 65536 * mid + 4294967296 * unat p1"
    using P mid by (cases c) (simp_all add: h1)
  with two_words_carry [of p0 h1 "push_bit 16 m"] lt show ?thesis
    by (simp add: h1_def)
qed

lemma halves: "unat (x :: u32) = unat (CMP_LOW_WORD x) + 65536 * unat (CMP_HIGH_WORD x)"
  "unat (CMP_LOW_WORD x) < 65536" "unat (CMP_HIGH_WORD x) < 65536"
  using unat_32 [of x] by (simp_all add: unat_LOW_WORD unat_HIGH_WORD)

lemma product_less: "unat (a :: u32) * unat (b :: u32) < 4294967296 * 4294967296"
proof -
  have "unat a * unat b \<le> 4294967295 * 4294967295"
    using unat_32 [of a] unat_32 [of b] by (intro mult_le_mono) auto
  then show ?thesis by simp
qed

lemma CMP_MULT_HIGHLOW_val:
  assumes "CMP_MULT_HIGHLOW a b = (l, h)"
  shows "unat l + 4294967296 * unat h = unat a * unat b"
proof -
  define aL where "aL = CMP_LOW_WORD a"
  define bL where "bL = CMP_LOW_WORD b"
  define aH where "aH = CMP_HIGH_WORD a"
  define bH where "bH = CMP_HIGH_WORD b"
  have a: "unat a = unat aL + 65536 * unat aH" "unat aL < 65536" "unat aH < 65536"
    and b: "unat b = unat bL + 65536 * unat bH" "unat bL < 65536" "unat bH < 65536"
    using halves [of a] halves [of b] by (simp_all add: aL_def aH_def bL_def bH_def)
  note pr = unat_half_product [OF a(2) b(2)] unat_half_product [OF a(3) b(3)]
    unat_half_product [OF a(2) b(3)] unat_half_product [OF b(2) a(3)]
  define c where "c = (aL * bH + bL * aH < aL * bH)"
  have mid: "unat (aL * bH + bL * aH) + 4294967296 * of_bool c = unat aL * unat bH + unat bL * unat aH"
    using word_add_bit [of "aL * bH" "bL * aH"] unfolding c_def pr .
  have prod: "unat a * unat b = unat (aL * bL) + 65536 * (unat aL * unat bH + unat bL * unat aH) + 4294967296 * unat (aH * bH)"
    unfolding pr a(1) b(1) by (simp add: algebra_simps)
  have "l = aL * bL + push_bit 16 (aL * bH + bL * aH)"
    and "h = (if c then aH * bH + push_bit 16 1 else aH * bH) + CMP_HIGH_WORD (aL * bH + bL * aH)
       + (if aL * bL + push_bit 16 (aL * bH + bL * aH) < push_bit 16 (aL * bH + bL * aH) then 1 else 0)"
    using assms by (auto simp: CMP_MULT_HIGHLOW_def Let_def c_def aL_def aH_def bL_def bH_def)
  with assemble_product [OF mid, of "aL * bL" "aH * bH"] prod product_less [of a b] show ?thesis by simp
qed

lemma CMP_SQUARE_HIGHLOW_val:
  assumes "CMP_SQUARE_HIGHLOW a = (l, h)"
  shows "unat l + 4294967296 * unat h = unat a * unat a"
proof -
  define aL where "aL = CMP_LOW_WORD a"
  define aH where "aH = CMP_HIGH_WORD a"
  have a: "unat a = unat aL + 65536 * unat aH" "unat aL < 65536" "unat aH < 65536"
    using halves [of a] by (simp_all add: aL_def aH_def)
  note pr = unat_half_product [OF a(2) a(2)] unat_half_product [OF a(3) a(3)] unat_half_product [OF a(2) a(3)]
  have m: "push_bit 1 (aL * aH) = aL * aH + aL * aH" by (simp add: push_bit_eq_mult)
  define c where "c = (aL * aH + aL * aH < aL * aH)"
  have mid: "unat (aL * aH + aL * aH) + 4294967296 * of_bool c = 2 * (unat aL * unat aH)"
    using word_add_bit [of "aL * aH" "aL * aH"] unfolding c_def pr mult_2 .
  have prod: "unat a * unat a = unat (aL * aL) + 65536 * (2 * (unat aL * unat aH)) + 4294967296 * unat (aH * aH)"
    unfolding pr a(1) by (simp add: algebra_simps)
  have "l = aL * aL + push_bit 16 (aL * aH + aL * aH)"
    and "h = (if c then aH * aH + push_bit 16 1 else aH * aH) + CMP_HIGH_WORD (aL * aH + aL * aH)
       + (if aL * aL + push_bit 16 (aL * aH + aL * aH) < push_bit 16 (aL * aH + aL * aH) then 1 else 0)"
    using assms unfolding CMP_SQUARE_HIGHLOW_def Let_def aL_def [symmetric] aH_def [symmetric] m c_def by auto
  with assemble_product [OF mid, of "aL * aL" "aH * aH"] prod product_less [of a a] show ?thesis by simp
qed

lemma two_words_inj:
  fixes l h l' h' :: u32
  assumes "unat l + 4294967296 * unat h = unat l' + 4294967296 * unat h'"
  shows "l = l' \<and> h = h'"
proof -
  have "unat l = unat l'" using arg_cong [OF assms, of "\<lambda>n. n mod 4294967296"] unat_32 [of l] unat_32 [of l'] by simp
  moreover from this assms have "unat h = unat h'" by simp
  ultimately show ?thesis by (simp add: word_unat_eq_iff)
qed

lemma CMP_MULT_HIGHLOW_gnu_val:
  assumes "CMP_MULT_HIGHLOW_gnu a b = (l, h)"
  shows "unat l + 4294967296 * unat h = unat a * unat b"
proof -
  define foo where "foo = (ucast a :: 64 word) * ucast b"
  have "unat (ucast x :: 64 word) = unat x" for x :: u32
    using unat_32 [of x] by (simp add: unsigned_ucast_eq take_bit_nat_eq_self)
  then have "unat foo = unat a * unat b"
    using product_less [of a b] by (simp add: foo_def unat_word_ariths)
  moreover have "unat l = unat foo mod 4294967296"
    using assms by (auto simp: CMP_MULT_HIGHLOW_gnu_def foo_def Let_def unsigned_ucast_eq take_bit_eq_mod)
  moreover have "unat h = unat foo div 4294967296"
  proof -
    have "h = ucast (drop_bit 32 foo)"
      using assms by (auto simp: CMP_MULT_HIGHLOW_gnu_def foo_def Let_def)
    then have "unat h = unat (drop_bit 32 foo) mod 4294967296" by (simp add: unsigned_ucast_eq take_bit_eq_mod)
    also have "unat (drop_bit 32 foo) = unat foo div 4294967296"
      unfolding unat_drop_bit_eq by (simp add: drop_bit_eq_div)
    finally have "unat h = unat foo div 4294967296 mod 4294967296" .
    also have "\<dots> = unat foo div 4294967296"
      using unsigned_less [of foo] by (intro mod_less) (simp add: div_less_iff_less_mult)
    finally show ?thesis .
  qed
  ultimately show ?thesis using mod_mult_div_eq [of "unat foo" 4294967296] by simp
qed

lemma CMP_MULT_HIGHLOW_same: "CMP_MULT_HIGHLOW a b = CMP_MULT_HIGHLOW_gnu a b"
  using CMP_MULT_HIGHLOW_val [of a b] CMP_MULT_HIGHLOW_gnu_val [of a b] two_words_inj
  by (metis surj_pair)

lemma CMP_MULT_LOW_eq: "CMP_MULT_LOW a b = a * b"
proof -
  have p: "push_bit 16 m = m * 65536" for m :: u32 by (simp add: push_bit_eq_mult)
  obtain l h where m: "CMP_MULT_HIGHLOW a b = (l, h)" by fastforce
  have "CMP_MULT_LOW a b = l"
    using m by (auto simp: CMP_MULT_LOW_def CMP_MULT_HIGHLOW_def Let_def mult.commute)
  moreover have "unat l = unat (a * b)"
  proof -
    have "(unat l + 4294967296 * unat h) mod 4294967296 = unat l" using unat_32 [of l] by simp
    then show ?thesis unfolding CMP_MULT_HIGHLOW_val [OF m] by (simp add: unat_word_ariths)
  qed
  ultimately show ?thesis by (simp add: word_unat_eq_iff)
qed

section \<open>Vectors\<close>

lemma CMP_inner_product_val:
  fixes s a :: u32
  assumes r: "CMP_inner_product (l, h) b c = (l', h')"
    and p: "unat l + 4294967296 * unat h = unat s * unat a"
  shows "unat l' + 4294967296 * unat h' = unat s * unat a + unat b + unat c"
proof -
  have "unat s * unat a \<le> 4294967295 * 4294967295"
    using unat_32 [of s] unat_32 [of a] by (intro mult_le_mono) auto
  then have lt: "unat s * unat a + unat b + unat c < 4294967296 * 4294967296"
    using unat_32 [of b] unat_32 [of c] by simp
  let ?h = "h + (if l + b < b then 1 else 0)"
  have "unat (l + b) + 4294967296 * unat ?h = unat s * unat a + unat b"
    using two_words_carry [of l h b] p lt by simp
  then show ?thesis
    using two_words_carry [of "l + b" ?h c] lt r by (auto simp: CMP_inner_product_def Let_def)
qed

lemma CMP_propagate_val:
  "cmp_val bs + 1 < 2 ^ (32 * length bs) \<Longrightarrow>
   \<exists>r. CMP_propagate bs = Some r \<and> length r = length bs \<and> cmp_val r = cmp_val bs + 1"
proof (induction bs)
  case (Cons b bs)
  show ?case
  proof (cases "b = 0xffffffff")
    case True
    then have "4294967296 * (cmp_val bs + 1) < 4294967296 * 2 ^ (32 * length bs)"
      using Cons.prems by (simp add: power_add)
    then have "cmp_val bs + 1 < 2 ^ (32 * length bs)" by (rule mult_less_cancel1 [THEN iffD1, THEN conjunct2])
    with Cons.IH True show ?thesis by auto
  next
    case False
    have "unat b \<noteq> 4294967295"
    proof
      assume "unat b = 4294967295"
      then have "unat b = unat (0xffffffff :: u32)" by simp
      with False show False by (simp only: word_unat_eq_iff)
    qed
    then have "unat (b + 1) = unat b + 1" using unat_32 [of b] by (simp add: unat_word_ariths)
    with False show ?thesis by simp
  qed
qed simp

lemma CMP_final_carry_val:
  assumes "cmp_val bs + unat c < 2 ^ (32 * length bs)" and "bs \<noteq> []"
  shows "\<exists>r. CMP_final_carry c bs = Some r \<and> length r = length bs \<and> cmp_val r = cmp_val bs + unat c"
proof -
  obtain b bs' where bs: "bs = b # bs'" using assms(2) by (cases bs) auto
  have s: "unat (b + c) + 4294967296 * of_bool (b + c < c) = unat b + unat c"
    using word_add_bit [of c b] by (simp add: add.commute)
  show ?thesis
  proof (cases "b + c < c")
    case True
    with s have "4294967296 * (cmp_val bs' + 1) \<le> cmp_val bs + unat c" by (simp add: bs)
    with assms(1) have "4294967296 * (cmp_val bs' + 1) < 4294967296 * 2 ^ (32 * length bs')"
      by (simp add: bs power_add)
    then have "cmp_val bs' + 1 < 2 ^ (32 * length bs')" by (rule mult_less_cancel1 [THEN iffD1, THEN conjunct2])
    from CMP_propagate_val [OF this] True s show ?thesis by (auto simp: bs Let_def)
  next
    case False
    with s show ?thesis by (simp add: bs Let_def)
  qed
qed

lemma cmp_tail_bound:
  fixes x y :: nat
  assumes "4294967296 * x \<le> y" and "y < 2 ^ (32 * Suc n)"
  shows "x < 2 ^ (32 * n)"
proof -
  have "4294967296 * x < 4294967296 * 2 ^ (32 * n)" using assms by (simp add: power_add)
  then show ?thesis by (rule mult_less_cancel1 [THEN iffD1, THEN conjunct2])
qed

lemma CMP_vector_loop_val:
  assumes "unat (fst p) + 4294967296 * unat (snd p) = unat s * unat a"
    and "even (length as)" and "length as + 2 \<le> length bs"
    and "unat s * cmp_val (a # as) + cmp_val bs + unat c < 2 ^ (32 * length bs)"
  shows "\<exists>r. CMP_vector_loop s p as bs c = Some r \<and> length r = length bs \<and>
    cmp_val r = unat s * cmp_val (a # as) + cmp_val bs + unat c"
  using assms
proof (induction s p as bs c arbitrary: a rule: CMP_vector_loop.induct)
  case (1 s p a2 a1 as b1 b2 bs c)
  obtain l2 h2 where m2: "CMP_MULT_HIGHLOW s a2 = (l2, h2)" by fastforce
  obtain l h where m1: "CMP_MULT_HIGHLOW s a1 = (l, h)" by fastforce
  obtain v1 c1 where i1: "CMP_inner_product p b1 c = (v1, c1)" by fastforce
  obtain v2 c2 where i2: "CMP_inner_product (l2, h2) b2 c1 = (v2, c2)" by fastforce
  have V1: "unat v1 + 4294967296 * unat c1 = unat s * unat a + unat b1 + unat c"
    using CMP_inner_product_val [of "fst p" "snd p" b1 c v1 c1 s a] i1 "1.prems"(1) by simp
  have V2: "unat v2 + 4294967296 * unat c2 = unat s * unat a2 + unat b2 + unat c1"
    by (rule CMP_inner_product_val [OF i2 CMP_MULT_HIGHLOW_val [OF m2]])
  let ?T = "unat s * cmp_val (a1 # as) + cmp_val bs + unat c2"
  have total: "unat s * cmp_val (a # a2 # a1 # as) + cmp_val (b1 # b2 # bs) + unat c
      = unat v1 + 4294967296 * (unat v2 + 4294967296 * ?T)"
  proof -
    have "unat s * cmp_val (a # a2 # a1 # as) + cmp_val (b1 # b2 # bs) + unat c
      = (unat s * unat a + unat b1 + unat c) + 4294967296 * (unat s * unat a2 + unat b2)
        + 4294967296 * 4294967296 * (unat s * cmp_val (a1 # as) + cmp_val bs)"
      by (simp add: algebra_simps)
    also have "\<dots> = unat v1 + 4294967296 * (unat s * unat a2 + unat b2 + unat c1)
        + 4294967296 * 4294967296 * (unat s * cmp_val (a1 # as) + cmp_val bs)"
      unfolding V1 [symmetric] by (simp add: algebra_simps)
    also have "\<dots> = unat v1 + 4294967296 * (unat v2 + 4294967296 * ?T)"
      unfolding V2 [symmetric] by (simp add: algebra_simps)
    finally show ?thesis .
  qed
  have "unat v1 + 4294967296 * (unat v2 + 4294967296 * ?T) < 2 ^ (32 * Suc (Suc (length bs)))"
    using "1.prems"(4) unfolding total by simp
  then have "unat v2 + 4294967296 * ?T < 2 ^ (32 * Suc (length bs))" by (rule cmp_tail_bound [OF le_add2])
  then have "?T < 2 ^ (32 * length bs)" by (rule cmp_tail_bound [OF le_add2])
  moreover have "even (length as)" "length as + 2 \<le> length bs" using "1.prems" by simp_all
  moreover have "unat (fst (l, h)) + 4294967296 * unat (snd (l, h)) = unat s * unat a1"
    using CMP_MULT_HIGHLOW_val [OF m1] by simp
  ultimately obtain r where r: "CMP_vector_loop s (l, h) as bs c2 = Some r" "length r = length bs" "cmp_val r = ?T"
    using "1.IH" [OF m2 [symmetric] i1 [symmetric] refl m1 [symmetric] i2 [symmetric] refl] by blast
  have "CMP_vector_loop s p (a2 # a1 # as) (b1 # b2 # bs) c = Some (v1 # v2 # r)"
    using m1 m2 i1 i2 r by simp
  with r total show ?case by simp
next
  case (2 s p b bs c)
  obtain v c1 where i: "CMP_inner_product p b c = (v, c1)" by fastforce
  have V: "unat v + 4294967296 * unat c1 = unat s * unat a + unat b + unat c"
    using CMP_inner_product_val [of "fst p" "snd p" b c v c1 s a] i "2.prems"(1) by simp
  have total: "unat s * cmp_val [a] + cmp_val (b # bs) + unat c = unat v + 4294967296 * (cmp_val bs + unat c1)"
    using V by simp
  have "unat v + 4294967296 * (cmp_val bs + unat c1) < 2 ^ (32 * Suc (length bs))"
    using "2.prems"(4) unfolding total by simp
  then have "cmp_val bs + unat c1 < 2 ^ (32 * length bs)" by (rule cmp_tail_bound [OF le_add2])
  moreover have "bs \<noteq> []" using "2.prems"(3) by (cases bs) auto
  ultimately obtain r where r: "CMP_final_carry c1 bs = Some r" "length r = length bs" "cmp_val r = cmp_val bs + unat c1"
    using CMP_final_carry_val by blast
  with i total show ?case by simp
qed auto

lemma cmp_val_take_drop: "i \<le> length B \<Longrightarrow> cmp_val B = cmp_val (take i B) + 2 ^ (32 * i) * cmp_val (drop i B)"
  using cmp_val_append [of "take i B" "drop i B"] by simp

lemma CMP_VectorMultiply_val:
  assumes n: "0 < n" "i + n \<le> length A" "j + n < length B"
    and lt: "cmp_val B + 2 ^ (32 * j) * (unat s * cmp_val (take n (drop i A))) < 2 ^ (32 * length B)"
  shows "\<exists>R. CMP_VectorMultiply s A i n B j = Some R \<and> length R = length B \<and> take j R = take j B \<and>
    cmp_val R = cmp_val B + 2 ^ (32 * j) * (unat s * cmp_val (take n (drop i A)))"
proof -
  define as where "as = take n (drop i A)"
  define bs where "bs = drop j B"
  have len: "length as = n" "length bs = length B - j" using n by (simp_all add: as_def bs_def)
  have B: "cmp_val B = cmp_val (take j B) + 2 ^ (32 * j) * cmp_val bs"
    using n cmp_val_take_drop [of j B] by (simp add: bs_def)
  have "2 ^ (32 * j) * (unat s * cmp_val as + cmp_val bs) < 2 ^ (32 * j) * 2 ^ (32 * length bs)"
    using lt n by (simp add: B as_def [symmetric] len algebra_simps flip: power_add)
  then have bound: "unat s * cmp_val as + cmp_val bs < 2 ^ (32 * length bs)"
    by (rule mult_less_cancel1 [THEN iffD1, THEN conjunct2])
  obtain a as' where as: "as = a # as'" using len n by (cases as) auto
  obtain b bs' where bs: "bs = b # bs'" using len n by (cases bs) auto
  obtain l h where m: "CMP_MULT_HIGHLOW s a = (l, h)" by fastforce
  note M = CMP_MULT_HIGHLOW_val [OF m]
  have "\<exists>r. (if even n then (case (as, bs) of
         (a # a' # as, b # bs) \<Rightarrow>
           (let (low, carry) = CMP_inner_product (CMP_MULT_HIGHLOW s a) b 0
            in map_option ((#) low) (CMP_vector_loop s (CMP_MULT_HIGHLOW s a') as bs carry))
         | _ \<Rightarrow> None)
       else CMP_vector_loop s (CMP_MULT_HIGHLOW s (hd as)) (tl as) bs 0) = Some r \<and>
      length r = length bs \<and> cmp_val r = unat s * cmp_val as + cmp_val bs"
  proof (cases "even n")
    case False
    then have "even (length as')" "length as' + 2 \<le> length bs" using len n by (auto simp: as)
    with CMP_vector_loop_val [of "(l, h)" s a as' bs 0] M bound False show ?thesis by (simp add: as m)
  next
    case True
    then obtain a' as'' where as': "as' = a' # as''" using len by (cases as') (auto simp: as)
    obtain v c where i: "CMP_inner_product (l, h) b 0 = (v, c)" by fastforce
    have V: "unat v + 4294967296 * unat c = unat s * unat a + unat b"
      using CMP_inner_product_val [OF i M] by simp
    have total: "unat s * cmp_val as + cmp_val bs = unat v + 4294967296 * (unat s * cmp_val (a' # as'') + cmp_val bs' + unat c)"
      unfolding as bs as' cmp_val.simps using V by (simp add: algebra_simps)
    have "unat v + 4294967296 * (unat s * cmp_val (a' # as'') + cmp_val bs' + unat c) < 2 ^ (32 * Suc (length bs'))"
      using bound unfolding total by (simp add: bs)
    then have "unat s * cmp_val (a' # as'') + cmp_val bs' + unat c < 2 ^ (32 * length bs')"
      by (rule cmp_tail_bound [OF le_add2])
    moreover obtain l' h' where m': "CMP_MULT_HIGHLOW s a' = (l', h')" by fastforce
    moreover have "even (length as'')" "length as'' + 2 \<le> length bs'" using True len n by (auto simp: as as' bs)
    ultimately obtain r where "CMP_vector_loop s (l', h') as'' bs' c = Some r" "length r = length bs'"
      "cmp_val r = unat s * cmp_val (a' # as'') + cmp_val bs' + unat c"
      using CMP_vector_loop_val [of "(l', h')" s a' as'' bs' c] CMP_MULT_HIGHLOW_val [OF m'] by auto
    with i m m' total True show ?thesis by (simp add: as as' bs)
  qed
  then obtain r where r: "CMP_VectorMultiply s A i n B j = Some (take j B @ r)" "length r = length bs"
    "cmp_val r = unat s * cmp_val as + cmp_val bs"
    using n unfolding CMP_VectorMultiply_def Let_def as_def bs_def by auto
  then show ?thesis
    using n B by (simp add: as_def [symmetric] cmp_val_append len algebra_simps)
qed

fun sum_of_squares :: "u32 list \<Rightarrow> nat" where
  "sum_of_squares [] = 0"
| "sum_of_squares (a # as) = unat a * unat a + 4294967296 * 4294967296 * sum_of_squares as"

lemma CMP_trace_loop_val:
  "c \<le> 1 \<Longrightarrow> 2 * length as \<le> length bs \<Longrightarrow> sum_of_squares as + cmp_val bs + unat c < 2 ^ (32 * length bs) \<Longrightarrow>
   \<exists>r. CMP_trace_loop as bs c = Some r \<and> length r = length bs \<and> cmp_val r = sum_of_squares as + cmp_val bs + unat c"
proof (induction as arbitrary: bs c)
  case (Cons a as bs0 c)
  from Cons.prems(2) obtain b1 bs1 where bs1: "bs0 = b1 # bs1" by (cases bs0) auto
  with Cons.prems(2) obtain b2 bs where bs: "bs0 = b1 # b2 # bs" by (cases bs1) auto
  obtain l h where s: "CMP_SQUARE_HIGHLOW a = (l, h)" by fastforce
  define h1 where "h1 = h + (if l + b1 < b1 then 1 else 0)"
  define h2 where "h2 = h1 + (if l + b1 + c < c then 1 else 0)"
  define d where "d = (if h2 + b2 < b2 then 1 else 0 :: u32)"
  have "unat a * unat a \<le> 4294967295 * 4294967295" using unat_32 [of a] by (intro mult_le_mono) auto
  moreover have "unat c \<le> 1" using Cons.prems(1) by (simp add: word_le_nat_alt)
  ultimately have lt: "unat a * unat a + unat b1 + unat c < 4294967296 * 4294967296"
    using unat_32 [of b1] by simp
  have 1: "unat (l + b1) + 4294967296 * unat h1 = unat a * unat a + unat b1"
    unfolding h1_def using two_words_carry [of l h b1] CMP_SQUARE_HIGHLOW_val [OF s] lt by simp
  have 2: "unat (l + b1 + c) + 4294967296 * unat h2 = unat a * unat a + unat b1 + unat c"
    unfolding h2_def using two_words_carry [of "l + b1" h1 c] 1 lt by simp
  have 3: "unat (h2 + b2) + 4294967296 * unat d = unat h2 + unat b2"
    using word_add_bit [of b2 h2] by (cases "h2 + b2 < b2") (simp_all add: d_def add.commute)
  let ?T = "sum_of_squares as + cmp_val bs + unat d"
  have total: "sum_of_squares (a # as) + cmp_val (b1 # b2 # bs) + unat c
      = unat (l + b1 + c) + 4294967296 * (unat (h2 + b2) + 4294967296 * ?T)"
    using 2 3 by (simp add: algebra_simps)
  have "unat (l + b1 + c) + 4294967296 * (unat (h2 + b2) + 4294967296 * ?T) < 2 ^ (32 * Suc (Suc (length bs)))"
    using Cons.prems(3) unfolding bs total by simp
  then have "unat (h2 + b2) + 4294967296 * ?T < 2 ^ (32 * Suc (length bs))" by (rule cmp_tail_bound [OF le_add2])
  then have lt': "?T < 2 ^ (32 * length bs)" by (rule cmp_tail_bound [OF le_add2])
  have step: "CMP_trace_loop (a # as) (b1 # b2 # bs) c
      = map_option (\<lambda>bs. (l + b1 + c) # (h2 + b2) # bs) (CMP_trace_loop as bs d)"
    using s by (simp add: Let_def h2_def h1_def d_def cong: if_cong)
  have "\<exists>r. CMP_trace_loop as bs d = Some r \<and> length r = length bs \<and> cmp_val r = ?T"
    using lt' Cons.prems(2) by (intro Cons.IH) (simp_all add: bs d_def)
  with step total show ?case unfolding bs by auto
next
  case (Nil bs c)
  with word_le_1 [of c] show ?case using CMP_propagate_val [of bs] by auto
qed

lemma CMP_multiply_loop_val:
  "A \<noteq> [] \<Longrightarrow> i + length ws + length A \<le> length P \<Longrightarrow>
   cmp_val P + 2 ^ (32 * i) * (cmp_val ws * cmp_val A) < 2 ^ (32 * length P) \<Longrightarrow>
   \<exists>R. CMP_multiply_loop ws i A P = Some R \<and> length R = length P \<and>
     cmp_val R = cmp_val P + 2 ^ (32 * i) * (cmp_val ws * cmp_val A)"
proof (induction ws i A P rule: CMP_multiply_loop.induct)
  case (2 w ws i A P)
  have split: "cmp_val P + 2 ^ (32 * i) * (cmp_val (w # ws) * cmp_val A)
      = cmp_val P + 2 ^ (32 * i) * (unat w * cmp_val A) + 2 ^ (32 * (i + 1)) * (cmp_val ws * cmp_val A)"
    by (simp add: algebra_simps power_add)
  have "\<exists>R. CMP_VectorMultiply w A 0 (length A) P i = Some R \<and> length R = length P \<and> take i R = take i P \<and>
      cmp_val R = cmp_val P + 2 ^ (32 * i) * (unat w * cmp_val (take (length A) (drop 0 A)))"
    using "2.prems" unfolding split by (intro CMP_VectorMultiply_val) auto
  then obtain Q where Q: "CMP_VectorMultiply w A 0 (length A) P i = Some Q" "length Q = length P"
      "cmp_val Q = cmp_val P + 2 ^ (32 * i) * (unat w * cmp_val A)" by auto
  have "\<exists>R. CMP_multiply_loop ws (i + 1) A Q = Some R \<and> length R = length Q \<and>
     cmp_val R = cmp_val Q + 2 ^ (32 * (i + 1)) * (cmp_val ws * cmp_val A)"
    using "2.prems" unfolding split by (intro "2.IH" [OF Q(1)]) (simp_all add: Q)
  with Q show ?case unfolding split by simp
qed simp

lemma CMP_prod_length_strip:
  "n \<le> length ws \<Longrightarrow> 0 < n \<Longrightarrow> take (CMP_prod_length n ws) ws = CMP_strip (take n ws)"
proof (induction n)
  case (Suc n)
  have l: "last (take (Suc n) ws) = ws ! n" "butlast (take (Suc n) ws) = take n ws"
    using Suc.prems by (simp_all add: take_Suc_conv_app_nth)
  show ?case
  proof (cases "n = 0")
    case True
    with Suc.prems show ?thesis by (subst CMP_strip.simps) simp
  next
    case False
    then show ?thesis using Suc l by (subst CMP_strip.simps) auto
  qed
qed simp

lemma CMP_Multiply_correct:
  assumes mem: "\<And>n. mem n" and n: "cmp_words x \<noteq> []" "cmp_words y \<noteq> []"
  shows "\<exists>z. CMP_Multiply mem x y p = Inr z \<and> cmp_ok z \<and> cmp_len z \<le> cmp_len x + cmp_len y \<and>
    cmp_val (cmp_words z) = cmp_val (cmp_words x) * cmp_val (cmp_words y)"
proof -
  let ?n = "cmp_len x + cmp_len y"
  obtain q where q: "CMP_ensureNoCopy mem ?n ?n p = Inr q" "?n \<le> cmp_space q"
    using CMP_ensureNoCopy_cases [of ?n ?n mem p] mem by auto
  have "cmp_val (cmp_words y) * cmp_val (cmp_words x) < 2 ^ (32 * cmp_len y) * 2 ^ (32 * cmp_len x)"
    by (intro mult_strict_mono) (auto intro: cmp_val_less)
  then have "cmp_val (cmp_words y) * cmp_val (cmp_words x) < 2 ^ (32 * ?n)"
    by (simp add: algebra_simps flip: power_add)
  then have "\<exists>R. CMP_multiply_loop (cmp_words y) 0 (cmp_words x) (replicate ?n 0) = Some R \<and>
      length R = ?n \<and> cmp_val R = cmp_val (cmp_words y) * cmp_val (cmp_words x)"
    using CMP_multiply_loop_val [of "cmp_words x" 0 "cmp_words y" "replicate ?n 0"] n by simp
  then obtain R where R: "CMP_multiply_loop (cmp_words y) 0 (cmp_words x) (replicate ?n 0) = Some R"
      "length R = ?n" "cmp_val R = cmp_val (cmp_words y) * cmp_val (cmp_words x)" by blast
  have "R \<noteq> []" using R(2) n by auto
  note S = CMP_strip_props [OF this]
  have "0 < length R" using \<open>R \<noteq> []\<close> by simp
  then have t: "take (CMP_prod_length ?n R) R = CMP_strip R" using CMP_prod_length_strip [of ?n R] R(2) by simp
  have "CMP_Multiply mem x y p = Inr (q\<lparr>cmp_words := CMP_strip R\<rparr>)"
    using q R t by (simp add: CMP_Multiply_def)
  with S R q show ?thesis by (simp add: cmp_ok_def)
qed

end
