(* ===== verification/CMP_Divide.thy ===== *)
theory CMP_Divide
  imports CMP_Multiply
begin

text \<open>
  Division: the estimate of a quotient word and the long division of cmpmuldv.c.
\<close>

section \<open>The model\<close>

definition CMP_AppendWord :: "(nat \<Rightarrow> bool) \<Rightarrow> u32 \<Rightarrow> CMPInt \<Rightarrow> CMPStatus + CMPInt" where
  "CMP_AppendWord mem x a =
     (if cmp_words a = [] then Inl CMP_OUT_OF_BOUNDS
      else if last (cmp_words a) \<noteq> 0
      then on_success (CMP_ensure mem (cmp_len a + 1) (cmp_len a + 2) a) (\<lambda>a.
             Inr (a\<lparr>cmp_words := x # cmp_words a\<rparr>))
      else Inr (a\<lparr>cmp_words := [x]\<rparr>))"

text \<open>The loop of \<open>CMP_DivOneAndHalfWordsByWord\<close>; it does not end for some divisors without their top bit.\<close>

partial_function (option) CMP_adjust_q0 ::
  "u32 \<Rightarrow> u32 \<Rightarrow> u32 \<Rightarrow> u32 \<Rightarrow> u32 \<Rightarrow> u32 \<Rightarrow> (u32 \<times> u32 \<times> u32) option" where
  "CMP_adjust_q0 v uUpper uLower q0 q0vUpper q0vLower =
     (if q0vUpper > uUpper \<or> (q0vUpper = uUpper \<and> q0vLower > uLower)
      then (if q0vLower \<ge> v
            then CMP_adjust_q0 v uUpper uLower (q0 - 1) q0vUpper (q0vLower - v)
            else CMP_adjust_q0 v uUpper uLower (q0 - 1) (q0vUpper - 1) (NOT (v - q0vLower) + 1))
      else Some (q0, q0vUpper, q0vLower))"

declare CMP_adjust_q0.simps [code]

definition CMP_DivOneAndHalfWordsByWord :: "u32 \<Rightarrow> u32 \<Rightarrow> u32 \<Rightarrow> (u32 \<times> u32) option" where
  "CMP_DivOneAndHalfWordsByWord v u0 u1 =
     (let uUpper = CMP_HIGH_WORD u0;
          uLower = push_bit 16 (CMP_LOW_WORD u0) OR CMP_HIGH_WORD u1;
          v0 = CMP_HIGH_WORD v
      in if v0 = 0 then None
         else (let q0 = u0 div v0;
                   (q0vLower, q0vUpper) = CMP_MULT_HIGHLOW q0 v
               in map_option (\<lambda>(q0, q0vUpper, q0vLower).
                    (q0, if uLower \<ge> q0vLower then uLower - q0vLower else NOT (q0vLower - uLower) + 1))
                    (CMP_adjust_q0 v uUpper uLower q0 q0vUpper q0vLower)))"

definition CMP_DivideTwoWordsByWord :: "u32 \<Rightarrow> u32 \<Rightarrow> u32 \<Rightarrow> (u32 \<times> u32) option" where
  "CMP_DivideTwoWordsByWord v u0 u1 =
     (if u0 < v
      then (case CMP_DivOneAndHalfWordsByWord v u0 u1 of
              None \<Rightarrow> None
            | Some (qUpper, rUpper) \<Rightarrow>
                (case CMP_DivOneAndHalfWordsByWord v rUpper (push_bit 16 (CMP_LOW_WORD u1)) of
                   None \<Rightarrow> None
                 | Some (qLower, rLower) \<Rightarrow> Some (push_bit 16 qUpper + qLower, rLower)))
      else Some (0xffffffff, 0))"

text \<open>
  \<open>CMP_EstimateMSWQuotient\<close> sets the quotient and the product. It writes the quotient without a look
  at its space. The status of \<open>CMP_Multiply\<close> is compared with \<open>status\<close>, which is 0, and not assigned to it:
  an allocation that fails there leaves an empty product and the status 0.
\<close>

definition CMP_EstimateMSWQuotient ::
  "(nat \<Rightarrow> bool) \<Rightarrow> CMPInt \<Rightarrow> CMPInt \<Rightarrow> CMPInt \<Rightarrow> CMPInt \<Rightarrow> CMPStatus + CMPInt \<times> CMPInt" where
  "CMP_EstimateMSWQuotient mem numerator divisor quot product =
     (let divisorLength = cmp_len divisor; numeratorLength = cmp_len numerator
      in if divisorLength \<ge> numeratorLength
         then on_success (CMP_ensureNoCopy mem 1 2 product) (\<lambda>product.
              on_success (CMP_ensureNoCopy mem 1 2 quot) (\<lambda>quot.
                Inr (quot\<lparr>cmp_words := [0]\<rparr>, product\<lparr>cmp_words := [0]\<rparr>)))
         else on_success (CMP_Move mem numerator CMP_Constructor) (\<lambda>partNum.
              on_success (CMP_Move mem divisor CMP_Constructor) (\<lambda>partDiv.
                let partNum = CMP_ShiftRightByCMPWords (numeratorLength - 3) partNum;
                    partDiv = CMP_ShiftRightByCMPWords (divisorLength - 2) partDiv
                in if cmp_len partNum < 2 \<or> cmp_len partDiv < 1 \<or> cmp_space quot < 1
                   then Inl CMP_OUT_OF_BOUNDS
                   else (let divisorMSW = cmp_words partDiv ! (cmp_len partDiv - 1);
                             numeratorMSW = cmp_words partNum ! (cmp_len partNum - 1);
                             numeratorMSW1 = cmp_words partNum ! (cmp_len partNum - 2)
                         in case CMP_DivideTwoWordsByWord divisorMSW numeratorMSW numeratorMSW1 of
                              None \<Rightarrow> Inl CMP_NO_RETURN
                            | Some (q0, r) \<Rightarrow>
                                (let quot = quot\<lparr>cmp_words := [q0]\<rparr>
                                 in case CMP_Multiply mem quot divisor product of
                                      Inl CMP_MEMORY \<Rightarrow> Inr (quot, CMP_Constructor)
                                    | Inl e \<Rightarrow> Inl e
                                    | Inr product \<Rightarrow> Inr (quot, product))))))"

text \<open>The loop that adjusts \<open>qj\<close> and \<open>product\<close>; every round subtracts 1 from \<open>qj\<close>.\<close>

lemma CMP_SubtractCMPWord_less:
  assumes "CMP_SubtractCMPWord 1 q = Inr q'"
  shows "cmp_val (cmp_words q') < cmp_val (cmp_words q)"
proof -
  obtain w ws where q: "cmp_words q = w # ws"
    using assms by (cases "cmp_words q") (auto simp: CMP_SubtractCMPWord_def)
  show ?thesis
  proof (cases "w = 0")
    case False
    then have ge: "1 \<le> w" by (metis linorder_not_less word_less_1)
    then have "unat (w - 1) < unat w" using False by (simp add: unat_minus_one unat_gt_0)
    moreover have "cmp_words q' = (w - 1) # ws" using assms ge by (auto simp: CMP_SubtractCMPWord_def q)
    ultimately show ?thesis by (simp add: q)
  next
    case True
    obtain us n where d: "CMP_dec_loop ws = (us, n)" by fastforce
    let ?vs = "(-1 :: u32) # us"
    have r: "n < length ws" "cmp_words q' = ?vs \<or> cmp_words q' = butlast ?vs \<and> ?vs ! length ws = 0"
      using assms d True by (auto simp: CMP_SubtractCMPWord_def q Let_def split: if_splits)
    from CMP_dec_loop_val [OF d] r(1) have u: "cmp_val ws = cmp_val us + 1" "length us = length ws" by auto
    then have "?vs ! length ws = last ?vs"
      by (metis last_conv_nth length_Cons diff_Suc_1 list.distinct(1))
    with r(2) have "cmp_val (cmp_words q') = cmp_val ?vs"
      using cmp_val_butlast_0 [of ?vs] by auto
    then show ?thesis using u True unat_32 [of "-1"] by (simp add: q)
  qed
qed

function CMP_adjust_quotient :: "CMPInt \<Rightarrow> CMPInt \<Rightarrow> CMPInt \<Rightarrow> CMPInt \<Rightarrow> CMPStatus + CMPInt \<times> CMPInt" where
  "CMP_adjust_quotient divisor remainder qj product =
     (if CMP_Compare product remainder > 0
      then (case CMP_SubtractCMPWord 1 qj of
              Inl e \<Rightarrow> Inl e
            | Inr qj \<Rightarrow> (case CMP_SubtractInPlace divisor product of
                           Inl e \<Rightarrow> Inl e
                         | Inr product \<Rightarrow> CMP_adjust_quotient divisor remainder qj product))
      else Inr (qj, product))"
  by pat_completeness auto
termination
  by (relation "measure (\<lambda>(d, r, q, p). cmp_val (cmp_words q))") (auto intro: CMP_SubtractCMPWord_less)

declare CMP_adjust_quotient.simps [simp del]

text \<open>The body of the loop of \<open>CMP_Divide\<close> for the word \<open>w\<close> of the dividend.\<close>

type_synonym divide_state = "CMPInt \<times> CMPInt \<times> CMPInt \<times> CMPInt"

definition CMP_divide_step :: "(nat \<Rightarrow> bool) \<Rightarrow> CMPInt \<Rightarrow> u32 \<Rightarrow> divide_state \<Rightarrow> CMPStatus + divide_state" where
  "CMP_divide_step mem divisor w = (\<lambda>(quot, remainder, qj, product).
     on_success
       (if CMP_Compare remainder divisor \<ge> 0
        then on_success (CMP_SubtractInPlace divisor remainder) (\<lambda>remainder.
             on_success (CMP_AddCMPWord mem 1 quot) (\<lambda>quot. Inr (quot, remainder)))
        else Inr (quot, remainder)) (\<lambda>(quot, remainder).
     on_success (CMP_AppendWord mem w remainder) (\<lambda>remainder.
     on_success (CMP_ShiftLeftByCMPWords mem 1 quot) (\<lambda>quot.
     if cmp_len remainder \<le> cmp_len divisor then Inr (quot, remainder, qj, product)
     else on_success (CMP_EstimateMSWQuotient mem remainder divisor qj product) (\<lambda>(qj, product).
          on_success (CMP_adjust_quotient divisor remainder qj product) (\<lambda>(qj, product).
          on_success (CMP_AddCMPWord mem (cmp_words qj ! 0) quot) (\<lambda>quot.
          on_success (CMP_SubtractInPlace product remainder) (\<lambda>remainder.
            Inr (quot, remainder, qj, product)))))))))"

fun CMP_divide_loop :: "(nat \<Rightarrow> bool) \<Rightarrow> CMPInt \<Rightarrow> u32 list \<Rightarrow> divide_state \<Rightarrow> CMPStatus + divide_state" where
  "CMP_divide_loop mem divisor [] st = Inr st"
| "CMP_divide_loop mem divisor (w # ws) st =
     on_success (CMP_divide_step mem divisor w st) (CMP_divide_loop mem divisor ws)"

text \<open>
  The dividend and the divisor are shifted in place and shifted back: the results are the dividend,
  the divisor, the quotient and the remainder.
\<close>

definition CMP_Divide ::
  "(nat \<Rightarrow> bool) \<Rightarrow> CMPInt \<Rightarrow> CMPInt \<Rightarrow> CMPInt \<Rightarrow> CMPInt \<Rightarrow> CMPStatus + divide_state" where
  "CMP_Divide mem dividend divisor quot remainder =
     on_success (CMP_ensureNoCopy mem 1 2 quot) (\<lambda>quot.
       let quot = quot\<lparr>cmp_words := [0]\<rparr>
       in if CMP_Compare dividend divisor < 0
          then on_success (CMP_Move mem dividend remainder) (\<lambda>remainder.
                 Inr (dividend, divisor, quot, remainder))
          else let shift = CMP_GetOffsetOfMSB divisor
               in if shift = 32 then Inl CMP_ZERO_DIVIDE
          else
            on_success (CMP_ShiftLeftByBits mem shift divisor) (\<lambda>divisor.
            on_success (CMP_ShiftLeftByBits mem shift dividend) (\<lambda>dividend.
            let aLength = cmp_len dividend; bLength = cmp_len divisor
            in on_success (CMP_Move mem dividend remainder) (\<lambda>remainder.
               on_success
                 (if aLength > bLength
                  then Inr (quot, CMP_ShiftRightByCMPWords (aLength - bLength) remainder)
                  else on_success (CMP_SubtractInPlace divisor remainder) (\<lambda>remainder.
                         Inr (quot\<lparr>cmp_words := [1]\<rparr>, remainder))) (\<lambda>(quot, remainder).
               on_success (CMP_reallocNoCopy mem aLength CMP_Constructor) (\<lambda>product.
               on_success (CMP_reallocNoCopy mem 2 CMP_Constructor) (\<lambda>qj.
               on_success (CMP_divide_loop mem divisor (rev (take (aLength - bLength) (cmp_words dividend)))
                            (quot, remainder, qj, product)) (\<lambda>(quot, remainder, qj, product).
               let remainder = CMP_ShiftRightByBits shift remainder;
                   dividend = CMP_ShiftRightByBits shift dividend;
                   divisor = CMP_ShiftRightByBits shift divisor
               in if CMP_Compare remainder divisor \<ge> 0
                  then on_success (CMP_SubtractInPlace divisor remainder) (\<lambda>remainder.
                       on_success (CMP_AddCMPWord mem 1 quot) (\<lambda>quot.
                         Inr (dividend, divisor, quot, remainder)))
                  else Inr (dividend, divisor, quot, remainder)))))))))"

text \<open>\<open>CMP_ModularReduce\<close> keeps no quotient; its adjustment does not end for a modulus that is zero.\<close>

partial_function (option) CMP_adjust_product :: "CMPInt \<Rightarrow> CMPInt \<Rightarrow> CMPInt \<Rightarrow> (CMPStatus + CMPInt) option" where
  "CMP_adjust_product modulus reducedValue product =
     (if CMP_Compare product reducedValue > 0
      then (case CMP_SubtractInPlace modulus product of
              Inl e \<Rightarrow> Some (Inl e)
            | Inr product \<Rightarrow> CMP_adjust_product modulus reducedValue product)
      else Some (Inr product))"

declare CMP_adjust_product.simps [code]

type_synonym reduce_state = "CMPInt \<times> CMPInt \<times> CMPInt"

definition CMP_reduce_step :: "(nat \<Rightarrow> bool) \<Rightarrow> CMPInt \<Rightarrow> u32 \<Rightarrow> reduce_state \<Rightarrow> CMPStatus + reduce_state" where
  "CMP_reduce_step mem modulus w = (\<lambda>(reducedValue, qj, product).
     on_success
       (if CMP_Compare reducedValue modulus \<ge> 0 then CMP_SubtractInPlace modulus reducedValue
        else Inr reducedValue) (\<lambda>reducedValue.
     on_success (CMP_AppendWord mem w reducedValue) (\<lambda>reducedValue.
     if cmp_len reducedValue \<le> cmp_len modulus then Inr (reducedValue, qj, product)
     else on_success (CMP_EstimateMSWQuotient mem reducedValue modulus qj product) (\<lambda>(qj, product).
          on_success (case CMP_adjust_product modulus reducedValue product of
                        None \<Rightarrow> Inl CMP_NO_RETURN | Some r \<Rightarrow> r) (\<lambda>product.
          on_success (CMP_SubtractInPlace product reducedValue) (\<lambda>reducedValue.
            Inr (reducedValue, qj, product)))))))"

fun CMP_reduce_loop :: "(nat \<Rightarrow> bool) \<Rightarrow> CMPInt \<Rightarrow> u32 list \<Rightarrow> reduce_state \<Rightarrow> CMPStatus + reduce_state" where
  "CMP_reduce_loop mem modulus [] st = Inr st"
| "CMP_reduce_loop mem modulus (w # ws) st =
     on_success (CMP_reduce_step mem modulus w st) (CMP_reduce_loop mem modulus ws)"

definition CMP_ModularReduce ::
  "(nat \<Rightarrow> bool) \<Rightarrow> CMPInt \<Rightarrow> CMPInt \<Rightarrow> CMPInt \<Rightarrow> CMPStatus + CMPInt \<times> CMPInt \<times> CMPInt" where
  "CMP_ModularReduce mem operand modulus reducedValue =
     (if CMP_Compare operand modulus < 0
      then on_success (CMP_Move mem operand reducedValue) (\<lambda>reducedValue. Inr (operand, modulus, reducedValue))
      else let shift = CMP_GetOffsetOfMSB modulus
           in if shift = 32 then Inl CMP_MODULUS
      else
        on_success (CMP_ShiftLeftByBits mem shift modulus) (\<lambda>modulus.
        on_success (CMP_ShiftLeftByBits mem shift operand) (\<lambda>operand.
        let aLength = cmp_len operand; bLength = cmp_len modulus
        in on_success (CMP_Move mem operand reducedValue) (\<lambda>reducedValue.
           on_success
             (if aLength > bLength then Inr (CMP_ShiftRightByCMPWords (aLength - bLength) reducedValue)
              else CMP_SubtractInPlace modulus reducedValue) (\<lambda>reducedValue.
           on_success (CMP_reallocNoCopy mem aLength CMP_Constructor) (\<lambda>product.
           on_success (CMP_reallocNoCopy mem 2 CMP_Constructor) (\<lambda>qj.
           on_success (CMP_reduce_loop mem modulus (rev (take (aLength - bLength) (cmp_words operand)))
                        (reducedValue, qj, product)) (\<lambda>(reducedValue, qj, product).
           let reducedValue = CMP_ShiftRightByBits shift reducedValue;
               operand = CMP_ShiftRightByBits shift operand;
               modulus = CMP_ShiftRightByBits shift modulus
           in if CMP_Compare reducedValue modulus \<ge> 0
              then on_success (CMP_SubtractInPlace modulus reducedValue) (\<lambda>reducedValue.
                     Inr (operand, modulus, reducedValue))
              else Inr (operand, modulus, reducedValue)))))))))"

section \<open>Division of words\<close>

lemma div_eqI:
  fixes q :: nat
  assumes "q * d \<le> n" and "n < (q + 1) * d"
  shows "n div d = q"
  by (rule div_nat_eqI) (use assms in \<open>simp_all add: mult.commute\<close>)

lemma two_words_less:
  fixes h l :: nat
  assumes "l < 4294967296" and "l' < 4294967296"
  shows "h > h' \<or> (h = h' \<and> l > l') \<longleftrightarrow> l + 4294967296 * h > l' + 4294967296 * h'"
proof -
  consider "h < h'" | "h = h'" | "h > h'" by linarith
  then show ?thesis
  proof cases
    case 1
    then have "4294967296 * (h + 1) \<le> 4294967296 * h'" by (intro mult_le_mono2) simp
    with 1 assms show ?thesis by simp
  next
    case 3
    then have "4294967296 * (h' + 1) \<le> 4294967296 * h" by (intro mult_le_mono2) simp
    with 3 assms show ?thesis by simp
  qed simp
qed

lemma word_not_plus_1: "NOT (x :: u32) + 1 = - x"
  by (simp add: not_eq_complement)

lemma CMP_adjust_q0_val:
  fixes v uU uL :: u32
  defines "U \<equiv> unat uL + 4294967296 * unat uU"
  assumes v: "0 < unat v"
  shows "unat l + 4294967296 * unat h = unat q0 * unat v \<Longrightarrow> U div unat v \<le> unat q0 \<Longrightarrow>
    \<exists>q l' h'. CMP_adjust_q0 v uU uL q0 h l = Some (q, h', l') \<and> unat q = U div unat v \<and>
      unat l' + 4294967296 * unat h' = unat q * unat v"
proof (induction "unat q0" arbitrary: q0 l h rule: less_induct)
  case less
  have gt: "h > uU \<or> (h = uU \<and> l > uL) \<longleftrightarrow> unat q0 * unat v > U"
    using two_words_less [OF unat_32 [of l] unat_32 [of uL], of "unat uU" "unat h"] less.prems(1)
    by (simp add: U_def word_less_nat_alt word_unat_eq_iff)
  show ?case
  proof (cases "unat q0 * unat v > U")
    case False
    then have "unat q0 \<le> U div unat v" using v by (simp add: less_eq_div_iff_mult_less_eq)
    with less.prems False gt show ?thesis by (subst CMP_adjust_q0.simps) auto
  next
    case True
    then have q: "0 < unat q0" by (metis less_nat_zero_code mult_0 not_gr_zero)
    then have q1: "unat (q0 - 1) = unat q0 - 1" using unat_minus_one [of q0] by (metis unat_0 less_numeral_extra(3))
    define l' where "l' = (if l \<ge> v then l - v else NOT (v - l) + 1)"
    define h' where "h' = (if l \<ge> v then h else h - 1)"
    have step: "CMP_adjust_q0 v uU uL q0 h l = CMP_adjust_q0 v uU uL (q0 - 1) h' l'"
      using True gt by (subst CMP_adjust_q0.simps) (simp add: l'_def h'_def)
    have val: "unat l' + 4294967296 * unat h' = unat (q0 - 1) * unat v"
    proof (cases "l \<ge> v")
      case True
      then have "unat l' = unat l - unat v" "unat v \<le> unat l" by (simp_all add: l'_def unat_sub word_le_nat_alt)
      with True less.prems(1) q show ?thesis by (simp add: h'_def q1 diff_mult_distrib)
    next
      case False
      then have lt: "unat l < unat v" by (simp add: word_le_nat_alt)
      have "unat v \<le> unat q0 * unat v" using q by (cases "unat q0") auto
      with lt less.prems(1) have "0 < unat h" by (cases "unat h = 0") auto
      then have h: "unat h' = unat h - 1"
        using False unat_minus_one [of h] by (metis h'_def unat_0 less_numeral_extra(3))
      have "l' = l - v" using False by (simp add: l'_def word_not_plus_1)
      then have "unat l' + unat v = unat l + 4294967296"
        using lt unat_32 [of v] by (simp add: unat_sub_if')
      with h less.prems(1) \<open>0 < unat h\<close> q show ?thesis by (simp add: q1 diff_mult_distrib) 
    qed
    have "U div unat v < unat q0" using True v by (simp add: div_less_iff_less_mult)
    then have "U div unat v \<le> unat (q0 - 1)" using q1 by simp
    from less.hyps [OF _ val this] q q1 step show ?thesis by simp
  qed
qed

lemma CMP_DivOneAndHalfWordsByWord_correct:
  assumes v: "2147483648 \<le> unat v" and lt: "unat u0 < unat v"
  shows "\<exists>q r. CMP_DivOneAndHalfWordsByWord v u0 u1 = Some (q, r) \<and>
    unat q = (unat u0 * 65536 + unat u1 div 65536) div unat v \<and>
    unat r = (unat u0 * 65536 + unat u1 div 65536) mod unat v"
proof -
  define uU where "uU = CMP_HIGH_WORD u0"
  define uL where "uL = push_bit 16 (CMP_LOW_WORD u0) OR CMP_HIGH_WORD u1"
  define v0 where "v0 = CMP_HIGH_WORD v"
  define U where "U = unat u0 * 65536 + unat u1 div 65536"
  have uL: "unat uL = unat u0 mod 65536 * 65536 + unat u1 div 65536"
    using unat_shl_or [of 16 "CMP_LOW_WORD u0" u1] halves(2) [of u0]
    by (simp add: uL_def CMP_HIGH_WORD_def unat_LOW_WORD)
  have U: "unat uL + 4294967296 * unat uU = U"
  proof -
    have "unat u0 * 65536 = (unat u0 mod 65536) * 65536 + 4294967296 * (unat u0 div 65536)"
      using mult_div_mod_eq [of 65536 "unat u0"] by linarith
    then show ?thesis unfolding uL U_def by (simp add: uU_def unat_HIGH_WORD)
  qed
  have v0: "unat v0 = unat v div 65536" by (simp add: v0_def unat_HIGH_WORD)
  then have v0_pos: "0 < unat v0" "unat v0 * 65536 \<le> unat v" using v by simp_all
  have q0: "unat (u0 div v0) = unat u0 div unat v0" by (simp add: unat_div)
  obtain l h where m: "CMP_MULT_HIGHLOW (u0 div v0) v = (l, h)" by fastforce
  have "U div unat v \<le> U div (unat v0 * 65536)" using v0_pos by (intro div_le_mono2) auto
  also have "\<dots> = (U div 65536) div unat v0" by (metis div_mult2_eq mult.commute)
  also have "U div 65536 = unat u0"
  proof -
    have "unat u1 div 65536 < 65536" using unat_32 [of u1] by simp
    then show ?thesis by (simp add: U_def)
  qed
  finally have "U div unat v \<le> unat (u0 div v0)" unfolding q0 .
  then obtain q l' h' where a: "CMP_adjust_q0 v uU uL (u0 div v0) h l = Some (q, h', l')"
    "unat q = U div unat v" "unat l' + 4294967296 * unat h' = unat q * unat v"
    using CMP_adjust_q0_val [of v l h "u0 div v0" uL uU] CMP_MULT_HIGHLOW_val [OF m] v by (auto simp: U)
  define r where "r = (if uL \<ge> l' then uL - l' else NOT (l' - uL) + 1)"
  have r: "r = uL - l'" by (simp add: r_def word_not_plus_1)
  have le: "unat q * unat v \<le> U" by (simp add: a(2))
  have "U mod unat v = U - unat q * unat v" by (simp add: a(2) minus_div_mult_eq_mod)
  moreover have "U mod unat v < 4294967296" using v unat_32 [of v] mod_less_divisor [of "unat v" U] by linarith
  moreover have "unat r = (U - unat q * unat v) mod 4294967296"
  proof -
    obtain k where "unat r + unat l' = unat uL + 4294967296 * k"
    proof (cases "unat l' \<le> unat uL")
      case True
      then show ?thesis by (intro that [of 0]) (simp add: r unat_sub_if')
    next
      case False
      then show ?thesis using unat_32 [of l'] by (intro that [of 1]) (simp add: r unat_sub_if')
    qed
    then have "unat r + unat q * unat v = unat uL + 4294967296 * (k + unat h')"
      unfolding a(3) [symmetric] by simp
    then have "unat r + 4294967296 * unat uU = U - unat q * unat v + 4294967296 * (k + unat h')"
      using le U by linarith
    then have "(unat r + 4294967296 * unat uU) mod 4294967296 = (U - unat q * unat v) mod 4294967296"
      by (simp only: mod_mult_self2)
    then show ?thesis using unat_32 [of r] by simp
  qed
  ultimately have "unat r = U mod unat v" by simp
  moreover have "CMP_DivOneAndHalfWordsByWord v u0 u1 = Some (q, r)"
  proof -
    have "v0 \<noteq> 0" using v0_pos(1) by auto
    then show ?thesis
      using a m unfolding CMP_DivOneAndHalfWordsByWord_def Let_def
        uU_def [symmetric] uL_def [symmetric] v0_def [symmetric] by (simp add: r_def)
  qed
  ultimately show ?thesis using a(2) by (simp add: U_def)
qed

lemma CMP_DivideTwoWordsByWord_correct:
  assumes v: "2147483648 \<le> unat v" and lt: "u0 < v"
  shows "\<exists>q r. CMP_DivideTwoWordsByWord v u0 u1 = Some (q, r) \<and>
    unat q = (unat u0 * 4294967296 + unat u1) div unat v \<and> unat r = (unat u0 * 4294967296 + unat u1) mod unat v"
proof -
  have lt': "unat u0 < unat v" using lt by (simp add: word_less_nat_alt)
  define U where "U = unat u0 * 65536 + unat u1 div 65536"
  obtain qu ru where 1: "CMP_DivOneAndHalfWordsByWord v u0 u1 = Some (qu, ru)"
    "unat qu = U div unat v" "unat ru = U mod unat v"
    using CMP_DivOneAndHalfWordsByWord_correct [OF v lt', of u1] unfolding U_def by blast
  define s where "s = push_bit 16 (CMP_LOW_WORD u1)"
  have s: "unat s div 65536 = unat u1 mod 65536"
    using push_16_parts [of "CMP_LOW_WORD u1"] halves(2) [of u1] by (simp add: s_def unat_LOW_WORD)
  have "unat ru < unat v" using 1(3) v by simp
  then obtain ql rl where 2: "CMP_DivOneAndHalfWordsByWord v ru s = Some (ql, rl)"
    "unat ql = (unat ru * 65536 + unat u1 mod 65536) div unat v" "unat rl = (unat ru * 65536 + unat u1 mod 65536) mod unat v"
    using CMP_DivOneAndHalfWordsByWord_correct [OF v, of ru s] s by auto
  have total: "unat u0 * 4294967296 + unat u1 = (65536 * unat qu) * unat v + (unat ru * 65536 + unat u1 mod 65536)"
  proof -
    have "unat u0 * 4294967296 + unat u1 = U * 65536 + unat u1 mod 65536"
      using mult_div_mod_eq [of 65536 "unat u1"] unfolding U_def by simp
    moreover have "U = unat qu * unat v + unat ru" using 1 by simp
    ultimately show ?thesis by (simp add: algebra_simps)
  qed
  have div: "(unat u0 * 4294967296 + unat u1) div unat v = 65536 * unat qu + unat ql"
    and mod: "(unat u0 * 4294967296 + unat u1) mod unat v = unat rl"
    unfolding total using v 2 by simp_all
  have "(unat u0 * 4294967296 + unat u1) div unat v < 4294967296"
    using lt' unat_32 [of u1] by (simp add: div_less_iff_less_mult) 
  then have b: "65536 * unat qu + unat ql < 4294967296" unfolding div .
  have p: "push_bit 16 qu = qu * 65536" by (simp add: push_bit_eq_mult)
  have "unat (push_bit 16 qu + ql) = 65536 * unat qu + unat ql"
    using b unfolding p by (simp add: unat_word_ariths mod_simps mult.commute)
  with 1 2 div mod lt show ?thesis by (simp add: CMP_DivideTwoWordsByWord_def s_def)
qed

section \<open>The shift that sets the top bit\<close>

lemma CMP_msb_loop_val:
  "w \<noteq> 0 \<Longrightarrow> 2147483648 \<le> unat w * 2 ^ CMP_msb_loop w \<and> unat w * 2 ^ CMP_msb_loop w < 4294967296"
proof (induction w rule: CMP_msb_loop.induct)
  case (1 w)
  have b: "bit w 31 \<longleftrightarrow> 2147483648 \<le> unat w"
  proof -
    have "bit w 31 \<longleftrightarrow> bit (unat w) 31" by (simp add: bit_unsigned_iff)
    also have "\<dots> \<longleftrightarrow> odd (unat w div 2 ^ 31)" by (rule bit_iff_odd)
    finally have "bit w 31 \<longleftrightarrow> odd (unat w div 2 ^ 31)" .
    moreover have "unat w div 2 ^ 31 < 2" using unat_32 [of w] by simp
    ultimately show ?thesis by (cases "unat w div 2 ^ 31 = 0") (auto simp: div_eq_0_iff)
  qed
  show ?case
  proof (cases "bit w 31")
    case True
    then show ?thesis using b unat_32 [of w] by (subst (1 2) CMP_msb_loop.simps) simp
  next
    case False
    then have lt: "unat w < 2147483648" using b by simp
    then have d: "unat (push_bit 1 w) = 2 * unat w"
      unfolding unsigned_push_bit_eq by (simp add: take_bit_nat_eq_self push_bit_eq_mult)
    have "0 < unat w" using "1.prems" by (simp add: unat_gt_0)
    then have nz: "push_bit 1 w \<noteq> 0" using d by (metis mult_is_0 neq0_conv unat_0 zero_neq_numeral)
    have s: "CMP_msb_loop w = CMP_msb_loop (push_bit 1 w) + 1"
      using False "1.prems" by (subst CMP_msb_loop.simps) simp
    show ?thesis
      using "1.IH" [OF _ nz] False "1.prems" unfolding s d by (simp add: mult_ac)
  qed
qed

lemma power_32_pred: "0 < n \<Longrightarrow> (2 :: nat) ^ (32 * n) = 4294967296 * 2 ^ (32 * (n - 1))"
  by (cases n) (simp_all add: power_add)

lemma cmp_len_eq:
  assumes "cmp_normal ws" and "0 < n" and "2 ^ (32 * (n - 1)) \<le> cmp_val ws" and "cmp_val ws < 2 ^ (32 * n)"
  shows "length ws = n"
proof (rule antisym)
  show "n \<le> length ws"
  proof (rule ccontr)
    assume "\<not> n \<le> length ws"
    then have "(2 :: nat) ^ (32 * length ws) \<le> 2 ^ (32 * (n - 1))" by (intro power_increasing) auto
    with assms(3) cmp_val_less [of ws] show False by linarith
  qed
  show "length ws \<le> n"
  proof (rule ccontr)
    assume n: "\<not> length ws \<le> n"
    then have "(2 :: nat) ^ (32 * n) \<le> 2 ^ (32 * (length ws - 1))" by (intro power_increasing) auto
    moreover have "2 ^ (32 * (length ws - 1)) \<le> cmp_val ws" using n assms(1,2) by (intro cmp_normal_ge) auto
    ultimately show False using assms(4) by linarith
  qed
qed

text \<open>The top bit of the most significant word is set.\<close>

definition cmp_top :: "u32 list \<Rightarrow> bool" where
  "cmp_top ws \<longleftrightarrow> ws \<noteq> [] \<and> 2 ^ (32 * length ws) \<le> 2 * cmp_val ws"

lemma cmp_top_last:
  assumes "cmp_top ws"
  shows "2147483648 \<le> unat (last ws)"
proof -
  have ne: "ws \<noteq> []" and le: "2 ^ (32 * length ws) \<le> 2 * cmp_val ws" using assms by (auto simp: cmp_top_def)
  define B where "B = (2 :: nat) ^ (32 * (length ws - 1))"
  have B: "0 < B" "2 ^ (32 * length ws) = 4294967296 * B"
    using ne by (simp_all add: B_def power_32_pred)
  have v: "cmp_val ws = cmp_val (butlast ws) + B * unat (last ws)" "cmp_val (butlast ws) < B"
    using cmp_val_last [OF ne] cmp_val_less [of "butlast ws"] by (simp_all add: B_def)
  show ?thesis
  proof (rule ccontr)
    assume "\<not> 2147483648 \<le> unat (last ws)"
    then have "B * (unat (last ws) + 1) \<le> B * 2147483648" by (intro mult_le_mono2) simp
    then have "B * unat (last ws) + B \<le> B * 2147483648" by (simp only: distrib_left mult_1_right)
    with le v show False unfolding B(2) by linarith
  qed
qed

lemma cmp_normal_last: "cmp_normal ws \<Longrightarrow> last ws = 0 \<longleftrightarrow> cmp_val ws = 0"
proof -
  assume n: "cmp_normal ws"
  then have ne: "ws \<noteq> []" by (simp add: cmp_normal_def)
  show ?thesis
  proof
    assume "last ws = 0"
    with n have "length ws = 1" by (auto simp: cmp_normal_def)
    then show "cmp_val ws = 0" using \<open>last ws = 0\<close> by (cases ws) auto
  next
    assume "cmp_val ws = 0"
    with ne show "last ws = 0" by (simp add: cmp_val_0)
  qed
qed

lemma CMP_GetOffsetOfMSB_correct:
  assumes mem: "\<And>n. mem n" and ok: "cmp_ok x"
  shows "CMP_GetOffsetOfMSB x = 32 \<longleftrightarrow> cmp_val (cmp_words x) = 0"
    and "cmp_val (cmp_words x) \<noteq> 0 \<Longrightarrow>
      \<exists>z. CMP_ShiftLeftByBits mem (CMP_GetOffsetOfMSB x) x = Inr z \<and> cmp_ok z \<and> cmp_len z = cmp_len x \<and>
        cmp_top (cmp_words z) \<and> cmp_val (cmp_words z) = cmp_val (cmp_words x) * 2 ^ CMP_GetOffsetOfMSB x"
proof -
  let ?w = "last (cmp_words x)" and ?s = "CMP_GetOffsetOfMSB x"
  have n: "cmp_normal (cmp_words x)" and ne: "cmp_words x \<noteq> []" using ok by (auto simp: cmp_ok_def cmp_normal_def)
  have s: "?s = (if ?w \<noteq> 0 then CMP_msb_loop ?w else 32)"
    using ne by (simp add: CMP_GetOffsetOfMSB_def last_conv_nth Let_def)
  show "?s = 32 \<longleftrightarrow> cmp_val (cmp_words x) = 0"
  proof (cases "?w = 0")
    case True
    then show ?thesis using s cmp_normal_last [OF n] by simp
  next
    case False
    have "?s \<noteq> 32"
    proof
      assume "?s = 32"
      then have "CMP_msb_loop ?w = 32" using False s by simp
      then have "unat ?w * 4294967296 < 4294967296" using CMP_msb_loop_val [OF False] by simp
      then show False using False by (simp add: unat_eq_0)
    qed
    with False show ?thesis using cmp_normal_last [OF n] by simp
  qed
  assume "cmp_val (cmp_words x) \<noteq> 0"
  then have w: "?w \<noteq> 0" using cmp_normal_last [OF n] by simp
  then have s': "?s = CMP_msb_loop ?w" using s by simp
  obtain z where z: "CMP_ShiftLeftByBits mem ?s x = Inr z" "cmp_ok z"
    "cmp_val (cmp_words z) = cmp_val (cmp_words x) * 2 ^ ?s"
    using CMP_ShiftLeftByBits_correct [of mem x ?s, OF mem ok] by blast
  define B where "B = (2 :: nat) ^ (32 * (cmp_len x - 1))"
  have B: "0 < B" "2 ^ (32 * cmp_len x) = 4294967296 * B"
    using ne by (simp_all add: B_def power_32_pred)
  have v: "cmp_val (cmp_words x) = cmp_val (butlast (cmp_words x)) + B * unat ?w"
    "cmp_val (butlast (cmp_words x)) < B"
    using cmp_val_last [OF ne] cmp_val_less [of "butlast (cmp_words x)"] by (simp_all add: B_def)
  have m: "2147483648 \<le> unat ?w * 2 ^ ?s" "unat ?w * 2 ^ ?s < 4294967296"
    using CMP_msb_loop_val [OF w] s' by simp_all
  have zv: "cmp_val (cmp_words z) = cmp_val (butlast (cmp_words x)) * 2 ^ ?s + B * (unat ?w * 2 ^ ?s)"
    unfolding z(3) v(1) by (simp add: algebra_simps)
  have "B * 2147483648 \<le> B * (unat ?w * 2 ^ ?s)" using m(1) by (rule mult_le_mono2)
  then have low: "B * 2147483648 \<le> cmp_val (cmp_words z)" unfolding zv by linarith
  have "(unat ?w + 1) * 2 ^ ?s \<le> 4294967296"
  proof -
    have s32: "?s < 32"
    proof (rule ccontr)
      assume "\<not> ?s < 32"
      then have "(2 :: nat) ^ 32 \<le> 2 ^ ?s" by (intro power_increasing) auto
      moreover have "1 \<le> unat ?w" using w by (simp add: unat_gt_0 Suc_leI)
      then have "1 * 2 ^ ?s \<le> unat ?w * 2 ^ ?s" by (rule mult_le_mono1)
      ultimately show False using m(2) by simp
    qed
    then have p: "(4294967296 :: nat) = 2 ^ (32 - ?s) * 2 ^ ?s" by (simp flip: power_add)
    then have "unat ?w < 2 ^ (32 - ?s)" using m(2) by (metis mult_less_cancel2)
    then have "(unat ?w + 1) * 2 ^ ?s \<le> 2 ^ (32 - ?s) * 2 ^ ?s" by (intro mult_le_mono1) simp
    then show ?thesis unfolding p [symmetric] .
  qed
  then have "B * ((unat ?w + 1) * 2 ^ ?s) \<le> B * 4294967296" by (rule mult_le_mono2)
  then have "B * (unat ?w * 2 ^ ?s) + B * 2 ^ ?s \<le> B * 4294967296"
    by (simp only: distrib_right distrib_left mult_1_left)
  moreover have "cmp_val (butlast (cmp_words x)) * 2 ^ ?s < B * 2 ^ ?s"
    by (rule mult_strict_right_mono [OF v(2)]) simp
  ultimately have high: "cmp_val (cmp_words z) < B * 4294967296"
    unfolding zv by linarith
  have len: "cmp_len z = cmp_len x"
  proof (rule cmp_len_eq)
    show "cmp_normal (cmp_words z)" using z(2) by (simp add: cmp_ok_def)
    show "2 ^ (32 * (cmp_len x - 1)) \<le> cmp_val (cmp_words z)" using low unfolding B_def [symmetric] by linarith
    show "cmp_val (cmp_words z) < 2 ^ (32 * cmp_len x)" using high B(2) by simp
  qed (use ne in simp)
  moreover have "cmp_words z \<noteq> []" using z(2) by (auto simp: cmp_ok_def cmp_normal_def)
  ultimately have "cmp_top (cmp_words z)" using low B(2) by (simp add: cmp_top_def)
  with z len show "\<exists>z. CMP_ShiftLeftByBits mem ?s x = Inr z \<and> cmp_ok z \<and> cmp_len z = cmp_len x \<and>
        cmp_top (cmp_words z) \<and> cmp_val (cmp_words z) = cmp_val (cmp_words x) * 2 ^ ?s" by blast
qed

lemma CMP_AppendWord_correct:
  assumes mem: "\<And>n. mem n" and ok: "cmp_ok x"
  shows "\<exists>z. CMP_AppendWord mem w x = Inr z \<and> cmp_ok z \<and>
    cmp_val (cmp_words z) = unat w + 4294967296 * cmp_val (cmp_words x)"
proof -
  have n: "cmp_normal (cmp_words x)" "cmp_words x \<noteq> []" "cmp_len x \<le> cmp_space x"
    using ok by (auto simp: cmp_ok_def cmp_normal_def)
  show ?thesis
  proof (cases "last (cmp_words x) = 0")
    case True
    moreover have "0 < cmp_len x" using n(2) by simp
    ultimately show ?thesis
      using n cmp_normal_last [OF n(1)] by (simp add: CMP_AppendWord_def cmp_ok_def cmp_normal_def)
  next
    case False
    from CMP_ensure_cases [of "cmp_len x + 1" "cmp_len x + 2" mem x] mem obtain sp where
      "CMP_ensure mem (cmp_len x + 1) (cmp_len x + 2) x = Inr (x\<lparr>cmp_space := sp\<rparr>)" "cmp_len x + 1 \<le> sp" by auto
    with False n show ?thesis by (simp add: CMP_AppendWord_def cmp_ok_def cmp_normal_def)
  qed
qed

section \<open>The quotient word\<close>

text \<open>The estimate is not smaller than the quotient.\<close>

lemma top_words_estimate:
  fixes N D :: nat
  assumes N: "N = (u0 * 4294967296 + u1) * B + n" "n < B" and D: "v * B \<le> D" and v: "0 < v"
  shows "N div D \<le> (u0 * 4294967296 + u1) div v"
proof -
  have "0 < B" using N(2) by simp
  have "N div D \<le> N div (v * B)" using D v \<open>0 < B\<close> by (intro div_le_mono2) auto
  also have "\<dots> = N div B div v" by (metis div_mult2_eq mult.commute)
  also have "N div B = u0 * 4294967296 + u1" using N by simp
  finally show ?thesis .
qed

lemma drop_nth_top:
  assumes "k < length ws" and "m < length ws - k"
  shows "drop k ws ! (length ws - k - 1 - m) = ws ! (length ws - 1 - m)"
  using assms by simp

lemma cmp_val_top_two:
  assumes "2 \<le> length ws"
  shows "\<exists>n < 2 ^ (32 * (length ws - 2)). cmp_val ws =
    (unat (ws ! (length ws - 1)) * 4294967296 + unat (ws ! (length ws - 2))) * 2 ^ (32 * (length ws - 2)) + n"
proof -
  obtain xs b a where ws: "ws = xs @ [b, a]"
  proof -
    have "ws \<noteq> []" "butlast ws \<noteq> []" using assms by (auto simp flip: length_0_conv)
    then have "ws = butlast (butlast ws) @ [last (butlast ws), last ws]"
      by (metis append.assoc append_Cons append_Nil append_butlast_last_id)
    then show ?thesis using that by blast
  qed
  have "cmp_val ws = (unat a * 4294967296 + unat b) * 2 ^ (32 * (length ws - 2)) + cmp_val xs"
    by (simp add: ws cmp_val_append algebra_simps)
  then show ?thesis using cmp_val_less [of xs] by (intro exI [of _ "cmp_val xs"]) (simp add: ws nth_append)
qed

lemma CMP_EstimateMSWQuotient_correct:
  assumes mem: "\<And>n. mem n" and d: "cmp_ok d" "cmp_top (cmp_words d)" and r: "cmp_ok r"
    and len: "cmp_len d < cmp_len r" and lt: "cmp_val (cmp_words r) < 4294967296 * cmp_val (cmp_words d)"
    and q: "1 \<le> cmp_space qj"
  shows "\<exists>q p. CMP_EstimateMSWQuotient mem r d qj product = Inr (qj\<lparr>cmp_words := [q]\<rparr>, p) \<and> cmp_ok p \<and>
    cmp_val (cmp_words p) = unat q * cmp_val (cmp_words d) \<and> cmp_val (cmp_words r) div cmp_val (cmp_words d) \<le> unat q"
proof -
  let ?R = "cmp_words r" and ?D = "cmp_words d"
  have ne: "?D \<noteq> []" using d(2) by (simp add: cmp_top_def)
  then have dl: "1 \<le> cmp_len d" by (simp add: Suc_leI)
  have rl: "2 \<le> cmp_len r" using dl len by simp
  obtain pn where pn: "CMP_Move mem r CMP_Constructor = Inr pn" "cmp_words pn = ?R"
    using CMP_Move_correct [of mem r CMP_Constructor] mem by blast
  obtain pd where pd: "CMP_Move mem d CMP_Constructor = Inr pd" "cmp_words pd = ?D"
    using CMP_Move_correct [of mem d CMP_Constructor] mem by blast
  define PN where "PN = CMP_ShiftRightByCMPWords (cmp_len r - 3) pn"
  define PD where "PD = CMP_ShiftRightByCMPWords (cmp_len d - 2) pd"
  have lt3: "cmp_len r - 3 < cmp_len r" "cmp_len d - 2 < cmp_len d" using rl dl by linarith+
  have PN: "cmp_words PN = drop (cmp_len r - 3) ?R" "cmp_len PN = cmp_len r - (cmp_len r - 3)"
    using rl lt3 by (simp_all add: PN_def CMP_ShiftRightByCMPWords_def pn)
  have PD: "cmp_words PD = drop (cmp_len d - 2) ?D" "cmp_len PD = cmp_len d - (cmp_len d - 2)"
    using dl lt3 by (simp_all add: PD_def CMP_ShiftRightByCMPWords_def pd)
  define v where "v = last ?D"
  define u0 where "u0 = ?R ! (cmp_len r - 1)"
  define u1 where "u1 = ?R ! (cmp_len r - 2)"
  have tops: "cmp_words PD ! (cmp_len PD - 1) = v" "cmp_words PN ! (cmp_len PN - 1) = u0"
    "cmp_words PN ! (cmp_len PN - 2) = u1"
    using ne dl rl by (simp_all add: PN PD v_def u0_def u1_def last_conv_nth)
  have v: "2147483648 \<le> unat v" using cmp_top_last [OF d(2)] by (simp add: v_def)
  define B where "B = (2 :: nat) ^ (32 * (cmp_len r - 2))"
  obtain n where n: "n < B" "cmp_val ?R = (unat u0 * 4294967296 + unat u1) * B + n"
    using cmp_val_top_two [OF rl] by (auto simp: B_def u0_def u1_def)
  have rn: "cmp_len r = cmp_len d + 1"
  proof (rule cmp_len_eq [of ?R])
    show "cmp_normal ?R" using r by (simp add: cmp_ok_def)
    have "4294967296 * cmp_val ?D < 4294967296 * 2 ^ (32 * cmp_len d)" using cmp_val_less [of ?D] by simp
    then show "cmp_val ?R < 2 ^ (32 * (cmp_len d + 1))" using lt by (simp add: power_add)
    have "(2 :: nat) ^ (32 * cmp_len d) \<le> 2 ^ (32 * (cmp_len r - 1))" using len by (intro power_increasing) auto
    moreover have "2 ^ (32 * (cmp_len r - 1)) \<le> cmp_val ?R" using \<open>cmp_normal ?R\<close> rl by (intro cmp_normal_ge) auto
    ultimately show "2 ^ (32 * (cmp_len d + 1 - 1)) \<le> cmp_val ?R"
      unfolding add_diff_cancel_right' by (rule le_trans)
  qed simp
  have Dv: "unat v * B \<le> cmp_val ?D"
    using cmp_val_last [OF ne] by (simp add: v_def B_def rn mult.commute)
  obtain q' s where q': "CMP_DivideTwoWordsByWord v u0 u1 = Some (q', s)"
    "cmp_val ?R div cmp_val ?D \<le> unat q'"
  proof (cases "u0 < v")
    case True
    from CMP_DivideTwoWordsByWord_correct [OF v True, of u1] obtain q' s where
      q': "CMP_DivideTwoWordsByWord v u0 u1 = Some (q', s)" "unat q' = (unat u0 * 4294967296 + unat u1) div unat v" by blast
    have "cmp_val ?R div cmp_val ?D \<le> unat q'"
      unfolding q'(2) using v by (intro top_words_estimate [OF n(2) n(1) Dv]) simp
    with q' that show ?thesis by blast
  next
    case False
    have "cmp_val ?R div cmp_val ?D < 4294967296"
      using lt by (metis less_mult_imp_div_less)
    then have "cmp_val ?R div cmp_val ?D \<le> unat (0xffffffff :: u32)" by simp
    moreover have "CMP_DivideTwoWordsByWord v u0 u1 = Some (0xffffffff, 0)"
      using False by (simp add: CMP_DivideTwoWordsByWord_def)
    ultimately show ?thesis using that by blast
  qed
  let ?q = "qj\<lparr>cmp_words := [q']\<rparr>"
  obtain p where p: "CMP_Multiply mem ?q d product = Inr p" "cmp_ok p" "cmp_val (cmp_words p) = unat q' * cmp_val ?D"
    using CMP_Multiply_correct [of mem ?q d product, OF mem _ ne] by auto
  have "\<not> (cmp_len PN < 2 \<or> cmp_len PD < 1 \<or> cmp_space qj < 1)" using PN(2) PD(2) rl dl q by linarith
  then have "CMP_EstimateMSWQuotient mem r d qj product = Inr (?q, p)"
    unfolding CMP_EstimateMSWQuotient_def Let_def pn(1) pd(1) on_success.simps
      PN_def [symmetric] PD_def [symmetric] tops
    using len q'(1) p(1) by simp
  with p q'(2) show ?thesis by blast
qed

lemma CMP_adjust_quotient_correct:
  assumes d: "cmp_ok d" "0 < cmp_val (cmp_words d)" and r: "cmp_ok r"
  shows "cmp_words qj = [q] \<Longrightarrow> cmp_ok p \<Longrightarrow> cmp_val (cmp_words p) = unat q * cmp_val (cmp_words d) \<Longrightarrow>
    cmp_val (cmp_words r) div cmp_val (cmp_words d) \<le> unat q \<Longrightarrow>
    \<exists>q' p'. CMP_adjust_quotient d r qj p = Inr (qj\<lparr>cmp_words := [q']\<rparr>, p') \<and> cmp_ok p' \<and>
      unat q' = cmp_val (cmp_words r) div cmp_val (cmp_words d) \<and>
      cmp_val (cmp_words p') = unat q' * cmp_val (cmp_words d)"
proof (induction "unat q" arbitrary: q qj p rule: less_induct)
  case less
  let ?R = "cmp_val (cmp_words r)" and ?D = "cmp_val (cmp_words d)"
  have cmp: "CMP_Compare p r > 0 \<longleftrightarrow> unat q * ?D > ?R"
    using CMP_Compare_iff(2) [of p r] less.prems(2,3) r by (simp add: cmp_ok_def)
  show ?case
  proof (cases "unat q * ?D > ?R")
    case False
    then have "unat q \<le> ?R div ?D" using d(2) by (simp add: less_eq_div_iff_mult_less_eq)
    then have "unat q = ?R div ?D" using less.prems(4) by simp
    moreover have "qj\<lparr>cmp_words := [q]\<rparr> = qj" using less.prems(1) by simp
    ultimately show ?thesis using False cmp less.prems
      by (subst CMP_adjust_quotient.simps) (metis (no_types, lifting))
  next
    case True
    then have qpos: "0 < unat q" by (cases "unat q") auto
    then have q1: "unat (q - 1) = unat q - 1" using unat_minus_one [of q] by (metis unat_0 less_numeral_extra(3))
    have "1 \<le> q" using qpos by (simp add: word_le_nat_alt)
    then have s: "CMP_SubtractCMPWord 1 qj = Inr (qj\<lparr>cmp_words := [q - 1]\<rparr>)"
      by (simp add: CMP_SubtractCMPWord_def less.prems(1))
    have nd: "cmp_normal (cmp_words d)" using d(1) by (simp add: cmp_ok_def)
    have "1 * ?D \<le> unat q * ?D" using qpos by (intro mult_le_mono1) simp
    then have le: "?D \<le> cmp_val (cmp_words p)" unfolding less.prems(3) by simp
    obtain p' where p': "CMP_SubtractInPlace d p = Inr p'" "cmp_ok p'"
      "cmp_val (cmp_words p') = unat q * ?D - ?D"
      using CMP_SubtractInPlace_correct [OF nd less.prems(2) le] unfolding less.prems(3) by blast
    have "?R div ?D < unat q" using True d(2) by (simp add: div_less_iff_less_mult)
    then have "\<exists>q' p''. CMP_adjust_quotient d r (qj\<lparr>cmp_words := [q - 1]\<rparr>) p' = Inr (qj\<lparr>cmp_words := [q - 1]\<rparr>\<lparr>cmp_words := [q']\<rparr>, p'') \<and>
        cmp_ok p'' \<and> unat q' = ?R div ?D \<and> cmp_val (cmp_words p'') = unat q' * ?D"
      using p' q1 by (intro less.hyps [of "q - 1"]) (simp_all add: diff_mult_distrib qpos)
    moreover have "CMP_adjust_quotient d r qj p = CMP_adjust_quotient d r (qj\<lparr>cmp_words := [q - 1]\<rparr>) p'"
      using True cmp s p' by (subst CMP_adjust_quotient.simps) simp
    ultimately show ?thesis by simp
  qed
qed

section \<open>Long division\<close>

lemma CMP_divide_first:
  assumes mem: "\<And>n. mem n" and d: "cmp_ok d" and q: "cmp_ok quot" and r: "cmp_ok rem"
    and lt: "cmp_val (cmp_words rem) < 2 * cmp_val (cmp_words d)"
  shows "\<exists>quot' rem'.
    (if CMP_Compare rem d \<ge> 0
     then on_success (CMP_SubtractInPlace d rem) (\<lambda>rem.
          on_success (CMP_AddCMPWord mem 1 quot) (\<lambda>quot. Inr (quot, rem)))
     else Inr (quot, rem)) = Inr (quot', rem') \<and> cmp_ok quot' \<and> cmp_ok rem' \<and>
    cmp_val (cmp_words rem') < cmp_val (cmp_words d) \<and>
    cmp_val (cmp_words quot') * cmp_val (cmp_words d) + cmp_val (cmp_words rem')
      = cmp_val (cmp_words quot) * cmp_val (cmp_words d) + cmp_val (cmp_words rem)"
proof -
  have n: "cmp_normal (cmp_words d)" "cmp_normal (cmp_words rem)" using d r by (simp_all add: cmp_ok_def)
  note cmp = CMP_Compare_iff(3) [OF n(2) n(1)]
  show ?thesis
  proof (cases "cmp_val (cmp_words rem) \<ge> cmp_val (cmp_words d)")
    case True
    obtain rem' where r': "CMP_SubtractInPlace d rem = Inr rem'" "cmp_ok rem'"
      "cmp_val (cmp_words rem') = cmp_val (cmp_words rem) - cmp_val (cmp_words d)"
      using CMP_SubtractInPlace_correct [OF n(1) r True] by blast
    obtain quot' where q': "CMP_AddCMPWord mem 1 quot = Inr quot'" "cmp_ok quot'"
      "cmp_val (cmp_words quot') = cmp_val (cmp_words quot) + 1"
      using CMP_AddCMPWord_correct [of mem quot 1, OF mem q] by auto
    from r' q' True cmp lt show ?thesis by simp
  next
    case False
    with cmp q r show ?thesis by simp
  qed
qed

fun divide_ok :: "CMPInt \<Rightarrow> divide_state \<Rightarrow> bool" where
  "divide_ok d (quot, rem, qj, product) \<longleftrightarrow> cmp_ok quot \<and> cmp_ok rem \<and> 1 \<le> cmp_space qj \<and>
     cmp_val (cmp_words rem) < 2 * cmp_val (cmp_words d)"

text \<open>The part of the dividend that has been divided.\<close>

fun divide_prefix :: "CMPInt \<Rightarrow> divide_state \<Rightarrow> nat" where
  "divide_prefix d (quot, rem, qj, product) =
     cmp_val (cmp_words quot) * cmp_val (cmp_words d) + cmp_val (cmp_words rem)"

lemma short_remainder:
  assumes "cmp_top (cmp_words d)" and "cmp_len r \<le> cmp_len d"
  shows "cmp_val (cmp_words r) < 2 * cmp_val (cmp_words d)"
proof -
  have "(2 :: nat) ^ (32 * cmp_len r) \<le> 2 ^ (32 * cmp_len d)" using assms(2) by (intro power_increasing) auto
  with cmp_val_less [of "cmp_words r"] assms(1) show ?thesis unfolding cmp_top_def by linarith
qed

lemma append_less:
  fixes w r d :: nat
  assumes "w < 4294967296" and "r < d"
  shows "w + 4294967296 * r < 4294967296 * d"
proof -
  have "4294967296 * (r + 1) \<le> 4294967296 * d" using assms(2) by (intro mult_le_mono2) simp
  with assms(1) show ?thesis by simp
qed

lemma CMP_divide_step_correct:
  assumes mem: "\<And>n. mem n" and d: "cmp_ok d" "cmp_top (cmp_words d)" and st: "divide_ok d st"
  shows "\<exists>st'. CMP_divide_step mem d w st = Inr st' \<and> divide_ok d st' \<and>
    divide_prefix d st' = 4294967296 * divide_prefix d st + unat w"
proof -
  let ?D = "cmp_val (cmp_words d)"
  have nd: "cmp_normal (cmp_words d)" using d(1) by (simp add: cmp_ok_def)
  have dpos: "0 < ?D" using d(2) by (auto simp: cmp_top_def intro: Nat.gr0I)
  obtain Q R qj p where s: "st = (Q, R, qj, p)" by (metis prod_cases4)
  have ok: "cmp_ok Q" "cmp_ok R" "1 \<le> cmp_space qj" "cmp_val (cmp_words R) < 2 * ?D"
    using st by (simp_all add: s)
  obtain Q1 R1 where 1: "(if CMP_Compare R d \<ge> 0
     then on_success (CMP_SubtractInPlace d R) (\<lambda>rem.
          on_success (CMP_AddCMPWord mem 1 Q) (\<lambda>quot. Inr (quot, rem)))
     else Inr (Q, R)) = Inr (Q1, R1)" "cmp_ok Q1" "cmp_ok R1" "cmp_val (cmp_words R1) < ?D"
    "cmp_val (cmp_words Q1) * ?D + cmp_val (cmp_words R1) = divide_prefix d st"
    using CMP_divide_first [of mem d Q R, OF mem d(1) ok(1,2,4)] unfolding s divide_prefix.simps by blast
  obtain R2 where R2: "CMP_AppendWord mem w R1 = Inr R2" "cmp_ok R2"
    "cmp_val (cmp_words R2) = unat w + 4294967296 * cmp_val (cmp_words R1)"
    using CMP_AppendWord_correct [of mem R1 w, OF mem 1(3)] by blast
  obtain Q2 where Q2: "CMP_ShiftLeftByCMPWords mem 1 Q1 = Inr Q2" "cmp_ok Q2"
    "cmp_val (cmp_words Q2) = cmp_val (cmp_words Q1) * 4294967296"
    using CMP_ShiftLeftByCMPWords_correct [of mem Q1 1, OF mem 1(2)] by auto
  have R2lt: "cmp_val (cmp_words R2) < 4294967296 * ?D"
    unfolding R2(3) by (rule append_less [OF unat_32 1(4)])
  have pre: "4294967296 * divide_prefix d st + unat w = cmp_val (cmp_words Q2) * ?D + cmp_val (cmp_words R2)"
    unfolding 1(5) [symmetric] R2(3) Q2(3) by (simp add: algebra_simps)
  show ?thesis
  proof (cases "cmp_len R2 \<le> cmp_len d")
    case True
    then have "CMP_divide_step mem d w st = Inr (Q2, R2, qj, p)"
      using 1(1) R2(1) Q2(1) by (simp add: CMP_divide_step_def s)
    with pre R2(2) Q2(2) ok(3) short_remainder [OF d(2) True] show ?thesis by simp
  next
    case False
    then obtain e p1 where E: "CMP_EstimateMSWQuotient mem R2 d qj p = Inr (qj\<lparr>cmp_words := [e]\<rparr>, p1)"
      "cmp_ok p1" "cmp_val (cmp_words p1) = unat e * ?D" "cmp_val (cmp_words R2) div ?D \<le> unat e"
      using CMP_EstimateMSWQuotient_correct [of mem d R2 qj p, OF mem d R2(2) _ R2lt ok(3)] by auto
    obtain q p2 where A: "CMP_adjust_quotient d R2 (qj\<lparr>cmp_words := [e]\<rparr>) p1 = Inr (qj\<lparr>cmp_words := [q]\<rparr>, p2)"
      "cmp_ok p2" "unat q = cmp_val (cmp_words R2) div ?D" "cmp_val (cmp_words p2) = unat q * ?D"
      using CMP_adjust_quotient_correct [OF d(1) dpos R2(2) _ E(2,3,4), of "qj\<lparr>cmp_words := [e]\<rparr>"] by auto
    obtain Q3 where Q3: "CMP_AddCMPWord mem q Q2 = Inr Q3" "cmp_ok Q3"
      "cmp_val (cmp_words Q3) = cmp_val (cmp_words Q2) + unat q"
      using CMP_AddCMPWord_correct [of mem Q2 q, OF mem Q2(2)] by blast
    have "cmp_val (cmp_words p2) \<le> cmp_val (cmp_words R2)" unfolding A(4) A(3) by simp
    moreover have "cmp_normal (cmp_words p2)" using A(2) by (simp add: cmp_ok_def)
    ultimately obtain R3 where R3: "CMP_SubtractInPlace p2 R2 = Inr R3" "cmp_ok R3"
      "cmp_val (cmp_words R3) = cmp_val (cmp_words R2) - cmp_val (cmp_words p2)"
      using CMP_SubtractInPlace_correct [of p2 R2] R2(2) by blast
    have "CMP_divide_step mem d w st = Inr (Q3, R3, qj\<lparr>cmp_words := [q]\<rparr>, p2)"
      using 1(1) R2(1) Q2(1) False E(1) A(1) Q3(1) R3(1) by (simp add: CMP_divide_step_def s)
    moreover have "cmp_val (cmp_words R3) = cmp_val (cmp_words R2) mod ?D"
      unfolding R3(3) A(4) A(3) by (simp add: minus_div_mult_eq_mod)
    then have "cmp_val (cmp_words R3) < 2 * ?D" using dpos mod_less_divisor [of ?D "cmp_val (cmp_words R2)"] by linarith
    moreover have "cmp_val (cmp_words Q3) * ?D + cmp_val (cmp_words R3)
        = cmp_val (cmp_words Q2) * ?D + cmp_val (cmp_words R2)"
      unfolding R3(3) Q3(3) using \<open>cmp_val (cmp_words p2) \<le> cmp_val (cmp_words R2)\<close> unfolding A(4)
      by (simp add: algebra_simps)
    ultimately show ?thesis using pre R3(2) Q3(2) ok(3) by simp
  qed
qed

lemma CMP_divide_loop_correct:
  assumes mem: "\<And>n. mem n" and d: "cmp_ok d" "cmp_top (cmp_words d)"
  shows "divide_ok d st \<Longrightarrow> \<exists>st'. CMP_divide_loop mem d (rev ws) st = Inr st' \<and> divide_ok d st' \<and>
    divide_prefix d st' = 2 ^ (32 * length ws) * divide_prefix d st + cmp_val ws"
proof (induction ws arbitrary: st rule: rev_induct)
  case (snoc w ws)
  obtain st1 where 1: "CMP_divide_step mem d w st = Inr st1" "divide_ok d st1"
    "divide_prefix d st1 = 4294967296 * divide_prefix d st + unat w"
    using CMP_divide_step_correct [of mem d st w, OF mem d snoc.prems] by blast
  obtain st2 where "CMP_divide_loop mem d (rev ws) st1 = Inr st2" "divide_ok d st2"
    "divide_prefix d st2 = 2 ^ (32 * length ws) * divide_prefix d st1 + cmp_val ws"
    using snoc.IH [OF 1(2)] by blast
  with 1 show ?case by (simp add: cmp_val_append power_add algebra_simps)
qed simp

lemma CMP_shift_back:
  assumes "cmp_ok x" and "cmp_ok z" and "cmp_val (cmp_words z) = cmp_val (cmp_words x) * 2 ^ s"
  shows "cmp_ok (CMP_ShiftRightByBits s z)" and "cmp_words (CMP_ShiftRightByBits s z) = cmp_words x"
proof -
  note R = CMP_ShiftRightByBits_correct [OF assms(2), of s]
  show ok: "cmp_ok (CMP_ShiftRightByBits s z)" by (rule R(1))
  have "cmp_val (cmp_words (CMP_ShiftRightByBits s z)) = cmp_val (cmp_words x)"
    unfolding R(3) assms(3) by simp
  then show "cmp_words (CMP_ShiftRightByBits s z) = cmp_words x"
    using ok assms(1) by (intro cmp_normal_inj) (simp_all add: cmp_ok_def)
qed

lemma quotient_remainder:
  fixes q d r n :: nat
  assumes "q * d + r = n" and "r < d"
  shows "q = n div d" and "r = n mod d"
  using assms by (auto simp: mult.commute)

text \<open>What both divisions do before their loop, the divisor already shifted.\<close>

lemma CMP_first_remainder:
  assumes mem: "\<And>n. mem n" and a: "cmp_ok a" and d: "cmp_ok d" "cmp_top (cmp_words d)"
    and ge: "cmp_val (cmp_words d) \<le> cmp_val (cmp_words a)"
    and m: "CMP_Move mem a r0 = Inr r1"
  defines "k \<equiv> cmp_len a - cmp_len d"
  shows "cmp_len a > cmp_len d \<Longrightarrow> cmp_ok (CMP_ShiftRightByCMPWords k r1) \<and>
      cmp_val (cmp_words (CMP_ShiftRightByCMPWords k r1)) < 2 * cmp_val (cmp_words d) \<and>
      2 ^ (32 * k) * cmp_val (cmp_words (CMP_ShiftRightByCMPWords k r1)) + cmp_val (take k (cmp_words a)) = cmp_val (cmp_words a)"
    and "\<not> cmp_len a > cmp_len d \<Longrightarrow> k = 0 \<and> (\<exists>r2. CMP_SubtractInPlace d r1 = Inr r2 \<and> cmp_ok r2 \<and>
      cmp_val (cmp_words r2) < 2 * cmp_val (cmp_words d) \<and>
      cmp_val (cmp_words r2) = cmp_val (cmp_words a) - cmp_val (cmp_words d))"
proof -
  have r1: "cmp_words r1 = cmp_words a" "cmp_len a \<le> cmp_space r1"
    using CMP_Move_correct [of mem a r0] mem m by auto
  have ok1: "cmp_ok r1" using a r1 by (simp add: cmp_ok_def)
  {
    assume gt: "cmp_len a > cmp_len d"
    let ?r = "CMP_ShiftRightByCMPWords k r1"
    have "cmp_words d \<noteq> []" using d(2) by (simp add: cmp_top_def)
    then have "0 < cmp_len d" by (rule length_greater_0_conv [THEN iffD2])
    then have kl: "k < cmp_len r1" using gt unfolding k_def r1 by linarith
    then have w: "cmp_words ?r = drop k (cmp_words a)" by (simp add: CMP_ShiftRightByCMPWords_def r1)
    then have "cmp_len ?r \<le> cmp_len d" using gt by (simp add: k_def)
    moreover have "2 ^ (32 * k) * cmp_val (cmp_words ?r) + cmp_val (take k (cmp_words a)) = cmp_val (cmp_words a)"
      using cmp_val_take_drop [of k "cmp_words a"] kl unfolding w by (simp add: r1)
    ultimately show "cmp_ok ?r \<and> cmp_val (cmp_words ?r) < 2 * cmp_val (cmp_words d) \<and>
      2 ^ (32 * k) * cmp_val (cmp_words ?r) + cmp_val (take k (cmp_words a)) = cmp_val (cmp_words a)"
      using CMP_ShiftRightByCMPWords_correct(1) [OF ok1, of k] short_remainder [OF d(2)] by blast
  next
    assume ngt: "\<not> cmp_len a > cmp_len d"
    have nd: "cmp_normal (cmp_words d)" using d(1) by (simp add: cmp_ok_def)
    have ge': "cmp_val (cmp_words d) \<le> cmp_val (cmp_words r1)" using ge by (simp add: r1)
    obtain r2 where r2: "CMP_SubtractInPlace d r1 = Inr r2" "cmp_ok r2"
      "cmp_val (cmp_words r2) = cmp_val (cmp_words a) - cmp_val (cmp_words d)"
      using CMP_SubtractInPlace_correct [OF nd ok1 ge'] by (auto simp: r1)
    have "cmp_val (cmp_words a) < 2 * cmp_val (cmp_words d)" using ngt by (intro short_remainder [OF d(2)]) simp
    with r2 ngt show "k = 0 \<and> (\<exists>r2. CMP_SubtractInPlace d r1 = Inr r2 \<and> cmp_ok r2 \<and>
      cmp_val (cmp_words r2) < 2 * cmp_val (cmp_words d) \<and>
      cmp_val (cmp_words r2) = cmp_val (cmp_words a) - cmp_val (cmp_words d))"
      by (auto simp: k_def)
  }
qed

lemma CMP_divide_last:
  fixes s :: "CMPStatus + CMPInt"
  shows "(if c then on_success s (\<lambda>r. on_success f (\<lambda>q. Inr (x, y, q, r))) else Inr (x, y, q0, r0))
    = on_success (if c then on_success s (\<lambda>r. on_success f (\<lambda>q. Inr (q, r))) else Inr (q0, r0))
        (\<lambda>(q, r). Inr (x, y, q, r))"
  by (cases c; cases s; cases f) simp_all

lemma CMP_Divide_correct:
  assumes mem: "\<And>n. mem n" and a: "cmp_ok a" and b: "cmp_ok b" and nz: "0 < cmp_val (cmp_words b)"
  shows "\<exists>a' b' q r. CMP_Divide mem a b quot rem = Inr (a', b', q, r) \<and> cmp_ok a' \<and> cmp_ok b' \<and>
    cmp_words a' = cmp_words a \<and> cmp_words b' = cmp_words b \<and> cmp_ok q \<and> cmp_ok r \<and>
    cmp_val (cmp_words q) = cmp_val (cmp_words a) div cmp_val (cmp_words b) \<and>
    cmp_val (cmp_words r) = cmp_val (cmp_words a) mod cmp_val (cmp_words b)"
proof -
  let ?A = "cmp_val (cmp_words a)" and ?B = "cmp_val (cmp_words b)"
  obtain q0 where q0: "CMP_ensureNoCopy mem 1 2 quot = Inr q0" "1 \<le> cmp_space q0"
    using CMP_ensureNoCopy_cases [of 1 2 mem quot] mem by auto
  have zok: "cmp_ok (q0\<lparr>cmp_words := [w]\<rparr>)" for w using q0(2) by (simp add: cmp_ok_def cmp_normal_def)
  have nab: "cmp_normal (cmp_words a)" "cmp_normal (cmp_words b)" using a b by (simp_all add: cmp_ok_def)
  show ?thesis
  proof (cases "?A < ?B")
    case True
    then have lt: "CMP_Compare a b < 0" using CMP_Compare_iff(1) [OF nab] by simp
    obtain r where r: "CMP_Move mem a rem = Inr r" "cmp_words r = cmp_words a" "cmp_len a \<le> cmp_space r"
      using CMP_Move_correct [of mem a rem] mem by blast
    have "CMP_Divide mem a b quot rem = Inr (a, b, q0\<lparr>cmp_words := [0]\<rparr>, r)"
      using lt q0 r by (simp add: CMP_Divide_def)
    moreover have "cmp_ok r" using a r by (simp add: cmp_ok_def)
    ultimately show ?thesis using a b zok [of 0] r(2) True by simp
  next
    case False
    then have nlt: "\<not> CMP_Compare a b < 0" using CMP_Compare_iff(1) [OF nab] by simp
    define s where "s = CMP_GetOffsetOfMSB b"
    have s32: "s \<noteq> 32" using CMP_GetOffsetOfMSB_correct(1) [of mem, OF mem b] nz by (simp add: s_def)
    obtain d where d: "CMP_ShiftLeftByBits mem s b = Inr d" "cmp_ok d" "cmp_top (cmp_words d)"
      "cmp_val (cmp_words d) = ?B * 2 ^ s"
      using CMP_GetOffsetOfMSB_correct(2) [of mem, OF mem b] nz unfolding s_def by blast
    obtain a1 where a1: "CMP_ShiftLeftByBits mem s a = Inr a1" "cmp_ok a1" "cmp_val (cmp_words a1) = ?A * 2 ^ s"
      using CMP_ShiftLeftByBits_correct [of mem a s, OF mem a] by blast
    define k where "k = cmp_len a1 - cmp_len d"
    have ge: "cmp_val (cmp_words d) \<le> cmp_val (cmp_words a1)" using False by (simp add: d a1)
    obtain r1 where r1: "CMP_Move mem a1 rem = Inr r1" using CMP_Move_correct [of mem a1 rem] mem by blast
    note first = CMP_first_remainder [of mem a1 d rem r1, OF mem a1(2) d(2,3) ge r1, folded k_def]
    obtain p where p: "CMP_reallocNoCopy mem (cmp_len a1) CMP_Constructor = Inr p"
      using mem by (cases "cmp_len a1 \<le> cmp_space CMP_Constructor") (simp_all add: CMP_reallocNoCopy_def)
    obtain qj where qj: "CMP_reallocNoCopy mem 2 CMP_Constructor = Inr qj" "1 \<le> cmp_space qj"
      using mem by (auto simp: CMP_reallocNoCopy_def CMP_Constructor_def)
    have "\<exists>Q R. (if cmp_len a1 > cmp_len d
          then Inr (q0\<lparr>cmp_words := [0]\<rparr>, CMP_ShiftRightByCMPWords k r1)
          else on_success (CMP_SubtractInPlace d r1) (\<lambda>rem. Inr (q0\<lparr>cmp_words := [0]\<rparr>\<lparr>cmp_words := [1]\<rparr>, rem))) = Inr (Q, R) \<and>
        divide_ok d (Q, R, qj, p) \<and>
        2 ^ (32 * k) * divide_prefix d (Q, R, qj, p) + cmp_val (take k (cmp_words a1)) = cmp_val (cmp_words a1)"
      using first zok qj(2) ge by (cases "cmp_len a1 > cmp_len d") auto
    then obtain Q R where QR: "(if cmp_len a1 > cmp_len d
          then Inr (q0\<lparr>cmp_words := [0]\<rparr>, CMP_ShiftRightByCMPWords k r1)
          else on_success (CMP_SubtractInPlace d r1) (\<lambda>rem. Inr (q0\<lparr>cmp_words := [0]\<rparr>\<lparr>cmp_words := [1]\<rparr>, rem))) = Inr (Q, R)"
      "divide_ok d (Q, R, qj, p)"
      "2 ^ (32 * k) * divide_prefix d (Q, R, qj, p) + cmp_val (take k (cmp_words a1)) = cmp_val (cmp_words a1)" by blast
    have "length (take k (cmp_words a1)) = k" by (simp add: k_def)
    then obtain Q1 R1 qj1 p1 where L: "CMP_divide_loop mem d (rev (take k (cmp_words a1))) (Q, R, qj, p) = Inr (Q1, R1, qj1, p1)"
      "divide_ok d (Q1, R1, qj1, p1)" "divide_prefix d (Q1, R1, qj1, p1) = ?A * 2 ^ s"
      using CMP_divide_loop_correct [of mem d "(Q, R, qj, p)" "take k (cmp_words a1)", OF mem d(2,3) QR(2)] QR(3) a1(3) by auto
    define a2 where "a2 = CMP_ShiftRightByBits s a1"
    define b2 where "b2 = CMP_ShiftRightByBits s d"
    define R2 where "R2 = CMP_ShiftRightByBits s R1"
    have a2: "cmp_ok a2" "cmp_words a2 = cmp_words a" using CMP_shift_back [OF a a1(2,3)] by (simp_all add: a2_def)
    have b2: "cmp_ok b2" "cmp_words b2 = cmp_words b" using CMP_shift_back [OF b d(2,4)] by (simp_all add: b2_def)
    have ok: "cmp_ok Q1" "cmp_ok R1" and lt: "cmp_val (cmp_words R1) < 2 * (?B * 2 ^ s)" using L(2) d(4) by simp_all
    have R2: "cmp_ok R2" "cmp_val (cmp_words R2) = cmp_val (cmp_words R1) div 2 ^ s"
      using CMP_ShiftRightByBits_correct [OF ok(2), of s] by (simp_all add: R2_def)
    have eq: "(cmp_val (cmp_words Q1) * ?B) * 2 ^ s + cmp_val (cmp_words R1) = ?A * 2 ^ s"
      using L(3) d(4) by (simp add: mult.assoc)
    then have "cmp_val (cmp_words R1) = (?A - cmp_val (cmp_words Q1) * ?B) * 2 ^ s" "cmp_val (cmp_words Q1) * ?B \<le> ?A"
      by (simp_all add: diff_mult_distrib) (metis le_add1 mult_le_cancel2 zero_less_numeral zero_less_power)
    then have R2v: "cmp_val (cmp_words R2) = ?A - cmp_val (cmp_words Q1) * ?B" "cmp_val (cmp_words Q1) * ?B \<le> ?A"
      unfolding R2(2) by simp_all
    have "cmp_val (cmp_words R2) < 2 * cmp_val (cmp_words b2)"
      unfolding R2(2) b2(2) using lt by (simp add: div_less_iff_less_mult mult.assoc)
    then obtain Q3 R3 where F: "(if CMP_Compare R2 b2 \<ge> 0
       then on_success (CMP_SubtractInPlace b2 R2) (\<lambda>rem.
            on_success (CMP_AddCMPWord mem 1 Q1) (\<lambda>quot. Inr (quot, rem)))
       else Inr (Q1, R2)) = Inr (Q3, R3)" "cmp_ok Q3" "cmp_ok R3" "cmp_val (cmp_words R3) < ?B"
      "cmp_val (cmp_words Q3) * ?B + cmp_val (cmp_words R3) = ?A"
      using CMP_divide_first [of mem b2 Q1 R2, OF mem b2(1) ok(1) R2(1)] R2v unfolding b2(2) by auto
    have "CMP_Divide mem a b quot rem = Inr (a2, b2, Q3, R3)"
      by (simp only: CMP_Divide_def Let_def q0(1) on_success.simps nlt if_False s_def [symmetric] s32 d(1) a1(1)
          r1 k_def [symmetric] QR(1) p qj(1) prod.case L(1) a2_def [symmetric] b2_def [symmetric]
          R2_def [symmetric] CMP_divide_last F(1))
    with a2 b2 F quotient_remainder [OF F(5) F(4)] show ?thesis by blast
  qed
qed

section \<open>Reduction\<close>

lemma CMP_adjust_product_correct:
  assumes d: "cmp_ok d" "0 < cmp_val (cmp_words d)" and r: "cmp_ok r"
  shows "cmp_ok p \<Longrightarrow> cmp_val (cmp_words p) = q * cmp_val (cmp_words d) \<Longrightarrow>
    cmp_val (cmp_words r) div cmp_val (cmp_words d) \<le> q \<Longrightarrow>
    \<exists>p'. CMP_adjust_product d r p = Some (Inr p') \<and> cmp_ok p' \<and>
      cmp_val (cmp_words p') = cmp_val (cmp_words r) div cmp_val (cmp_words d) * cmp_val (cmp_words d)"
proof (induction q arbitrary: p)
  case 0
  have "CMP_Compare p r > 0 \<longleftrightarrow> cmp_val (cmp_words p) > cmp_val (cmp_words r)"
    using CMP_Compare_iff(2) [of p r] "0.prems" r by (simp add: cmp_ok_def)
  with 0 show ?case by (subst CMP_adjust_product.simps) simp
next
  case (Suc q)
  let ?R = "cmp_val (cmp_words r)" and ?D = "cmp_val (cmp_words d)"
  have cmp: "CMP_Compare p r > 0 \<longleftrightarrow> Suc q * ?D > ?R"
    using CMP_Compare_iff(2) [of p r] Suc.prems(1,2) r by (simp add: cmp_ok_def)
  show ?case
  proof (cases "Suc q * ?D > ?R")
    case False
    then have "Suc q \<le> ?R div ?D" using d(2) by (simp add: less_eq_div_iff_mult_less_eq del: mult_Suc)
    then have "Suc q = ?R div ?D" using Suc.prems(3) by (rule antisym)
    then have "cmp_val (cmp_words p) = ?R div ?D * ?D" using Suc.prems(2) by simp
    moreover have "CMP_adjust_product d r p = Some (Inr p)"
      using False cmp by (subst CMP_adjust_product.simps) (simp only: if_False)
    ultimately show ?thesis using Suc.prems(1) by blast
  next
    case True
    have nd: "cmp_normal (cmp_words d)" using d(1) by (simp add: cmp_ok_def)
    have le: "?D \<le> cmp_val (cmp_words p)" unfolding Suc.prems(2) by simp
    obtain p' where p': "CMP_SubtractInPlace d p = Inr p'" "cmp_ok p'" "cmp_val (cmp_words p') = Suc q * ?D - ?D"
      using CMP_SubtractInPlace_correct [OF nd Suc.prems(1) le] unfolding Suc.prems(2) by blast
    have "?R div ?D < Suc q" using True d(2) by (simp only: div_less_iff_less_mult)
    then have "?R div ?D \<le> q" by simp
    moreover have "cmp_val (cmp_words p') = q * ?D" unfolding p'(3) by simp
    ultimately obtain p'' where "CMP_adjust_product d r p' = Some (Inr p'')" "cmp_ok p''"
      "cmp_val (cmp_words p'') = ?R div ?D * ?D" using Suc.IH [OF p'(2)] by blast
    moreover have "CMP_adjust_product d r p = CMP_adjust_product d r p'"
      using True cmp p'(1) by (subst CMP_adjust_product.simps) (simp only: if_True sum.case)
    ultimately show ?thesis by metis
  qed
qed

lemma CMP_reduce_first:
  assumes d: "cmp_ok d" and r: "cmp_ok r" and lt: "cmp_val (cmp_words r) < 2 * cmp_val (cmp_words d)"
  shows "\<exists>r'. (if CMP_Compare r d \<ge> 0 then CMP_SubtractInPlace d r else Inr r) = Inr r' \<and> cmp_ok r' \<and>
    cmp_val (cmp_words r') = cmp_val (cmp_words r) mod cmp_val (cmp_words d)"
proof -
  have n: "cmp_normal (cmp_words d)" "cmp_normal (cmp_words r)" using d r by (simp_all add: cmp_ok_def)
  note cmp = CMP_Compare_iff(3) [OF n(2) n(1)]
  show ?thesis
  proof (cases "cmp_val (cmp_words r) \<ge> cmp_val (cmp_words d)")
    case True
    obtain r' where r': "CMP_SubtractInPlace d r = Inr r'" "cmp_ok r'"
      "cmp_val (cmp_words r') = cmp_val (cmp_words r) - cmp_val (cmp_words d)"
      using CMP_SubtractInPlace_correct [OF n(1) r True] by blast
    moreover have "cmp_val (cmp_words r) - cmp_val (cmp_words d) = cmp_val (cmp_words r) mod cmp_val (cmp_words d)"
      using True lt by (simp add: le_mod_geq)
    ultimately show ?thesis using True cmp by simp
  next
    case False
    with cmp r show ?thesis by simp
  qed
qed

fun reduce_ok :: "CMPInt \<Rightarrow> reduce_state \<Rightarrow> bool" where
  "reduce_ok d (r, qj, product) \<longleftrightarrow> cmp_ok r \<and> 1 \<le> cmp_space qj \<and>
     cmp_val (cmp_words r) < 2 * cmp_val (cmp_words d)"

lemma CMP_reduce_step_correct:
  assumes mem: "\<And>n. mem n" and d: "cmp_ok d" "cmp_top (cmp_words d)" and st: "reduce_ok d st"
  shows "\<exists>st'. CMP_reduce_step mem d w st = Inr st' \<and> reduce_ok d st' \<and>
    cmp_val (cmp_words (fst st')) mod cmp_val (cmp_words d)
      = (4294967296 * cmp_val (cmp_words (fst st)) + unat w) mod cmp_val (cmp_words d)"
proof -
  let ?D = "cmp_val (cmp_words d)"
  have dpos: "0 < ?D" using d(2) by (auto simp: cmp_top_def intro: Nat.gr0I)
  obtain R qj p where s: "st = (R, qj, p)" by (metis prod_cases3)
  have ok: "cmp_ok R" "1 \<le> cmp_space qj" "cmp_val (cmp_words R) < 2 * ?D"
    using st by (simp_all add: s)
  obtain R1 where 1: "(if CMP_Compare R d \<ge> 0 then CMP_SubtractInPlace d R else Inr R) = Inr R1" "cmp_ok R1"
    "cmp_val (cmp_words R1) = cmp_val (cmp_words R) mod ?D"
    using CMP_reduce_first [OF d(1) ok(1,3)] by blast
  have R1lt: "cmp_val (cmp_words R1) < ?D" unfolding 1(3) using dpos by simp
  obtain R2 where R2: "CMP_AppendWord mem w R1 = Inr R2" "cmp_ok R2"
    "cmp_val (cmp_words R2) = unat w + 4294967296 * cmp_val (cmp_words R1)"
    using CMP_AppendWord_correct [of mem R1 w, OF mem 1(2)] by blast
  have R2lt: "cmp_val (cmp_words R2) < 4294967296 * ?D"
    unfolding R2(3) by (rule append_less [OF unat_32 R1lt])
  have pre: "cmp_val (cmp_words R2) mod ?D = (4294967296 * cmp_val (cmp_words R) + unat w) mod ?D"
    unfolding R2(3) 1(3) by (metis add.commute mod_add_left_eq mod_mult_right_eq)
  show ?thesis
  proof (cases "cmp_len R2 \<le> cmp_len d")
    case True
    then have "CMP_reduce_step mem d w st = Inr (R2, qj, p)"
      using 1(1) R2(1) by (simp add: CMP_reduce_step_def s)
    with pre R2(2) ok(2) short_remainder [OF d(2) True] show ?thesis by (simp add: s)
  next
    case False
    then obtain e p1 where E: "CMP_EstimateMSWQuotient mem R2 d qj p = Inr (qj\<lparr>cmp_words := [e]\<rparr>, p1)"
      "cmp_ok p1" "cmp_val (cmp_words p1) = unat e * ?D" "cmp_val (cmp_words R2) div ?D \<le> unat e"
      using CMP_EstimateMSWQuotient_correct [of mem d R2 qj p, OF mem d R2(2) _ R2lt ok(2)] by auto
    obtain p2 where A: "CMP_adjust_product d R2 p1 = Some (Inr p2)" "cmp_ok p2"
      "cmp_val (cmp_words p2) = cmp_val (cmp_words R2) div ?D * ?D"
      using CMP_adjust_product_correct [OF d(1) dpos R2(2) E(2,3,4)] by blast
    have "cmp_val (cmp_words p2) \<le> cmp_val (cmp_words R2)" unfolding A(3) by simp
    moreover have "cmp_normal (cmp_words p2)" using A(2) by (simp add: cmp_ok_def)
    ultimately obtain R3 where R3: "CMP_SubtractInPlace p2 R2 = Inr R3" "cmp_ok R3"
      "cmp_val (cmp_words R3) = cmp_val (cmp_words R2) - cmp_val (cmp_words p2)"
      using CMP_SubtractInPlace_correct [of p2 R2] R2(2) by blast
    have "CMP_reduce_step mem d w st = Inr (R3, qj\<lparr>cmp_words := [e]\<rparr>, p2)"
      using 1(1) R2(1) False E(1) A(1) R3(1) by (simp add: CMP_reduce_step_def s)
    moreover have m: "cmp_val (cmp_words R3) = cmp_val (cmp_words R2) mod ?D"
      unfolding R3(3) A(3) by (simp add: minus_div_mult_eq_mod)
    moreover have "cmp_val (cmp_words R3) < 2 * ?D"
      using dpos mod_less_divisor [of ?D "cmp_val (cmp_words R2)"] unfolding m by linarith
    ultimately show ?thesis using pre R3(2) ok(2) by (simp add: s)
  qed
qed

lemma CMP_reduce_loop_correct:
  assumes mem: "\<And>n. mem n" and d: "cmp_ok d" "cmp_top (cmp_words d)"
  shows "reduce_ok d st \<Longrightarrow> \<exists>st'. CMP_reduce_loop mem d (rev ws) st = Inr st' \<and> reduce_ok d st' \<and>
    cmp_val (cmp_words (fst st')) mod cmp_val (cmp_words d)
      = (2 ^ (32 * length ws) * cmp_val (cmp_words (fst st)) + cmp_val ws) mod cmp_val (cmp_words d)"
proof (induction ws arbitrary: st rule: rev_induct)
  case (snoc w ws)
  let ?D = "cmp_val (cmp_words d)" and ?B = "2 ^ (32 * length ws) :: nat"
  obtain st1 where 1: "CMP_reduce_step mem d w st = Inr st1" "reduce_ok d st1"
    "cmp_val (cmp_words (fst st1)) mod ?D = (4294967296 * cmp_val (cmp_words (fst st)) + unat w) mod ?D"
    using CMP_reduce_step_correct [of mem d st w, OF mem d snoc.prems] by blast
  obtain st2 where 2: "CMP_reduce_loop mem d (rev ws) st1 = Inr st2" "reduce_ok d st2"
    "cmp_val (cmp_words (fst st2)) mod ?D = (?B * cmp_val (cmp_words (fst st1)) + cmp_val ws) mod ?D"
    using snoc.IH [OF 1(2)] by blast
  have "(?B * cmp_val (cmp_words (fst st1)) + cmp_val ws) mod ?D
      = (?B * (4294967296 * cmp_val (cmp_words (fst st)) + unat w) + cmp_val ws) mod ?D"
    using 1(3) by (metis mod_add_left_eq mod_mult_right_eq)
  also have "?B * (4294967296 * cmp_val (cmp_words (fst st)) + unat w) + cmp_val ws
      = 2 ^ (32 * length (ws @ [w])) * cmp_val (cmp_words (fst st)) + cmp_val (ws @ [w])"
    by (simp add: cmp_val_append power_add algebra_simps)
  finally show ?case using 1 2 by simp
qed simp

lemma CMP_reduce_last:
  fixes s :: "CMPStatus + CMPInt"
  shows "(if c then on_success s (\<lambda>r. Inr (x, y, r)) else Inr (x, y, r0))
    = on_success (if c then s else Inr r0) (\<lambda>r. Inr (x, y, r))"
  by (cases c; cases s) simp_all

lemma CMP_ModularReduce_correct:
  assumes mem: "\<And>n. mem n" and a: "cmp_ok a" and b: "cmp_ok b" and nz: "0 < cmp_val (cmp_words b)"
  shows "\<exists>a' b' r. CMP_ModularReduce mem a b red = Inr (a', b', r) \<and> cmp_ok a' \<and> cmp_ok b' \<and>
    cmp_words a' = cmp_words a \<and> cmp_words b' = cmp_words b \<and> cmp_ok r \<and>
    cmp_val (cmp_words r) = cmp_val (cmp_words a) mod cmp_val (cmp_words b)"
proof -
  let ?A = "cmp_val (cmp_words a)" and ?B = "cmp_val (cmp_words b)"
  have nab: "cmp_normal (cmp_words a)" "cmp_normal (cmp_words b)" using a b by (simp_all add: cmp_ok_def)
  show ?thesis
  proof (cases "?A < ?B")
    case True
    then have lt: "CMP_Compare a b < 0" using CMP_Compare_iff(1) [OF nab] by simp
    obtain r where r: "CMP_Move mem a red = Inr r" "cmp_words r = cmp_words a" "cmp_len a \<le> cmp_space r"
      using CMP_Move_correct [of mem a red] mem by blast
    have "CMP_ModularReduce mem a b red = Inr (a, b, r)"
      using lt r by (simp add: CMP_ModularReduce_def)
    moreover have "cmp_ok r" using a r by (simp add: cmp_ok_def)
    ultimately show ?thesis using a b r(2) True by simp
  next
    case False
    then have nlt: "\<not> CMP_Compare a b < 0" using CMP_Compare_iff(1) [OF nab] by simp
    define s where "s = CMP_GetOffsetOfMSB b"
    have s32: "s \<noteq> 32" using CMP_GetOffsetOfMSB_correct(1) [of mem, OF mem b] nz by (simp add: s_def)
    obtain d where d: "CMP_ShiftLeftByBits mem s b = Inr d" "cmp_ok d" "cmp_top (cmp_words d)"
      "cmp_val (cmp_words d) = ?B * 2 ^ s"
      using CMP_GetOffsetOfMSB_correct(2) [of mem, OF mem b] nz unfolding s_def by blast
    obtain a1 where a1: "CMP_ShiftLeftByBits mem s a = Inr a1" "cmp_ok a1" "cmp_val (cmp_words a1) = ?A * 2 ^ s"
      using CMP_ShiftLeftByBits_correct [of mem a s, OF mem a] by blast
    define k where "k = cmp_len a1 - cmp_len d"
    have ge: "cmp_val (cmp_words d) \<le> cmp_val (cmp_words a1)" using False by (simp add: d a1)
    obtain r1 where r1: "CMP_Move mem a1 red = Inr r1" using CMP_Move_correct [of mem a1 red] mem by blast
    note first = CMP_first_remainder [of mem a1 d red r1, OF mem a1(2) d(2,3) ge r1, folded k_def]
    obtain p where p: "CMP_reallocNoCopy mem (cmp_len a1) CMP_Constructor = Inr p"
      using mem by (cases "cmp_len a1 \<le> cmp_space CMP_Constructor") (simp_all add: CMP_reallocNoCopy_def)
    obtain qj where qj: "CMP_reallocNoCopy mem 2 CMP_Constructor = Inr qj" "1 \<le> cmp_space qj"
      using mem by (auto simp: CMP_reallocNoCopy_def CMP_Constructor_def)
    have "\<exists>R. (if cmp_len a1 > cmp_len d then Inr (CMP_ShiftRightByCMPWords k r1) else CMP_SubtractInPlace d r1) = Inr R \<and>
        reduce_ok d (R, qj, p) \<and>
        (2 ^ (32 * k) * cmp_val (cmp_words R) + cmp_val (take k (cmp_words a1))) mod cmp_val (cmp_words d)
          = cmp_val (cmp_words a1) mod cmp_val (cmp_words d)"
      using first qj(2) ge by (cases "cmp_len a1 > cmp_len d") (auto simp: le_mod_geq)
    then obtain R where R: "(if cmp_len a1 > cmp_len d then Inr (CMP_ShiftRightByCMPWords k r1) else CMP_SubtractInPlace d r1) = Inr R"
      "reduce_ok d (R, qj, p)"
      "(2 ^ (32 * k) * cmp_val (cmp_words R) + cmp_val (take k (cmp_words a1))) mod cmp_val (cmp_words d)
          = cmp_val (cmp_words a1) mod cmp_val (cmp_words d)" by blast
    have "length (take k (cmp_words a1)) = k" by (simp add: k_def)
    then obtain R1 qj1 p1 where L: "CMP_reduce_loop mem d (rev (take k (cmp_words a1))) (R, qj, p) = Inr (R1, qj1, p1)"
      "reduce_ok d (R1, qj1, p1)"
      "cmp_val (cmp_words R1) mod cmp_val (cmp_words d) = cmp_val (cmp_words a1) mod cmp_val (cmp_words d)"
      using CMP_reduce_loop_correct [of mem d "(R, qj, p)" "take k (cmp_words a1)", OF mem d(2,3) R(2)] R(3) by auto
    define a2 where "a2 = CMP_ShiftRightByBits s a1"
    define b2 where "b2 = CMP_ShiftRightByBits s d"
    define R2 where "R2 = CMP_ShiftRightByBits s R1"
    have a2: "cmp_ok a2" "cmp_words a2 = cmp_words a" using CMP_shift_back [OF a a1(2,3)] by (simp_all add: a2_def)
    have b2: "cmp_ok b2" "cmp_words b2 = cmp_words b" using CMP_shift_back [OF b d(2,4)] by (simp_all add: b2_def)
    have ok: "cmp_ok R1" and lt: "cmp_val (cmp_words R1) < 2 * (?B * 2 ^ s)" using L(2) d(4) by simp_all
    have R2: "cmp_ok R2" "cmp_val (cmp_words R2) = cmp_val (cmp_words R1) div 2 ^ s"
      using CMP_ShiftRightByBits_correct [OF ok, of s] by (simp_all add: R2_def)
    have R2lt: "cmp_val (cmp_words R2) < 2 * cmp_val (cmp_words b2)"
      unfolding R2(2) b2(2) using lt by (simp add: div_less_iff_less_mult mult.assoc)
    obtain R3 where F: "(if CMP_Compare R2 b2 \<ge> 0 then CMP_SubtractInPlace b2 R2 else Inr R2) = Inr R3" "cmp_ok R3"
      "cmp_val (cmp_words R3) = cmp_val (cmp_words R2) mod ?B"
      using CMP_reduce_first [OF b2(1) R2(1) R2lt] unfolding b2(2) by blast
    have "CMP_ModularReduce mem a b red = Inr (a2, b2, R3)"
      by (simp only: CMP_ModularReduce_def Let_def on_success.simps nlt if_False s_def [symmetric] s32 d(1) a1(1)
          r1 k_def [symmetric] R(1) p qj(1) prod.case L(1) a2_def [symmetric] b2_def [symmetric]
          R2_def [symmetric] CMP_reduce_last F(1))
    moreover have "cmp_val (cmp_words R3) = ?A mod ?B"
    proof -
      define k where "k = cmp_val (cmp_words R1) div (?B * 2 ^ s)"
      have "cmp_val (cmp_words R1) mod (?B * 2 ^ s) = ?A mod ?B * 2 ^ s"
        using L(3) unfolding d(4) a1(3) by (simp add: mod_mult_mult2)
      then have "cmp_val (cmp_words R1) = k * (?B * 2 ^ s) + ?A mod ?B * 2 ^ s"
        unfolding k_def by (metis div_mult_mod_eq)
      then have "cmp_val (cmp_words R1) = (k * ?B + ?A mod ?B) * 2 ^ s" by (simp add: algebra_simps)
      then have "cmp_val (cmp_words R2) = k * ?B + ?A mod ?B" unfolding R2(2) by simp
      then show ?thesis unfolding F(3) by simp
    qed
    ultimately show ?thesis using a2 b2 F(2) by blast
  qed
qed

end
