(* ===== verification/CMP_Modular.thy ===== *)
theory CMP_Modular
  imports CMP_Divide
begin

text \<open>
  Modular arithmetic of cmpmod.c, and the greatest common divisor of cmpmuldv.c. A modulus that a
  routine reduces by is shifted and shifted back, so it is part of the result.
\<close>

section \<open>The model\<close>

definition CMP_ModAdd ::
  "(nat \<Rightarrow> bool) \<Rightarrow> CMPInt \<Rightarrow> CMPInt \<Rightarrow> CMPInt \<Rightarrow> CMPInt \<Rightarrow> CMPStatus + CMPInt \<times> CMPInt" where
  "CMP_ModAdd mem addend1 addend2 modulus result =
     on_success (CMP_Add mem addend1 addend2 result) (\<lambda>result.
       if CMP_Compare result modulus < 0 then Inr (modulus, result)
       else on_success (CMP_SubtractInPlace modulus result) (\<lambda>result.
         if CMP_Compare result modulus < 0 then Inr (modulus, result)
         else on_success (CMP_ModularReduce mem result modulus CMP_Constructor) (\<lambda>(result, modulus, reducedSum).
              on_success (CMP_Move mem reducedSum result) (\<lambda>result. Inr (modulus, result)))))"

definition CMP_ModSubtract ::
  "(nat \<Rightarrow> bool) \<Rightarrow> CMPInt \<Rightarrow> CMPInt \<Rightarrow> CMPInt \<Rightarrow> CMPInt \<Rightarrow> CMPStatus + CMPInt \<times> CMPInt" where
  "CMP_ModSubtract mem minuend subtrahend modulus difference =
     (if CMP_Compare minuend subtrahend \<ge> 0
      then on_success (CMP_Subtract mem minuend subtrahend difference) (\<lambda>difference.
             if CMP_Compare difference modulus < 0 then Inr (modulus, difference)
             else on_success (CMP_ModularReduce mem difference modulus CMP_Constructor)
                    (\<lambda>(difference, modulus, reducedDifference).
                  on_success (CMP_Move mem reducedDifference difference) (\<lambda>difference. Inr (modulus, difference))))
      else on_success (CMP_Subtract mem subtrahend minuend CMP_Constructor) (\<lambda>reducedDifference.
             if CMP_Compare reducedDifference modulus \<le> 0
             then on_success (CMP_Subtract mem modulus reducedDifference difference) (\<lambda>difference.
                    Inr (modulus, difference))
             else on_success (CMP_Move mem reducedDifference difference) (\<lambda>difference.
                  on_success (CMP_ModularReduce mem difference modulus reducedDifference)
                    (\<lambda>(difference, modulus, reducedDifference).
                  if cmp_words reducedDifference = [0] then Inr (modulus, difference\<lparr>cmp_words := [0]\<rparr>)
                  else on_success (CMP_Subtract mem modulus reducedDifference difference) (\<lambda>difference.
                         Inr (modulus, difference))))))"

definition CMP_ModMultiply ::
  "(nat \<Rightarrow> bool) \<Rightarrow> CMPInt \<Rightarrow> CMPInt \<Rightarrow> CMPInt \<Rightarrow> CMPInt \<Rightarrow> CMPStatus + CMPInt \<times> CMPInt" where
  "CMP_ModMultiply mem multiplicand multiplier modulus product =
     on_success (CMP_Multiply mem multiplicand multiplier CMP_Constructor) (\<lambda>intermediateProduct.
     on_success (CMP_ModularReduce mem intermediateProduct modulus product)
       (\<lambda>(intermediateProduct, modulus, product). Inr (modulus, product)))"

text \<open>
  The loop of \<open>CMP_ComputeGCD\<close>: three reductions around the three numbers, the result in the one that
  the flag tells. The three numbers and the flag are the state.
\<close>

definition cmp_msw_zero :: "CMPInt \<Rightarrow> bool" where
  "cmp_msw_zero x \<longleftrightarrow> cmp_words x ! (cmp_len x - 1) = 0"

type_synonym gcd_state = "CMPInt \<times> CMPInt \<times> CMPInt \<times> nat"

partial_function (option) CMP_gcd_loop ::
  "(nat \<Rightarrow> bool) \<Rightarrow> CMPInt \<Rightarrow> CMPInt \<Rightarrow> CMPInt \<Rightarrow> nat \<Rightarrow> (CMPStatus + gcd_state) option" where
  "CMP_gcd_loop mem temp1 temp2 gcdInt gcdFlag =
     (if cmp_msw_zero gcdInt then Some (Inr (temp1, temp2, gcdInt, gcdFlag))
      else case CMP_ModularReduce mem temp1 gcdInt temp2 of
        Inl e \<Rightarrow> Some (Inl e)
      | Inr (temp1, gcdInt, temp2) \<Rightarrow>
          if cmp_msw_zero temp2 then Some (Inr (temp1, temp2, gcdInt, 0))
          else (case CMP_ModularReduce mem gcdInt temp2 temp1 of
            Inl e \<Rightarrow> Some (Inl e)
          | Inr (gcdInt, temp2, temp1) \<Rightarrow>
              if cmp_msw_zero temp1 then Some (Inr (temp1, temp2, gcdInt, 2))
              else (case CMP_ModularReduce mem temp2 temp1 gcdInt of
                Inl e \<Rightarrow> Some (Inl e)
              | Inr (temp2, temp1, gcdInt) \<Rightarrow> CMP_gcd_loop mem temp1 temp2 gcdInt 1)))"

declare CMP_gcd_loop.simps [code]

definition CMP_ComputeGCD :: "(nat \<Rightarrow> bool) \<Rightarrow> CMPInt \<Rightarrow> CMPInt \<Rightarrow> CMPInt \<Rightarrow> CMPStatus + CMPInt" where
  "CMP_ComputeGCD mem u v gcdInt =
     (let (larger, smaller) = (if CMP_Compare u v \<ge> 0 then (u, v) else (v, u))
      in on_success (CMP_Move mem larger CMP_Constructor) (\<lambda>temp1.
         on_success (CMP_Move mem smaller gcdInt) (\<lambda>gcdInt.
         on_success (case CMP_gcd_loop mem temp1 CMP_Constructor gcdInt 3 of None \<Rightarrow> Inl CMP_NO_RETURN | Some r \<Rightarrow> r)
           (\<lambda>(temp1, temp2, gcdInt, gcdFlag).
              if gcdFlag = 1 then CMP_Move mem temp1 gcdInt
              else if gcdFlag = 2 then CMP_Move mem temp2 gcdInt
              else if gcdFlag = 3 then (if \<not> cmp_msw_zero temp1 then CMP_Move mem temp1 gcdInt else Inl CMP_DOMAIN)
              else Inr gcdInt))))"

text \<open>Reduction by one word: by half words if the modulus is one, by \<open>CMP_ModularReduce\<close> if not.\<close>

definition CMP_half_step :: "u32 \<Rightarrow> u32 \<Rightarrow> u32 \<Rightarrow> u32 \<Rightarrow> u32" where
  "CMP_half_step modulus scale currWord result =
     (let upperHalf = drop_bit 16 (currWord AND 0xffff0000); lowerHalf = currWord AND 0xffff;
          result = result * scale + upperHalf;
          result = result mod modulus;
          result = result * scale + lowerHalf
      in result mod modulus)"

fun CMP_full_loop :: "(nat \<Rightarrow> bool) \<Rightarrow> CMPInt \<Rightarrow> u32 list \<Rightarrow> CMPInt \<Rightarrow> CMPInt \<Rightarrow> CMPInt \<Rightarrow> CMPStatus + CMPInt" where
  "CMP_full_loop mem scale [] modAsCMPInt temp intermediate = Inr intermediate"
| "CMP_full_loop mem scale (w # ws) modAsCMPInt temp intermediate =
     on_success (CMP_Multiply mem scale intermediate temp) (\<lambda>temp.
     on_success (CMP_AddCMPWord mem w temp) (\<lambda>temp.
     on_success (CMP_ModularReduce mem temp modAsCMPInt intermediate) (\<lambda>(temp, modAsCMPInt, intermediate).
       CMP_full_loop mem scale ws modAsCMPInt temp intermediate)))"

definition CMP_FullCMPWordModReduce :: "(nat \<Rightarrow> bool) \<Rightarrow> CMPInt \<Rightarrow> u32 \<Rightarrow> CMPStatus + u32" where
  "CMP_FullCMPWordModReduce mem base modulus =
     (let scaleAsWord = 0xffffffff - (modulus - 1);
          scaleAsWord = (if scaleAsWord \<ge> modulus then scaleAsWord mod modulus else scaleAsWord)
      in on_success (CMP_reallocNoCopy mem 1 CMP_Constructor) (\<lambda>modAsCMPInt.
         on_success (CMP_reallocNoCopy mem 1 CMP_Constructor) (\<lambda>scale.
         on_success (CMP_reallocNoCopy mem 2 CMP_Constructor) (\<lambda>temp.
         case rev (cmp_words base) of
           [] \<Rightarrow> Inl CMP_OUT_OF_BOUNDS
         | w # ws \<Rightarrow>
             on_success (CMP_ModularReduce mem (temp\<lparr>cmp_words := [w]\<rparr>) (modAsCMPInt\<lparr>cmp_words := [modulus]\<rparr>) CMP_Constructor)
               (\<lambda>(temp, modAsCMPInt, intermediate).
             on_success (CMP_full_loop mem (scale\<lparr>cmp_words := [scaleAsWord]\<rparr>) ws modAsCMPInt temp intermediate)
               (\<lambda>intermediate. Inr (cmp_words intermediate ! 0)))))))"

definition CMP_CMPWordModularReduce :: "(nat \<Rightarrow> bool) \<Rightarrow> CMPInt \<Rightarrow> u32 \<Rightarrow> CMPStatus + u32" where
  "CMP_CMPWordModularReduce mem base modulus =
     (if modulus = 0 then Inl CMP_MODULUS
      else if modulus AND 0xffff0000 \<noteq> 0 then CMP_FullCMPWordModReduce mem base modulus
      else let scale = push_bit 16 1 mod modulus
           in case rev (cmp_words base) of
                [] \<Rightarrow> Inl CMP_OUT_OF_BOUNDS
              | currWord # ws \<Rightarrow>
                  (let upperHalf = drop_bit 16 (currWord AND 0xffff0000); lowerHalf = currWord AND 0xffff;
                       result = upperHalf mod modulus;
                       result = result * scale + lowerHalf
                   in Inr (foldl (\<lambda>result currWord. CMP_half_step modulus scale currWord result) (result mod modulus) ws)))"

section \<open>Modular addition, subtraction, multiplication\<close>

lemma CMP_Move_ok:
  assumes mem: "\<And>n. mem n" and x: "cmp_ok x"
  shows "\<exists>d. CMP_Move mem x y = Inr d \<and> cmp_words d = cmp_words x \<and> cmp_ok d"
proof -
  obtain d where "CMP_Move mem x y = Inr d" "cmp_words d = cmp_words x" "cmp_len x \<le> cmp_space d"
    using CMP_Move_correct [of mem x y] mem by blast
  with x show ?thesis by (simp add: cmp_ok_def)
qed

lemma CMP_ModAdd_correct:
  assumes mem: "\<And>n. mem n" and x: "cmp_ok x" and y: "cmp_ok y" and m: "cmp_ok m" "0 < cmp_val (cmp_words m)"
  shows "\<exists>m' z. CMP_ModAdd mem x y m s = Inr (m', z) \<and> cmp_words m' = cmp_words m \<and> cmp_ok m' \<and> cmp_ok z \<and>
    cmp_val (cmp_words z) = (cmp_val (cmp_words x) + cmp_val (cmp_words y)) mod cmp_val (cmp_words m)"
proof -
  let ?X = "cmp_val (cmp_words x)" and ?Y = "cmp_val (cmp_words y)" and ?M = "cmp_val (cmp_words m)"
  have n: "cmp_normal (cmp_words x)" "cmp_normal (cmp_words y)" "cmp_normal (cmp_words m)"
    using x y m by (simp_all add: cmp_ok_def)
  obtain s1 where s1: "CMP_Add mem x y s = Inr s1" "cmp_ok s1" "cmp_val (cmp_words s1) = ?X + ?Y"
    using CMP_Add_correct [of mem x y s, OF mem n(1,2)] by blast
  have cmp: "CMP_Compare z m < 0 \<longleftrightarrow> cmp_val (cmp_words z) < ?M" if "cmp_ok z" for z
    using CMP_Compare_iff(1) [OF _ n(3), of z] that by (simp add: cmp_ok_def)
  show ?thesis
  proof (cases "?X + ?Y < ?M")
    case True
    with cmp [OF s1(2)] s1 m show ?thesis by (simp add: CMP_ModAdd_def)
  next
    case False
    then have le: "?M \<le> cmp_val (cmp_words s1)" by (simp add: s1)
    obtain s2 where s2: "CMP_SubtractInPlace m s1 = Inr s2" "cmp_ok s2" "cmp_val (cmp_words s2) = ?X + ?Y - ?M"
      using CMP_SubtractInPlace_correct [OF n(3) s1(2) le] by (auto simp: s1)
    have red: "(?X + ?Y - ?M) mod ?M = (?X + ?Y) mod ?M" using False by (simp add: le_mod_geq)
    show ?thesis
    proof (cases "?X + ?Y - ?M < ?M")
      case True
      with False cmp [OF s1(2)] cmp [OF s2(2)] s1 s2 m red show ?thesis by (simp add: CMP_ModAdd_def)
    next
      case big: False
      obtain s3 m' r where r: "CMP_ModularReduce mem s2 m CMP_Constructor = Inr (s3, m', r)" "cmp_ok m'"
        "cmp_words m' = cmp_words m" "cmp_ok r" "cmp_val (cmp_words r) = (?X + ?Y - ?M) mod ?M"
        using CMP_ModularReduce_correct [of mem s2 m CMP_Constructor, OF mem s2(2) m] unfolding s2(3) by blast
      obtain z where z: "CMP_Move mem r s3 = Inr z" "cmp_words z = cmp_words r" "cmp_ok z"
        using CMP_Move_ok [of mem r s3, OF mem r(4)] by blast
      have "CMP_ModAdd mem x y m s = Inr (m', z)"
        using False big cmp [OF s1(2)] cmp [OF s2(2)] s1 s2 r z by (simp add: CMP_ModAdd_def)
      with r z red show ?thesis by simp
    qed
  qed
qed

text \<open>
  \<open>CMP_Subtract\<close> need not give a normal number, and the routines that get its result read a number
  from its most significant word; for a minuend below the modulus this does no harm.
\<close>

lemma CMP_Compare_shorter:
  assumes "cmp_normal (cmp_words y)" and "cmp_words x \<noteq> []" and "cmp_len x \<le> cmp_len y"
  shows "CMP_Compare x y = sgn (int (cmp_val (cmp_words x)) - int (cmp_val (cmp_words y)))"
proof (cases "cmp_len x = cmp_len y")
  case True
  then show ?thesis by (simp add: CMP_Compare_def CMP_Compare_loop_sgn)
next
  case False
  with assms(3) have lt: "cmp_len x < cmp_len y" by simp
  with cmp_longer_greater [OF assms(1) lt assms(2)] show ?thesis by (simp add: CMP_Compare_def)
qed

lemma cmp_len_mono:
  assumes "cmp_normal ws" and "cmp_val ws \<le> cmp_val vs" and "vs \<noteq> []"
  shows "length ws \<le> length vs"
  using cmp_longer_greater [OF assms(1) _ assms(3)] assms(2) by (meson not_le)

lemma cmp_normal_full:
  assumes m: "cmp_normal (cmp_words m)" and x: "cmp_words x \<noteq> []" "cmp_len x \<le> cmp_len m"
    and le: "cmp_val (cmp_words m) \<le> cmp_val (cmp_words x)"
  shows "cmp_normal (cmp_words x)"
  using cmp_normal_mono [OF m _ le] cmp_len_mono [OF m le x(1)] x(2) by simp

lemma CMP_ModSubtract_correct:
  assumes mem: "\<And>n. mem n" and x: "cmp_ok x" and y: "cmp_ok y" and m: "cmp_ok m"
    and lt: "cmp_val (cmp_words x) < cmp_val (cmp_words m)"
  shows "\<exists>m' z. CMP_ModSubtract mem x y m s = Inr (m', z) \<and> cmp_words m' = cmp_words m \<and> cmp_ok m' \<and>
    cmp_words z \<noteq> [] \<and> cmp_len z \<le> cmp_len m \<and> cmp_val (cmp_words z) < cmp_val (cmp_words m) \<and>
    int (cmp_val (cmp_words z)) = (int (cmp_val (cmp_words x)) - int (cmp_val (cmp_words y))) mod int (cmp_val (cmp_words m))"
proof -
  let ?X = "cmp_val (cmp_words x)" and ?Y = "cmp_val (cmp_words y)" and ?M = "cmp_val (cmp_words m)"
  have n: "cmp_normal (cmp_words x)" "cmp_normal (cmp_words y)" "cmp_normal (cmp_words m)"
    using x y m by (simp_all add: cmp_ok_def)
  have ne: "cmp_words m \<noteq> []" using n(3) by (simp add: cmp_normal_def)
  have lxm: "cmp_len x \<le> cmp_len m" using lt by (intro cmp_len_mono [OF n(1) _ ne]) simp
  show ?thesis
  proof (cases "?Y \<le> ?X")
    case True
    then have c: "CMP_Compare x y \<ge> 0" using CMP_Compare_iff(3) [OF n(1,2)] by simp
    obtain d where d: "CMP_Subtract mem x y s = Inr d" "cmp_words d \<noteq> []" "cmp_len d \<le> cmp_len x"
      "cmp_val (cmp_words d) = ?X - ?Y"
      using CMP_Subtract_correct [of mem x y s, OF mem n(1,2) True] by blast
    have "?X - ?Y < ?M" using lt by simp
    then have "CMP_Compare d m < 0"
      using CMP_Compare_shorter [OF n(3) d(2)] d(3) lxm unfolding d(4) by simp
    then have "CMP_ModSubtract mem x y m s = Inr (m, d)" using c d(1) by (simp add: CMP_ModSubtract_def)
    moreover have "int (?X - ?Y) = (int ?X - int ?Y) mod int ?M" using True lt by (simp add: of_nat_diff)
    ultimately show ?thesis using d m lxm lt by auto
  next
    case False
    then have c: "\<not> CMP_Compare x y \<ge> 0" using CMP_Compare_iff(3) [OF n(1,2)] by simp
    obtain r where r: "CMP_Subtract mem y x CMP_Constructor = Inr r" "cmp_words r \<noteq> []" "cmp_len r \<le> cmp_len y"
      "cmp_len y \<le> cmp_space r" "cmp_val (cmp_words r) = ?Y - ?X" "cmp_len y \<noteq> cmp_len x \<longrightarrow> cmp_normal (cmp_words r)"
      "cmp_len y = cmp_len x \<longrightarrow> cmp_len r = cmp_len y"
      using CMP_Subtract_correct [of mem y x CMP_Constructor, OF mem n(2,1)] False by auto
    have cr: "CMP_Compare r m \<le> 0 \<longleftrightarrow> ?Y - ?X \<le> ?M"
    proof (cases "cmp_len y = cmp_len x")
      case True
      then show ?thesis using CMP_Compare_shorter [OF n(3) r(2)] r(7) lxm unfolding r(5) by (simp add: sgn_if)
    next
      case False
      then show ?thesis using CMP_Compare_iff(4) [OF _ n(3), of r] r(5,6) by simp
    qed
    show ?thesis
    proof (cases "?Y - ?X \<le> ?M")
      case True
      have "cmp_len r \<le> cmp_len m"
      proof (cases "cmp_len y = cmp_len x")
        case False
        then show ?thesis using r(6) True by (intro cmp_len_mono [OF _ _ ne]) (simp_all add: r(5))
      qed (use r(7) lxm in simp)
      moreover have le: "cmp_val (cmp_words r) \<le> ?M" using True by (simp add: r(5))
      ultimately obtain z where z: "CMP_Subtract mem m r s = Inr z" "cmp_words z \<noteq> []" "cmp_len z \<le> cmp_len m"
        "cmp_val (cmp_words z) = ?M - (?Y - ?X)"
        using CMP_Subtract_gen [of mem m r s, OF mem n(3) r(2)] unfolding r(5) by blast
      have "CMP_ModSubtract mem x y m s = Inr (m, z)"
        using c r(1) cr True z(1) by (simp add: CMP_ModSubtract_def)
      moreover have "int (?M - (?Y - ?X)) = (int ?X - int ?Y) mod int ?M"
      proof -
        have "int (?M - (?Y - ?X)) = (int ?X - int ?Y) + int ?M" using True False by (simp add: of_nat_diff)
        moreover have "?M - (?Y - ?X) < ?M" using False lt by simp
        ultimately show ?thesis by (metis mod_add_self2 mod_pos_pos_trivial of_nat_0_le_iff of_nat_less_iff)
      qed
      moreover have "?M - (?Y - ?X) < ?M" using False lt by simp
      ultimately show ?thesis using z m by auto
    next
      case big: False
      have nr: "cmp_ok r"
      proof -
        have "cmp_normal (cmp_words r)"
        proof (cases "cmp_len y = cmp_len x")
          case True
          then show ?thesis using r(7) lxm big by (intro cmp_normal_full [OF n(3) r(2)]) (simp_all add: r(5))
        qed (use r(6) in simp)
        then show ?thesis using r(3,4) by (simp add: cmp_ok_def)
      qed
      obtain d where d: "CMP_Move mem r s = Inr d" "cmp_words d = cmp_words r" "cmp_ok d"
        using CMP_Move_ok [of mem r s, OF mem nr] by blast
      have Mpos: "0 < ?M" using lt by simp
      obtain d' m' e where e: "CMP_ModularReduce mem d m r = Inr (d', m', e)" "cmp_ok m'" "cmp_words m' = cmp_words m"
        "cmp_ok e" "cmp_val (cmp_words e) = (?Y - ?X) mod ?M"
        using CMP_ModularReduce_correct [of mem d m r, OF mem d(3) m Mpos] unfolding d(2) r(5) by blast
      have ne': "cmp_normal (cmp_words e)" using e(4) by (simp add: cmp_ok_def)
      have zero: "cmp_words e = [0] \<longleftrightarrow> (?Y - ?X) mod ?M = 0"
        using cmp_normal_inj [OF ne', of "[0]"] e(5) by (auto simp: cmp_normal_def)
      have eq: "(int ?X - int ?Y) mod int ?M = (- int ((?Y - ?X) mod ?M)) mod int ?M"
        using False by (simp add: of_nat_mod of_nat_diff mod_minus_eq)
      show ?thesis
      proof (cases "(?Y - ?X) mod ?M = 0")
        case True
        have "CMP_ModSubtract mem x y m s = Inr (m', d'\<lparr>cmp_words := [0]\<rparr>)"
          using c r(1) cr big d(1) e(1) zero True by (simp add: CMP_ModSubtract_def)
        moreover have "1 \<le> cmp_len m" using ne by (simp add: Suc_leI)
        ultimately show ?thesis using e(2,3) Mpos eq unfolding True by auto
      next
        case nz: False
        have nm': "cmp_normal (cmp_words m')" using e(2) by (simp add: cmp_ok_def)
        have le: "cmp_val (cmp_words e) \<le> cmp_val (cmp_words m')"
          unfolding e(3,5) using mod_less_divisor [OF Mpos, of "?Y - ?X"] by simp
        obtain z where z: "CMP_Subtract mem m' e d' = Inr z" "cmp_words z \<noteq> []" "cmp_len z \<le> cmp_len m'"
          "cmp_val (cmp_words z) = ?M - (?Y - ?X) mod ?M"
          using CMP_Subtract_correct [of mem m' e d', OF mem nm' ne' le] unfolding e(3,5) by auto
        have "CMP_ModSubtract mem x y m s = Inr (m', z)"
          using c r(1) cr big d(1) e(1) zero nz z(1) by (simp add: CMP_ModSubtract_def)
        moreover have lt': "?M - (?Y - ?X) mod ?M < ?M" using nz Mpos by simp
        moreover have "int (?M - (?Y - ?X) mod ?M) = (int ?X - int ?Y) mod int ?M"
        proof -
          have "(?Y - ?X) mod ?M \<le> ?M" using mod_less_divisor [OF Mpos, of "?Y - ?X"] by simp
          then have "int (?M - (?Y - ?X) mod ?M) = - int ((?Y - ?X) mod ?M) + int ?M" by (simp add: of_nat_diff)
          then show ?thesis unfolding eq using lt' by (metis mod_add_self2 mod_pos_pos_trivial of_nat_0_le_iff of_nat_less_iff)
        qed
        ultimately show ?thesis using z(2,3) e(2,3) by (intro exI [of _ m'] exI [of _ z]) (simp add: z(4))
      qed
    qed
  qed
qed

lemma CMP_ModMultiply_correct:
  assumes mem: "\<And>n. mem n" and x: "cmp_words x \<noteq> []" and y: "cmp_words y \<noteq> []"
    and m: "cmp_ok m" "0 < cmp_val (cmp_words m)"
  shows "\<exists>m' z. CMP_ModMultiply mem x y m s = Inr (m', z) \<and> cmp_words m' = cmp_words m \<and> cmp_ok m' \<and> cmp_ok z \<and>
    cmp_val (cmp_words z) = (cmp_val (cmp_words x) * cmp_val (cmp_words y)) mod cmp_val (cmp_words m)"
proof -
  obtain p where p: "CMP_Multiply mem x y CMP_Constructor = Inr p" "cmp_ok p"
    "cmp_val (cmp_words p) = cmp_val (cmp_words x) * cmp_val (cmp_words y)"
    using CMP_Multiply_correct [of mem x y CMP_Constructor, OF mem x y] by blast
  with CMP_ModularReduce_correct [of mem p m s, OF mem p(2) m] show ?thesis
    by (auto simp: CMP_ModMultiply_def)
qed

section \<open>The greatest common divisor\<close>

lemma cmp_msw_zero_iff: "cmp_ok x \<Longrightarrow> cmp_msw_zero x \<longleftrightarrow> cmp_val (cmp_words x) = 0"
proof -
  assume "cmp_ok x"
  then have n: "cmp_normal (cmp_words x)" by (simp add: cmp_ok_def)
  then have "cmp_words x \<noteq> []" by (simp add: cmp_normal_def)
  then have "cmp_msw_zero x \<longleftrightarrow> last (cmp_words x) = 0" by (simp add: cmp_msw_zero_def last_conv_nth)
  with cmp_normal_last [OF n] show ?thesis by simp
qed

lemma CMP_gcd_loop_correct:
  assumes mem: "\<And>n. mem n"
  shows "cmp_ok a \<Longrightarrow> cmp_ok g \<Longrightarrow> f = 1 \<or> f = 3 \<Longrightarrow>
    \<exists>a' b' g' f'. CMP_gcd_loop mem a b g f = Some (Inr (a', b', g', f')) \<and>
      (let G = gcd (cmp_val (cmp_words a)) (cmp_val (cmp_words g)) in
        f' = 0 \<and> cmp_ok g' \<and> cmp_val (cmp_words g') = G \<or> f' = 1 \<and> cmp_ok a' \<and> cmp_val (cmp_words a') = G \<or>
        f' = 2 \<and> cmp_ok b' \<and> cmp_val (cmp_words b') = G \<or> f' = 3 \<and> f = 3 \<and> a' = a \<and> cmp_val (cmp_words g) = 0)"
proof (induction "cmp_val (cmp_words g)" arbitrary: a b g f rule: less_induct)
  case less
  let ?A = "cmp_val (cmp_words a)" and ?G = "cmp_val (cmp_words g)"
  note g = less.prems(2)
  show ?case
  proof (cases "?G = 0")
    case True
    then have "CMP_gcd_loop mem a b g f = Some (Inr (a, b, g, f))"
      using cmp_msw_zero_iff [OF g] by (subst CMP_gcd_loop.simps) simp
    with True less.prems show ?thesis by auto
  next
    case False
    then have ng: "\<not> cmp_msw_zero g" and gpos: "0 < ?G" using cmp_msw_zero_iff [OF g] by simp_all
    obtain a1 g1 b1 where 1: "CMP_ModularReduce mem a g b = Inr (a1, g1, b1)" "cmp_ok a1" "cmp_ok g1"
      "cmp_words g1 = cmp_words g" "cmp_ok b1" "cmp_val (cmp_words b1) = ?A mod ?G"
      using CMP_ModularReduce_correct [of mem a g b, OF mem less.prems(1) g gpos] by blast
    have G1: "gcd ?A ?G = gcd ?G (?A mod ?G)" by (simp add: gcd_red_nat [of ?A])
    show ?thesis
    proof (cases "?A mod ?G = 0")
      case True
      then have "CMP_gcd_loop mem a b g f = Some (Inr (a1, b1, g1, 0))"
        using ng 1 cmp_msw_zero_iff [OF 1(5)] by (subst CMP_gcd_loop.simps) simp
      with True G1 1 show ?thesis by (auto simp: Let_def)
    next
      case b0: False
      then have nb: "\<not> cmp_msw_zero b1" and bpos: "0 < cmp_val (cmp_words b1)"
        using cmp_msw_zero_iff [OF 1(5)] 1(6) by simp_all
      obtain g2 b2 a2 where 2: "CMP_ModularReduce mem g1 b1 a1 = Inr (g2, b2, a2)" "cmp_ok g2" "cmp_ok b2"
        "cmp_words b2 = cmp_words b1" "cmp_ok a2" "cmp_val (cmp_words a2) = ?G mod (?A mod ?G)"
        using CMP_ModularReduce_correct [of mem g1 b1 a1, OF mem 1(3,5) bpos] unfolding 1(4,6) by blast
      have G2: "gcd ?A ?G = gcd (?A mod ?G) (?G mod (?A mod ?G))"
        unfolding G1 by (simp add: gcd_red_nat [of ?G])
      show ?thesis
      proof (cases "?G mod (?A mod ?G) = 0")
        case True
        then have "CMP_gcd_loop mem a b g f = Some (Inr (a2, b2, g2, 2))"
          using ng nb 1(1) 2 cmp_msw_zero_iff [OF 2(5)] by (subst CMP_gcd_loop.simps) simp
        with True G2 1 2 show ?thesis by (auto simp: Let_def)
      next
        case a0: False
        then have na: "\<not> cmp_msw_zero a2" and apos: "0 < cmp_val (cmp_words a2)"
          using cmp_msw_zero_iff [OF 2(5)] 2(6) by simp_all
        obtain b3 a3 g3 where 3: "CMP_ModularReduce mem b2 a2 g2 = Inr (b3, a3, g3)" "cmp_ok b3" "cmp_ok a3"
          "cmp_words a3 = cmp_words a2" "cmp_ok g3"
          "cmp_val (cmp_words g3) = (?A mod ?G) mod (?G mod (?A mod ?G))"
          using CMP_ModularReduce_correct [of mem b2 a2 g2, OF mem 2(3,5) apos] unfolding 2(4,6) 1(6) by blast
        have G3: "gcd ?A ?G = gcd (cmp_val (cmp_words a3)) (cmp_val (cmp_words g3))"
          unfolding G2 3(4,6) 2(6) by (simp add: gcd_red_nat [of "?A mod ?G"])
        have "cmp_val (cmp_words g3) < ?G mod (?A mod ?G)" unfolding 3(6) using a0 by simp
        also have "\<dots> < ?A mod ?G" using b0 by simp
        also have "\<dots> < ?G" using gpos by simp
        finally have lt: "cmp_val (cmp_words g3) < ?G" .
        have step: "CMP_gcd_loop mem a b g f = CMP_gcd_loop mem a3 b3 g3 1"
          using ng nb na 1(1) 2(1) 3(1) by (subst CMP_gcd_loop.simps) simp
        have "(1 :: nat) = 1 \<or> (1 :: nat) = 3" by simp
        from less.hyps [OF lt 3(3,5) this, of b3] show ?thesis
          unfolding step G3 [symmetric] Let_def by (elim exE conjE disjE) auto
      qed
    qed
  qed
qed

lemma CMP_ComputeGCD_correct:
  assumes mem: "\<And>n. mem n" and u: "cmp_ok u" and v: "cmp_ok v"
  shows "cmp_val (cmp_words u) \<noteq> 0 \<or> cmp_val (cmp_words v) \<noteq> 0 \<Longrightarrow>
      \<exists>z. CMP_ComputeGCD mem u v g = Inr z \<and> cmp_ok z \<and>
        cmp_val (cmp_words z) = gcd (cmp_val (cmp_words u)) (cmp_val (cmp_words v))"
    and "cmp_val (cmp_words u) = 0 \<Longrightarrow> cmp_val (cmp_words v) = 0 \<Longrightarrow> CMP_ComputeGCD mem u v g = Inl CMP_DOMAIN"
proof -
  let ?U = "cmp_val (cmp_words u)" and ?V = "cmp_val (cmp_words v)"
  define l where "l = (if CMP_Compare u v \<ge> 0 then u else v)"
  define s where "s = (if CMP_Compare u v \<ge> 0 then v else u)"
  have n: "cmp_normal (cmp_words u)" "cmp_normal (cmp_words v)" using u v by (simp_all add: cmp_ok_def)
  have ok: "cmp_ok l" "cmp_ok s" using u v by (simp_all add: l_def s_def)
  have G: "gcd (cmp_val (cmp_words l)) (cmp_val (cmp_words s)) = gcd ?U ?V" by (simp add: l_def s_def gcd.commute)
  have le: "cmp_val (cmp_words s) \<le> cmp_val (cmp_words l)"
    using CMP_Compare_iff(3) [OF n] by (auto simp: l_def s_def)
  have iff: "?U = 0 \<and> ?V = 0 \<longleftrightarrow> cmp_val (cmp_words l) = 0" using le by (auto simp: l_def s_def split: if_splits)
  obtain t1 where t1: "CMP_Move mem l CMP_Constructor = Inr t1" "cmp_words t1 = cmp_words l" "cmp_ok t1"
    using CMP_Move_ok [of mem l CMP_Constructor, OF mem ok(1)] by blast
  obtain g1 where g1: "CMP_Move mem s g = Inr g1" "cmp_words g1 = cmp_words s" "cmp_ok g1"
    using CMP_Move_ok [of mem s g, OF mem ok(2)] by blast
  obtain a b h f where L: "CMP_gcd_loop mem t1 CMP_Constructor g1 3 = Some (Inr (a, b, h, f))"
    "f = 0 \<and> cmp_ok h \<and> cmp_val (cmp_words h) = gcd ?U ?V \<or> f = 1 \<and> cmp_ok a \<and> cmp_val (cmp_words a) = gcd ?U ?V \<or>
     f = 2 \<and> cmp_ok b \<and> cmp_val (cmp_words b) = gcd ?U ?V \<or> f = 3 \<and> a = t1 \<and> cmp_val (cmp_words s) = 0"
    using CMP_gcd_loop_correct [of mem t1 g1 3 CMP_Constructor, OF mem t1(3) g1(3)]
    unfolding t1(2) g1(2) G Let_def by auto
  have def: "CMP_ComputeGCD mem u v g =
     (if f = 1 then CMP_Move mem a h else if f = 2 then CMP_Move mem b h
      else if f = 3 then (if \<not> cmp_msw_zero a then CMP_Move mem a h else Inl CMP_DOMAIN) else Inr h)"
  proof -
    have "(if CMP_Compare u v \<ge> 0 then (u, v) else (v, u)) = (l, s)" by (simp add: l_def s_def)
    then show ?thesis
      unfolding CMP_ComputeGCD_def Let_def by (simp only: prod.case t1(1) g1(1) L(1) on_success.simps option.case)
  qed
  have z: "cmp_msw_zero t1 \<longleftrightarrow> cmp_val (cmp_words l) = 0" using cmp_msw_zero_iff [OF t1(3)] by (simp add: t1)
  {
    assume nz: "?U \<noteq> 0 \<or> ?V \<noteq> 0"
    then have "\<not> cmp_msw_zero t1" using z iff by auto
    moreover have "cmp_val (cmp_words l) = gcd ?U ?V" if "cmp_val (cmp_words s) = 0"
      using G that by simp
    ultimately show "\<exists>z. CMP_ComputeGCD mem u v g = Inr z \<and> cmp_ok z \<and> cmp_val (cmp_words z) = gcd ?U ?V"
      using L(2) CMP_Move_ok [of mem a h, OF mem] CMP_Move_ok [of mem b h, OF mem] t1(2,3) unfolding def
      by (elim disjE conjE) auto
  next
    assume zero: "?U = 0" "?V = 0"
    then have lz: "cmp_val (cmp_words l) = 0" "cmp_val (cmp_words s) = 0" using iff le by auto
    have "CMP_gcd_loop mem t1 CMP_Constructor g1 3 = Some (Inr (t1, CMP_Constructor, g1, 3))"
      using cmp_msw_zero_iff [OF g1(3)] lz(2) g1(2) by (subst CMP_gcd_loop.simps) simp
    then have "a = t1" "f = 3" using L(1) by simp_all
    then show "CMP_ComputeGCD mem u v g = Inl CMP_DOMAIN" unfolding def using z lz(1) by simp
  }
qed

section \<open>Reduction by one word\<close>

lemma mod_mult_add_cong:
  fixes a b c n :: nat
  shows "(a * (b mod n) + c) mod n = (a * b + c) mod n" and "(c + a * (b mod n)) mod n = (c + a * b) mod n"
    and "((b mod n) * a + c) mod n = (b * a + c) mod n"
  by (metis mod_add_left_eq mod_mult_right_eq, metis mod_add_right_eq mod_mult_right_eq,
      metis mod_add_left_eq mod_mult_left_eq)

lemma unat_upper_half: "unat (drop_bit 16 (x AND 0xffff0000 :: u32)) = unat x div 65536"
proof -
  have m: "(0xffff0000 :: u32) = NOT (mask 16)" by (simp add: mask_eq_exp_minus_1)
  have "drop_bit 16 (x AND 0xffff0000) = drop_bit 16 x"
    unfolding m by (rule bit_word_eqI) (auto simp: bit_simps dest: bit_imp_le_length)
  then show ?thesis using unat_HIGH_WORD [of x] by (simp only: CMP_HIGH_WORD_def)
qed

lemma unat_lower_half: "unat (x AND 0xffff :: u32) = unat x mod 65536"
  using unat_LOW_WORD [of x] by (simp add: CMP_LOW_WORD_def)

lemma half_word_iff: "(m AND 0xffff0000 :: u32) = 0 \<longleftrightarrow> unat m < 65536"
proof
  assume "(m AND 0xffff0000) = 0"
  then have "unat m div 65536 = 0" using unat_upper_half [of m] by simp
  then show "unat m < 65536" by (simp add: div_eq_0_iff)
next
  assume lt: "unat m < 65536"
  have n: "(0xffff0000 :: u32) = NOT (mask 16)" by (simp add: mask_eq_exp_minus_1)
  have "m = CMP_LOW_WORD m" using lt unat_LOW_WORD [of m] by (simp add: word_unat_eq_iff)
  also have "\<dots> = m AND mask 16" by (simp add: CMP_LOW_WORD_def mask_eq_exp_minus_1)
  finally have m: "m = m AND mask 16" .
  have "(m AND mask 16) AND NOT (mask 16) = (0 :: u32)" by (rule bit_word_eqI) (auto simp: bit_simps)
  then show "(m AND 0xffff0000) = 0" unfolding n using m by simp
qed

lemma half_multiply_add:
  fixes r s h m :: u32
  assumes "unat r < 65536" and "unat s < 65536" and "unat h < 65536"
  shows "unat (r * s + h) = unat r * unat s + unat h"
proof -
  note p = unat_half_product [OF assms(1,2)]
  have "unat (r * s) + unat h < 4294967296" using p assms(3) by simp
  then show ?thesis using p(1) by (simp add: unat_word_ariths)
qed

lemma CMP_half_step_val:
  assumes m: "0 < unat m" "unat m < 65536" and s: "unat s = 65536 mod unat m" and r: "unat r < unat m"
  shows "unat (CMP_half_step m s w r) = (4294967296 * unat r + unat w) mod unat m"
proof -
  have s': "unat s < 65536" using s m mod_less_divisor [OF m(1), of 65536] by simp
  define u where "u = drop_bit 16 (w AND 0xffff0000)"
  define l where "l = w AND 0xffff"
  have u: "unat u = unat w div 65536" "unat u < 65536" using unat_upper_half [of w] unat_32 [of w] by (simp_all add: u_def)
  have l: "unat l = unat w mod 65536" "unat l < 65536" by (simp_all add: l_def unat_lower_half)
  have 1: "unat ((r * s + u) mod m) = (unat r * 65536 + unat u) mod unat m"
    using half_multiply_add [of r s u] r m(2) s' u(2) by (simp add: unat_mod s mod_mult_add_cong)
  have "unat ((r * s + u) mod m) < unat m" unfolding 1 using m(1) by simp
  then have 2: "unat ((((r * s + u) mod m) * s + l) mod m) = (unat ((r * s + u) mod m) * 65536 + unat l) mod unat m"
    using half_multiply_add [of "(r * s + u) mod m" s l] m(2) s' l(2) by (simp add: unat_mod s mod_mult_add_cong)
  have "(unat ((r * s + u) mod m) * 65536 + unat l) mod unat m = ((unat r * 65536 + unat u) * 65536 + unat l) mod unat m"
    unfolding 1 by (simp only: mod_mult_add_cong)
  also have "(unat r * 65536 + unat u) * 65536 + unat l = 4294967296 * unat r + unat w"
    using mult_div_mod_eq [of 65536 "unat w"] by (simp add: u(1) l(1))
  finally show ?thesis using 2 by (simp add: CMP_half_step_def u_def l_def Let_def)
qed

lemma CMP_half_loop_val:
  assumes m: "0 < unat m" "unat m < 65536" and s: "unat s = 65536 mod unat m"
  shows "unat r < unat m \<Longrightarrow> unat (foldl (\<lambda>r w. CMP_half_step m s w r) r (rev ws))
    = (2 ^ (32 * length ws) * unat r + cmp_val ws) mod unat m"
proof (induction ws arbitrary: r rule: rev_induct)
  case (snoc w ws)
  note v = CMP_half_step_val [OF m s snoc.prems, of w]
  have "unat (CMP_half_step m s w r) < unat m" unfolding v using m(1) by simp
  from snoc.IH [OF this] have "unat (foldl (\<lambda>r w. CMP_half_step m s w r) r (rev (ws @ [w])))
    = (2 ^ (32 * length ws) * ((4294967296 * unat r + unat w) mod unat m) + cmp_val ws) mod unat m"
    by (simp add: v)
  also have "\<dots> = (2 ^ (32 * length ws) * (4294967296 * unat r + unat w) + cmp_val ws) mod unat m"
    by (simp only: mod_mult_add_cong)
  finally show ?case by (simp add: cmp_val_append power_add algebra_simps)
qed simp

lemma cmp_one_word:
  assumes "cmp_normal ws" and "cmp_val ws < 4294967296"
  shows "\<exists>w. ws = [w] \<and> unat w = cmp_val ws"
proof -
  define w where "w = (of_nat (cmp_val ws) :: u32)"
  have w: "unat w = cmp_val ws" using assms(2) by (simp add: w_def unsigned_of_nat take_bit_nat_eq_self)
  have "ws = [w]" by (rule cmp_normal_inj [OF assms(1)]) (simp_all add: cmp_normal_def w)
  with w show ?thesis by blast
qed

lemma CMP_full_loop_val:
  assumes mem: "\<And>n. mem n" and s: "cmp_words s = [c]" and M: "0 < M" "M < 4294967296"
    and c: "unat c mod M = 4294967296 mod M"
  shows "cmp_ok m \<Longrightarrow> cmp_val (cmp_words m) = M \<Longrightarrow> cmp_ok i \<Longrightarrow> cmp_val (cmp_words i) < M \<Longrightarrow>
    \<exists>j. CMP_full_loop mem s (rev ws) m t i = Inr j \<and> cmp_ok j \<and>
      cmp_val (cmp_words j) = (2 ^ (32 * length ws) * cmp_val (cmp_words i) + cmp_val ws) mod M"
proof (induction ws arbitrary: m t i rule: rev_induct)
  case (snoc w ws)
  let ?I = "cmp_val (cmp_words i)"
  have ni: "cmp_words i \<noteq> []" using snoc.prems(3) by (auto simp: cmp_ok_def cmp_normal_def)
  have ns: "cmp_words s \<noteq> []" by (simp add: s)
  obtain t1 where t1: "CMP_Multiply mem s i t = Inr t1" "cmp_ok t1" "cmp_val (cmp_words t1) = unat c * ?I"
    using CMP_Multiply_correct [of mem s i t, OF mem ns ni] by (auto simp: s)
  obtain t2 where t2: "CMP_AddCMPWord mem w t1 = Inr t2" "cmp_ok t2" "cmp_val (cmp_words t2) = unat c * ?I + unat w"
    using CMP_AddCMPWord_correct [of mem t1 w, OF mem t1(2)] unfolding t1(3) by blast
  have mpos: "0 < cmp_val (cmp_words m)" using snoc.prems(2) M by simp
  obtain t3 m' i' where r: "CMP_ModularReduce mem t2 m i = Inr (t3, m', i')" "cmp_ok m'" "cmp_words m' = cmp_words m"
    "cmp_ok i'" "cmp_val (cmp_words i') = (unat c * ?I + unat w) mod M"
    using CMP_ModularReduce_correct [of mem t2 m i, OF mem t2(2) snoc.prems(1) mpos] unfolding t2(3) snoc.prems(2) by blast
  have "(unat c * ?I + unat w) mod M = (4294967296 * ?I + unat w) mod M"
    using mod_mult_add_cong(3) [of "unat c" M ?I "unat w"] mod_mult_add_cong(3) [of 4294967296 M ?I "unat w"]
    unfolding c by (rule trans [OF sym])
  then have i': "cmp_val (cmp_words i') = (4294967296 * ?I + unat w) mod M" using r(5) by simp
  have "cmp_val (cmp_words i') < M" unfolding i' using M(1) by simp
  then obtain j where j: "CMP_full_loop mem s (rev ws) m' t3 i' = Inr j" "cmp_ok j"
    "cmp_val (cmp_words j) = (2 ^ (32 * length ws) * cmp_val (cmp_words i') + cmp_val ws) mod M"
    using snoc.IH [OF r(2) _ r(4)] r(3) snoc.prems(2) by metis
  have "cmp_val (cmp_words j) = (2 ^ (32 * length ws) * (4294967296 * ?I + unat w) + cmp_val ws) mod M"
    unfolding j(3) i' by (simp only: mod_mult_add_cong)
  with t1(1) t2(1) r(1) j(1,2) show ?case by (simp add: cmp_val_append power_add algebra_simps)
qed simp

lemma CMP_CMPWordModularReduce_correct:
  assumes mem: "\<And>n. mem n" and x: "cmp_words x \<noteq> []" and m: "m \<noteq> 0"
  shows "\<exists>r. CMP_CMPWordModularReduce mem x m = Inr r \<and> unat r = cmp_val (cmp_words x) mod unat m"
proof -
  let ?M = "unat m"
  have mpos: "0 < ?M" using m by (simp add: unat_gt_0)
  define w where "w = last (cmp_words x)"
  define ws where "ws = butlast (cmp_words x)"
  have xw: "cmp_words x = ws @ [w]" using x by (simp add: w_def ws_def)
  show ?thesis
  proof (cases "m AND 0xffff0000 = 0")
    case True
    then have lt: "?M < 65536" using half_word_iff by simp
    define s where "s = push_bit 16 1 mod m"
    have s: "unat s = 65536 mod ?M" by (simp add: s_def unat_mod push_bit_eq_mult)
    define r0 where "r0 = (drop_bit 16 (w AND 0xffff0000) mod m * s + (w AND 0xffff)) mod m"
    have "drop_bit 16 (w AND 0xffff0000) mod m = (0 * s + drop_bit 16 (w AND 0xffff0000)) mod m" by simp
    then have "r0 = CMP_half_step m s w 0" by (simp add: r0_def CMP_half_step_def Let_def)
    then have r0: "unat r0 = unat w mod ?M" using CMP_half_step_val [OF mpos lt s, of 0 w] mpos by simp
    have "unat r0 < ?M" unfolding r0 using mpos by simp
    from CMP_half_loop_val [OF mpos lt s this, of ws]
    have "unat (foldl (\<lambda>r w. CMP_half_step m s w r) r0 (rev ws)) = (2 ^ (32 * length ws) * unat r0 + cmp_val ws) mod ?M" .
    also have "\<dots> = cmp_val (cmp_words x) mod ?M"
      unfolding r0 xw by (simp add: cmp_val_append mod_mult_add_cong add.commute)
    finally show ?thesis
      using m True by (simp add: CMP_CMPWordModularReduce_def xw Let_def r0_def s_def)
  next
    case False
    then have ge: "65536 \<le> ?M" using half_word_iff [of m] by simp
    define c0 where "c0 = 0xffffffff - (m - 1)"
    define c where "c = (if c0 \<ge> m then c0 mod m else c0)"
    have m1: "unat (m - 1) = ?M - 1" using m by (rule unat_minus_one)
    have "m - 1 \<le> 0xffffffff" using unat_32 [of "m - 1"] by (simp only: word_le_nat_alt) simp
    then have "unat c0 = unat (0xffffffff :: u32) - unat (m - 1)" unfolding c0_def by (rule unat_sub)
    then have c0: "unat c0 = 4294967296 - ?M" using m1 mpos by simp
    have "4294967296 mod ?M = (4294967296 - ?M) mod ?M" using unat_32 [of m] by (simp add: le_mod_geq)
    then have cm: "unat c mod ?M = 4294967296 mod ?M" using c0 by (simp add: c_def unat_mod)
    have al: "CMP_reallocNoCopy mem n CMP_Constructor = Inr \<lparr>cmp_space = n, cmp_words = []\<rparr>" if "0 < n" for n
      using that mem by (simp add: CMP_reallocNoCopy_def CMP_Constructor_def)
    let ?m = "\<lparr>cmp_space = 1, cmp_words = [m]\<rparr>" and ?t = "\<lparr>cmp_space = 2, cmp_words = [w]\<rparr>"
      and ?s = "\<lparr>cmp_space = 1, cmp_words = [c]\<rparr>"
    have okm: "cmp_ok ?m" and okt: "cmp_ok ?t" by (simp_all add: cmp_ok_def cmp_normal_def)
    have mv: "0 < cmp_val (cmp_words ?m)" using mpos by simp
    obtain t' m' i where i: "CMP_ModularReduce mem ?t ?m CMP_Constructor = Inr (t', m', i)" "cmp_ok m'"
      "cmp_words m' = [m]" "cmp_ok i" "cmp_val (cmp_words i) = unat w mod ?M"
      using CMP_ModularReduce_correct [of mem ?t ?m CMP_Constructor, OF mem okt okm mv] by auto
    have ilt: "cmp_val (cmp_words i) < ?M" unfolding i(5) using mpos by simp
    have m'v: "cmp_val (cmp_words m') = ?M" by (simp add: i(3))
    have sc: "cmp_words ?s = [c]" by simp
    obtain j where j: "CMP_full_loop mem ?s (rev ws) m' t' i = Inr j" "cmp_ok j"
      "cmp_val (cmp_words j) = (2 ^ (32 * length ws) * cmp_val (cmp_words i) + cmp_val ws) mod ?M"
      using CMP_full_loop_val [of mem ?s c ?M m' i ws t', OF mem sc mpos unat_32 cm i(2) m'v i(4) ilt] by blast
    have jv: "cmp_val (cmp_words j) = cmp_val (cmp_words x) mod ?M"
      unfolding j(3) i(5) xw by (simp add: cmp_val_append mod_mult_add_cong add.commute)
    have "cmp_val (cmp_words j) < ?M" unfolding jv using mpos by simp
    then have "cmp_val (cmp_words j) < 4294967296" using unat_32 [of m] by linarith
    then obtain r where r: "cmp_words j = [r]" "unat r = cmp_val (cmp_words j)"
      using cmp_one_word [of "cmp_words j"] j(2) by (auto simp: cmp_ok_def)
    have "CMP_FullCMPWordModReduce mem x m = Inr r"
      using al i(1) j(1) r(1) unfolding CMP_FullCMPWordModReduce_def Let_def c0_def [symmetric] c_def [symmetric]
      by (simp add: xw)
    with m False r(2) jv show ?thesis by (simp add: CMP_CMPWordModularReduce_def)
  qed
qed

end
