(* ===== verification/CMP_Montgomery.thy ===== *)
theory CMP_Montgomery
  imports CMP_Modular
begin

text \<open>
  Montgomery arithmetic of cmpmontg.c. The routines work on the block of the result, \<open>2 * mLength + 3\<close>
  words, and not on its words in use; the block is a list of words here.
\<close>

section \<open>The model\<close>

text \<open>The comparison from the most significant word down: the source is not below the modulus.\<close>

fun CMP_not_below :: "u32 list \<Rightarrow> u32 list \<Rightarrow> bool" where
  "CMP_not_below (m # ms) (s # ss) = (if m = s then CMP_not_below ms ss else m < s)"
| "CMP_not_below ms ss = True"

definition CMP_ConvertToMont ::
  "(nat \<Rightarrow> bool) \<Rightarrow> CMPInt \<Rightarrow> CMPInt \<Rightarrow> CMPInt \<Rightarrow> CMPStatus + CMPInt \<times> CMPInt" where
  "CMP_ConvertToMont mem sourceCMPInt modulus montRep =
     (let modLen = cmp_len modulus; sourceLen = cmp_len sourceCMPInt
      in if modLen < sourceLen then Inl CMP_RANGE
         else if modLen = sourceLen \<and> CMP_not_below (rev (cmp_words modulus)) (rev (cmp_words sourceCMPInt))
         then Inl CMP_RANGE
         else let sizeShift = modLen - 1; montRepSize = 2 * modLen + 1
              in on_success (CMP_reallocNoCopy mem montRepSize CMP_Constructor) (\<lambda>srcXMod.
                 on_success (CMP_Move mem sourceCMPInt srcXMod) (\<lambda>srcXMod.
                 on_success (CMP_ShiftLeftByCMPWords mem (sizeShift + 1) srcXMod) (\<lambda>srcXMod.
                 on_success (CMP_ModularReduce mem srcXMod modulus montRep) (\<lambda>(srcXMod, modulus, montRep).
                   Inr (modulus, montRep))))))"

text \<open>The inverse of an odd word modulo powers of two: a bit of \<open>y\<close> in every iteration.\<close>

fun CMP_coeff_loop :: "nat \<Rightarrow> u32 \<Rightarrow> u32 \<Rightarrow> u32 \<Rightarrow> u32 \<Rightarrow> u32" where
  "CMP_coeff_loop 0 lswOfN powerOfTwo modularMask y = y"
| "CMP_coeff_loop (Suc k) lswOfN powerOfTwo modularMask y =
     (let powerOfTwo = push_bit 1 powerOfTwo;
          modularMask = modularMask OR powerOfTwo;
          nTimesY = (lswOfN * y) AND modularMask
      in CMP_coeff_loop k lswOfN powerOfTwo modularMask (if powerOfTwo < nTimesY then y + powerOfTwo else y))"

definition CMP_ComputeMontCoeff :: "CMPInt \<Rightarrow> CMPStatus + u32" where
  "CMP_ComputeMontCoeff n =
     (case cmp_words n of [] \<Rightarrow> Inl CMP_OUT_OF_BOUNDS | lswOfN # _ \<Rightarrow>
       (if lswOfN AND 1 = 0 then Inl CMP_MODULUS
        else let y = 1;
                 powerOfTwo = push_bit 1 1;
                 modularMask = powerOfTwo OR 1;
                 nTimesY = modularMask AND lswOfN;
                 y = (if powerOfTwo < nTimesY then y + powerOfTwo else y);
                 y = CMP_coeff_loop 30 lswOfN powerOfTwo modularMask y
             in Inr (NOT y + 1)))"

text \<open>The loops of \<open>CMP_MontProduct\<close>: over the words of the multiplicand, and over the words that are left.\<close>

definition CMP_mont_reduce_step :: "u32 list \<Rightarrow> u32 \<Rightarrow> nat \<Rightarrow> u32 list \<Rightarrow> u32 list option" where
  "CMP_mont_reduce_step modulus n0Prime i block =
     (if i < length block
      then (let m_i = block ! i * n0Prime in CMP_VectorMultiply m_i modulus 0 (length modulus) block i)
      else None)"

fun CMP_mont_product_loop ::
  "u32 list \<Rightarrow> nat \<Rightarrow> u32 list \<Rightarrow> u32 list \<Rightarrow> u32 \<Rightarrow> u32 list \<Rightarrow> u32 list option" where
  "CMP_mont_product_loop [] i multiplier modulus n0Prime block = Some block"
| "CMP_mont_product_loop (a # as) i multiplier modulus n0Prime block =
     (case CMP_VectorMultiply a multiplier 0 (length multiplier) block i of
        None \<Rightarrow> None
      | Some block \<Rightarrow> (case CMP_mont_reduce_step modulus n0Prime i block of
                         None \<Rightarrow> None
                       | Some block \<Rightarrow> CMP_mont_product_loop as (i + 1) multiplier modulus n0Prime block))"

fun CMP_mont_reduce_loop :: "nat \<Rightarrow> nat \<Rightarrow> u32 list \<Rightarrow> u32 \<Rightarrow> u32 list \<Rightarrow> u32 list option" where
  "CMP_mont_reduce_loop 0 i modulus n0Prime block = Some block"
| "CMP_mont_reduce_loop (Suc k) i modulus n0Prime block =
     (case CMP_mont_reduce_step modulus n0Prime i block of
        None \<Rightarrow> None
      | Some block \<Rightarrow> CMP_mont_reduce_loop k (i + 1) modulus n0Prime block)"

text \<open>The upper half of the block.\<close>

definition CMP_mont_extract :: "nat \<Rightarrow> u32 list \<Rightarrow> CMPInt \<Rightarrow> CMPStatus + CMPInt" where
  "CMP_mont_extract mLength block x =
     CMP_RecomputeLength mLength
       (CMP_ShiftRightByCMPWords mLength (x\<lparr>cmp_words := take (2 * mLength + 1) block\<rparr>))"

definition CMP_MontProduct ::
  "(nat \<Rightarrow> bool) \<Rightarrow> CMPInt \<Rightarrow> CMPInt \<Rightarrow> CMPInt \<Rightarrow> u32 \<Rightarrow> CMPInt \<Rightarrow> CMPStatus + CMPInt" where
  "CMP_MontProduct mem multiplicand multiplier modulus n0Prime montProduct =
     (let mLength = cmp_len modulus; aLength = cmp_len multiplicand; size = 2 * mLength + 3
      in on_success (CMP_ensureNoCopy mem size size montProduct) (\<lambda>montProduct.
           case CMP_mont_product_loop (cmp_words multiplicand) 0 (cmp_words multiplier) (cmp_words modulus) n0Prime
                  (replicate size 0) of
             None \<Rightarrow> Inl CMP_OUT_OF_BOUNDS
           | Some block \<Rightarrow>
               (case CMP_mont_reduce_loop (mLength - aLength) aLength (cmp_words modulus) n0Prime block of
                  None \<Rightarrow> Inl CMP_OUT_OF_BOUNDS
                | Some block \<Rightarrow>
                    on_success (CMP_mont_extract mLength block montProduct) (\<lambda>montProduct.
                      if CMP_Compare montProduct modulus \<ge> 0 then CMP_SubtractInPlace modulus montProduct
                      else Inr montProduct))))"

definition CMP_ConvertFromMont ::
  "(nat \<Rightarrow> bool) \<Rightarrow> CMPInt \<Rightarrow> CMPInt \<Rightarrow> u32 \<Rightarrow> CMPInt \<Rightarrow> CMPStatus + CMPInt" where
  "CMP_ConvertFromMont mem montRep modulus n0Prime reducedCMP =
     on_success (CMP_reallocNoCopy mem 1 CMP_Constructor) (\<lambda>unit.
       CMP_MontProduct mem montRep (unit\<lparr>cmp_words := [1]\<rparr>) modulus n0Prime reducedCMP)"

text \<open>The products of different words in \<open>CMP_MontSquare\<close>.\<close>

fun CMP_square_loop :: "nat \<Rightarrow> nat \<Rightarrow> u32 list \<Rightarrow> u32 list \<Rightarrow> u32 list option" where
  "CMP_square_loop 0 i operand block = Some block"
| "CMP_square_loop (Suc k) i operand block =
     (case CMP_VectorMultiply (operand ! i) operand (i + 1) (length operand - (i + 1)) block (2 * i + 1) of
        None \<Rightarrow> None
      | Some block \<Rightarrow> CMP_square_loop k (i + 1) operand block)"

definition CMP_MontSquare ::
  "(nat \<Rightarrow> bool) \<Rightarrow> CMPInt \<Rightarrow> CMPInt \<Rightarrow> u32 \<Rightarrow> CMPInt \<Rightarrow> CMPStatus + CMPInt" where
  "CMP_MontSquare mem operand modulus n0Prime montSquare =
     (let mLength = cmp_len modulus; mLength2 = 2 * mLength; oLength = cmp_len operand; size = mLength2 + 3
      in on_success (CMP_ensureNoCopy mem size size montSquare) (\<lambda>montSquare.
           case CMP_square_loop (oLength - 1) 0 (cmp_words operand) (replicate size 0) of
             None \<Rightarrow> Inl CMP_OUT_OF_BOUNDS
           | Some block \<Rightarrow>
               on_success (CMP_RecomputeLength mLength2 (montSquare\<lparr>cmp_words := block\<rparr>)) (\<lambda>montSquare.
               on_success (CMP_ShiftLeftByBits mem 1 montSquare) (\<lambda>montSquare.
                 case CMP_AddInTrace (cmp_words operand) (cmp_words montSquare @ drop (cmp_len montSquare) block) of
                   None \<Rightarrow> Inl CMP_OUT_OF_BOUNDS
                 | Some block \<Rightarrow>
                     (case CMP_mont_reduce_loop mLength 0 (cmp_words modulus) n0Prime block of
                        None \<Rightarrow> Inl CMP_OUT_OF_BOUNDS
                      | Some block \<Rightarrow>
                          on_success (CMP_mont_extract mLength block montSquare) (\<lambda>montSquare.
                            let sqToMCompare = CMP_Compare modulus montSquare
                            in if sqToMCompare < 0 then CMP_SubtractInPlace modulus montSquare
                               else if sqToMCompare = 0 then Inr (montSquare\<lparr>cmp_words := [0]\<rparr>)
                               else Inr montSquare))))))"

section \<open>The coefficient\<close>

text \<open>One more bit of the inverse.\<close>

lemma inverse_next_bit:
  fixes n y p :: nat
  assumes p: "p = 2 ^ k" "0 < k" and n: "odd n" and y: "(n * y) mod p = 1"
  shows "(n * (if p < (n * y) mod (2 * p) then y + p else y)) mod (2 * p) = 1"
proof -
  define r where "r = (n * y) mod (2 * p)"
  have "r mod p = 1" unfolding r_def using y by (simp add: mod_mod_cancel)
  moreover have "r < 2 * p" using p by (simp add: r_def)
  then have "r div p < 2" by (simp add: less_mult_imp_div_less)
  then have "r div p = 0 \<or> r div p = 1" by linarith
  ultimately have r: "r = 1 \<or> r = p + 1"
    using div_mult_mod_eq [of r p] by auto
  have p1: "1 < p" using p by (metis one_less_numeral_iff one_less_power semiring_norm(76))
  show ?thesis
  proof (cases "r = 1")
    case True
    then show ?thesis using p1 by (simp add: r_def)
  next
    case False
    with r have rp: "r = p + 1" by simp
    obtain k where k: "n = 2 * k + 1" using n by (rule oddE)
    have "(n * (y + p)) mod (2 * p) = (r + n * p) mod (2 * p)"
      unfolding r_def by (simp add: distrib_left mod_simps)
    also have "r + n * p = 1 + (k + 1) * (2 * p)" by (simp add: rp k algebra_simps)
    also have "\<dots> mod (2 * p) = 1 mod (2 * p)" by (rule mod_mult_self1)
    also have "\<dots> = 1" using p1 by simp
    finally show ?thesis using rp p1 by (simp add: r_def)
  qed
qed

lemma unat_mask_and:
  fixes w :: u32
  assumes "k \<le> 32"
  shows "unat (w AND mask k) = unat w mod 2 ^ k"
proof -
  have "w AND mask k = take_bit k w" by (simp add: take_bit_eq_mask)
  then have "unat (w AND mask k) = take_bit k (unat w)" using assms by (simp only: unsigned_take_bit_eq)
  then show ?thesis by (simp add: take_bit_eq_mod)
qed

lemma unat_power_two: "k < 32 \<Longrightarrow> unat (push_bit k 1 :: u32) = 2 ^ k"
proof -
  assume k: "k < 32"
  then have "(2 :: nat) ^ k < 2 ^ 32" by (intro power_strict_increasing) auto
  then have "take_bit 32 (2 ^ k :: nat) = 2 ^ k" by (rule take_bit_nat_eq_self)
  then show ?thesis unfolding unsigned_push_bit_eq using k by (simp add: push_bit_eq_mult)
qed

lemma mask_Suc_or: "(mask k OR push_bit k 1 :: u32) = mask (Suc k)"
  by (rule bit_word_eqI) (auto simp: bit_simps)

lemma CMP_coeff_next:
  fixes n y :: u32
  assumes k: "0 < k" "k < 32" and n: "odd (unat n)" and y: "(unat n * unat y) mod 2 ^ k = 1" "unat y < 2 ^ k"
  defines "y' \<equiv> if push_bit k 1 < (n * y) AND mask (Suc k) then y + push_bit k 1 else y"
  shows "(unat n * unat y') mod 2 ^ Suc k = 1" and "unat y' < 2 ^ Suc k"
proof -
  have two: "unat (push_bit k 1 :: u32) = 2 ^ k" by (rule unat_power_two [OF k(2)])
  have "(2 :: nat) ^ Suc k dvd 2 ^ 32" using k by (intro le_imp_power_dvd) simp
  then have "(unat n * unat y) mod 2 ^ 32 mod 2 ^ Suc k = (unat n * unat y) mod 2 ^ Suc k" by (rule mod_mod_cancel)
  then have m: "unat ((n * y) AND mask (Suc k)) = (unat n * unat y) mod 2 ^ Suc k"
    using unat_mask_and [of "Suc k" "n * y"] k by (simp add: unat_word_ariths)
  have le: "(2 :: nat) ^ Suc k \<le> 2 ^ 32" using k by (intro power_increasing) auto
  then have "unat y + 2 ^ k < 2 ^ 32" using y(2) by simp
  then have "unat (y + push_bit k 1) = unat y + 2 ^ k" using two by (simp add: unat_word_ariths)
  then have y': "unat y' = (if 2 ^ k < (unat n * unat y) mod (2 * 2 ^ k) then unat y + 2 ^ k else unat y)"
    unfolding y'_def word_less_nat_alt m two by simp
  show "(unat n * unat y') mod 2 ^ Suc k = 1"
    unfolding y' using inverse_next_bit [OF refl k(1) n y(1)] by simp
  show "unat y' < 2 ^ Suc k" unfolding y' using y(2) by simp
qed

lemma CMP_coeff_loop_val:
  "odd (unat n) \<Longrightarrow> 0 < k \<Longrightarrow> k + j = 32 \<Longrightarrow> (unat n * unat y) mod 2 ^ k = 1 \<Longrightarrow> unat y < 2 ^ k \<Longrightarrow>
   (unat n * unat (CMP_coeff_loop j n (push_bit (k - 1) 1) (mask k) y)) mod 2 ^ 32 = 1"
proof (induction j arbitrary: k y)
  case (Suc j)
  have k: "0 < k" "k < 32" using Suc.prems by simp_all
  have p: "push_bit 1 (push_bit (k - 1) 1) = (push_bit k 1 :: u32)" using k by (simp only: push_bit_push_bit) simp
  have "CMP_coeff_loop (Suc j) n (push_bit (k - 1) 1) (mask k) y
    = CMP_coeff_loop j n (push_bit (Suc k - 1) 1) (mask (Suc k))
        (if push_bit k 1 < (n * y) AND mask (Suc k) then y + push_bit k 1 else y)"
    by (simp only: CMP_coeff_loop.simps Let_def p mask_Suc_or diff_Suc_1)
  then show ?case
    using Suc.IH [of "Suc k"] CMP_coeff_next [OF k Suc.prems(1,4,5)] Suc.prems by simp
qed simp

lemma CMP_ComputeMontCoeff_correct:
  assumes "cmp_words x = w # ws" and "odd (unat w)"
  shows "\<exists>c. CMP_ComputeMontCoeff x = Inr c \<and> w * c = - 1"
proof -
  have "w AND 1 \<noteq> 0" using assms(2) unat_mask_and [of 1 w] by (auto simp: mask_eq_exp_minus_1 odd_iff_mod_2_eq_one)
  define y0 where "y0 = (if push_bit 1 1 < (w * 1) AND mask (Suc 1) then 1 + push_bit 1 1 else 1 :: u32)"
  have "(unat w * unat (1 :: u32)) mod 2 ^ 1 = 1" using assms(2) by (simp add: odd_iff_mod_2_eq_one)
  note N = CMP_coeff_next [of 1 w 1, OF _ _ assms(2) this, folded y0_def]
  have y0: "(unat w * unat y0) mod 2 ^ 2 = 1" "unat y0 < 2 ^ 2" using N by (simp_all add: numeral_2_eq_2)
  define y where "y = CMP_coeff_loop 30 w (push_bit 1 1) (mask 2) y0"
  have "(unat w * unat y) mod 2 ^ 32 = 1"
    using CMP_coeff_loop_val [OF assms(2) _ _ y0, of 30] by (simp add: y_def)
  then have "unat (w * y) = 1" by (simp add: unat_word_ariths)
  then have "w * y = 1" by (simp add: word_unat_eq_iff)
  moreover have "NOT y + 1 = - y" by (rule word_not_plus_1)
  ultimately have "w * (NOT y + 1) = - 1" by simp
  moreover have "CMP_ComputeMontCoeff x = Inr (NOT y + 1)"
  proof -
    have m: "(push_bit 1 1 OR 1 :: u32) = mask 2" by (simp add: mask_eq_exp_minus_1)
    have y0': "(if push_bit 1 1 < (mask 2 AND w) then 1 + push_bit 1 1 else 1) = y0"
      by (simp add: y0_def and.commute numeral_2_eq_2)
    show ?thesis
      unfolding CMP_ComputeMontCoeff_def assms(1) list.case Let_def m y0' y_def [symmetric]
      using \<open>w AND 1 \<noteq> 0\<close> by (simp only: if_False)
  qed
  ultimately show ?thesis by blast
qed

lemma CMP_ComputeMontCoeff_even:
  assumes "cmp_words x = w # ws" and "even (unat w)"
  shows "CMP_ComputeMontCoeff x = Inl CMP_MODULUS"
proof -
  have "unat (w AND 1) = 0" using assms(2) unat_mask_and [of 1 w] by (simp add: mask_eq_exp_minus_1)
  then have "w AND 1 = 0" by (simp add: unat_eq_0)
  then show ?thesis by (simp add: CMP_ComputeMontCoeff_def assms(1))
qed

section \<open>The product\<close>

lemma cmp_val_nth: "i < length ws \<Longrightarrow> unat (ws ! i) = cmp_val ws div 2 ^ (32 * i) mod 4294967296"
proof (induction ws arbitrary: i)
  case (Cons w ws)
  show ?case
  proof (cases i)
    case 0
    then show ?thesis using unat_32 [of w] by simp
  next
    case (Suc j)
    have "cmp_val (w # ws) div 2 ^ (32 * i) = cmp_val (w # ws) div 4294967296 div 2 ^ (32 * j)"
      by (simp only: Suc mult_Suc_right power_add div_mult2_eq) simp
    also have "cmp_val (w # ws) div 4294967296 = cmp_val ws" using unat_32 [of w] by simp
    finally show ?thesis using Cons Suc by simp
  qed
qed simp

text \<open>The word \<open>i\<close> of the block becomes zero.\<close>

lemma mont_word_cancels:
  fixes p c m :: u32
  assumes "m * c = - 1"
  shows "4294967296 dvd unat p + unat (p * c) * unat m"
proof -
  have "p + (p * c) * m = p + p * (m * c)" by (simp add: mult.commute mult.left_commute)
  also have "\<dots> = 0" by (simp add: assms)
  finally have "unat (p + (p * c) * m) = 0" by simp
  then have "(unat p + unat (p * c) * unat m) mod 4294967296 = 0"
    using mod_add_right_eq [of "unat p" "unat (p * c) * unat m" 4294967296] by (simp add: unat_word_ariths(1) [of p] unat_word_ariths(2) [of "p * c"])
  then show ?thesis by (simp only: mod_eq_0_iff_dvd)
qed

lemma CMP_mont_reduce_step_val:
  assumes m: "m = m0 # ms" and c: "m0 * c = - 1" and i: "i + length m < length P" and z: "2 ^ (32 * i) dvd cmp_val P"
    and lt: "cmp_val P + 2 ^ (32 * Suc i) * cmp_val m < 2 ^ (32 * length P) + 2 ^ (32 * i) * cmp_val m"
  shows "\<exists>Q t. CMP_mont_reduce_step m c i P = Some Q \<and> length Q = length P \<and> 2 ^ (32 * Suc i) dvd cmp_val Q \<and>
    t < 4294967296 \<and> cmp_val Q = cmp_val P + 2 ^ (32 * i) * (t * cmp_val m) \<and>
    cmp_val Q + 2 ^ (32 * i) * cmp_val m \<le> cmp_val P + 2 ^ (32 * Suc i) * cmp_val m"
proof -
  let ?B = "2 ^ (32 * i) :: nat"
  define t where "t = P ! i * c"
  have "(unat t + 1) * cmp_val m \<le> 4294967296 * cmp_val m" using unat_32 [of t] by (intro mult_le_mono1) simp
  then have "?B * ((unat t + 1) * cmp_val m) \<le> ?B * (4294967296 * cmp_val m)" by (rule mult_le_mono2)
  then have le: "?B * (unat t * cmp_val m) + ?B * cmp_val m \<le> 2 ^ (32 * Suc i) * cmp_val m"
    by (simp add: power_add algebra_simps)
  then have "cmp_val P + ?B * (unat t * cmp_val (take (length m) (drop 0 m))) < 2 ^ (32 * length P)" using lt by simp
  then obtain Q where Q: "CMP_VectorMultiply t m 0 (length m) P i = Some Q" "length Q = length P"
    "cmp_val Q = cmp_val P + ?B * (unat t * cmp_val m)"
    using CMP_VectorMultiply_val [of "length m" 0 m i P t] i m by auto
  obtain k where k: "cmp_val P = ?B * k" using z by (rule dvdE)
  have "unat (P ! i) = k mod 4294967296" using cmp_val_nth [of i P] i by (simp add: k)
  then have "4294967296 dvd k mod 4294967296 + unat t * unat m0"
    using mont_word_cancels [OF c, of "P ! i"] by (simp add: t_def)
  then have "(k mod 4294967296 + unat t * unat m0) mod 4294967296 = 0" by (simp only: mod_eq_0_iff_dvd)
  moreover have "(k + unat t * cmp_val m) mod 4294967296 = (k mod 4294967296 + unat t * unat m0) mod 4294967296"
  proof -
    have "k + unat t * cmp_val m = (k + unat t * unat m0) + 4294967296 * (unat t * cmp_val ms)"
      by (simp add: m algebra_simps)
    then have "(k + unat t * cmp_val m) mod 4294967296 = (k + unat t * unat m0) mod 4294967296"
      by (simp only: mod_mult_self2)
    then show ?thesis by (simp only: mod_add_left_eq)
  qed
  ultimately have "4294967296 dvd k + unat t * cmp_val m" by (metis mod_eq_0_iff_dvd)
  then have "?B * 4294967296 dvd ?B * (k + unat t * cmp_val m)" by (rule mult_dvd_mono [OF dvd_refl])
  then have "2 ^ (32 * Suc i) dvd cmp_val Q" unfolding Q(3) k by (simp add: power_add algebra_simps)
  moreover have "CMP_mont_reduce_step m c i P = Some Q"
    using Q(1) i by (simp add: CMP_mont_reduce_step_def t_def)
  moreover have "cmp_val Q + ?B * cmp_val m \<le> cmp_val P + 2 ^ (32 * Suc i) * cmp_val m" using le Q(3) by simp
  ultimately show ?thesis using Q(2,3) unat_32 [of t] by blast
qed

lemma CMP_mont_reduce_loop_val:
  assumes m: "m = m0 # ms" and c: "m0 * c = - 1"
  shows "i + k + length m \<le> length P \<Longrightarrow> 2 ^ (32 * i) dvd cmp_val P \<Longrightarrow>
    cmp_val P + 2 ^ (32 * (i + k)) * cmp_val m < 2 ^ (32 * length P) + 2 ^ (32 * i) * cmp_val m \<Longrightarrow>
    \<exists>Q t. CMP_mont_reduce_loop k i m c P = Some Q \<and> length Q = length P \<and> 2 ^ (32 * (i + k)) dvd cmp_val Q \<and>
      t < 2 ^ (32 * k) \<and> cmp_val Q = cmp_val P + 2 ^ (32 * i) * (t * cmp_val m)"
proof (induction k arbitrary: i P)
  case (Suc k)
  let ?B = "2 ^ (32 * i) :: nat" and ?M = "cmp_val m"
  have "(2 :: nat) ^ (32 * Suc i) \<le> 2 ^ (32 * (i + Suc k))" by (intro power_increasing) auto
  then have "2 ^ (32 * Suc i) * ?M \<le> 2 ^ (32 * (i + Suc k)) * ?M" by (rule mult_le_mono1)
  then have "cmp_val P + 2 ^ (32 * Suc i) * ?M < 2 ^ (32 * length P) + ?B * ?M" using Suc.prems(3) by linarith
  moreover have "i + length m < length P" using Suc.prems(1) by simp
  ultimately obtain Q t where Q: "CMP_mont_reduce_step m c i P = Some Q" "length Q = length P"
    "2 ^ (32 * Suc i) dvd cmp_val Q" "t < 4294967296" "cmp_val Q = cmp_val P + ?B * (t * ?M)"
    "cmp_val Q + ?B * ?M \<le> cmp_val P + 2 ^ (32 * Suc i) * ?M"
    using CMP_mont_reduce_step_val [OF m c _ Suc.prems(2)] by blast
  have e: "i + Suc k = Suc i + k" by simp
  have "cmp_val Q + 2 ^ (32 * (Suc i + k)) * ?M < 2 ^ (32 * length Q) + 2 ^ (32 * Suc i) * ?M"
    using Q(6) Suc.prems(3) unfolding e Q(2) by linarith
  moreover have "Suc i + k + length m \<le> length Q" using Suc.prems(1) Q(2) by simp
  ultimately obtain R u where R: "CMP_mont_reduce_loop k (Suc i) m c Q = Some R" "length R = length Q"
    "2 ^ (32 * (Suc i + k)) dvd cmp_val R" "u < 2 ^ (32 * k)" "cmp_val R = cmp_val Q + 2 ^ (32 * Suc i) * (u * ?M)"
    using Suc.IH [of "Suc i" Q] Q(3) by blast
  have "4294967296 * (u + 1) \<le> 4294967296 * 2 ^ (32 * k)" using R(4) by (intro mult_le_mono2) simp
  then have "t + 4294967296 * u < 2 ^ (32 * Suc k)" using Q(4) by (simp add: power_add)
  moreover have "cmp_val R = cmp_val P + ?B * ((t + 4294967296 * u) * ?M)"
    unfolding R(5) Q(5) by (simp add: power_add algebra_simps)
  moreover have "CMP_mont_reduce_loop (Suc k) i m c P = Some R" using Q(1) R(1) by simp
  ultimately show ?case using R(2,3) Q(2) e by metis
qed auto

lemma digit_bound:
  fixes a x b :: nat
  assumes "a < 4294967296" and "x < b"
  shows "x + b * a < b * 4294967296"
proof -
  have "b * (a + 1) \<le> b * 4294967296" using assms(1) by (intro mult_le_mono2) simp
  then have "b * a + b \<le> b * 4294967296" by (simp only: distrib_left mult_1_right)
  with assms(2) show ?thesis by linarith
qed

lemma CMP_mont_product_loop_val:
  assumes m: "m = m0 # ms" and c: "m0 * c = - 1" and b: "b \<noteq> []" "length b \<le> length m + 2"
    and n: "length P = 2 * length m + 3"
  shows "length P = 2 * length m + 3 \<Longrightarrow> i + length as \<le> length m \<Longrightarrow> 2 ^ (32 * i) dvd cmp_val P \<Longrightarrow>
    cmp_val P = x * cmp_val b + t * cmp_val m \<Longrightarrow> x < 2 ^ (32 * i) \<Longrightarrow> t < 2 ^ (32 * i) \<Longrightarrow>
    \<exists>Q u. CMP_mont_product_loop as i b m c P = Some Q \<and> length Q = 2 * length m + 3 \<and>
      2 ^ (32 * (i + length as)) dvd cmp_val Q \<and> u < 2 ^ (32 * (i + length as)) \<and>
      cmp_val Q = (x + 2 ^ (32 * i) * cmp_val as) * cmp_val b + u * cmp_val m"
proof (induction as arbitrary: i P x t)
  case (Cons a as)
  let ?B = "2 ^ (32 * i) :: nat" and ?M = "cmp_val m" and ?L = "2 ^ (32 * (2 * length m + 3)) :: nat"
  have im: "i < length m" using Cons.prems(2) by simp
  have room: "X * cmp_val b + T * ?M + ?B * 4294967296 * ?M < ?L" if "X < 2 ^ (32 * Suc i)" "T < 2 ^ (32 * Suc i)" for X T
  proof -
    define W where "W = (2 :: nat) ^ (32 * length m)"
    have "(2 :: nat) ^ (32 * Suc i) \<le> W" unfolding W_def using im by (intro power_increasing) auto
    then have X: "X < W" "T < W" "?B * 4294967296 \<le> W" using that by (auto simp: power_add mult.commute)
    have M: "?M < W" unfolding W_def by (rule cmp_val_less)
    have "cmp_val b < 2 ^ (32 * length b)" by (rule cmp_val_less)
    also have "\<dots> \<le> 2 ^ (32 * (length m + 2))" using b(2) by (intro power_increasing) auto
    also have "\<dots> = 18446744073709551616 * W" by (simp add: W_def power_add)
    finally have B: "cmp_val b < 18446744073709551616 * W" .
    have 1: "X * cmp_val b \<le> W * (18446744073709551616 * W)" using X B by (intro mult_le_mono) auto
    have 2: "T * ?M \<le> W * W" using X M by (intro mult_le_mono) auto
    have 3: "?B * 4294967296 * ?M \<le> W * W" using X M by (intro mult_le_mono) auto
    define V where "V = W * W"
    have 1: "X * cmp_val b \<le> 18446744073709551616 * V"
      using 1 by (simp only: V_def mult.left_commute [of W])
    have e: "32 * (2 * length m + 3) = 96 + (32 * length m + 32 * length m)" by simp
    have "?L = 2 ^ 96 * V" unfolding e power_add V_def W_def ..
    moreover have "(2 :: nat) ^ 96 = 79228162514264337593543950336" by simp
    ultimately have L: "?L = 79228162514264337593543950336 * V" by (rule subst [rotated])
    have "0 < V" by (simp add: V_def W_def)
    with 1 2 3 show ?thesis unfolding L V_def [symmetric] by linarith
  qed
  have xa: "x + ?B * unat a < 2 ^ (32 * Suc i)"
  proof -
    have "x + ?B * unat a < ?B * 4294967296" by (rule digit_bound [OF unat_32 Cons.prems(5)])
    then show ?thesis by (simp add: power_add)
  qed
  have ti: "t < 2 ^ (32 * Suc i)" using Cons.prems(6) by (rule less_le_trans) (intro power_increasing, auto)
  have Q0: "cmp_val P + ?B * (unat a * cmp_val b) = (x + ?B * unat a) * cmp_val b + t * ?M"
    unfolding Cons.prems(4) by (simp add: algebra_simps)
  have "cmp_val P + ?B * (unat a * cmp_val (take (length b) (drop 0 b))) < 2 ^ (32 * length P)"
    using room [OF xa ti] Q0 unfolding Cons.prems(1) by simp
  then obtain Q where Q: "CMP_VectorMultiply a b 0 (length b) P i = Some Q" "length Q = length P"
    "cmp_val Q = (x + ?B * unat a) * cmp_val b + t * ?M"
    using CMP_VectorMultiply_val [of "length b" 0 b i P a] im b Cons.prems(1) Q0 by auto
  have "?B dvd cmp_val Q"
    using Cons.prems(3) unfolding Q(3) Q0 [symmetric] by (intro dvd_add dvd_triv_left)
  moreover have "cmp_val Q + 2 ^ (32 * Suc i) * ?M < 2 ^ (32 * length Q) + ?B * ?M"
    using room [OF xa ti] unfolding Q(2,3) Cons.prems(1) by (simp add: power_add mult.commute)
  moreover have "i + length m < length Q" using im Q(2) Cons.prems(1) by simp
  ultimately obtain R v where R: "CMP_mont_reduce_step m c i Q = Some R" "length R = length Q"
    "2 ^ (32 * Suc i) dvd cmp_val R" "v < 4294967296" "cmp_val R = cmp_val Q + ?B * (v * ?M)"
    using CMP_mont_reduce_step_val [OF m c] by blast
  have Rv: "cmp_val R = (x + ?B * unat a) * cmp_val b + (t + ?B * v) * ?M"
    unfolding R(5) Q(3) by (simp add: algebra_simps)
  have tv: "t + ?B * v < 2 ^ (32 * Suc i)"
  proof -
    have "t + ?B * v < ?B * 4294967296" by (rule digit_bound [OF R(4) Cons.prems(6)])
    then show ?thesis by (simp add: power_add)
  qed
  have "length R = 2 * length m + 3" "Suc i + length as \<le> length m" using R(2) Q(2) Cons.prems by simp_all
  from Cons.IH [OF this R(3) Rv xa tv] obtain S u where S: "CMP_mont_product_loop as (Suc i) b m c R = Some S"
    "length S = 2 * length m + 3" "2 ^ (32 * (Suc i + length as)) dvd cmp_val S" "u < 2 ^ (32 * (Suc i + length as))"
    "cmp_val S = (x + ?B * unat a + 2 ^ (32 * Suc i) * cmp_val as) * cmp_val b + u * ?M" by blast
  have "x + ?B * unat a + 2 ^ (32 * Suc i) * cmp_val as = x + ?B * cmp_val (a # as)"
    by (simp add: power_add algebra_simps)
  moreover have "CMP_mont_product_loop (a # as) i b m c P = Some S" using Q(1) R(1) S(1) by simp
  moreover have "Suc i + length as = i + length (a # as)" by simp
  ultimately show ?case using S(2-) by metis
qed auto

text \<open>The block divided by \<open>R = 2 ^ (32 * length m)\<close>.\<close>

lemma cmp_val_take: "cmp_val ws < 2 ^ (32 * n) \<Longrightarrow> cmp_val (take n ws) = cmp_val ws"
proof (cases "n \<le> length ws")
  case True
  assume lt: "cmp_val ws < 2 ^ (32 * n)"
  have "cmp_val (drop n ws) = 0"
  proof (rule ccontr)
    assume "cmp_val (drop n ws) \<noteq> 0"
    then have "2 ^ (32 * n) * 1 \<le> 2 ^ (32 * n) * cmp_val (drop n ws)" by (intro mult_le_mono2) simp
    with cmp_val_take_drop [OF True] lt show False by simp
  qed
  with cmp_val_take_drop [OF True] show ?thesis by simp
qed simp

lemma CMP_mont_extract_val:
  assumes n: "2 * k + 1 \<le> length P" and lt: "cmp_val P < 2 ^ (32 * (2 * k + 1))" and sp: "k + 1 \<le> cmp_space x"
  shows "\<exists>z. CMP_mont_extract k P x = Inr z \<and> cmp_ok z \<and> cmp_val (cmp_words z) = cmp_val P div 2 ^ (32 * k)"
proof -
  define T where "T = take (2 * k + 1) P"
  have T: "length T = 2 * k + 1" "cmp_val T = cmp_val P" using n lt cmp_val_take by (simp_all add: T_def)
  define D where "D = drop k T"
  have D: "length D = k + 1" using T(1) by (simp add: D_def)
  have ne: "D \<noteq> []" using D by auto
  have "cmp_val T = cmp_val (take k T) + 2 ^ (32 * k) * cmp_val D"
    using cmp_val_take_drop [of k T] T(1) by (simp add: D_def)
  moreover have "cmp_val (take k T) < 2 ^ (32 * k)" using cmp_val_less [of "take k T"] T(1) by simp
  ultimately have Dv: "cmp_val D = cmp_val P div 2 ^ (32 * k)" using T(2) by simp
  have "CMP_mont_extract k P x = Inr (x\<lparr>cmp_words := CMP_strip D\<rparr>)"
    unfolding CMP_mont_extract_def T_def [symmetric]
    using T(1) D by (simp add: CMP_ShiftRightByCMPWords_def CMP_RecomputeLength_def D_def [symmetric])
  with CMP_strip_props [OF ne] Dv D sp show ?thesis by (simp add: cmp_ok_def)
qed

text \<open>What is left after the reductions: at most one subtraction of the modulus.\<close>

lemma CMP_mont_last:
  assumes m: "cmp_ok m" and x: "cmp_ok x" and lt: "cmp_val (cmp_words x) < 2 * cmp_val (cmp_words m)"
  shows "\<exists>z. (if CMP_Compare x m \<ge> 0 then CMP_SubtractInPlace m x else Inr x) = Inr z \<and> cmp_ok z \<and>
    cmp_val (cmp_words z) = cmp_val (cmp_words x) mod cmp_val (cmp_words m)"
  by (rule CMP_reduce_first [OF m x lt])

lemma CMP_Compare_swap: "CMP_Compare y x = - CMP_Compare x y"
proof -
  have loop: "CMP_Compare_loop bs as = - CMP_Compare_loop as bs" for as bs
  proof (induction as bs rule: CMP_Compare_loop.induct)
    case (1 a as b bs)
    consider "a = b" | "b < a" "\<not> a < b" "a \<noteq> b" "b \<noteq> a" | "a < b" "\<not> b < a" "a \<noteq> b" "b \<noteq> a"
      by (metis linorder_neqE order.asym)
    then show ?case
    proof cases
      case 1
      then have "CMP_Compare_loop bs as = - CMP_Compare_loop as bs" by (rule "1.IH")
      then show ?thesis unfolding CMP_Compare_loop.simps \<open>a = b\<close> by (simp only: if_True refl)
    qed simp_all
  qed simp_all
  from loop [of "rev (cmp_words y)" "rev (cmp_words x)"] show ?thesis by (simp add: CMP_Compare_def)
qed

lemma CMP_mont_last_square:
  assumes m: "cmp_ok m" and x: "cmp_ok x" and lt: "cmp_val (cmp_words x) < 2 * cmp_val (cmp_words m)"
  shows "\<exists>z. (if CMP_Compare m x < 0 then CMP_SubtractInPlace m x
       else if CMP_Compare m x = 0 then Inr (x\<lparr>cmp_words := [0]\<rparr>) else Inr x) = Inr z \<and> cmp_ok z \<and>
    cmp_val (cmp_words z) = cmp_val (cmp_words x) mod cmp_val (cmp_words m)"
proof -
  have n: "cmp_normal (cmp_words x)" "cmp_normal (cmp_words m)" using x m by (simp_all add: cmp_ok_def)
  show ?thesis
  proof (cases "CMP_Compare m x = 0")
    case True
    then have "cmp_val (cmp_words x) = cmp_val (cmp_words m)" using CMP_Compare_iff(5) [OF n(2,1)] by simp
    moreover have "cmp_words x \<noteq> []" using n(1) by (simp add: cmp_normal_def)
    then have "1 \<le> cmp_len x" by (simp add: Suc_leI)
    then have "1 \<le> cmp_space x" using x by (simp add: cmp_ok_def)
    ultimately show ?thesis using True by (simp add: cmp_ok_def cmp_normal_def)
  next
    case False
    then have c: "CMP_Compare x m \<ge> 0 \<longleftrightarrow> CMP_Compare m x < 0" using CMP_Compare_swap [of m x] by auto
    from CMP_mont_last [OF assms] show ?thesis unfolding c by (simp only: False if_False)
  qed
qed

text \<open>The number that the block holds after the reductions is \<open>q * R\<close>.\<close>

lemma mont_bounds:
  fixes X R M AB :: nat
  assumes "X = AB + u * M" and "AB < R * M" and "u < R" and "M < R"
  shows "X < 2 * (R * M)" and "X < R * (R * 4294967296)" and "X div R < 2 * M"
proof -
  have "u * M \<le> R * M" using assms(3) by (intro mult_le_mono1) simp
  then show 1: "X < 2 * (R * M)" using assms(1,2) by linarith
  have "R * M \<le> R * R" using assms(4) by (intro mult_le_mono2) simp
  moreover have "0 < R" using assms(3) by simp
  then have "0 < R * R" by simp
  ultimately have "X < 4294967296 * (R * R)" using 1 by linarith
  then show "X < R * (R * 4294967296)" by (simp add: mult_ac)
  show "X div R < 2 * M" using 1 \<open>0 < R\<close> by (simp add: div_less_iff_less_mult mult_ac)
qed

lemma mont_congruence:
  fixes X R M AB :: nat
  assumes "X = AB + u * M" and "R dvd X"
  shows "((X div R mod M) * R) mod M = AB mod M"
proof -
  have "((X div R mod M) * R) mod M = (X div R * R) mod M" by (simp add: mod_mult_left_eq)
  also have "X div R * R = X" using assms(2) by simp
  also have "X mod M = AB mod M" by (simp add: assms(1))
  finally show ?thesis .
qed

lemma CMP_MontProduct_correct:
  assumes mem: "\<And>n. mem n" and m: "cmp_ok m" "cmp_words m = m0 # ms" and c: "m0 * c = - 1"
    and a: "cmp_len a \<le> cmp_len m" and b: "cmp_words b \<noteq> []" "cmp_len b \<le> cmp_len m"
    and lt: "cmp_val (cmp_words a) * cmp_val (cmp_words b) < 2 ^ (32 * cmp_len m) * cmp_val (cmp_words m)"
  shows "\<exists>z. CMP_MontProduct mem a b m c s = Inr z \<and> cmp_ok z \<and> cmp_val (cmp_words z) < cmp_val (cmp_words m) \<and>
    (cmp_val (cmp_words z) * 2 ^ (32 * cmp_len m)) mod cmp_val (cmp_words m)
      = (cmp_val (cmp_words a) * cmp_val (cmp_words b)) mod cmp_val (cmp_words m)"
proof -
  let ?k = "cmp_len m" and ?M = "cmp_val (cmp_words m)" and ?AB = "cmp_val (cmp_words a) * cmp_val (cmp_words b)"
  define R where "R = (2 :: nat) ^ (32 * ?k)"
  have MR: "?M < R" unfolding R_def by (rule cmp_val_less)
  have lt': "?AB < R * ?M" using lt by (simp add: R_def)
  then have Mpos: "0 < ?M" by (cases "?M = 0") auto
  obtain s1 where s1: "CMP_ensureNoCopy mem (2 * ?k + 3) (2 * ?k + 3) s = Inr s1" "2 * ?k + 3 \<le> cmp_space s1"
    using CMP_ensureNoCopy_cases [of "2 * ?k + 3" "2 * ?k + 3" mem s] mem by auto
  let ?P = "replicate (2 * ?k + 3) (0 :: u32)"
  obtain Q u where Q: "CMP_mont_product_loop (cmp_words a) 0 (cmp_words b) (cmp_words m) c ?P = Some Q"
    "length Q = 2 * ?k + 3" "2 ^ (32 * cmp_len a) dvd cmp_val Q" "u < 2 ^ (32 * cmp_len a)"
    "cmp_val Q = ?AB + u * ?M"
    using CMP_mont_product_loop_val [OF m(2) c, of "cmp_words b" ?P 0 "cmp_words a" 0 0] a b by auto
  have uR: "u < R" using Q(4) unfolding R_def by (rule less_le_trans) (use a in \<open>intro power_increasing, auto\<close>)
  have L: "R * (R * 79228162514264337593543950336) = 2 ^ (32 * length Q)"
  proof -
    have e: "32 * length Q = 96 + (32 * ?k + 32 * ?k)" using Q(2) by simp
    have "(2 :: nat) ^ (32 * length Q) = 2 ^ 96 * (R * R)" unfolding e power_add R_def ..
    then show ?thesis by simp
  qed
  have "R * ?M \<le> R * R" using MR by (intro mult_le_mono2) simp
  moreover have "cmp_val Q < 2 * (R * ?M)" by (rule mont_bounds(1) [OF Q(5) lt' uR MR])
  moreover have "0 < R * R" by (simp add: R_def)
  ultimately have "cmp_val Q + R * ?M < 2 ^ (32 * length Q)" unfolding L [symmetric] by linarith
  then have "cmp_val Q + 2 ^ (32 * (cmp_len a + (?k - cmp_len a))) * ?M < 2 ^ (32 * length Q) + 2 ^ (32 * cmp_len a) * ?M"
    using a by (simp add: R_def)
  moreover have "cmp_len a + (?k - cmp_len a) + length (cmp_words m) \<le> length Q" using a Q(2) by simp
  ultimately obtain X t where X: "CMP_mont_reduce_loop (?k - cmp_len a) (cmp_len a) (cmp_words m) c Q = Some X"
    "length X = length Q" "2 ^ (32 * (cmp_len a + (?k - cmp_len a))) dvd cmp_val X" "t < 2 ^ (32 * (?k - cmp_len a))"
    "cmp_val X = cmp_val Q + 2 ^ (32 * cmp_len a) * (t * ?M)"
    using CMP_mont_reduce_loop_val [OF m(2) c _ Q(3)] by blast
  have dvd: "R dvd cmp_val X" using X(3) a by (simp add: R_def)
  have Xv: "cmp_val X = ?AB + (u + 2 ^ (32 * cmp_len a) * t) * ?M" unfolding X(5) Q(5) by (simp add: algebra_simps)
  have "u + 2 ^ (32 * cmp_len a) * t < R"
  proof -
    have "2 ^ (32 * cmp_len a) * (t + 1) \<le> 2 ^ (32 * cmp_len a) * 2 ^ (32 * (?k - cmp_len a))"
      using X(4) by (intro mult_le_mono2) simp
    also have "\<dots> = R" using a by (simp add: R_def flip: power_add)
    finally have "2 ^ (32 * cmp_len a) * t + 2 ^ (32 * cmp_len a) \<le> R" by (simp only: distrib_left mult_1_right)
    with Q(4) show ?thesis by linarith
  qed
  note bounds = mont_bounds [OF Xv lt' this MR]
  have "cmp_val X < 2 ^ (32 * (2 * ?k + 1))"
  proof -
    have e: "32 * (2 * ?k + 1) = 32 * ?k + (32 * ?k + 32)" by simp
    have "(2 :: nat) ^ (32 * (2 * ?k + 1)) = R * (R * 2 ^ 32)" unfolding e power_add R_def ..
    then show ?thesis using bounds(2) by simp
  qed
  moreover have "2 * ?k + 1 \<le> length X" "?k + 1 \<le> cmp_space s1" using X(2) Q(2) s1(2) by simp_all
  ultimately obtain y where y: "CMP_mont_extract ?k X s1 = Inr y" "cmp_ok y" "cmp_val (cmp_words y) = cmp_val X div R"
    using CMP_mont_extract_val [of ?k X s1] unfolding R_def by blast
  obtain z where z: "(if CMP_Compare y m \<ge> 0 then CMP_SubtractInPlace m y else Inr y) = Inr z" "cmp_ok z"
    "cmp_val (cmp_words z) = cmp_val X div R mod ?M"
    using CMP_mont_last [OF m(1) y(2)] bounds(3) unfolding y(3) by blast
  have "CMP_MontProduct mem a b m c s = Inr z"
    unfolding CMP_MontProduct_def Let_def using s1(1) Q(1) X(1) y(1) z(1) by (simp add: numeral_3_eq_3)
  moreover have "(cmp_val (cmp_words z) * R) mod ?M = ?AB mod ?M"
    unfolding z(3) by (rule mont_congruence [OF Xv dvd])
  moreover have "cmp_val (cmp_words z) < ?M" unfolding z(3) using Mpos by simp
  ultimately show ?thesis using z(2) unfolding R_def by blast
qed

section \<open>The square\<close>

text \<open>A square is twice the products of different words and the squares of the words.\<close>

fun cross_products :: "u32 list \<Rightarrow> nat" where
  "cross_products [] = 0"
| "cross_products (w # ws) = 4294967296 * (unat w * cmp_val ws) + 18446744073709551616 * cross_products ws"

lemma square_of_value: "2 * cross_products ws + sum_of_squares ws = cmp_val ws * cmp_val ws"
proof (induction ws)
  case (Cons w ws)
  have "cmp_val (w # ws) * cmp_val (w # ws)
    = unat w * unat w + 2 * (4294967296 * (unat w * cmp_val ws)) + 18446744073709551616 * (cmp_val ws * cmp_val ws)"
    by (simp add: algebra_simps)
  also have "\<dots> = 2 * cross_products (w # ws) + sum_of_squares (w # ws)"
    unfolding Cons.IH [symmetric] by (simp add: algebra_simps)
  finally show ?case by simp
qed simp

lemma CMP_square_loop_val:
  "Suc (i + k) = length W \<Longrightarrow> 2 * length W + 1 \<le> length P \<Longrightarrow>
   cmp_val P + 2 ^ (64 * i) * cross_products (drop i W) < 2 ^ (32 * length P) \<Longrightarrow>
   \<exists>Q. CMP_square_loop k i W P = Some Q \<and> length Q = length P \<and>
     cmp_val Q = cmp_val P + 2 ^ (64 * i) * cross_products (drop i W)"
proof (induction k arbitrary: i P)
  case 0
  then have "drop i W = [W ! i]" by (simp add: Cons_nth_drop_Suc [symmetric])
  then have "cross_products (drop i W) = 0" by simp
  then show ?case by simp
next
  case (Suc k)
  have i: "i < length W" using Suc.prems(1) by simp
  have d: "drop i W = W ! i # drop (Suc i) W" using i by (simp add: Cons_nth_drop_Suc)
  let ?w = "unat (W ! i) * cmp_val (drop (Suc i) W)" and ?n = "length W - (i + 1)"
  have split: "2 ^ (64 * i) * cross_products (drop i W)
    = 2 ^ (32 * (2 * i + 1)) * ?w + 2 ^ (64 * Suc i) * cross_products (drop (Suc i) W)"
    unfolding d by (simp add: power_add algebra_simps)
  have t: "take ?n (drop (i + 1) W) = drop (Suc i) W" by simp
  have "cmp_val P + 2 ^ (32 * (2 * i + 1)) * ?w < 2 ^ (32 * length P)"
    using Suc.prems(3) unfolding split by linarith
  moreover have n: "0 < ?n" "i + 1 + ?n \<le> length W" "2 * i + 1 + ?n < length P" using Suc.prems(1,2) by arith+
  ultimately obtain Q where Q: "CMP_VectorMultiply (W ! i) W (i + 1) ?n P (2 * i + 1) = Some Q" "length Q = length P"
    "cmp_val Q = cmp_val P + 2 ^ (32 * (2 * i + 1)) * ?w"
    using CMP_VectorMultiply_val [OF n, of "W ! i"] unfolding t by blast
  have "\<exists>R. CMP_square_loop k (Suc i) W Q = Some R \<and> length R = length Q \<and>
     cmp_val R = cmp_val Q + 2 ^ (64 * Suc i) * cross_products (drop (Suc i) W)"
    using Suc.prems unfolding split by (intro Suc.IH) (simp_all add: Q(2,3))
  then show ?case using Q unfolding split by auto
qed

lemma CMP_ShiftLeftByCMPWords_space:
  "CMP_ShiftLeftByCMPWords mem k x = Inr z \<Longrightarrow> cmp_space x \<le> cmp_space z"
  by (auto simp: CMP_ShiftLeftByCMPWords_def CMP_reallocNoCopy_def Let_def on_success_Inr split: if_splits)

lemma CMP_ShiftLeftByBits_space: "CMP_ShiftLeftByBits mem n x = Inr z \<Longrightarrow> cmp_space x \<le> cmp_space z"
  by (auto simp: CMP_ShiftLeftByBits_def CMP_ensure_def CMP_realloc_def Let_def on_success_Inr
      split: if_splits dest!: CMP_ShiftLeftByCMPWords_space)

lemma cmp_len_le:
  assumes "cmp_normal ws" and "cmp_val ws < 2 ^ (32 * n)" and "0 < n"
  shows "length ws \<le> n"
proof (rule ccontr)
  assume l: "\<not> length ws \<le> n"
  then have "2 ^ (32 * (length ws - 1)) \<le> cmp_val ws" using assms by (intro cmp_normal_ge) auto
  moreover have "(2 :: nat) ^ (32 * n) \<le> 2 ^ (32 * (length ws - 1))" using l by (intro power_increasing) auto
  ultimately show False using assms(2) by linarith
qed

lemma CMP_MontSquare_correct:
  assumes mem: "\<And>n. mem n" and m: "cmp_ok m" "cmp_words m = m0 # ms" and c: "m0 * c = - 1"
    and a: "cmp_words a \<noteq> []" "cmp_len a \<le> cmp_len m"
    and lt: "cmp_val (cmp_words a) * cmp_val (cmp_words a) < 2 ^ (32 * cmp_len m) * cmp_val (cmp_words m)"
  shows "\<exists>z. CMP_MontSquare mem a m c s = Inr z \<and> cmp_ok z \<and> cmp_val (cmp_words z) < cmp_val (cmp_words m) \<and>
    (cmp_val (cmp_words z) * 2 ^ (32 * cmp_len m)) mod cmp_val (cmp_words m)
      = (cmp_val (cmp_words a) * cmp_val (cmp_words a)) mod cmp_val (cmp_words m)"
proof -
  let ?k = "cmp_len m" and ?M = "cmp_val (cmp_words m)" and ?O = "cmp_words a"
  let ?AA = "cmp_val ?O * cmp_val ?O"
  define R where "R = (2 :: nat) ^ (32 * ?k)"
  have MR: "?M < R" unfolding R_def by (rule cmp_val_less)
  have lt': "?AA < R * ?M" using lt by (simp add: R_def)
  then have Mpos: "0 < ?M" by (cases "?M = 0") auto
  have kpos: "0 < ?k" using m(2) by simp
  obtain s1 where s1: "CMP_ensureNoCopy mem (2 * ?k + 3) (2 * ?k + 3) s = Inr s1" "2 * ?k + 3 \<le> cmp_space s1"
    using CMP_ensureNoCopy_cases [of "2 * ?k + 3" "2 * ?k + 3" mem s] mem by auto
  let ?P = "replicate (2 * ?k + 3) (0 :: u32)"
  define N where "N = 2 * ?k + 3"
  have RR: "R * R = 2 ^ (32 * (2 * ?k))" by (simp add: R_def flip: power_add)
  have AARR: "?AA < R * R" using lt' MR by (meson le_less_trans less_imp_le less_le_trans mult_le_mono2)
  have pw: "(2 :: nat) ^ (32 * (2 * ?k)) \<le> 2 ^ (32 * n)" if "2 * ?k \<le> n" for n
    using that by (intro power_increasing) auto
  have cr: "2 * cross_products ?O + sum_of_squares ?O = ?AA" by (rule square_of_value)
  have "0 < cmp_len a" using a(1) by simp
  then have "Suc (0 + (cmp_len a - 1)) = length ?O" by simp
  moreover have "2 * length ?O + 1 \<le> length ?P" using a(2) by simp
  moreover have "cmp_val ?P + 2 ^ (64 * 0) * cross_products (drop 0 ?O) < 2 ^ (32 * length ?P)"
  proof -
    have "cross_products ?O < 2 ^ (32 * (2 * ?k))" using cr AARR unfolding RR by linarith
    then have "cross_products ?O < 2 ^ (32 * length ?P)"
      unfolding length_replicate using pw [of "2 * ?k + 3"] by linarith
    then show ?thesis by (simp only: cmp_val_zeros mult_0_right power_0 mult_1 drop_0 add_0)
  qed
  ultimately obtain Q where Q: "CMP_square_loop (cmp_len a - 1) 0 ?O ?P = Some Q" "length Q = N"
    "cmp_val Q = cross_products ?O"
    using CMP_square_loop_val [of 0 "cmp_len a - 1" ?O ?P] by (auto simp: N_def)
  have Qlt: "cmp_val Q < 2 ^ (32 * (2 * ?k))" using cr AARR unfolding RR Q(3) by linarith
  define T where "T = take (2 * ?k + 1) Q"
  have T: "length T = 2 * ?k + 1" "cmp_val T = cmp_val Q"
  proof -
    show "length T = 2 * ?k + 1" using Q(2) by (simp add: T_def N_def)
    have "cmp_val Q < 2 ^ (32 * (2 * ?k + 1))" using Qlt pw [of "2 * ?k + 1"] by linarith
    then show "cmp_val T = cmp_val Q" unfolding T_def by (rule cmp_val_take)
  qed
  have Tne: "T \<noteq> []" using T(1) by auto
  define s2 where "s2 = s1\<lparr>cmp_words := CMP_strip T\<rparr>"
  have rec: "CMP_RecomputeLength (2 * ?k) (s1\<lparr>cmp_words := Q\<rparr>) = Inr s2"
    using Q(2) by (simp add: CMP_RecomputeLength_def s2_def T_def N_def)
  have s2: "cmp_ok s2" "cmp_val (cmp_words s2) = cmp_val Q"
    using CMP_strip_props [OF Tne] T s1(2) by (simp_all add: s2_def cmp_ok_def)
  obtain s3 where s3: "CMP_ShiftLeftByBits mem 1 s2 = Inr s3" "cmp_ok s3" "cmp_val (cmp_words s3) = cmp_val Q * 2"
    using CMP_ShiftLeftByBits_correct [of mem s2 1, OF mem s2(1)] unfolding s2(2) by auto
  have sq_lt: "cmp_val (cmp_words s3) < 2 ^ (32 * (2 * ?k))"
    using cr AARR unfolding RR s3(3) Q(3) by linarith
  have l3: "cmp_len s3 \<le> 2 * ?k"
    using s3(2) kpos sq_lt by (intro cmp_len_le) (simp_all add: cmp_ok_def)
  have d0: "cmp_val (drop (cmp_len s3) Q) = 0"
  proof -
    have "cmp_len s3 \<le> length Q" using l3 Q(2) by (simp add: N_def)
    note td = cmp_val_take_drop [OF this]
    have "cmp_val Q < 2 ^ (32 * cmp_len s3)" using cmp_val_less [of "cmp_words s3"] s3(3) by linarith
    then show ?thesis using cmp_val_take [of Q "cmp_len s3"] td by simp
  qed
  define D where "D = cmp_words s3 @ drop (cmp_len s3) Q"
  have D: "length D = N" "cmp_val D = 2 * cross_products ?O"
    using l3 Q(2,3) d0 s3(3) by (simp_all add: D_def cmp_val_append N_def)
  have "sum_of_squares ?O + cmp_val D + unat (0 :: u32) < 2 ^ (32 * length D)"
  proof -
    have "2 * ?k \<le> N" by (simp add: N_def)
    from pw [OF this] have "?AA < 2 ^ (32 * N)" using AARR unfolding RR by linarith
    then show ?thesis unfolding D using cr by (simp add: add.commute)
  qed
  moreover have "2 * length ?O \<le> length D" using a(2) D(1) by (simp add: N_def)
  ultimately obtain X0 where X0: "CMP_AddInTrace ?O D = Some X0" "length X0 = N" "cmp_val X0 = ?AA"
    using CMP_trace_loop_val [of 0 ?O D] D cr by (auto simp: CMP_AddInTrace_def add.commute)
  have L: "R * (R * 79228162514264337593543950336) = 2 ^ (32 * N)"
  proof -
    have e: "32 * N = 96 + (32 * ?k + 32 * ?k)" by (simp add: N_def)
    have "(2 :: nat) ^ (32 * N) = 2 ^ 96 * (R * R)" unfolding e power_add R_def ..
    then show ?thesis by simp
  qed
  have "R * ?M \<le> R * R" using MR by (intro mult_le_mono2) simp
  then have "cmp_val X0 + R * ?M < 2 ^ (32 * N)" using AARR X0(3) unfolding L [symmetric] by linarith
  then have "cmp_val X0 + 2 ^ (32 * (0 + ?k)) * ?M < 2 ^ (32 * length X0) + 2 ^ (32 * 0) * ?M"
    unfolding X0(2) by (simp add: R_def)
  moreover have "0 + ?k + length (cmp_words m) \<le> length X0" using X0(2) by (simp add: N_def)
  moreover have "2 ^ (32 * 0) dvd cmp_val X0" by simp
  ultimately obtain X t where X: "CMP_mont_reduce_loop ?k 0 (cmp_words m) c X0 = Some X"
    "length X = length X0" "2 ^ (32 * (0 + ?k)) dvd cmp_val X" "t < 2 ^ (32 * ?k)"
    "cmp_val X = cmp_val X0 + 2 ^ (32 * 0) * (t * ?M)"
    using CMP_mont_reduce_loop_val [OF m(2) c, of 0 ?k X0] by blast
  have dvd: "R dvd cmp_val X" using X(3) by (simp add: R_def)
  have Xv: "cmp_val X = ?AA + t * ?M" using X(5) X0(3) by simp
  have tR: "t < R" using X(4) by (simp add: R_def)
  note bounds = mont_bounds [OF Xv lt' tR MR]
  have "cmp_val X < 2 ^ (32 * (2 * ?k + 1))"
  proof -
    have e: "32 * (2 * ?k + 1) = 32 * ?k + (32 * ?k + 32)" by simp
    have "(2 :: nat) ^ (32 * (2 * ?k + 1)) = R * (R * 2 ^ 32)" unfolding e power_add R_def ..
    then show ?thesis using bounds(2) by simp
  qed
  moreover have "?k + 1 \<le> cmp_space s3"
    using CMP_ShiftLeftByBits_space [OF s3(1)] s1(2) by (simp add: s2_def)
  moreover have "2 * ?k + 1 \<le> length X" using X(2) X0(2) by (simp add: N_def)
  ultimately obtain y where y: "CMP_mont_extract ?k X s3 = Inr y" "cmp_ok y" "cmp_val (cmp_words y) = cmp_val X div R"
    using CMP_mont_extract_val [of ?k X s3] unfolding R_def by blast
  obtain z where z: "(if CMP_Compare m y < 0 then CMP_SubtractInPlace m y
       else if CMP_Compare m y = 0 then Inr (y\<lparr>cmp_words := [0]\<rparr>) else Inr y) = Inr z" "cmp_ok z"
    "cmp_val (cmp_words z) = cmp_val X div R mod ?M"
    using CMP_mont_last_square [OF m(1) y(2)] bounds(3) unfolding y(3) by blast
  have "CMP_MontSquare mem a m c s = Inr z"
    unfolding CMP_MontSquare_def Let_def s1(1) on_success.simps Q(1) option.case rec s3(1) D_def [symmetric]
      X0(1) X(1) y(1) by (rule z(1))
  moreover have "(cmp_val (cmp_words z) * R) mod ?M = ?AA mod ?M"
    unfolding z(3) by (rule mont_congruence [OF Xv dvd])
  moreover have "cmp_val (cmp_words z) < ?M" unfolding z(3) using Mpos by simp
  ultimately show ?thesis using z(2) unfolding R_def by blast
qed

section \<open>Montgomery numbers\<close>

definition mont_R :: "CMPInt \<Rightarrow> nat" where
  "mont_R m = 2 ^ (32 * cmp_len m)"

text \<open>\<open>x\<close> stands for \<open>v\<close>: it is \<open>v * R\<close> modulo \<open>m\<close>.\<close>

definition mont_rep :: "CMPInt \<Rightarrow> CMPInt \<Rightarrow> nat \<Rightarrow> bool" where
  "mont_rep m x v \<longleftrightarrow> cmp_ok x \<and> cmp_val (cmp_words x) = (v * mont_R m) mod cmp_val (cmp_words m)"

text \<open>An odd modulus, and the coefficient that \<open>CMP_ComputeMontCoeff\<close> finds for it.\<close>

definition mont_modulus :: "CMPInt \<Rightarrow> u32 \<Rightarrow> bool" where
  "mont_modulus m c \<longleftrightarrow> cmp_ok m \<and> odd (cmp_val (cmp_words m)) \<and> cmp_words m ! 0 * c = - 1"

lemma odd_cmp_val: "ws \<noteq> [] \<Longrightarrow> odd (cmp_val ws) \<longleftrightarrow> odd (unat (ws ! 0))"
  by (cases ws) simp_all

lemma mont_modulus_words: "mont_modulus m c \<Longrightarrow> \<exists>m0 ms. cmp_words m = m0 # ms \<and> m0 * c = - 1"
proof -
  assume m: "mont_modulus m c"
  then have "cmp_normal (cmp_words m)" by (simp add: mont_modulus_def cmp_ok_def)
  then obtain m0 ms where "cmp_words m = m0 # ms" by (cases "cmp_words m") (simp_all add: cmp_normal_def)
  with m show ?thesis by (simp add: mont_modulus_def)
qed

lemma mont_modulus_pos: "mont_modulus m c \<Longrightarrow> 0 < cmp_val (cmp_words m)"
  by (auto simp: mont_modulus_def intro: odd_pos)

lemma mont_cancel:
  assumes m: "mont_modulus m c" and eq: "(x * mont_R m) mod cmp_val (cmp_words m) = (y * mont_R m) mod cmp_val (cmp_words m)"
  shows "x mod cmp_val (cmp_words m) = y mod cmp_val (cmp_words m)"
proof -
  let ?M = "cmp_val (cmp_words m)"
  have "coprime ?M (mont_R m)"
    unfolding mont_R_def using m by (simp add: mont_modulus_def)
  then have co: "coprime (int ?M) (int (mont_R m))" by simp
  have "int x * int (mont_R m) mod int ?M = int y * int (mont_R m) mod int ?M"
    using arg_cong [OF eq, of int] by (simp add: of_nat_mod)
  then have "int ?M dvd (int x - int y) * int (mont_R m)"
    by (simp add: mod_eq_dvd_iff left_diff_distrib)
  then have "int ?M dvd int x - int y" using co by (simp add: coprime_dvd_mult_left_iff)
  then have "int x mod int ?M = int y mod int ?M" by (simp add: mod_eq_dvd_iff)
  then show ?thesis by (simp flip: of_nat_mod)
qed

lemma mont_rep_less: "mont_modulus m c \<Longrightarrow> mont_rep m x v \<Longrightarrow> cmp_val (cmp_words x) < cmp_val (cmp_words m)"
  by (simp add: mont_rep_def mont_modulus_pos)

lemma mont_rep_len:
  assumes "mont_modulus m c" and "mont_rep m x v"
  shows "cmp_len x \<le> cmp_len m" and "cmp_words x \<noteq> []"
proof -
  have n: "cmp_normal (cmp_words x)" using assms(2) by (simp add: mont_rep_def cmp_ok_def)
  then show "cmp_words x \<noteq> []" by (simp add: cmp_normal_def)
  have "cmp_words m \<noteq> []" using mont_modulus_words [OF assms(1)] by auto
  then show "cmp_len x \<le> cmp_len m" using mont_rep_less [OF assms] by (intro cmp_len_mono [OF n]) simp_all
qed

lemma mont_less_R: "x < cmp_val (cmp_words m) \<Longrightarrow> y < cmp_val (cmp_words m) \<Longrightarrow>
    x * y < 2 ^ (32 * cmp_len m) * cmp_val (cmp_words m)"
  using cmp_val_less [of "cmp_words m"] by (intro mult_strict_mono) auto

lemma CMP_MontProduct_rep:
  assumes mem: "\<And>n. mem n" and m: "mont_modulus m c" and a: "mont_rep m a x" and b: "mont_rep m b y"
  shows "\<exists>z. CMP_MontProduct mem a b m c s = Inr z \<and> mont_rep m z (x * y)"
proof -
  let ?M = "cmp_val (cmp_words m)"
  obtain m0 ms where w: "cmp_words m = m0 # ms" "m0 * c = - 1" using mont_modulus_words [OF m] by blast
  have ok: "cmp_ok m" using m by (simp add: mont_modulus_def)
  obtain z where z: "CMP_MontProduct mem a b m c s = Inr z" "cmp_ok z" "cmp_val (cmp_words z) < ?M"
    "(cmp_val (cmp_words z) * mont_R m) mod ?M = (cmp_val (cmp_words a) * cmp_val (cmp_words b)) mod ?M"
    using CMP_MontProduct_correct [of mem m m0 ms c a b s, OF mem ok w mont_rep_len(1) [OF m a]
        mont_rep_len(2,1) [OF m b] mont_less_R [OF mont_rep_less [OF m a] mont_rep_less [OF m b]]]
    unfolding mont_R_def by blast
  have "(cmp_val (cmp_words a) * cmp_val (cmp_words b)) mod ?M = (x * mont_R m * (y * mont_R m)) mod ?M"
    using a b by (simp add: mont_rep_def mod_mult_eq)
  also have "x * mont_R m * (y * mont_R m) = (x * y * mont_R m) * mont_R m" by simp
  finally have "(cmp_val (cmp_words z) * mont_R m) mod ?M = (x * y * mont_R m) * mont_R m mod ?M" using z(4) by simp
  from mont_cancel [OF m this] z(2,3) have "mont_rep m z (x * y)" by (simp add: mont_rep_def)
  with z(1) show ?thesis by blast
qed

lemma CMP_MontSquare_rep:
  assumes mem: "\<And>n. mem n" and m: "mont_modulus m c" and a: "mont_rep m a x"
  shows "\<exists>z. CMP_MontSquare mem a m c s = Inr z \<and> mont_rep m z (x * x)"
proof -
  let ?M = "cmp_val (cmp_words m)"
  obtain m0 ms where w: "cmp_words m = m0 # ms" "m0 * c = - 1" using mont_modulus_words [OF m] by blast
  have ok: "cmp_ok m" using m by (simp add: mont_modulus_def)
  obtain z where z: "CMP_MontSquare mem a m c s = Inr z" "cmp_ok z" "cmp_val (cmp_words z) < ?M"
    "(cmp_val (cmp_words z) * mont_R m) mod ?M = (cmp_val (cmp_words a) * cmp_val (cmp_words a)) mod ?M"
    using CMP_MontSquare_correct [of mem m m0 ms c a s, OF mem ok w mont_rep_len(2,1) [OF m a]
        mont_less_R [OF mont_rep_less [OF m a] mont_rep_less [OF m a]]]
    unfolding mont_R_def by blast
  have "(cmp_val (cmp_words a) * cmp_val (cmp_words a)) mod ?M = (x * mont_R m * (x * mont_R m)) mod ?M"
    using a by (simp add: mont_rep_def mod_mult_eq)
  also have "x * mont_R m * (x * mont_R m) = (x * x * mont_R m) * mont_R m" by simp
  finally have "(cmp_val (cmp_words z) * mont_R m) mod ?M = (x * x * mont_R m) * mont_R m mod ?M" using z(4) by simp
  from mont_cancel [OF m this] z(2,3) have "mont_rep m z (x * x)" by (simp add: mont_rep_def)
  with z(1) show ?thesis by blast
qed

lemma CMP_not_below_iff:
  assumes "length ms = length ss"
  shows "CMP_not_below (rev ms) (rev ss) \<longleftrightarrow> cmp_val ms \<le> cmp_val ss"
proof -
  have "CMP_not_below xs ys \<longleftrightarrow> CMP_Compare_loop xs ys \<le> 0" for xs ys
  proof (induction xs ys rule: CMP_Compare_loop.induct)
    case (1 a as b bs)
    consider "a = b" | "b < a" "\<not> a < b" "a \<noteq> b" | "a < b" "\<not> b < a" "a \<noteq> b" by (metis linorder_neqE order.asym)
    then show ?case
    proof cases
      case 1
      with "1.IH" show ?thesis by simp
    qed simp_all
  qed simp_all
  then show ?thesis using CMP_Compare_loop_sgn [OF assms] by (simp add: sgn_if)
qed

lemma CMP_ConvertToMont_correct:
  assumes mem: "\<And>n. mem n" and m: "cmp_ok m" and x: "cmp_ok x" and lt: "cmp_val (cmp_words x) < cmp_val (cmp_words m)"
  shows "\<exists>m' z. CMP_ConvertToMont mem x m s = Inr (m', z) \<and> cmp_ok m' \<and> cmp_words m' = cmp_words m \<and>
    mont_rep m z (cmp_val (cmp_words x))"
proof -
  have n: "cmp_normal (cmp_words x)" "cmp_words m \<noteq> []" using m x by (simp_all add: cmp_ok_def cmp_normal_def)
  have len: "cmp_len x \<le> cmp_len m" using lt by (intro cmp_len_mono [OF n(1) _ n(2)]) simp
  have below: "\<not> (cmp_len m = cmp_len x \<and> CMP_not_below (rev (cmp_words m)) (rev (cmp_words x)))"
    using CMP_not_below_iff [of "cmp_words m" "cmp_words x"] lt by auto
  obtain s1 where s1: "CMP_reallocNoCopy mem (2 * cmp_len m + 1) CMP_Constructor = Inr s1"
    using mem by (simp add: CMP_reallocNoCopy_def CMP_Constructor_def)
  obtain s2 where s2: "CMP_Move mem x s1 = Inr s2" "cmp_words s2 = cmp_words x" "cmp_ok s2"
    using CMP_Move_ok [of mem x s1, OF mem x] by blast
  have "1 \<le> cmp_len m" using n(2) by (simp add: Suc_leI)
  then have k: "cmp_len m - 1 + 1 = cmp_len m" by simp
  obtain s3 where s3: "CMP_ShiftLeftByCMPWords mem (cmp_len m) s2 = Inr s3" "cmp_ok s3"
    "cmp_val (cmp_words s3) = cmp_val (cmp_words x) * mont_R m"
    using CMP_ShiftLeftByCMPWords_correct [of mem s2 "cmp_len m", OF mem s2(3)] unfolding s2(2) mont_R_def by blast
  have mpos: "0 < cmp_val (cmp_words m)" using lt by simp
  obtain s4 m' z where r: "CMP_ModularReduce mem s3 m s = Inr (s4, m', z)" "cmp_ok m'" "cmp_words m' = cmp_words m"
    "cmp_ok z" "cmp_val (cmp_words z) = (cmp_val (cmp_words x) * mont_R m) mod cmp_val (cmp_words m)"
    using CMP_ModularReduce_correct [of mem s3 m s, OF mem s3(2) m mpos] unfolding s3(3) by blast
  have "CMP_ConvertToMont mem x m s = Inr (m', z)"
    unfolding CMP_ConvertToMont_def Let_def k s1 on_success.simps s2(1) s3(1) r(1) prod.case
    using len below by simp
  with r show ?thesis by (simp add: mont_rep_def)
qed

lemma CMP_ConvertToMont_range:
  assumes m: "cmp_ok m" and x: "cmp_ok x" and ge: "cmp_val (cmp_words m) \<le> cmp_val (cmp_words x)"
  shows "CMP_ConvertToMont mem x m s = Inl CMP_RANGE"
proof -
  have n: "cmp_normal (cmp_words m)" "cmp_words x \<noteq> []" using m x by (simp_all add: cmp_ok_def cmp_normal_def)
  have "cmp_len m \<le> cmp_len x" by (rule cmp_len_mono [OF n(1) ge n(2)])
  with CMP_not_below_iff [of "cmp_words m" "cmp_words x"] ge show ?thesis
    by (cases "cmp_len m = cmp_len x") (simp_all add: CMP_ConvertToMont_def)
qed

lemma CMP_ConvertFromMont_correct:
  assumes mem: "\<And>n. mem n" and m: "mont_modulus m c" and a: "mont_rep m a x"
  shows "\<exists>z. CMP_ConvertFromMont mem a m c s = Inr z \<and> cmp_ok z \<and>
    cmp_val (cmp_words z) = x mod cmp_val (cmp_words m)"
proof -
  let ?M = "cmp_val (cmp_words m)"
  obtain m0 ms where w: "cmp_words m = m0 # ms" "m0 * c = - 1" using mont_modulus_words [OF m] by blast
  have ok: "cmp_ok m" using m by (simp add: mont_modulus_def)
  let ?u = "\<lparr>cmp_space = 1, cmp_words = [1 :: u32]\<rparr>"
  have u: "CMP_reallocNoCopy mem 1 CMP_Constructor = Inr \<lparr>cmp_space = 1, cmp_words = []\<rparr>"
    using mem by (simp add: CMP_reallocNoCopy_def CMP_Constructor_def)
  have "1 \<le> cmp_len m" using w(1) by simp
  have "cmp_val (cmp_words a) < ?M" by (rule mont_rep_less [OF m a])
  also have "1 * ?M \<le> 2 ^ (32 * cmp_len m) * ?M" by (intro mult_le_mono1) simp
  finally have lt: "cmp_val (cmp_words a) * cmp_val (cmp_words ?u) < 2 ^ (32 * cmp_len m) * ?M" by simp
  obtain z where z: "CMP_MontProduct mem a ?u m c s = Inr z" "cmp_ok z" "cmp_val (cmp_words z) < ?M"
    "(cmp_val (cmp_words z) * mont_R m) mod ?M = (cmp_val (cmp_words a) * cmp_val (cmp_words ?u)) mod ?M"
    using CMP_MontProduct_correct [of mem m m0 ms c a ?u s, OF mem ok w mont_rep_len(1) [OF m a] _ _ lt]
      \<open>1 \<le> cmp_len m\<close> unfolding mont_R_def by auto
  have "(cmp_val (cmp_words z) * mont_R m) mod ?M = (x * mont_R m) mod ?M"
    using z(4) a by (simp add: mont_rep_def)
  from mont_cancel [OF m this] z show ?thesis
    using u by (simp add: CMP_ConvertFromMont_def)
qed

end
