(* ===== verification/CMP_ModExp.thy ===== *)
theory CMP_ModExp
  imports CMP_Montgomery
begin

text \<open>
  Exponentiation modulo an odd number: security/lib/crypto/cmpmdexp.c. The exponent is taken from its
  most significant bit down in windows of \<open>unroll\<close> bits, and the powers of the base that a window
  may ask for are kept in a table that is filled on demand.
\<close>

section \<open>Bit fields\<close>

definition CMP_GetBitsFromWord :: "u32 \<Rightarrow> int \<Rightarrow> int \<Rightarrow> u32" where
  "CMP_GetBitsFromWord srcWord pos n = drop_bit (nat (pos + 1 - n)) srcWord AND NOT (push_bit (nat n) 0xffffffff)"

text \<open>
  The field and the new \<open>*pos\<close>. The position is negative only for a \<open>CMPInt\<close> without words, whose
  null pointer the code would follow.
\<close>

definition CMP_GetBitsFromCMPInt :: "CMPInt \<Rightarrow> int \<Rightarrow> int \<Rightarrow> CMPStatus + u32 \<times> int" where
  "CMP_GetBitsFromCMPInt x pos count =
     (let bitPtr = pos; count = min count (bitPtr + 1); pos = pos - count;
          wordIndex = nat bitPtr div 32; bitIndex = bitPtr mod 32
      in if bitPtr < 0 \<or> cmp_len x \<le> wordIndex then Inl CMP_OUT_OF_BOUNDS
         else if bitIndex \<ge> count - 1
         then Inr (CMP_GetBitsFromWord (cmp_words x ! wordIndex) bitIndex count, pos)
         else let field = CMP_GetBitsFromWord (cmp_words x ! wordIndex) bitIndex (bitIndex + 1);
                  field = push_bit (nat (count - bitIndex - 1)) field;
                  field = field OR CMP_GetBitsFromWord (cmp_words x ! (wordIndex - 1)) 31 (count - bitIndex - 1)
              in Inr (field, pos))"

text \<open>The loop \<open>while (srcWord > 0) {msb <<= 1; srcWord >>= 1;}\<close>.\<close>

function CMP_msbit_loop :: "u32 \<Rightarrow> u32 \<Rightarrow> u32" where
  "CMP_msbit_loop srcWord msb =
     (if srcWord > 0 then CMP_msbit_loop (drop_bit 1 srcWord) (push_bit 1 msb) else msb)"
  by pat_completeness auto
termination
proof (relation "measure (\<lambda>(srcWord, msb). unat srcWord)")
  fix srcWord msb :: u32
  assume "srcWord > 0"
  then have "0 < unat srcWord" by (simp add: word_greater_zero_iff unat_gt_0)
  then show "((drop_bit 1 srcWord, push_bit 1 msb), (srcWord, msb)) \<in> measure (\<lambda>(srcWord, msb). unat srcWord)"
    unfolding in_measure prod.case unat_drop_bit_eq by (simp add: drop_bit_eq_div)
qed simp

declare CMP_msbit_loop.simps [simp del]

definition CMP_GetMSBitFromWord :: "u32 \<Rightarrow> u32" where
  "CMP_GetMSBitFromWord srcWord = (if srcWord = 0 then 0 else CMP_msbit_loop (drop_bit 1 srcWord) 1)"

definition CMP_ComputeLogOfTableSize :: "int \<Rightarrow> int" where
  "CMP_ComputeLogOfTableSize lengthInBits =
     (if lengthInBits \<ge> 64 then 4 else if lengthInBits \<ge> 16 then 3 else if lengthInBits \<ge> 4 then 2 else 1)"

section \<open>What the bit fields are\<close>

lemma cmp_val_bit: "bit (cmp_val ws) n \<longleftrightarrow> n div 32 < length ws \<and> bit (ws ! (n div 32)) (n mod 32)"
proof (induction ws arbitrary: n)
  case (Cons w ws)
  have "cmp_val (w # ws) = take_bit 32 (unat w) + push_bit 32 (cmp_val ws)"
    using unat_32 [of w] by (simp add: push_bit_eq_mult take_bit_nat_eq_self)
  also have "\<dots> = take_bit 32 (unat w) OR push_bit 32 (cmp_val ws)"
    by (rule disjunctive_add) (auto simp: bit_take_bit_iff bit_push_bit_iff)
  finally have v: "bit (cmp_val (w # ws)) n \<longleftrightarrow> n < 32 \<and> bit w n \<or> 32 \<le> n \<and> bit (cmp_val ws) (n - 32)"
    by (auto simp: bit_or_iff bit_take_bit_iff bit_push_bit_iff bit_unsigned_iff)
  show ?case
  proof (cases "n < 32")
    case True
    with v show ?thesis by simp
  next
    case False
    then have "n div 32 = Suc ((n - 32) div 32)" "n mod 32 = (n - 32) mod 32"
      by (simp_all add: le_div_geq le_mod_geq)
    with False v Cons.IH [of "n - 32"] show ?thesis by simp
  qed
qed simp

lemma bit_GetBitsFromWord:
  assumes "n \<le> pos + 1" and "pos < 32" and "0 \<le> n"
  shows "bit (CMP_GetBitsFromWord w pos n) i \<longleftrightarrow> int i < n \<and> bit w (nat (pos + 1 - n) + i)"
proof -
  have "bit (push_bit (nat n) 0xffffffff :: u32) i \<longleftrightarrow> nat n \<le> i \<and> i < 32"
  proof -
    have e: "(0xffffffff :: u32) = mask 32" by (simp add: mask_eq_exp_minus_1)
    show ?thesis unfolding e by (auto simp: bit_push_bit_iff bit_mask_iff)
  qed
  moreover have "bit w (nat (pos + 1 - n) + i) \<Longrightarrow> nat (pos + 1 - n) + i < 32"
    using bit_imp_le_length [of w] by fastforce
  ultimately show ?thesis
    unfolding CMP_GetBitsFromWord_def using assms
    by (auto simp: bit_and_iff bit_not_iff bit_drop_bit_eq)
qed

lemma cmp_val_bit_at:
  assumes "n = 32 * q + t" and "t < 32" and "q < length ws"
  shows "bit (cmp_val ws) n \<longleftrightarrow> bit (ws ! q) t"
proof -
  have "n div 32 = q" "n mod 32 = t" using assms by simp_all
  with assms(3) show ?thesis by (simp add: cmp_val_bit)
qed

lemma bit_field_eq:
  fixes f :: u32
  assumes "\<And>i. bit f i \<longleftrightarrow> i < l \<and> bit V (s + i)" and "l \<le> 32"
  shows "unat f = V div 2 ^ s mod 2 ^ l"
proof -
  have "unat f = take_bit l (drop_bit s V)"
  proof (rule bit_eqI)
    fix i
    show "bit (unat f) i \<longleftrightarrow> bit (take_bit l (drop_bit s V)) i"
      using assms(1) [of i] bit_imp_le_length [of f i] by (auto simp: bit_unsigned_iff bit_take_bit_iff bit_drop_bit_eq)
  qed
  then show ?thesis by (simp add: drop_bit_eq_div take_bit_eq_mod)
qed

text \<open>A field inside one word, and one that takes its upper bits from the next word.\<close>

lemma bits_in_word:
  assumes l: "0 < l" "l \<le> r + 1" "r < 32" and q: "q < length ws"
  shows "bit (CMP_GetBitsFromWord (ws ! q) (int r) (int l)) i \<longleftrightarrow> i < l \<and> bit (cmp_val ws) (32 * q + (r + 1 - l) + i)"
proof -
  have n: "nat (int r + 1 - int l) = r + 1 - l" using l by linarith
  have b: "bit (CMP_GetBitsFromWord (ws ! q) (int r) (int l)) i \<longleftrightarrow> i < l \<and> bit (ws ! q) (r + 1 - l + i)"
    using bit_GetBitsFromWord [of "int l" "int r" "ws ! q" i] l unfolding n by simp
  show ?thesis
  proof (cases "i < l")
    case True
    then have "r + 1 - l + i < 32" using l by linarith
    from cmp_val_bit_at [OF _ this q, of "32 * q + (r + 1 - l) + i"] b True show ?thesis by simp
  qed (use b in simp)
qed

lemma bits_across_words:
  assumes l: "r + 1 < l" "l < 32" and t_def: "t = l - r - 1" and q: "Suc q < length ws"
  shows "bit (push_bit t (CMP_GetBitsFromWord (ws ! Suc q) (int r) (int r + 1)) OR
      CMP_GetBitsFromWord (ws ! q) 31 (int t)) i \<longleftrightarrow> i < l \<and> bit (cmp_val ws) (32 * q + (32 - t) + i)"
proof -
  have t: "0 < t" "t \<le> 31" "l = t + r + 1" using l by (simp_all add: t_def)
  have a: "bit (CMP_GetBitsFromWord (ws ! Suc q) (int r) (int r + 1)) j \<longleftrightarrow> j < r + 1 \<and> bit (cmp_val ws) (32 * Suc q + j)" for j
    using bits_in_word [of "r + 1" r "Suc q" ws j] l q by (simp add: add.commute)
  have b: "bit (CMP_GetBitsFromWord (ws ! q) 31 (int t)) i \<longleftrightarrow> i < t \<and> bit (cmp_val ws) (32 * q + (32 - t) + i)"
    using bits_in_word [of t 31 q ws i] t q by simp
  show ?thesis
  proof (cases "i < t")
    case True
    then show ?thesis using b t by (simp add: bit_or_iff bit_push_bit_iff)
  next
    case False
    then have "32 * Suc q + (i - t) = 32 * q + (32 - t) + i" using t(2) by simp
    moreover have "i - t < r + 1 \<longleftrightarrow> i < l" using False t(3) by auto
    moreover have "i < 32 \<or> \<not> i < l" using l by linarith
    ultimately show ?thesis using False a [of "i - t"] b by (auto simp: bit_or_iff bit_push_bit_iff)
  qed
qed

lemma CMP_GetBitsFromCMPInt_correct:
  assumes ix: "p div 32 < cmp_len x" and c: "0 < count" "count < 32"
  shows "\<exists>field. CMP_GetBitsFromCMPInt x (int p) (int count) = Inr (field, int p - int (min count (p + 1))) \<and>
    unat field = cmp_val (cmp_words x) div 2 ^ (p + 1 - min count (p + 1)) mod 2 ^ min count (p + 1)"
proof -
  define l q r where d: "l = min count (p + 1)" "q = p div 32" "r = p mod 32"
  have p: "p = 32 * q + r" "r < 32" by (simp_all add: d)
  have l: "0 < l" "l < 32" "l \<le> p + 1" using c by (simp_all add: d(1))
  have il: "min (int count) (int p + 1) = int l" by (simp add: d(1))
  have ir: "int p mod 32 = int r" by (simp add: d(3) zmod_int)
  have q: "q < cmp_len x" using ix by (simp add: d(2))
  show ?thesis
  proof (cases "l \<le> r + 1")
    case True
    have s: "p + 1 - l = 32 * q + (r + 1 - l)" using p True by linarith
    have "CMP_GetBitsFromCMPInt x (int p) (int count)
      = Inr (CMP_GetBitsFromWord (cmp_words x ! q) (int r) (int l), int p - int l)"
      using True q by (simp add: CMP_GetBitsFromCMPInt_def Let_def il ir d(2))
    moreover have "unat (CMP_GetBitsFromWord (cmp_words x ! q) (int r) (int l)) = cmp_val (cmp_words x) div 2 ^ (p + 1 - l) mod 2 ^ l"
      unfolding s by (rule bit_field_eq) (use bits_in_word [OF l(1) True p(2) q] l in simp_all)
    ultimately show ?thesis unfolding d(1) [symmetric] by blast
  next
    case False
    then obtain q' where q': "q = Suc q'" using p l(3) by (cases q) simp_all
    let ?f = "push_bit (l - r - 1) (CMP_GetBitsFromWord (cmp_words x ! q) (int r) (int r + 1)) OR
      CMP_GetBitsFromWord (cmp_words x ! q') 31 (int (l - r - 1))"
    have s: "p + 1 - l = 32 * q' + (32 - (l - r - 1))" using p l False q' by linarith
    have t: "int l - int r - 1 = int (l - r - 1)" using False by linarith
    have "CMP_GetBitsFromCMPInt x (int p) (int count) = Inr (?f, int p - int l)"
      using False q t by (simp add: CMP_GetBitsFromCMPInt_def Let_def il ir d(2) [symmetric] q' del: of_nat_diff)
    moreover have "unat ?f = cmp_val (cmp_words x) div 2 ^ (p + 1 - l) mod 2 ^ l"
      unfolding s q' by (rule bit_field_eq) (use bits_across_words [of r l _ q' "cmp_words x"] False l q q' in simp_all)
    ultimately show ?thesis unfolding d(1) [symmetric] by blast
  qed
qed

section \<open>The table of powers\<close>

text \<open>\<open>expExists\<close> and \<open>expTab\<close>: entry \<open>i\<close> is the power \<open>i\<close> of the base, if its flag is set.\<close>

type_synonym exp_table = "bool list \<times> CMPInt list"

text \<open>
  One Montgomery product of two entries into a third, which must be none of them: \<open>CMP_MontProduct\<close>
  clears its result first.
\<close>

definition CMP_table_product :: "(nat \<Rightarrow> bool) \<Rightarrow> CMPInt \<Rightarrow> u32 \<Rightarrow> CMPInt list \<Rightarrow> nat \<Rightarrow> nat \<Rightarrow> nat \<Rightarrow> CMPStatus + CMPInt list" where
  "CMP_table_product mem n n0Prime expTab i j k =
     (if i < length expTab \<and> j < length expTab \<and> k < length expTab \<and> k \<noteq> i \<and> k \<noteq> j
      then on_success (CMP_MontProduct mem (expTab ! i) (expTab ! j) n n0Prime (expTab ! k)) (\<lambda>z. Inr (expTab[k := z]))
      else Inl CMP_OUT_OF_BOUNDS)"

text \<open>The loop \<open>for (i = 1; i < logSize; ++i)\<close>, in which \<open>expo\<close> is doubled.\<close>

fun CMP_init_squares :: "(nat \<Rightarrow> bool) \<Rightarrow> CMPInt \<Rightarrow> u32 \<Rightarrow> nat \<Rightarrow> u32 \<Rightarrow> exp_table \<Rightarrow> CMPStatus + exp_table" where
  "CMP_init_squares mem n n0Prime 0 expo tab = Inr tab"
| "CMP_init_squares mem n n0Prime (Suc k) expo (expExists, expTab) =
     (let expo = push_bit 1 expo
      in if unat expo < length expTab
         then on_success (CMP_MontSquare mem (expTab ! unat (expo div 2)) n n0Prime (expTab ! unat expo)) (\<lambda>z.
                CMP_init_squares mem n n0Prime k expo (expExists[unat expo := True], expTab[unat expo := z]))
         else Inl CMP_OUT_OF_BOUNDS)"

text \<open>An \<open>int\<close> takes one word of 4 bytes, a \<open>CMPInt\<close> three. \<open>None\<close> is the null pointer.\<close>

definition CMP_InitExponentTable ::
  "(nat \<Rightarrow> bool) \<Rightarrow> nat \<Rightarrow> CMPInt \<Rightarrow> u32 \<Rightarrow> CMPInt \<Rightarrow> bool list option \<Rightarrow> CMPInt list option \<Rightarrow> CMPStatus + CMPInt \<times> exp_table" where
  "CMP_InitExponentTable mem logSize n n0Prime base expExists expTab =
     (if expExists \<noteq> None \<or> expTab \<noteq> None then Inl CMP_INVALID_ARGUMENT
      else let tableSize = 2 ^ logSize
      in if \<not> mem tableSize then Inl CMP_MEMORY
      else if \<not> mem (3 * tableSize) then Inl CMP_MEMORY
      else let expExists = replicate tableSize False;
               expTab = replicate tableSize CMP_Constructor
      in on_success (CMP_reallocNoCopy mem 1 CMP_Constructor) (\<lambda>unit.
         let unit = unit\<lparr>cmp_words := [1]\<rparr>
         in on_success (CMP_ConvertToMont mem unit n (expTab ! 0)) (\<lambda>(n, one).
            let expTab = expTab[0 := one]; expExists = expExists[0 := True]
            in on_success (CMP_ConvertToMont mem base n (expTab ! 1)) (\<lambda>(n, b).
               let expTab = expTab[1 := b]; expExists = expExists[1 := True]
               in on_success (CMP_init_squares mem n n0Prime (logSize - 1) 1 (expExists, expTab)) (\<lambda>tab.
                    Inr (n, tab))))))"

text \<open>The search for a cofactor, from \<open>lowerLim\<close> to half of \<open>pow\<close>.\<close>

definition CMP_find_cofactor :: "bool list \<Rightarrow> nat \<Rightarrow> nat \<Rightarrow> nat option" where
  "CMP_find_cofactor expExists pow lowerLim =
     find (\<lambda>i. expExists ! i \<and> expExists ! (pow - i)) [lowerLim..<pow div 2 + 1]"

lemma CMP_msbit_loop_val:
  "unat s < 2 ^ k \<Longrightarrow> k = 0 \<or> 2 ^ (k - 1) \<le> unat s \<Longrightarrow> CMP_msbit_loop s m = push_bit k m"
proof (induction k arbitrary: s m)
  case 0
  then have "s = 0" by (simp add: unat_eq_0)
  then show ?case by (subst CMP_msbit_loop.simps) simp
next
  case (Suc k)
  have h: "unat (drop_bit 1 s) = unat s div 2" unfolding unat_drop_bit_eq by (simp add: drop_bit_eq_div)
  have "2 ^ k \<le> unat s" using Suc.prems(2) by simp
  then have "0 < unat s" using zero_less_power [of "2 :: nat" k] by linarith
  then have "s > 0" by (simp add: word_greater_zero_iff unat_gt_0)
  moreover have "CMP_msbit_loop (drop_bit 1 s) (push_bit 1 m) = push_bit k (push_bit 1 m)"
  proof (rule Suc.IH)
    show "unat (drop_bit 1 s) < 2 ^ k" using Suc.prems(1) unfolding h by simp
    show "k = 0 \<or> 2 ^ (k - 1) \<le> unat (drop_bit 1 s)"
      using \<open>2 ^ k \<le> unat s\<close> unfolding h by (cases k) (simp_all add: less_eq_div_iff_mult_less_eq mult.commute)
  qed
  ultimately show ?case by (subst CMP_msbit_loop.simps) simp
qed

lemma CMP_GetMSBitFromWord_val:
  assumes "w \<noteq> 0"
  shows "\<exists>k < 32. CMP_GetMSBitFromWord w = push_bit k 1 \<and> 2 ^ k \<le> unat w \<and> unat w < 2 ^ Suc k"
proof -
  have "1 \<le> unat w" using assms by (simp add: Suc_le_eq unat_gt_0)
  then obtain k where k: "2 ^ k \<le> unat w" "unat w < 2 ^ (k + 1)" using ex_power_ivl1 [of 2 "unat w"] by auto
  have "k < 32"
  proof (rule ccontr)
    assume "\<not> k < 32"
    then have "(2 :: nat) ^ 32 \<le> 2 ^ k" by (intro power_increasing) simp_all
    with k(1) unat_32 [of w] show False by simp
  qed
  have h: "unat (drop_bit 1 w) = unat w div 2" unfolding unat_drop_bit_eq by (simp add: drop_bit_eq_div)
  have "CMP_msbit_loop (drop_bit 1 w) 1 = push_bit k 1"
  proof (rule CMP_msbit_loop_val)
    show "unat (drop_bit 1 w) < 2 ^ k" using k(2) unfolding h by simp
    show "k = 0 \<or> 2 ^ (k - 1) \<le> unat (drop_bit 1 w)"
      using k(1) unfolding h by (cases k) (simp_all add: less_eq_div_iff_mult_less_eq mult.commute)
  qed
  with assms k \<open>k < 32\<close> show ?thesis by (auto simp: CMP_GetMSBitFromWord_def)
qed

lemma unat_or_disjoint:
  assumes "a AND b = (0 :: u32)"
  shows "unat (a OR b) = unat a + unat b"
proof -
  have "\<not> bit a n \<or> \<not> bit b n" for n using arg_cong [OF assms, of "\<lambda>w. bit w n"] by (simp add: bit_and_iff)
  then have "unat a + unat b = unat a OR unat b"
    by (intro disjunctive_add) (auto simp: bit_unsigned_iff)
  then show ?thesis by (simp add: unsigned_or_eq)
qed

text \<open>Taking the most significant bit off a number, and adding it to bits that were taken off before.\<close>

lemma CMP_msbit_split:
  fixes pow :: u32
  assumes k: "k < 32" "2 ^ k \<le> unat pow" "unat pow < 2 ^ Suc k"
  shows "unat (pow AND NOT (push_bit k 1)) = unat pow - 2 ^ k"
    and "upper AND pow = 0 \<Longrightarrow> (upper OR push_bit k 1) AND (pow AND NOT (push_bit k 1)) = 0"
    and "upper AND pow = 0 \<Longrightarrow> unat (upper OR push_bit k 1) = unat upper + 2 ^ k"
proof -
  have d: "unat pow div 2 ^ k = 1" using k by (intro div_nat_eqI) simp_all
  have b: "bit pow k"
  proof -
    have "bit (unat pow) k" using d by (simp add: bit_iff_odd)
    then show ?thesis by (simp add: bit_unsigned_iff)
  qed
  have bm: "bit (push_bit k 1 :: u32) n \<longleftrightarrow> n = k" for n
    unfolding bit_push_bit_iff using k(1) by (auto simp: bit_1_iff)
  let ?m = "push_bit k 1 :: u32"
  have um: "unat ?m = 2 ^ k" by (rule unat_power_two [OF k(1)])
  have "pow = (pow AND NOT ?m) OR ?m"
    by (rule bit_word_eqI) (use b bm in \<open>auto simp: bit_or_iff bit_and_iff bit_not_iff\<close>)
  moreover have "(pow AND NOT ?m) AND ?m = 0"
    by (rule bit_word_eqI) (use bm in \<open>auto simp: bit_and_iff bit_not_iff\<close>)
  ultimately have "unat pow = unat (pow AND NOT ?m) + unat ?m" using unat_or_disjoint by metis
  with um show "unat (pow AND NOT ?m) = unat pow - 2 ^ k" by simp
  assume z: "upper AND pow = 0"
  then have nb: "\<not> (bit upper n \<and> bit pow n)" for n
    unfolding bit_and_iff [symmetric] z by simp
  show "(upper OR ?m) AND (pow AND NOT ?m) = 0"
    by (rule bit_word_eqI) (use nb bm in \<open>auto simp: bit_or_iff bit_and_iff bit_not_iff\<close>)
  have "upper AND ?m = 0"
    by (rule bit_word_eqI) (use nb b bm in \<open>auto simp: bit_and_iff\<close>)
  then show "unat (upper OR ?m) = unat upper + 2 ^ k" using unat_or_disjoint um by metis
qed

text \<open>
  \<open>CMP_GenerateNewExponent\<close>: \<open>pow\<close> runs over what is left of the exponent when its upper bits
  \<open>upperExp\<close> are taken off; the loop ends because \<open>pow\<close> gets smaller.
\<close>

function CMP_generate_loop ::
  "(nat \<Rightarrow> bool) \<Rightarrow> CMPInt \<Rightarrow> u32 \<Rightarrow> u32 \<Rightarrow> nat \<Rightarrow> u32 \<Rightarrow> u32 \<Rightarrow> exp_table \<Rightarrow> CMPStatus + exp_table" where
  "CMP_generate_loop mem n n0Prime expo lowerLim pow upperExp (expExists, expTab) =
     (if pow > 0
      then let msb = CMP_GetMSBitFromWord pow
           in case CMP_find_cofactor expExists (unat pow) lowerLim of
             Some i \<Rightarrow>
               let expExists = expExists[unat pow := True]
               in if pow = expo
                  then on_success (CMP_table_product mem n n0Prime expTab i (unat pow - i) (unat expo))
                         (\<lambda>expTab. Inr (expExists, expTab))
                  else on_success (CMP_table_product mem n n0Prime expTab i (unat pow - i) (unat pow)) (\<lambda>expTab.
                       on_success (CMP_table_product mem n n0Prime expTab (unat pow) (unat upperExp) (unat expo))
                         (\<lambda>expTab. Inr (expExists, expTab)))
           | None \<Rightarrow>
               on_success
                 (if pow \<noteq> expo \<and> \<not> expExists ! unat (upperExp OR msb)
                  then on_success (CMP_table_product mem n n0Prime expTab (unat msb) (unat upperExp) (unat (upperExp OR msb)))
                         (\<lambda>expTab. Inr (expExists[unat (upperExp OR msb) := True], expTab))
                  else Inr (expExists, expTab))
                 (CMP_generate_loop mem n n0Prime expo 0 (pow AND NOT msb) (upperExp OR msb))
      else Inr (expExists, expTab))"
  by pat_completeness auto
termination
proof (relation "measure (\<lambda>(mem, n, n0Prime, expo, lowerLim, pow, upperExp, tab). unat pow)", simp)
  fix pow msb :: u32
  assume "pow > 0" and m: "msb = CMP_GetMSBitFromWord pow"
  then have "pow \<noteq> 0" by simp
  then obtain k where k: "k < 32" "msb = push_bit k 1" "2 ^ k \<le> unat pow" "unat pow < 2 ^ Suc k"
    using CMP_GetMSBitFromWord_val m by blast
  have "unat (pow AND NOT msb) < unat pow"
  proof -
    have "(0 :: nat) < 2 ^ k" by simp
    then show ?thesis using k(3) unfolding k(2) CMP_msbit_split(1) [OF k(1,3,4)] by linarith
  qed
  then show "((mem, n, n0Prime, expo, 0, pow AND NOT msb, upperExp OR msb, x),
        (mem, n, n0Prime, expo, lowerLim, pow, upperExp, (expExists, expTab)))
      \<in> measure (\<lambda>(mem, n, n0Prime, expo, lowerLim, pow, upperExp, tab). unat pow)" for
      mem n n0Prime expo upperExp x mem' lowerLim expExists expTab by simp
qed

declare CMP_generate_loop.simps [simp del]

definition CMP_GenerateNewExponent ::
  "(nat \<Rightarrow> bool) \<Rightarrow> CMPInt \<Rightarrow> u32 \<Rightarrow> u32 \<Rightarrow> exp_table \<Rightarrow> CMPStatus + exp_table" where
  "CMP_GenerateNewExponent mem n n0Prime expo = (\<lambda>(expExists, expTab).
     if unat expo < length expExists
     then CMP_generate_loop mem n n0Prime expo 1 expo 0 (expExists[unat expo := True], expTab)
     else Inl CMP_OUT_OF_BOUNDS)"

text \<open>The table holds powers of \<open>b\<close>, among them the powers 0 and 2, 4, 8 below its size.\<close>

fun exp_table_ok :: "CMPInt \<Rightarrow> nat \<Rightarrow> nat \<Rightarrow> exp_table \<Rightarrow> bool" where
  "exp_table_ok m b L (ex, tab) \<longleftrightarrow> length ex = 2 ^ L \<and> length tab = 2 ^ L \<and>
     (\<forall>i < 2 ^ L. ex ! i \<longrightarrow> mont_rep m (tab ! i) (b ^ i)) \<and> ex ! 0 \<and> (\<forall>j < L. ex ! (2 ^ j))"

lemma CMP_find_cofactor_Some:
  assumes "CMP_find_cofactor ex pow lo = Some i"
  shows "lo \<le> i" and "i \<le> pow div 2" and "ex ! i" and "ex ! (pow - i)"
proof -
  obtain n where n: "n < length [lo..<pow div 2 + 1]" "ex ! i \<and> ex ! (pow - i)" "i = [lo..<pow div 2 + 1] ! n"
    using assms unfolding CMP_find_cofactor_def find_Some_iff by blast
  then have "i \<in> set [lo..<pow div 2 + 1]" using nth_mem by blast
  with n(2) show "lo \<le> i" "i \<le> pow div 2" "ex ! i" "ex ! (pow - i)" by auto
qed

lemma CMP_find_cofactor_None:
  "CMP_find_cofactor ex pow lo = None \<Longrightarrow> lo \<le> i \<Longrightarrow> i \<le> pow div 2 \<Longrightarrow> ex ! i \<Longrightarrow> \<not> ex ! (pow - i)"
  by (auto simp: CMP_find_cofactor_def find_None_iff)

lemma CMP_table_product_correct:
  assumes mem: "\<And>n. mem n" and m: "mont_modulus m c"
    and ix: "i < length tab" "j < length tab" "k < length tab" "k \<noteq> i" "k \<noteq> j" and e: "e = i + j"
    and rep: "mont_rep m (tab ! i) (b ^ i)" "mont_rep m (tab ! j) (b ^ j)"
  shows "\<exists>z. CMP_table_product mem m c tab i j k = Inr (tab[k := z]) \<and> mont_rep m z (b ^ e)"
proof -
  obtain z where "CMP_MontProduct mem (tab ! i) (tab ! j) m c (tab ! k) = Inr z" "mont_rep m z (b ^ i * b ^ j)"
    using CMP_MontProduct_rep [of mem m c "tab ! i" _ "tab ! j" _ "tab ! k", OF mem m rep] by blast
  with ix e show ?thesis by (auto simp: CMP_table_product_def power_add intro!: exI [of _ z])
qed

text \<open>The state of the search: \<open>e\<close> is flagged already, but its entry is not yet there.\<close>

fun generating :: "CMPInt \<Rightarrow> nat \<Rightarrow> nat \<Rightarrow> u32 \<Rightarrow> nat \<Rightarrow> u32 \<Rightarrow> u32 \<Rightarrow> exp_table \<Rightarrow> bool" where
  "generating m b L expo lo pow upper (ex, tab) \<longleftrightarrow>
     length ex = 2 ^ L \<and> length tab = 2 ^ L \<and> unat expo < 2 ^ L \<and> expo \<noteq> 0 \<and>
     (\<forall>i < 2 ^ L. i \<noteq> unat expo \<longrightarrow> ex ! i \<longrightarrow> mont_rep m (tab ! i) (b ^ i)) \<and>
     ex ! 0 \<and> (\<forall>j < L. ex ! (2 ^ j) \<and> 2 ^ j \<noteq> unat expo) \<and> ex ! unat expo \<and>
     upper AND pow = 0 \<and> unat upper + unat pow = unat expo \<and> pow \<noteq> 0 \<and>
     (pow = expo \<and> lo = 1 \<and> upper = 0 \<or> unat pow < unat expo \<and> lo = 0 \<and> \<not> ex ! unat pow \<and> ex ! unat upper)"

lemma generating_entry:
  "generating m b L expo lo pow upper (ex, tab) \<Longrightarrow> i < 2 ^ L \<Longrightarrow> i \<noteq> unat expo \<Longrightarrow> ex ! i \<Longrightarrow> mont_rep m (tab ! i) (b ^ i)"
  by simp

lemma exp_table_ok_update:
  assumes "length ex = 2 ^ L" and "length tab = 2 ^ L" and "ex ! 0" and "\<forall>j < L. ex ! (2 ^ j)"
    and "\<And>i. i < 2 ^ L \<Longrightarrow> i \<noteq> k \<Longrightarrow> ex ! i \<Longrightarrow> mont_rep m (tab ! i) (b ^ i)" and "mont_rep m z (b ^ k)"
  shows "exp_table_ok m b L (ex, tab[k := z])"
proof -
  have "mont_rep m (tab[k := z] ! i) (b ^ i)" if "i < 2 ^ L" "ex ! i" for i
    by (cases "i = k") (use that assms in simp_all)
  with assms show ?thesis by simp
qed

text \<open>A cofactor is found: the entry of \<open>e\<close> is made in one or two multiplications.\<close>

lemma CMP_generate_hit:
  assumes mem: "\<And>n. mem n" and m: "mont_modulus m c" and g: "generating m b L expo lo pow upper (ex, tab)"
    and hit: "CMP_find_cofactor ex (unat pow) lo = Some i"
  shows "\<exists>ex' tab'. CMP_generate_loop mem m c expo lo pow upper (ex, tab) = Inr (ex', tab') \<and>
    exp_table_ok m b L (ex', tab') \<and> ex' ! unat expo"
proof -
  let ?e = "unat expo" and ?p = "unat pow" and ?u = "unat upper"
  note f = CMP_find_cofactor_Some [OF hit]
  have len: "length ex = 2 ^ L" "length tab = 2 ^ L" "?e < 2 ^ L" and flags: "ex ! 0" "\<forall>j < L. ex ! (2 ^ j)" "ex ! ?e"
    and up: "?u + ?p = ?e" and p: "0 < ?p" "pow > 0" using g by (auto simp: unat_gt_0 word_greater_zero_iff)
  have i: "0 < i" "i < ?p" "?p - i < ?p"
  proof -
    have "i \<noteq> 0"
    proof
      assume "i = 0"
      with f(1,4) have "lo = 0" "ex ! ?p" by simp_all
      with g show False by simp
    qed
    then show "0 < i" "i < ?p" "?p - i < ?p" using f(2) p(1) by auto
  qed
  have pe: "?p \<le> ?e" using up by simp
  have reps: "mont_rep m (tab ! i) (b ^ i)" "mont_rep m (tab ! (?p - i)) (b ^ (?p - i))"
    using i pe len f(3,4) by (auto intro!: generating_entry [OF g])
  show ?thesis
  proof (cases "pow = expo")
    case True
    have ix: "i < length tab" "?p - i < length tab" "?e < length tab" "?e \<noteq> i" "?e \<noteq> ?p - i" "?e = i + (?p - i)"
      using i len pe True by simp_all
    obtain z where z: "CMP_table_product mem m c tab i (?p - i) ?e = Inr (tab[?e := z])" "mont_rep m z (b ^ ?e)"
      using CMP_table_product_correct [of mem m c i tab "?p - i" ?e ?e b, OF mem m ix reps] by blast
    have "exp_table_ok m b L (ex[?p := True], tab[?e := z])"
      by (rule exp_table_ok_update) (use len flags z True generating_entry [OF g] in \<open>auto simp: nth_list_update\<close>)
    moreover have "ex[?p := True] ! ?e" using len True by simp
    ultimately show ?thesis using True p(2) hit z(1) by (subst CMP_generate_loop.simps) simp
  next
    case False
    have lt: "?p < ?e" and nex: "\<not> ex ! ?p" and uex: "ex ! ?u" using g False by auto
    have u: "0 < ?u" "?u < ?e" using lt up p(1) by linarith+
    have ix: "i < length tab" "?p - i < length tab" "?p < length tab" "?p \<noteq> i" "?p \<noteq> ?p - i" "?p = i + (?p - i)"
      using i len pe by simp_all
    obtain y where y: "CMP_table_product mem m c tab i (?p - i) ?p = Inr (tab[?p := y])" "mont_rep m y (b ^ ?p)"
      using CMP_table_product_correct [of mem m c i tab "?p - i" ?p ?p b, OF mem m ix reps] by blast
    let ?t = "tab[?p := y]"
    have "?u \<noteq> ?p" using nex uex by auto
    then have r: "mont_rep m (?t ! ?p) (b ^ ?p)" "mont_rep m (?t ! ?u) (b ^ ?u)"
      using y(2) lt len u uex generating_entry [OF g, of ?u] by simp_all
    have ix: "?p < length ?t" "?u < length ?t" "?e < length ?t" "?e \<noteq> ?p" "?e \<noteq> ?u" "?e = ?p + ?u"
      using lt u len up by simp_all
    obtain z where z: "CMP_table_product mem m c ?t ?p ?u ?e = Inr (?t[?e := z])" "mont_rep m z (b ^ ?e)"
      using CMP_table_product_correct [of mem m c ?p ?t ?u ?e ?e b, OF mem m ix r] by blast
    have "exp_table_ok m b L (ex[?p := True], ?t[?e := z])"
      by (rule exp_table_ok_update) (use len flags y z lt generating_entry [OF g] in \<open>auto simp: nth_list_update\<close>)
    moreover have "ex[?p := True] ! ?e" using len flags(3) lt by (simp add: nth_list_update)
    ultimately show ?thesis using False p(2) hit y(1) z(1) by (subst CMP_generate_loop.simps) simp
  qed
qed

text \<open>No cofactor is found: the next smaller \<open>pow\<close> is not zero and has no entry.\<close>

lemma CMP_generate_miss:
  assumes mem: "\<And>n. mem n" and m: "mont_modulus m c" and g: "generating m b L expo lo pow upper (ex, tab)"
    and miss: "CMP_find_cofactor ex (unat pow) lo = None"
  shows "\<exists>ex' tab' pow' upper'. CMP_generate_loop mem m c expo lo pow upper (ex, tab)
      = CMP_generate_loop mem m c expo 0 pow' upper' (ex', tab') \<and>
    generating m b L expo 0 pow' upper' (ex', tab') \<and> unat pow' < unat pow"
proof -
  let ?e = "unat expo" and ?p = "unat pow" and ?u = "unat upper"
  have pnz: "pow \<noteq> 0" and dis: "upper AND pow = 0" and up: "?u + ?p = ?e"
    and len: "length ex = 2 ^ L" "length tab = 2 ^ L" "?e < 2 ^ L" and flags: "ex ! 0" "ex ! ?e"
    and two: "\<And>j. j < L \<Longrightarrow> ex ! (2 ^ j)" "\<And>j. j < L \<Longrightarrow> 2 ^ j \<noteq> ?e" using g by auto
  obtain k where k: "k < 32" "CMP_GetMSBitFromWord pow = push_bit k 1" "2 ^ k \<le> ?p" "?p < 2 ^ Suc k"
    using CMP_GetMSBitFromWord_val [OF pnz] by blast
  define msb pow' upper' where d: "msb = (push_bit k 1 :: u32)" "pow' = pow AND NOT msb" "upper' = upper OR msb"
  note split = CMP_msbit_split [OF k(1,3,4), folded d(1)]
  have um: "unat msb = 2 ^ k" unfolding d(1) by (rule unat_power_two [OF k(1)])
  have up': "unat pow' = ?p - 2 ^ k" "unat upper' = ?u + 2 ^ k" "upper' AND pow' = 0"
    using split(1) split(2,3) [OF dis] by (simp_all add: d(2,3))
  have kL: "k < L"
  proof (rule ccontr)
    assume "\<not> k < L"
    then have "(2 :: nat) ^ L \<le> 2 ^ k" by (intro power_increasing) simp_all
    with k(3) up len(3) show False by linarith
  qed
  have e': "unat upper' + unat pow' = ?e" using up' k(3) up by linarith
  have mult2: "?p < 2 * 2 ^ k" using k(4) by simp
  have p'0: "unat pow' \<noteq> 0"
  proof
    assume "unat pow' = 0"
    then have "?p = 2 ^ k" using up'(1) k(3) by simp
    with two [OF kL] g show False by auto
  qed
  have cof: "?p - unat pow' = 2 ^ k" using up'(1) k(3) by simp
  have small: "unat pow' \<le> ?p div 2" and lt: "unat pow' < ?p"
    using up'(1) mult2 k(3) by (simp_all add: less_eq_div_iff_mult_less_eq)
  have "lo \<le> unat pow'" using g p'0 by auto
  from CMP_find_cofactor_None [OF miss this small] two(1) [OF kL] cof have nex: "\<not> ex ! unat pow'" by auto
  have "2 ^ k \<le> unat upper'" and "unat pow' < 2 ^ k" using up' mult2 by simp_all
  then have ne: "unat upper' \<noteq> unat pow'" "unat upper' \<noteq> ?e" and lt': "unat pow' < ?e" "unat upper' < ?e"
    using e' p'0 by linarith+
  show ?thesis
  proof (cases "pow \<noteq> expo \<and> \<not> ex ! unat upper'")
    case True
    then have "?u \<noteq> 0" "ex ! ?u" using g up by auto
    moreover have "0 < ?p" using pnz by (simp add: unat_gt_0)
    ultimately have s: "?u \<noteq> 0" "?u < ?e" "ex ! ?u" using up by simp_all
    have "mont_rep m (tab ! unat msb) (b ^ unat msb)" "mont_rep m (tab ! ?u) (b ^ ?u)"
      using kL two [OF kL] s len k(3) up um generating_entry [OF g, of "2 ^ k"] generating_entry [OF g, of ?u] by simp_all
    moreover have "unat msb < length tab" "?u < length tab" "unat upper' < length tab"
        "unat upper' \<noteq> unat msb" "unat upper' \<noteq> ?u" "unat upper' = unat msb + ?u"
      using s lt' len up' um k(3) up kL by simp_all
    ultimately obtain z where z: "CMP_table_product mem m c tab (unat msb) ?u (unat upper') = Inr (tab[unat upper' := z])"
      "mont_rep m z (b ^ unat upper')"
      using CMP_table_product_correct [of mem m c "unat msb" tab ?u "unat upper'" "unat upper'" b, OF mem m] by blast
    have "CMP_generate_loop mem m c expo lo pow upper (ex, tab)
      = CMP_generate_loop mem m c expo 0 pow' upper' (ex[unat upper' := True], tab[unat upper' := z])"
      using miss True z(1) pnz unfolding d(3) by (subst CMP_generate_loop.simps) (simp add: k(2) d word_greater_zero_iff Let_def)
    moreover have "generating m b L expo 0 pow' upper' (ex[unat upper' := True], tab[unat upper' := z])"
    proof -
      have "mont_rep m (tab[unat upper' := z] ! i) (b ^ i)"
        if "i < 2 ^ L" "i \<noteq> ?e" "ex[unat upper' := True] ! i" for i
        by (cases "i = unat upper'") (use that z(2) lt' len generating_entry [OF g, of i] in simp_all)
      moreover have "ex[unat upper' := True] ! i" if "ex ! i" for i
        using that lt' len by (cases "i = unat upper'") simp_all
      moreover have "pow' \<noteq> 0" "expo \<noteq> 0" using p'0 g by auto
      moreover have "\<not> ex[unat upper' := True] ! unat pow'" "ex[unat upper' := True] ! unat upper'"
        using nex ne lt' len by simp_all
      ultimately show ?thesis using len flags two lt' up'(3) e' by simp
    qed
    ultimately show ?thesis using lt by blast
  next
    case False
    have uex: "ex ! unat upper'"
    proof (cases "pow = expo")
      case True
      then have "unat upper' = 2 ^ k" using up up'(2) by simp
      with two(1) [OF kL] show ?thesis by simp
    qed (use False in simp)
    have "CMP_generate_loop mem m c expo lo pow upper (ex, tab) = CMP_generate_loop mem m c expo 0 pow' upper' (ex, tab)"
      using miss False pnz unfolding d(3) by (subst CMP_generate_loop.simps) (auto simp: k(2) d word_greater_zero_iff Let_def)
    moreover have "generating m b L expo 0 pow' upper' (ex, tab)"
      using g nex uex lt' up'(3) e' p'0 by auto
    ultimately show ?thesis using lt by blast
  qed
qed

lemma CMP_generate_loop_correct:
  assumes mem: "\<And>n. mem n" and m: "mont_modulus m c"
  shows "generating m b L expo lo pow upper (ex, tab) \<Longrightarrow>
    \<exists>ex' tab'. CMP_generate_loop mem m c expo lo pow upper (ex, tab) = Inr (ex', tab') \<and>
      exp_table_ok m b L (ex', tab') \<and> ex' ! unat expo"
proof (induction "unat pow" arbitrary: lo pow upper ex tab rule: less_induct)
  case less
  show ?case
  proof (cases "CMP_find_cofactor ex (unat pow) lo")
    case None
    obtain ex' tab' pow' upper' where s: "CMP_generate_loop mem m c expo lo pow upper (ex, tab)
        = CMP_generate_loop mem m c expo 0 pow' upper' (ex', tab')"
      "generating m b L expo 0 pow' upper' (ex', tab')" "unat pow' < unat pow"
      using CMP_generate_miss [of mem m c b L expo lo pow upper ex tab, OF mem m less.prems None] by blast
    from less.hyps [OF s(3,2)] s(1) show ?thesis by simp
  next
    case (Some i)
    from CMP_generate_hit [of mem m c b L expo lo pow upper ex tab i, OF mem m less.prems Some] show ?thesis .
  qed
qed

text \<open>An entry that is missing is made, whatever is in the table: the loop never runs out.\<close>

lemma CMP_GenerateNewExponent_correct:
  assumes mem: "\<And>n. mem n" and m: "mont_modulus m c" and t: "exp_table_ok m b L (ex, tab)"
    and e: "unat expo < 2 ^ L" "\<not> ex ! unat expo"
  shows "\<exists>ex' tab'. CMP_GenerateNewExponent mem m c expo (ex, tab) = Inr (ex', tab') \<and>
    exp_table_ok m b L (ex', tab') \<and> ex' ! unat expo"
proof -
  let ?e = "unat expo"
  have two: "2 ^ j \<noteq> ?e" if "j < L" for j using t e(2) that by auto
  have e0: "expo \<noteq> 0" using t e(2) by auto
  have "generating m b L expo 1 expo 0 (ex[?e := True], tab)"
    using t e two e0 by (auto simp: nth_list_update)
  from CMP_generate_loop_correct [of mem m c, OF mem m this] t e(1) show ?thesis
    by (simp add: CMP_GenerateNewExponent_def)
qed

section \<open>The exponentiation\<close>

text \<open>The loop of squarings, and the entry of the table for a window.\<close>

fun CMP_square_times :: "(nat \<Rightarrow> bool) \<Rightarrow> CMPInt \<Rightarrow> u32 \<Rightarrow> nat \<Rightarrow> CMPInt \<times> CMPInt \<Rightarrow> CMPStatus + CMPInt \<times> CMPInt" where
  "CMP_square_times mem modulus n0Prime 0 st = Inr st"
| "CMP_square_times mem modulus n0Prime (Suc i) (tmp, result) =
     on_success (CMP_MontSquare mem result modulus n0Prime tmp) (\<lambda>tmp.
     on_success (CMP_Move mem tmp result) (\<lambda>result.
       CMP_square_times mem modulus n0Prime i (tmp, result)))"

definition CMP_exp_entry :: "(nat \<Rightarrow> bool) \<Rightarrow> CMPInt \<Rightarrow> u32 \<Rightarrow> u32 \<Rightarrow> exp_table \<Rightarrow> CMPStatus + exp_table" where
  "CMP_exp_entry mem modulus n0Prime pow tab =
     (if \<not> fst tab ! unat pow then CMP_GenerateNewExponent mem modulus n0Prime pow tab else Inr tab)"

text \<open>The loop \<open>while (bitIndex >= 0)\<close>, with \<open>tmp\<close> and \<open>result\<close>.\<close>

partial_function (option) CMP_exp_loop ::
  "(nat \<Rightarrow> bool) \<Rightarrow> CMPInt \<Rightarrow> CMPInt \<Rightarrow> u32 \<Rightarrow> int \<Rightarrow> int \<Rightarrow> exp_table \<Rightarrow> CMPInt \<Rightarrow> CMPInt \<Rightarrow>
   (CMPStatus + CMPInt \<times> CMPInt) option" where
  "CMP_exp_loop mem exponent modulus n0Prime unroll bitIndex tab tmp result =
     (if bitIndex \<ge> 0
      then (case CMP_square_times mem modulus n0Prime (nat (min unroll (bitIndex + 1))) (tmp, result) of
              Inl e \<Rightarrow> Some (Inl e)
            | Inr (tmp, result) \<Rightarrow>
                (case CMP_GetBitsFromCMPInt exponent bitIndex unroll of
                   Inl e \<Rightarrow> Some (Inl e)
                 | Inr (pow, bitIndex) \<Rightarrow>
                     if pow = 0
                     then CMP_exp_loop mem exponent modulus n0Prime unroll bitIndex tab tmp result
                     else (case CMP_exp_entry mem modulus n0Prime pow tab of
                             Inl e \<Rightarrow> Some (Inl e)
                           | Inr tab \<Rightarrow>
                               (case on_success (CMP_MontProduct mem (snd tab ! unat pow) result modulus n0Prime tmp)
                                       (\<lambda>tmp. on_success (CMP_Move mem tmp result) (\<lambda>result. Inr (tmp, result))) of
                                  Inl e \<Rightarrow> Some (Inl e)
                                | Inr (tmp, result) \<Rightarrow>
                                    CMP_exp_loop mem exponent modulus n0Prime unroll bitIndex tab tmp result))))
      else Some (Inr (tmp, result)))"

declare CMP_exp_loop.simps [code]

definition CMP_ModExp ::
  "(nat \<Rightarrow> bool) \<Rightarrow> CMPInt \<Rightarrow> CMPInt \<Rightarrow> CMPInt \<Rightarrow> CMPInt \<Rightarrow> CMPStatus + CMPInt \<times> CMPInt" where
  "CMP_ModExp mem base exponent modulus result =
     on_success (CMP_ComputeMontCoeff modulus) (\<lambda>n0Prime.
       let bitIndex = int (CMP_BitLengthOfCMPInt exponent);
           unroll = CMP_ComputeLogOfTableSize bitIndex;
           bitIndex = bitIndex - 1
       in on_success (CMP_InitExponentTable mem (nat unroll) modulus n0Prime base None None) (\<lambda>(modulus, tab).
          on_success (CMP_GetBitsFromCMPInt exponent bitIndex unroll) (\<lambda>(pow, bitIndex).
          on_success (CMP_exp_entry mem modulus n0Prime pow tab) (\<lambda>tab.
          on_success (CMP_Move mem (snd tab ! unat pow) result) (\<lambda>result.
          on_success (case CMP_exp_loop mem exponent modulus n0Prime unroll bitIndex tab CMP_Constructor result of
                        None \<Rightarrow> Inl CMP_NO_RETURN | Some r \<Rightarrow> r) (\<lambda>(tmp, result).
          on_success (CMP_ConvertFromMont mem result modulus n0Prime tmp) (\<lambda>tmp.
          on_success (CMP_Move mem tmp result) (\<lambda>result. Inr (modulus, result)))))))))"

text \<open>\<open>result\<close> holds the intermediate numbers; the primes come back with it.\<close>

definition CMP_ModExpCRT ::
  "(nat \<Rightarrow> bool) \<Rightarrow> CMPInt \<Rightarrow> CMPInt \<Rightarrow> CMPInt \<Rightarrow> CMPInt \<Rightarrow> CMPInt \<Rightarrow> CMPInt \<Rightarrow> CMPInt \<Rightarrow>
   CMPStatus + CMPInt \<times> CMPInt \<times> CMPInt \<times> CMPInt" where
  "CMP_ModExpCRT mem base primeP primeQ exponentP exponentQ crtCoeff result =
     on_success (CMP_ModularReduce mem base primeP result) (\<lambda>(base, primeP, result).
     on_success (CMP_ModExp mem result exponentP primeP CMP_Constructor) (\<lambda>(primeP, temp).
     on_success (CMP_ModularReduce mem base primeQ result) (\<lambda>(base, primeQ, result).
     on_success (CMP_ModExp mem result exponentQ primeQ CMP_Constructor) (\<lambda>(primeQ, resultQ).
     on_success (CMP_ModSubtract mem temp resultQ primeP result) (\<lambda>(primeP, result).
     on_success (CMP_ModMultiply mem result crtCoeff primeP temp) (\<lambda>(primeP, temp).
     on_success (CMP_Multiply mem temp primeQ result) (\<lambda>result.
     on_success (CMP_AddInPlace mem resultQ result) (\<lambda>result.
       Inr (base, primeP, primeQ, result)))))))))"

section \<open>The bit length\<close>

lemma CMP_bits_loop_val: "unat w < 2 ^ CMP_bits_loop w \<and> (w \<noteq> 0 \<longrightarrow> 2 ^ (CMP_bits_loop w - 1) \<le> unat w \<and> 0 < CMP_bits_loop w)"
proof (induction w rule: CMP_bits_loop.induct)
  case (1 w)
  have h: "unat (drop_bit 1 w) = unat w div 2" unfolding unat_drop_bit_eq by (simp add: drop_bit_eq_div)
  show ?case
  proof (cases "w > 0")
    case True
    let ?k = "CMP_bits_loop (drop_bit 1 w)"
    have s: "CMP_bits_loop w = ?k + 1" using True by (subst CMP_bits_loop.simps) simp
    have ih: "unat w div 2 < 2 ^ ?k" "drop_bit 1 w \<noteq> 0 \<longrightarrow> 2 ^ (?k - 1) \<le> unat w div 2 \<and> 0 < ?k"
      using "1.IH" [OF True] unfolding h by auto
    have "2 ^ ?k \<le> unat w"
    proof (cases "drop_bit 1 w = 0")
      case z: True
      then have "?k = 0" by (subst CMP_bits_loop.simps) simp
      then show ?thesis using True by (simp add: word_greater_zero_iff unat_gt_0 Suc_le_eq)
    next
      case False
      then obtain j where "?k = Suc j" using ih(2) by (cases ?k) auto
      then show ?thesis using ih(2) False by simp
    qed
    then show ?thesis unfolding s using ih(1) by simp
  next
    case False
    then have "w = 0" by (simp add: word_greater_zero_iff)
    then show ?thesis by (simp add: CMP_bits_loop.simps)
  qed
qed

lemma CMP_BitLength_bounds:
  assumes "cmp_ok x"
  shows "cmp_val (cmp_words x) < 2 ^ CMP_BitLengthOfCMPInt x" and "0 < CMP_BitLengthOfCMPInt x"
    and "(CMP_BitLengthOfCMPInt x - 1) div 32 < cmp_len x"
    and "cmp_val (cmp_words x) \<noteq> 0 \<Longrightarrow> 2 ^ (CMP_BitLengthOfCMPInt x - 1) \<le> cmp_val (cmp_words x)"
proof -
  let ?ws = "cmp_words x"
  have ne: "?ws \<noteq> []" and n: "cmp_normal ?ws" using assms by (auto simp: cmp_ok_def cmp_normal_def)
  then have "0 < cmp_len x" by simp
  then have s: "cmp_space x \<noteq> 0" using assms unfolding cmp_ok_def by linarith
  let ?w = "last ?ws" and ?i = "cmp_len x - 1"
  define k where "k = CMP_bits_loop (drop_bit 1 ?w)"
  have h: "unat (drop_bit 1 ?w) = unat ?w div 2" unfolding unat_drop_bit_eq by (simp add: drop_bit_eq_div)
  have len: "CMP_BitLengthOfCMPInt x = ?i * 32 + (1 + k)"
    using s ne by (simp add: CMP_BitLengthOfCMPInt_def k_def last_conv_nth Let_def)
  have "unat ?w div 2 < 2 ^ k" using CMP_bits_loop_val [of "drop_bit 1 ?w"] unfolding h k_def by blast
  then have w: "unat ?w < 2 ^ (1 + k)" by simp
  have lo: "2 ^ k \<le> unat ?w" if "?w \<noteq> 0"
  proof (cases "drop_bit 1 ?w = 0")
    case True
    then have "k = 0" unfolding k_def by (subst CMP_bits_loop.simps) simp
    then show ?thesis using that by (simp add: unat_gt_0 Suc_le_eq)
  next
    case False
    then have "2 ^ (k - 1) \<le> unat ?w div 2" "0 < k"
      using CMP_bits_loop_val [of "drop_bit 1 ?w"] unfolding h k_def by auto
    then show ?thesis by (cases k) simp_all
  qed
  have k31: "k < 32"
  proof (cases "?w = 0")
    case True
    then show ?thesis by (simp add: k_def CMP_bits_loop.simps)
  next
    case False
    show ?thesis
    proof (rule ccontr)
      assume "\<not> k < 32"
      then have "(2 :: nat) ^ 32 \<le> 2 ^ k" by (intro power_increasing) simp_all
      with lo [OF False] unat_32 [of ?w] show False by simp
    qed
  qed
  have v: "cmp_val ?ws = cmp_val (butlast ?ws) + 2 ^ (32 * ?i) * unat ?w" by (rule cmp_val_last [OF ne])
  have b: "cmp_val (butlast ?ws) < 2 ^ (32 * ?i)" using cmp_val_less [of "butlast ?ws"] by simp
  have p: "(2 :: nat) ^ CMP_BitLengthOfCMPInt x = 2 ^ (32 * ?i) * 2 ^ (1 + k)"
    unfolding len by (simp add: power_add mult.commute)
  have "2 ^ (32 * ?i) * (unat ?w + 1) \<le> 2 ^ (32 * ?i) * (2 :: nat) ^ (1 + k)" using w by (intro mult_le_mono2) simp
  moreover have "2 ^ (32 * ?i) * (unat ?w + 1) = 2 ^ (32 * ?i) * unat ?w + 2 ^ (32 * ?i)"
    by (simp only: distrib_left mult_1_right)
  ultimately show "cmp_val ?ws < 2 ^ CMP_BitLengthOfCMPInt x" unfolding p using v b by linarith
  show "0 < CMP_BitLengthOfCMPInt x" unfolding len by simp
  have "(CMP_BitLengthOfCMPInt x - 1) div 32 = ?i" unfolding len using k31 by simp
  then show "(CMP_BitLengthOfCMPInt x - 1) div 32 < cmp_len x" using ne by (simp add: Suc_le_eq)
  assume nz: "cmp_val ?ws \<noteq> 0"
  have "?w \<noteq> 0"
  proof
    assume z: "?w = 0"
    then have "cmp_len x = 1" using n ne by (simp add: cmp_normal_def)
    with z nz show False by (cases ?ws) simp_all
  qed
  from lo [OF this] have "2 ^ (32 * ?i) * 2 ^ k \<le> 2 ^ (32 * ?i) * unat ?w" by (rule mult_le_mono2)
  moreover have "(2 :: nat) ^ (CMP_BitLengthOfCMPInt x - 1) = 2 ^ (32 * ?i) * 2 ^ k"
    unfolding len by (simp add: power_add mult.commute)
  ultimately show "2 ^ (CMP_BitLengthOfCMPInt x - 1) \<le> cmp_val ?ws" unfolding v by linarith
qed

section \<open>What is computed\<close>

lemma mont_rep_words: "cmp_words m' = cmp_words m \<Longrightarrow> mont_rep m' x v = mont_rep m x v"
  by (simp add: mont_rep_def mont_R_def)

lemma mont_modulus_eq: "cmp_words m' = cmp_words m \<Longrightarrow> cmp_ok m' \<Longrightarrow> mont_modulus m c \<Longrightarrow> mont_modulus m' c"
  by (simp add: mont_modulus_def)

lemma CMP_Move_rep:
  assumes mem: "\<And>n. mem n" and r: "mont_rep m x v"
  shows "\<exists>d. CMP_Move mem x s = Inr d \<and> mont_rep m d v"
proof -
  have "cmp_ok x" using r by (simp add: mont_rep_def)
  then obtain d where "CMP_Move mem x s = Inr d" "cmp_words d = cmp_words x" "cmp_ok d"
    using CMP_Move_ok [of mem x s, OF mem] by blast
  with r show ?thesis by (simp add: mont_rep_def)
qed

lemma CMP_init_squares_correct:
  assumes mem: "\<And>n. mem n" and m: "mont_modulus m c" and L: "L < 32"
  shows "length ex = 2 ^ L \<Longrightarrow> length tab = 2 ^ L \<Longrightarrow> ex ! 0 \<Longrightarrow> (\<forall>i \<le> j. ex ! (2 ^ i)) \<Longrightarrow>
    (\<forall>i < 2 ^ L. ex ! i \<longrightarrow> mont_rep m (tab ! i) (b ^ i)) \<Longrightarrow> Suc (j + k) = L \<Longrightarrow>
    \<exists>ex' tab'. CMP_init_squares mem m c k (push_bit j 1) (ex, tab) = Inr (ex', tab') \<and> exp_table_ok m b L (ex', tab')"
proof (induction k arbitrary: j ex tab)
  case 0
  then show ?case by simp
next
  case (Suc k)
  let ?e = "push_bit (Suc j) 1 :: u32"
  have e: "unat ?e = 2 ^ Suc j" by (rule unat_power_two) (use Suc.prems(6) L in simp)
  have e2: "unat (?e div 2) = 2 ^ j" unfolding unat_div using e by simp
  have s: "push_bit 1 (push_bit j 1 :: u32) = ?e" by simp
  have lt: "(2 :: nat) ^ Suc j < 2 ^ L" "(2 :: nat) ^ j < 2 ^ L"
    by (rule power_strict_increasing; use Suc.prems(6) in simp)+
  have r: "mont_rep m (tab ! (2 ^ j)) (b ^ 2 ^ j)" using Suc.prems(4,5) lt(2) by blast
  obtain z where z: "CMP_MontSquare mem (tab ! (2 ^ j)) m c (tab ! (2 ^ Suc j)) = Inr z"
    "mont_rep m z (b ^ 2 ^ j * b ^ 2 ^ j)"
    using CMP_MontSquare_rep [of mem m c _ _ "tab ! (2 ^ Suc j)", OF mem m r] by blast
  have zr: "mont_rep m z (b ^ 2 ^ Suc j)" using z(2) by (simp flip: power_add add: mult_2)
  let ?ex = "ex[2 ^ Suc j := True]" and ?tab = "tab[2 ^ Suc j := z]"
  have flag: "?ex ! i" if "ex ! i" for i
    using that lt Suc.prems(1) by (cases "i = 2 ^ Suc j") simp_all
  have "CMP_init_squares mem m c (Suc k) (push_bit j 1) (ex, tab) = CMP_init_squares mem m c k ?e (?ex, ?tab)"
    unfolding CMP_init_squares.simps Let_def s e e2 using z(1) lt(1) Suc.prems(2) by (simp del: power_Suc)
  moreover have "\<exists>ex' tab'. CMP_init_squares mem m c k ?e (?ex, ?tab) = Inr (ex', tab') \<and> exp_table_ok m b L (ex', tab')"
  proof (rule Suc.IH)
    show "length ?ex = 2 ^ L" "length ?tab = 2 ^ L" using Suc.prems by simp_all
    show "?ex ! 0" using Suc.prems(3) flag by simp
    show "\<forall>i \<le> Suc j. ?ex ! (2 ^ i)"
    proof (intro allI impI)
      fix i
      assume "i \<le> Suc j"
      then consider "i \<le> j" | "i = Suc j" by linarith
      then show "?ex ! (2 ^ i)"
      proof cases
        case 1
        with Suc.prems(4) flag show ?thesis by blast
      next
        case 2
        with lt(1) Suc.prems(1) show ?thesis by simp
      qed
    qed
    show "\<forall>i < 2 ^ L. ?ex ! i \<longrightarrow> mont_rep m (?tab ! i) (b ^ i)"
    proof (intro allI impI)
      fix i
      assume "i < 2 ^ L" "?ex ! i"
      then show "mont_rep m (?tab ! i) (b ^ i)"
        using Suc.prems(2,5) zr by (cases "i = 2 ^ Suc j") (simp_all del: power_Suc)
    qed
    show "Suc (Suc j + k) = L" using Suc.prems(6) by simp
  qed
  ultimately show ?case by simp
qed

lemma CMP_InitExponentTable_correct:
  assumes mem: "\<And>n. mem n" and m: "mont_modulus m c" and one: "1 < cmp_val (cmp_words m)"
    and b: "cmp_ok base" "cmp_val (cmp_words base) < cmp_val (cmp_words m)" and L: "0 < L" "L < 32"
  shows "\<exists>m' tab. CMP_InitExponentTable mem L m c base None None = Inr (m', tab) \<and> cmp_words m' = cmp_words m \<and>
    cmp_ok m' \<and> exp_table_ok m' (cmp_val (cmp_words base)) L tab"
proof -
  let ?b = "cmp_val (cmp_words base)" and ?u = "\<lparr>cmp_space = 1, cmp_words = [1 :: u32]\<rparr>"
  let ?tab = "replicate (2 ^ L) CMP_Constructor" and ?ex = "replicate (2 ^ L) False"
  have okm: "cmp_ok m" using m by (simp add: mont_modulus_def)
  have u: "CMP_reallocNoCopy mem 1 CMP_Constructor = Inr \<lparr>cmp_space = 1, cmp_words = []\<rparr>"
    using mem by (simp add: CMP_reallocNoCopy_def CMP_Constructor_def)
  have ok: "cmp_ok ?u" and lt: "cmp_val (cmp_words ?u) < cmp_val (cmp_words m)"
    using one by (simp_all add: cmp_ok_def cmp_normal_def)
  obtain m1 z where 1: "CMP_ConvertToMont mem ?u m (?tab ! 0) = Inr (m1, z)" "cmp_ok m1" "cmp_words m1 = cmp_words m"
    "mont_rep m z 1" using CMP_ConvertToMont_correct [of mem m ?u "?tab ! 0", OF mem okm ok lt] by auto
  obtain m2 y where 2: "CMP_ConvertToMont mem base m1 (?tab[0 := z] ! 1) = Inr (m2, y)" "cmp_ok m2"
    "cmp_words m2 = cmp_words m1" "mont_rep m1 y ?b"
    using CMP_ConvertToMont_correct [of mem m1 base "?tab[0 := z] ! 1", OF mem 1(2) b(1)] b(2) 1(3) by auto
  have words: "cmp_words m2 = cmp_words m" using 1(3) 2(3) by simp
  have m2: "mont_modulus m2 c" by (rule mont_modulus_eq [OF words 2(2) m])
  have reps: "mont_rep m2 z 1" "mont_rep m2 y ?b"
    using 1(4) 2(4) mont_rep_words [OF words] mont_rep_words [OF 2(3)] by simp_all
  have p: "(1 :: nat) < 2 ^ L" using power_strict_increasing [OF L(1), of "2 :: nat"] by simp
  let ?ex1 = "?ex[0 := True, 1 := True]" and ?tab1 = "?tab[0 := z, 1 := y]"
  have "\<exists>ex' tab'. CMP_init_squares mem m2 c (L - 1) (push_bit 0 1) (?ex1, ?tab1) = Inr (ex', tab') \<and>
      exp_table_ok m2 ?b L (ex', tab')"
  proof (rule CMP_init_squares_correct [of mem m2 c, OF mem m2 L(2)])
    show "\<forall>i < 2 ^ L. ?ex1 ! i \<longrightarrow> mont_rep m2 (?tab1 ! i) (?b ^ i)"
    proof (intro allI impI)
      fix i :: nat
      assume i: "i < 2 ^ L" and f: "?ex1 ! i"
      consider "i = 0" | "i = 1" | "1 < i" by linarith
      then show "mont_rep m2 (?tab1 ! i) (?b ^ i)"
        by cases (use reps p i f in simp_all)
    qed
  qed (use p L in simp_all)
  then obtain tab where T: "CMP_init_squares mem m2 c (L - 1) 1 (?ex1, ?tab1) = Inr tab" "exp_table_ok m2 ?b L tab"
    by auto
  have "CMP_InitExponentTable mem L m c base None None = Inr (m2, tab)"
    using mem u 1(1) 2(1) T(1) by (simp add: CMP_InitExponentTable_def)
  with words 2(2) T(2) show ?thesis by blast
qed

lemma CMP_square_times_correct:
  assumes mem: "\<And>n. mem n" and m: "mont_modulus m c"
  shows "mont_rep m r v \<Longrightarrow> \<exists>t' r'. CMP_square_times mem m c n (t, r) = Inr (t', r') \<and> mont_rep m r' (v ^ 2 ^ n)"
proof (induction n arbitrary: t r v)
  case (Suc n)
  obtain t1 where t1: "CMP_MontSquare mem r m c t = Inr t1" "mont_rep m t1 (v * v)"
    using CMP_MontSquare_rep [of mem m c r v t, OF mem m Suc.prems] by blast
  obtain r1 where r1: "CMP_Move mem t1 r = Inr r1" "mont_rep m r1 (v * v)"
    using CMP_Move_rep [of mem m t1 "v * v" r, OF mem t1(2)] by blast
  have "(v * v) ^ 2 ^ n = v ^ 2 ^ Suc n" by (simp add: power_mult [symmetric] power2_eq_square [symmetric])
  then show ?case using Suc.IH [OF r1(2), of t1] t1(1) r1(1) by simp
qed simp

lemma CMP_exp_entry_correct:
  assumes mem: "\<And>n. mem n" and m: "mont_modulus m c" and t: "exp_table_ok m b L tab" and p: "unat pow < 2 ^ L"
  shows "\<exists>tab'. CMP_exp_entry mem m c pow tab = Inr tab' \<and> exp_table_ok m b L tab' \<and>
    mont_rep m (snd tab' ! unat pow) (b ^ unat pow)"
proof -
  obtain ex l where tab: "tab = (ex, l)" by fastforce
  show ?thesis
  proof (cases "ex ! unat pow")
    case True
    then show ?thesis using t p by (simp add: tab CMP_exp_entry_def)
  next
    case False
    obtain ex' l' where "CMP_GenerateNewExponent mem m c pow (ex, l) = Inr (ex', l')" "exp_table_ok m b L (ex', l')"
      "ex' ! unat pow"
      using CMP_GenerateNewExponent_correct [of mem m c b L ex l pow, OF mem m _ p False] t by (auto simp: tab)
    then show ?thesis using False p by (simp add: tab CMP_exp_entry_def)
  qed
qed

text \<open>One window: the exponent so far is multiplied by a power of two, and the window is added.\<close>

lemma window_split:
  fixes V :: nat
  assumes "l \<le> p"
  shows "V div 2 ^ (p - l) = V div 2 ^ p * 2 ^ l + V div 2 ^ (p - l) mod 2 ^ l"
proof -
  have "(2 :: nat) ^ p = 2 ^ (p - l) * 2 ^ l" using assms by (simp flip: power_add)
  then have "V div 2 ^ p = V div 2 ^ (p - l) div 2 ^ l" by (simp add: div_mult2_eq)
  then show ?thesis by (simp only: div_mult_mod_eq)
qed

lemma CMP_exp_loop_correct:
  assumes mem: "\<And>n. mem n" and m: "mont_modulus m c" and L: "0 < L" "L < 32"
  shows "exp_table_ok m b L tab \<Longrightarrow> p = 0 \<or> (p - 1) div 32 < cmp_len x \<Longrightarrow>
    mont_rep m r (b ^ (cmp_val (cmp_words x) div 2 ^ p)) \<Longrightarrow>
    \<exists>t' r'. CMP_exp_loop mem x m c (int L) (int p - 1) tab t r = Some (Inr (t', r')) \<and>
      mont_rep m r' (b ^ cmp_val (cmp_words x))"
proof (induction p arbitrary: tab t r rule: less_induct)
  case (less p)
  let ?V = "cmp_val (cmp_words x)"
  show ?case
  proof (cases "p = 0")
    case True
    with less.prems(3) show ?thesis by (subst CMP_exp_loop.simps) simp
  next
    case False
    define l where "l = min L p"
    have l: "0 < l" "l \<le> p" "l \<le> L" using False L by (simp_all add: l_def)
    have ip: "int p - 1 = int (p - 1)" using False by simp
    have il: "nat (min (int L) (int p - 1 + 1)) = l" by (simp add: l_def)
    have ml: "min L (p - 1 + 1) = l" using False by (simp add: l_def)
    have ix: "(p - 1) div 32 < cmp_len x" using less.prems(2) False by simp
    obtain t1 r1 where S: "CMP_square_times mem m c l (t, r) = Inr (t1, r1)"
      "mont_rep m r1 ((b ^ (?V div 2 ^ p)) ^ 2 ^ l)"
      using CMP_square_times_correct [of mem m c r _ l t, OF mem m less.prems(3)] by blast
    obtain f where F: "CMP_GetBitsFromCMPInt x (int p - 1) (int L) = Inr (f, int (p - 1) - int l)"
      "unat f = ?V div 2 ^ (p - 1 + 1 - l) mod 2 ^ l"
      using CMP_GetBitsFromCMPInt_correct [OF ix L] unfolding ip ml by blast
    have f: "unat f = ?V div 2 ^ (p - l) mod 2 ^ l" using F(2) False by simp
    have next_pos: "int (p - 1) - int l = int (p - l) - 1" using False l by simp
    have np: "int p - 1 - int l = int (p - l) - 1" using False l by simp
    have ix': "p - l = 0 \<or> (p - l - 1) div 32 < cmp_len x"
      using ix div_le_mono [of "p - l - 1" "p - 1" 32] by linarith
    have lt: "p - l < p" using l by simp
    have split: "?V div 2 ^ (p - l) = ?V div 2 ^ p * 2 ^ l + unat f" unfolding f by (rule window_split [OF l(2)])
    have sq: "mont_rep m r1 (b ^ (?V div 2 ^ p * 2 ^ l))" using S(2) by (simp add: power_mult)
    show ?thesis
    proof (cases "f = 0")
      case True
      then have r1: "mont_rep m r1 (b ^ (?V div 2 ^ (p - l)))" using sq split by simp
      have "CMP_exp_loop mem x m c (int L) (int p - 1) tab t r = CMP_exp_loop mem x m c (int L) (int (p - l) - 1) tab t1 r1"
        using False S(1) F(1) True by (subst CMP_exp_loop.simps) (simp add: il [simplified] np)
      with less.IH [OF lt less.prems(1) ix' r1] show ?thesis by simp
    next
      case nz: False
      have "unat f < 2 ^ l" unfolding f by simp
      moreover have "(2 :: nat) ^ l \<le> 2 ^ L" using l(3) by (intro power_increasing) simp_all
      ultimately have fL: "unat f < 2 ^ L" by (rule less_le_trans)
      obtain tab' where T: "CMP_exp_entry mem m c f tab = Inr tab'" "exp_table_ok m b L tab'"
        "mont_rep m (snd tab' ! unat f) (b ^ unat f)"
        using CMP_exp_entry_correct [of mem m c b L tab f, OF mem m less.prems(1) fL] by blast
      obtain t2 where P: "CMP_MontProduct mem (snd tab' ! unat f) r1 m c t1 = Inr t2"
        "mont_rep m t2 (b ^ unat f * b ^ (?V div 2 ^ p * 2 ^ l))"
        using CMP_MontProduct_rep [of mem m c _ _ r1 _ t1, OF mem m T(3) sq] by blast
      have "mont_rep m t2 (b ^ (?V div 2 ^ (p - l)))" using P(2) unfolding split by (simp add: power_add mult.commute)
      then obtain r2 where M: "CMP_Move mem t2 r1 = Inr r2" "mont_rep m r2 (b ^ (?V div 2 ^ (p - l)))"
        using CMP_Move_rep [of mem m t2 _ r1, OF mem] by blast
      have "CMP_exp_loop mem x m c (int L) (int p - 1) tab t r = CMP_exp_loop mem x m c (int L) (int (p - l) - 1) tab' t2 r2"
        using False S(1) F(1) nz T(1) P(1) M(1)
        by (subst CMP_exp_loop.simps) (simp add: il [simplified] np)
      with less.IH [OF lt T(2) ix' M(2)] show ?thesis by simp
    qed
  qed
qed

lemma CMP_ModExp_correct:
  assumes mem: "\<And>n. mem n" and m: "cmp_ok m" "odd (cmp_val (cmp_words m))" "1 < cmp_val (cmp_words m)"
    and b: "cmp_ok base" "cmp_val (cmp_words base) < cmp_val (cmp_words m)" and x: "cmp_ok x"
  shows "\<exists>m' z. CMP_ModExp mem base x m s = Inr (m', z) \<and> cmp_words m' = cmp_words m \<and> cmp_ok m' \<and> cmp_ok z \<and>
    cmp_val (cmp_words z) = cmp_val (cmp_words base) ^ cmp_val (cmp_words x) mod cmp_val (cmp_words m)"
proof -
  let ?V = "cmp_val (cmp_words x)" and ?b = "cmp_val (cmp_words base)"
  have "cmp_normal (cmp_words m)" using m(1) by (simp add: cmp_ok_def)
  then obtain w ws where w: "cmp_words m = w # ws" by (cases "cmp_words m") (simp_all add: cmp_normal_def)
  have "odd (unat w)" using m(2) by (simp add: w)
  then obtain c where c: "CMP_ComputeMontCoeff m = Inr c" "w * c = - 1" using CMP_ComputeMontCoeff_correct [OF w] by blast
  have mm: "mont_modulus m c" using m(1,2) c(2) w by (simp add: mont_modulus_def)
  define p where "p = CMP_BitLengthOfCMPInt x"
  note bl = CMP_BitLength_bounds [OF x, folded p_def]
  define L where "L = nat (CMP_ComputeLogOfTableSize (int p))"
  have L: "0 < L" "L < 32" "CMP_ComputeLogOfTableSize (int p) = int L" by (simp_all add: L_def CMP_ComputeLogOfTableSize_def)
  obtain m' tab where I: "CMP_InitExponentTable mem L m c base None None = Inr (m', tab)" "cmp_words m' = cmp_words m"
    "cmp_ok m'" "exp_table_ok m' ?b L tab"
    using CMP_InitExponentTable_correct [of mem m c base L, OF mem mm m(3) b L(1,2)] by blast
  have m': "mont_modulus m' c" by (rule mont_modulus_eq [OF I(2,3) mm])
  define l where "l = min L p"
  have l: "0 < l" "l \<le> p" "l \<le> L" using bl(2) L by (simp_all add: l_def)
  have ip: "int p - 1 = int (p - 1)" and ml: "min L (p - 1 + 1) = l" using bl(2) by (simp_all add: l_def)
  obtain f where F: "CMP_GetBitsFromCMPInt x (int p - 1) (int L) = Inr (f, int (p - 1) - int l)"
    "unat f = ?V div 2 ^ (p - 1 + 1 - l) mod 2 ^ l"
    using CMP_GetBitsFromCMPInt_correct [OF bl(3) L(1,2)] unfolding ip ml by blast
  have "?V div 2 ^ (p - l) = ?V div 2 ^ p * 2 ^ l + ?V div 2 ^ (p - l) mod 2 ^ l" by (rule window_split [OF l(2)])
  then have f: "unat f = ?V div 2 ^ (p - l)" using F(2) bl(1,2) by simp
  have next_pos: "int (p - 1) - int l = int (p - l) - 1" using bl(2) l by simp
  have "unat f < 2 ^ l" unfolding F(2) by simp
  moreover have "(2 :: nat) ^ l \<le> 2 ^ L" using l(3) by (intro power_increasing) simp_all
  ultimately have fL: "unat f < 2 ^ L" by (rule less_le_trans)
  obtain tab' where T: "CMP_exp_entry mem m' c f tab = Inr tab'" "exp_table_ok m' ?b L tab'"
    "mont_rep m' (snd tab' ! unat f) (?b ^ unat f)"
    using CMP_exp_entry_correct [of mem m' c ?b L tab f, OF mem m' I(4) fL] by blast
  obtain r where R: "CMP_Move mem (snd tab' ! unat f) s = Inr r" "mont_rep m' r (?b ^ (?V div 2 ^ (p - l)))"
    using CMP_Move_rep [of mem m' _ _ s, OF mem T(3)] unfolding f by blast
  have ix: "p - l = 0 \<or> (p - l - 1) div 32 < cmp_len x"
    using bl(3) div_le_mono [of "p - l - 1" "p - 1" 32] by linarith
  obtain t' r' where E: "CMP_exp_loop mem x m' c (int L) (int (p - l) - 1) tab' CMP_Constructor r = Some (Inr (t', r'))"
    "mont_rep m' r' (?b ^ ?V)"
    using CMP_exp_loop_correct [of mem m' c L ?b tab' "p - l" x r CMP_Constructor, OF mem m' L(1,2) T(2) ix R(2)] by blast
  obtain z where Z: "CMP_ConvertFromMont mem r' m' c t' = Inr z" "cmp_ok z" "cmp_val (cmp_words z) = ?b ^ ?V mod cmp_val (cmp_words m')"
    using CMP_ConvertFromMont_correct [of mem m' c r' _ t', OF mem m' E(2)] by blast
  obtain z' where Z': "CMP_Move mem z r' = Inr z'" "cmp_words z' = cmp_words z" "cmp_ok z'"
    using CMP_Move_ok [of mem z r', OF mem Z(2)] by blast
  have "CMP_ModExp mem base x m s = Inr (m', z')"
    unfolding CMP_ModExp_def c(1) on_success.simps Let_def p_def [symmetric] L(3) nat_int I(1) prod.case F(1) next_pos
      T(1) R(1) E(1) option.case Z(1) Z'(1) ..
  with I(2,3) Z(3) Z'(2,3) show ?thesis by simp
qed

text \<open>An even modulus and a base that is not below the modulus are refused.\<close>

lemma CMP_ModExp_even:
  assumes "cmp_ok m" and "even (cmp_val (cmp_words m))"
  shows "CMP_ModExp mem base x m s = Inl CMP_MODULUS"
proof -
  have "cmp_normal (cmp_words m)" using assms(1) by (simp add: cmp_ok_def)
  then obtain w ws where w: "cmp_words m = w # ws" by (cases "cmp_words m") (simp_all add: cmp_normal_def)
  have "even (unat w)" using assms(2) by (simp add: w)
  from CMP_ComputeMontCoeff_even [OF w this] show ?thesis by (simp add: CMP_ModExp_def)
qed

section \<open>The Chinese remainder\<close>

text \<open>Garner's formula: the number below \<open>p * q\<close> with given residues.\<close>

lemma garner:
  fixes p q a b c h :: nat
  assumes p: "0 < p" and q: "0 < q" and b: "b < q" and c: "c * q mod p = 1 mod p"
    and h: "int h = (int a - int b) * int c mod int p"
  shows "(h * q + b) mod p = a mod p" and "(h * q + b) mod q = b" and "h * q + b < p * q"
proof -
  have "int c * int q mod int p = 1 mod int p" by (metis c of_nat_1 of_nat_mod of_nat_mult)
  then have cq: "(int a - int b) * (int c * int q) mod int p = (int a - int b) * 1 mod int p"
    by (metis mod_mult_right_eq)
  have "int (h * q + b) mod int p = ((int a - int b) * int c mod int p * int q + int b) mod int p"
    unfolding h [symmetric] by simp
  also have "\<dots> = ((int a - int b) * int c * int q + int b) mod int p"
    by (metis mod_add_left_eq mod_mult_left_eq)
  also have "\<dots> = ((int a - int b) * (int c * int q) mod int p + int b) mod int p"
    by (simp add: mod_add_left_eq mult.assoc)
  also have "\<dots> = ((int a - int b) * 1 + int b) mod int p" unfolding cq by (simp add: mod_add_left_eq)
  also have "\<dots> = int a mod int p" by simp
  finally show "(h * q + b) mod p = a mod p" by (metis of_nat_eq_iff of_nat_mod)
  show "(h * q + b) mod q = b" using b by simp
  have "int h < int p" unfolding h using p by simp
  then have "(h + 1) * q \<le> p * q" by (intro mult_le_mono1) simp
  with b show "h * q + b < p * q" by simp
qed

lemma CMP_ModExpCRT_correct:
  assumes mem: "\<And>n. mem n" and x: "cmp_ok x"
    and p: "cmp_ok p" "odd (cmp_val (cmp_words p))" "1 < cmp_val (cmp_words p)"
    and q: "cmp_ok q" "odd (cmp_val (cmp_words q))" "1 < cmp_val (cmp_words q)"
    and e: "cmp_ok dp" "cmp_ok dq" and c: "cmp_ok cr"
    and inv: "cmp_val (cmp_words cr) * cmp_val (cmp_words q) mod cmp_val (cmp_words p) = 1"
  shows "\<exists>x' p' q' z. CMP_ModExpCRT mem x p q dp dq cr s = Inr (x', p', q', z) \<and> cmp_ok p' \<and> cmp_ok q' \<and> cmp_ok z \<and>
    cmp_words x' = cmp_words x \<and> cmp_words p' = cmp_words p \<and> cmp_words q' = cmp_words q \<and>
    cmp_val (cmp_words z) < cmp_val (cmp_words p) * cmp_val (cmp_words q) \<and>
    cmp_val (cmp_words z) mod cmp_val (cmp_words p)
      = cmp_val (cmp_words x) ^ cmp_val (cmp_words dp) mod cmp_val (cmp_words p) \<and>
    cmp_val (cmp_words z) mod cmp_val (cmp_words q)
      = cmp_val (cmp_words x) ^ cmp_val (cmp_words dq) mod cmp_val (cmp_words q)"
proof -
  let ?P = "cmp_val (cmp_words p)" and ?Q = "cmp_val (cmp_words q)" and ?X = "cmp_val (cmp_words x)"
  have pos: "0 < ?P" "0 < ?Q" using p(3) q(3) by simp_all
  obtain x1 p1 r1 where 1: "CMP_ModularReduce mem x p s = Inr (x1, p1, r1)" "cmp_ok x1" "cmp_ok p1" "cmp_words x1 = cmp_words x"
    "cmp_words p1 = cmp_words p" "cmp_ok r1" "cmp_val (cmp_words r1) = ?X mod ?P"
    using CMP_ModularReduce_correct [of mem x p s, OF mem x p(1) pos(1)] by blast
  have p1: "odd (cmp_val (cmp_words p1))" "1 < cmp_val (cmp_words p1)" "cmp_val (cmp_words r1) < cmp_val (cmp_words p1)"
    using p pos 1(5,7) by simp_all
  obtain p2 a where 2: "CMP_ModExp mem r1 dp p1 CMP_Constructor = Inr (p2, a)" "cmp_words p2 = cmp_words p1" "cmp_ok p2" "cmp_ok a"
    "cmp_val (cmp_words a) = cmp_val (cmp_words r1) ^ cmp_val (cmp_words dp) mod cmp_val (cmp_words p1)"
    using CMP_ModExp_correct [of mem p1 r1 dp CMP_Constructor, OF mem 1(3) p1(1,2) 1(6) p1(3) e(1)] by blast
  obtain x2 q1 r2 where 3: "CMP_ModularReduce mem x1 q r1 = Inr (x2, q1, r2)" "cmp_ok x2" "cmp_ok q1" "cmp_words x2 = cmp_words x1"
    "cmp_words q1 = cmp_words q" "cmp_ok r2" "cmp_val (cmp_words r2) = cmp_val (cmp_words x1) mod ?Q"
    using CMP_ModularReduce_correct [of mem x1 q r1, OF mem 1(2) q(1) pos(2)] by blast
  have q1: "odd (cmp_val (cmp_words q1))" "1 < cmp_val (cmp_words q1)" "cmp_val (cmp_words r2) < cmp_val (cmp_words q1)"
    using q pos 3(5,7) by simp_all
  obtain q2 b where 4: "CMP_ModExp mem r2 dq q1 CMP_Constructor = Inr (q2, b)" "cmp_words q2 = cmp_words q1" "cmp_ok q2" "cmp_ok b"
    "cmp_val (cmp_words b) = cmp_val (cmp_words r2) ^ cmp_val (cmp_words dq) mod cmp_val (cmp_words q1)"
    using CMP_ModExp_correct [of mem q1 r2 dq CMP_Constructor, OF mem 3(3) q1(1,2) 3(6) q1(3) e(2)] by blast
  let ?A = "cmp_val (cmp_words a)" and ?B = "cmp_val (cmp_words b)" and ?C = "cmp_val (cmp_words cr)"
  have words: "cmp_words p2 = cmp_words p" "cmp_words q2 = cmp_words q" using 1(5) 2(2) 3(5) 4(2) by simp_all
  have A: "?A = ?X ^ cmp_val (cmp_words dp) mod ?P" using 2(5) 1(5,7) by (simp add: power_mod)
  have B: "?B = ?X ^ cmp_val (cmp_words dq) mod ?Q" using 4(5) 3(4,5,7) 1(4) by (simp add: power_mod)
  have lt: "?A < cmp_val (cmp_words p2)" "?B < ?Q" unfolding A B words using pos by simp_all
  obtain p3 d where 5: "CMP_ModSubtract mem a b p2 r2 = Inr (p3, d)" "cmp_words p3 = cmp_words p2" "cmp_ok p3"
    "cmp_words d \<noteq> []" "int (cmp_val (cmp_words d)) = (int ?A - int ?B) mod int (cmp_val (cmp_words p2))"
    using CMP_ModSubtract_correct [of mem a b p2 r2, OF mem 2(4) 4(4) 2(3) lt(1)] by blast
  have cne: "cmp_words cr \<noteq> []" using c by (auto simp: cmp_ok_def cmp_normal_def)
  have p3: "0 < cmp_val (cmp_words p3)" using 5(2) words pos by simp
  obtain p4 h where 6: "CMP_ModMultiply mem d cr p3 a = Inr (p4, h)" "cmp_words p4 = cmp_words p3" "cmp_ok p4" "cmp_ok h"
    "cmp_val (cmp_words h) = (cmp_val (cmp_words d) * ?C) mod cmp_val (cmp_words p3)"
    using CMP_ModMultiply_correct [of mem d cr p3 a, OF mem 5(4) cne 5(3) p3] by blast
  have ne: "cmp_words h \<noteq> []" "cmp_words q2 \<noteq> []" using 6(4) 4(3) by (auto simp: cmp_ok_def cmp_normal_def)
  obtain y where 7: "CMP_Multiply mem h q2 d = Inr y" "cmp_ok y" "cmp_val (cmp_words y) = cmp_val (cmp_words h) * cmp_val (cmp_words q2)"
    using CMP_Multiply_correct [of mem h q2 d, OF mem ne] by blast
  have nb: "cmp_normal (cmp_words b)" using 4(4) by (simp add: cmp_ok_def)
  obtain z where 8: "CMP_AddInPlace mem b y = Inr z" "cmp_ok z" "cmp_val (cmp_words z) = cmp_val (cmp_words y) + ?B"
    using CMP_AddInPlace_correct [of mem y b, OF mem 7(2) nb] by blast
  let ?H = "cmp_val (cmp_words h)"
  have z: "cmp_val (cmp_words z) = ?H * ?Q + ?B" using 7(3) 8(3) words by simp
  have "int ?H = int (cmp_val (cmp_words d)) * int ?C mod int ?P" using 6(5) 5(2) words by (simp add: of_nat_mod)
  also have "\<dots> = (int ?A - int ?B) * int ?C mod int ?P" using 5(5) words by (simp add: mod_mult_left_eq)
  finally have H: "int ?H = (int ?A - int ?B) * int ?C mod int ?P" .
  have "?C * ?Q mod ?P = 1 mod ?P" using inv p(3) by simp
  note g = garner [OF pos lt(2) this H]
  have "cmp_val (cmp_words z) mod ?P = ?X ^ cmp_val (cmp_words dp) mod ?P" using g(1) unfolding z A by simp
  moreover have "cmp_val (cmp_words z) mod ?Q = ?X ^ cmp_val (cmp_words dq) mod ?Q" using g(2) unfolding z B by simp
  moreover have "cmp_val (cmp_words z) < ?P * ?Q" using g(3) unfolding z .
  moreover have "CMP_ModExpCRT mem x p q dp dq cr s = Inr (x2, p4, q2, z)"
    using 1(1) 2(1) 3(1) 4(1) 5(1) 6(1) 7(1) 8(1) by (simp add: CMP_ModExpCRT_def)
  moreover have "cmp_words p4 = cmp_words p" "cmp_words x2 = cmp_words x" using 6(2) 5(2) words 3(4) 1(4) by simp_all
  ultimately show ?thesis using 4(3) 6(3) 8(2) words by blast
qed

lemma CMP_ModExp_range:
  assumes mem: "\<And>n. mem n" and m: "cmp_ok m" "odd (cmp_val (cmp_words m))" and b: "cmp_ok base"
    and r: "cmp_val (cmp_words m) = 1 \<or> cmp_val (cmp_words m) \<le> cmp_val (cmp_words base)"
  shows "CMP_ModExp mem base x m s = Inl CMP_RANGE"
proof -
  have "cmp_normal (cmp_words m)" using m(1) by (simp add: cmp_ok_def)
  then obtain w ws where w: "cmp_words m = w # ws" by (cases "cmp_words m") (simp_all add: cmp_normal_def)
  have "odd (unat w)" using m(2) by (simp add: w)
  then obtain c where c: "CMP_ComputeMontCoeff m = Inr c" using CMP_ComputeMontCoeff_correct [OF w] by blast
  define L where "L = nat (CMP_ComputeLogOfTableSize (int (CMP_BitLengthOfCMPInt x)))"
  let ?tab = "replicate (2 ^ L) CMP_Constructor"
  let ?u = "\<lparr>cmp_space = 1, cmp_words = [1 :: u32]\<rparr>"
  have u: "CMP_reallocNoCopy mem 1 CMP_Constructor = Inr \<lparr>cmp_space = 1, cmp_words = []\<rparr>"
    using mem by (simp add: CMP_reallocNoCopy_def CMP_Constructor_def)
  have ok: "cmp_ok ?u" by (simp add: cmp_ok_def cmp_normal_def)
  have "CMP_InitExponentTable mem L m c base None None = Inl CMP_RANGE"
  proof (cases "cmp_val (cmp_words m) = 1")
    case True
    then have "CMP_ConvertToMont mem ?u m (?tab ! 0) = Inl CMP_RANGE"
      using CMP_ConvertToMont_range [OF m(1) ok] by simp
    then show ?thesis using mem u by (simp add: CMP_InitExponentTable_def)
  next
    case False
    have "0 < cmp_val (cmp_words m)" using m(2) odd_pos by blast
    then have lt: "cmp_val (cmp_words ?u) < cmp_val (cmp_words m)" using False by simp
    obtain m1 z where 1: "CMP_ConvertToMont mem ?u m (?tab ! 0) = Inr (m1, z)" "cmp_ok m1" "cmp_words m1 = cmp_words m"
      using CMP_ConvertToMont_correct [of mem m ?u "?tab ! 0", OF mem m(1) ok lt] by blast
    have "CMP_ConvertToMont mem base m1 (?tab[0 := z] ! 1) = Inl CMP_RANGE"
      using CMP_ConvertToMont_range [OF 1(2) b] r False 1(3) by simp
    then show ?thesis using mem u 1(1) by (simp add: CMP_InitExponentTable_def)
  qed
  then show ?thesis using c by (simp add: CMP_ModExp_def Let_def flip: L_def)
qed

text \<open>Numbers below \<open>p * q\<close> with the same residues are equal.\<close>

lemma residues_unique:
  fixes p q x y c :: nat
  assumes c: "c * q mod p = 1" and lt: "x < p * q" "y < p * q" and eq: "x mod p = y mod p" "x mod q = y mod q"
  shows "x = y"
proof -
  have co: "coprime p q"
  proof (rule coprimeI)
    fix d
    assume "d dvd p" "d dvd q"
    then have "d dvd c * q mod p" by (simp add: dvd_mod)
    then show "is_unit d" using c by simp
  qed
  have "int p dvd int x - int y" "int q dvd int x - int y"
    using eq by (simp_all add: mod_eq_dvd_iff [symmetric] flip: of_nat_mod)
  then have "int p * int q dvd int x - int y" using co by (intro divides_mult) simp_all
  then have "int x mod int (p * q) = int y mod int (p * q)" by (simp add: mod_eq_dvd_iff)
  then have "x mod (p * q) = y mod (p * q)" by (metis of_nat_eq_iff of_nat_mod)
  then show ?thesis using lt by simp
qed

end
