(* ===== verification/CMP_ExtGCD.thy ===== *)
theory CMP_ExtGCD
  imports CMP_Modular
begin

text \<open>
  The extended Euclidean algorithm and modular inverses: \<open>CMP_ComputeExtendedGCD\<close> and its helpers in
  security/lib/crypto/cmpmuldv.c, \<open>CMP_ModInvert\<close> in cmpmod.c.
\<close>

section \<open>The model\<close>

abbreviation cmp_num :: "CMPInt \<Rightarrow> nat" where
  "cmp_num x \<equiv> cmp_val (cmp_words x)"

text \<open>
  The variables that carry the coefficients. Their signs are kept apart; \<open>coeffB\<close> holds the last
  quotient while the loop runs.
\<close>

record ext_coeffs =
  ec_temp1 :: CMPInt
  ec_temp2 :: CMPInt
  ec_coeffB :: CMPInt
  ec_signPrev :: int
  ec_signA :: int
  ec_prevA :: CMPInt
  ec_coeffA :: CMPInt

definition CMP_AbsDifference :: "(nat \<Rightarrow> bool) \<Rightarrow> CMPInt \<Rightarrow> CMPInt \<Rightarrow> CMPInt \<Rightarrow> CMPStatus + int \<times> CMPInt" where
  "CMP_AbsDifference mem a b difference =
     (if CMP_Compare a b \<ge> 0 then on_success (CMP_Subtract mem a b difference) (\<lambda>d. Inr (1, d))
      else on_success (CMP_Subtract mem b a difference) (\<lambda>d. Inr (-1, d)))"

text \<open>
  The test \<open>if ((status != CMP_AbsDifference (...)) != 0) break\<close> leaves the status at 0: when the
  difference fails, which it does only for want of memory, the coefficients stay and success is
  returned.
\<close>

definition CMP_UpdateCoefficients :: "(nat \<Rightarrow> bool) \<Rightarrow> ext_coeffs \<Rightarrow> CMPStatus + ext_coeffs" where
  "CMP_UpdateCoefficients mem co =
     (let anSign = ec_signPrev co; co = co\<lparr>ec_signPrev := ec_signA co\<rparr>;
          move = (\<lambda>co. on_success (CMP_Move mem (ec_coeffA co) (ec_prevA co)) (\<lambda>an.
                        on_success (CMP_Move mem (ec_temp1 co) (ec_coeffA co)) (\<lambda>an1.
                          Inr (co\<lparr>ec_prevA := an, ec_coeffA := an1\<rparr>))))
      in on_success (CMP_Multiply mem (ec_coeffB co) (ec_coeffA co) (ec_temp2 co)) (\<lambda>an1Xq.
         let co = co\<lparr>ec_temp2 := an1Xq\<rparr>
         in if ec_signA co \<noteq> anSign
            then on_success (CMP_Add mem (ec_prevA co) an1Xq (ec_temp1 co)) (\<lambda>an2.
                   move (co\<lparr>ec_temp1 := an2, ec_signA := - ec_signA co\<rparr>))
            else (case CMP_AbsDifference mem (ec_prevA co) an1Xq (ec_temp1 co) of
                    Inl e \<Rightarrow> Inr (co\<lparr>ec_temp1 := CMP_Constructor\<rparr>)
                  | Inr (signDiff, an2) \<Rightarrow> move (co\<lparr>ec_temp1 := an2, ec_signA := ec_signA co * signDiff\<rparr>))))"

text \<open>
  A third of the loop body: the coefficients are updated, the divisor \<open>prev\<close> is divided by the
  remainder \<open>cur\<close>, and the new remainder goes into the number that is no longer used.
\<close>

definition CMP_ext_third ::
  "(nat \<Rightarrow> bool) \<Rightarrow> CMPInt \<Rightarrow> CMPInt \<Rightarrow> CMPInt \<Rightarrow> ext_coeffs \<Rightarrow> CMPStatus + CMPInt \<times> CMPInt \<times> CMPInt \<times> ext_coeffs" where
  "CMP_ext_third mem prev cur spare co =
     on_success (CMP_UpdateCoefficients mem co) (\<lambda>co.
     on_success (CMP_Divide mem prev cur (ec_coeffB co) spare) (\<lambda>(prev, cur, q, r).
       Inr (prev, cur, r, co\<lparr>ec_coeffB := q\<rparr>)))"

partial_function (option) CMP_ext_loop ::
  "(nat \<Rightarrow> bool) \<Rightarrow> CMPInt \<Rightarrow> CMPInt \<Rightarrow> CMPInt \<Rightarrow> ext_coeffs \<Rightarrow>
   (CMPStatus + CMPInt \<times> CMPInt \<times> CMPInt \<times> ext_coeffs \<times> nat) option" where
  "CMP_ext_loop mem dividendP divisorP gcdInt co =
     (case CMP_ext_third mem divisorP gcdInt dividendP co of
        Inl e \<Rightarrow> Some (Inl e)
      | Inr (divisorP, gcdInt, dividendP, co) \<Rightarrow>
     if cmp_msw_zero dividendP then Some (Inr (dividendP, divisorP, gcdInt, co, 1))
     else (case CMP_ext_third mem gcdInt dividendP divisorP co of
        Inl e \<Rightarrow> Some (Inl e)
      | Inr (gcdInt, dividendP, divisorP, co) \<Rightarrow>
     if cmp_msw_zero divisorP then Some (Inr (dividendP, divisorP, gcdInt, co, 2))
     else (case CMP_ext_third mem dividendP divisorP gcdInt co of
        Inl e \<Rightarrow> Some (Inl e)
      | Inr (dividendP, divisorP, gcdInt, co) \<Rightarrow>
     if \<not> cmp_msw_zero gcdInt then CMP_ext_loop mem dividendP divisorP gcdInt co
     else Some (Inr (dividendP, divisorP, gcdInt, co, 0)))))"

declare CMP_ext_loop.simps [code]

text \<open>
  The last part. The status of the \<open>CMP_Move\<close> in the \<open>switch\<close> is overwritten by the next one, so a
  number that could not be copied is used as the empty one it is then.
\<close>

definition CMP_ext_finish ::
  "(nat \<Rightarrow> bool) \<Rightarrow> CMPInt \<Rightarrow> CMPInt \<Rightarrow> CMPInt \<times> CMPInt \<times> CMPInt \<times> ext_coeffs \<times> nat \<Rightarrow>
   CMPStatus + CMPInt \<times> CMPInt \<times> CMPInt \<times> CMPInt" where
  "CMP_ext_finish mem biggerCMP smallerCMP = (\<lambda>(dividendP, divisorP, gcdInt, co, divideFlag).
     let moved = (if divideFlag = 0 then CMP_Move mem divisorP gcdInt
                  else if divideFlag = 2 then CMP_Move mem dividendP gcdInt else Inr gcdInt);
         gcdInt = (case moved of Inl e \<Rightarrow> CMP_Constructor | Inr g \<Rightarrow> g);
         coeffA = ec_coeffA co
     in on_success (CMP_Multiply mem coeffA biggerCMP (ec_temp1 co)) (\<lambda>temp1.
        on_success (if ec_signA co > 0 then CMP_Subtract mem temp1 gcdInt (ec_temp2 co)
                    else CMP_Add mem temp1 gcdInt (ec_temp2 co)) (\<lambda>temp2.
        on_success (CMP_Divide mem temp2 smallerCMP (ec_coeffB co) temp1) (\<lambda>(temp2, smallerCMP, coeffB, temp1).
        if ec_signA co > 0
        then on_success (CMP_Subtract mem biggerCMP coeffB temp2) (\<lambda>temp2.
             on_success (CMP_Move mem temp2 coeffB) (\<lambda>coeffB. Inr (smallerCMP, coeffA, coeffB, gcdInt)))
        else on_success (CMP_Subtract mem smallerCMP coeffA temp2) (\<lambda>temp2.
             on_success (CMP_Move mem temp2 coeffA) (\<lambda>coeffA. Inr (smallerCMP, coeffA, coeffB, gcdInt)))))))"

definition CMP_ext_main ::
  "(nat \<Rightarrow> bool) \<Rightarrow> CMPInt \<Rightarrow> CMPInt \<Rightarrow> CMPInt \<Rightarrow> CMPInt \<Rightarrow> CMPInt \<Rightarrow>
   CMPStatus + CMPInt \<times> CMPInt \<times> CMPInt \<times> CMPInt" where
  "CMP_ext_main mem biggerCMP smallerCMP coeffA coeffB gcdInt =
     on_success (CMP_Move mem biggerCMP CMP_Constructor) (\<lambda>dividendP.
     on_success (CMP_Move mem smallerCMP CMP_Constructor) (\<lambda>divisorP.
     on_success (CMP_reallocNoCopy mem 1 CMP_Constructor) (\<lambda>prevA.
     let prevA = prevA\<lparr>cmp_words := [1]\<rparr>
     in on_success (CMP_ensureNoCopy mem 1 1 coeffA) (\<lambda>coeffA.
        let coeffA = coeffA\<lparr>cmp_words := [0]\<rparr>
        in if cmp_msw_zero smallerCMP
           then if cmp_msw_zero biggerCMP then Inl CMP_DOMAIN
                else on_success (CMP_Move mem biggerCMP gcdInt) (\<lambda>gcdInt.
                     on_success (CMP_ensureNoCopy mem 1 1 coeffB) (\<lambda>coeffB.
                       Inr (smallerCMP, coeffA, coeffB\<lparr>cmp_words := [1]\<rparr>, gcdInt)))
           else on_success (CMP_Divide mem dividendP divisorP coeffB gcdInt) (\<lambda>(dividendP, divisorP, coeffB, gcdInt).
             if cmp_msw_zero gcdInt
             then on_success (CMP_Move mem smallerCMP gcdInt) (\<lambda>gcdInt.
                    Inr (smallerCMP, coeffA, coeffB\<lparr>cmp_words := [1]\<rparr>, gcdInt))
             else on_success
               (case CMP_ext_loop mem dividendP divisorP gcdInt
                       \<lparr>ec_temp1 = CMP_Constructor, ec_temp2 = CMP_Constructor, ec_coeffB = coeffB,
                        ec_signPrev = 1, ec_signA = 1, ec_prevA = prevA, ec_coeffA = coeffA\<rparr> of
                  None \<Rightarrow> Inl CMP_NO_RETURN | Some r \<Rightarrow> r)
               (CMP_ext_finish mem biggerCMP smallerCMP))))))"

text \<open>The operands, the coefficients and the gcd; the coefficients are swapped when \<open>u\<close> is the smaller.\<close>

definition CMP_ComputeExtendedGCD ::
  "(nat \<Rightarrow> bool) \<Rightarrow> CMPInt \<Rightarrow> CMPInt \<Rightarrow> CMPInt \<Rightarrow> CMPInt \<Rightarrow> CMPInt \<Rightarrow>
   CMPStatus + CMPInt \<times> CMPInt \<times> CMPInt \<times> CMPInt \<times> CMPInt" where
  "CMP_ComputeExtendedGCD mem u v coeffA coeffB gcdInt =
     (if CMP_Compare u v \<ge> 0
      then on_success (CMP_ext_main mem u v coeffA coeffB gcdInt) (\<lambda>(v, coeffA, coeffB, gcdInt).
             Inr (u, v, coeffA, coeffB, gcdInt))
      else on_success (CMP_ext_main mem v u coeffA coeffB gcdInt) (\<lambda>(u, coeffA, coeffB, gcdInt).
           on_success (CMP_Move mem coeffA CMP_Constructor) (\<lambda>temp1.
           on_success (CMP_Move mem coeffB coeffA) (\<lambda>coeffA.
           on_success (CMP_Move mem temp1 coeffB) (\<lambda>coeffB.
             Inr (u, v, coeffA, coeffB, gcdInt))))))"

definition CMP_ModInvert ::
  "(nat \<Rightarrow> bool) \<Rightarrow> CMPInt \<Rightarrow> CMPInt \<Rightarrow> CMPInt \<Rightarrow> CMPStatus + CMPInt \<times> CMPInt \<times> CMPInt" where
  "CMP_ModInvert mem operand modulus inverseInt =
     (if CMP_Compare operand modulus \<ge> 0
      then if cmp_msw_zero modulus then Inl CMP_MODULUS else Inl CMP_RANGE
      else on_success (CMP_ComputeExtendedGCD mem operand modulus inverseInt CMP_Constructor CMP_Constructor)
             (\<lambda>(operand, modulus, inverseInt, coeff2, gcdInt).
             if cmp_len gcdInt \<noteq> 1 \<or> cmp_words gcdInt ! 0 \<noteq> 1 then Inl CMP_INVERSE
             else Inr (operand, modulus, inverseInt)))"

section \<open>The invariant of the loop\<close>

text \<open>
  \<open>R\<close> has been divided by \<open>p\<close> with remainder \<open>c\<close>. \<open>P\<close> and \<open>A\<close> are the coefficients of \<open>R\<close> and \<open>p\<close>
  with respect to \<open>big\<close>, modulo \<open>small\<close>, and bounded by the determinant \<open>A * R + P * p = small\<close>. After
  the first two steps the signs alternate.
\<close>

definition ext_signs :: "int \<Rightarrow> int \<Rightarrow> nat \<Rightarrow> nat \<Rightarrow> bool" where
  "ext_signs sP sA P A \<longleftrightarrow>
     sP = 1 \<and> sA = 1 \<and> (P = 1 \<and> A = 0 \<or> P = 0 \<and> A = 1) \<or> sP = - sA \<and> \<bar>sA\<bar> = 1 \<and> 0 < P \<and> 0 < A"

definition ext_inv :: "nat \<Rightarrow> nat \<Rightarrow> nat \<Rightarrow> CMPInt \<Rightarrow> CMPInt \<Rightarrow> ext_coeffs \<Rightarrow> bool" where
  "ext_inv big small R p c co \<longleftrightarrow>
     cmp_ok p \<and> cmp_ok c \<and> cmp_ok (ec_coeffB co) \<and> cmp_ok (ec_prevA co) \<and> cmp_ok (ec_coeffA co) \<and>
     R = cmp_num (ec_coeffB co) * cmp_num p + cmp_num c \<and> cmp_num c < cmp_num p \<and> cmp_num p \<le> R \<and>
     cmp_num (ec_coeffA co) * R + cmp_num (ec_prevA co) * cmp_num p = small \<and>
     int small dvd int R - ec_signPrev co * int (cmp_num (ec_prevA co)) * int big \<and>
     int small dvd int (cmp_num p) - ec_signA co * int (cmp_num (ec_coeffA co)) * int big \<and>
     ext_signs (ec_signPrev co) (ec_signA co) (cmp_num (ec_prevA co)) (cmp_num (ec_coeffA co)) \<and>
     gcd (cmp_num p) (cmp_num c) = gcd big small"

lemma ext_inv_quotient: "ext_inv big small R p c co \<Longrightarrow> 0 < cmp_num (ec_coeffB co)"
  unfolding ext_inv_def by (cases "cmp_num (ec_coeffB co)") auto

lemma CMP_Subtract_small:
  assumes mem: "\<And>n. mem n" and n: "cmp_ok x" "cmp_ok y" and le: "cmp_num y \<le> cmp_num x"
    and y: "cmp_num y < 4294967296"
  shows "\<exists>z. CMP_Subtract mem x y s = Inr z \<and> cmp_ok z \<and> cmp_num z = cmp_num x - cmp_num y"
proof -
  have nxy: "cmp_normal (cmp_words x)" "cmp_normal (cmp_words y)" using n by (simp_all add: cmp_ok_def)
  have l1: "cmp_len y = 1" using cmp_one_word [OF nxy(2) y] by auto
  obtain z where z: "CMP_Subtract mem x y s = Inr z" "cmp_len z \<le> cmp_len x" "cmp_len x \<le> cmp_space z" "cmp_words z \<noteq> []"
    "cmp_num z = cmp_num x - cmp_num y" "cmp_len x \<noteq> cmp_len y \<Longrightarrow> cmp_normal (cmp_words z)"
    "cmp_len x = cmp_len y \<Longrightarrow> cmp_len z = cmp_len x"
    using CMP_Subtract_correct [of mem x y s, OF mem nxy le] by blast
  have "cmp_normal (cmp_words z)"
    using z(4,6,7) l1 by (cases "cmp_len x = cmp_len y") (simp_all add: cmp_normal_def)
  with z show ?thesis by (auto simp: cmp_ok_def)
qed

text \<open>What one update does to the coefficients.\<close>

lemma CMP_UpdateCoefficients_correct:
  assumes mem: "\<And>n. mem n"
    and ok: "cmp_ok (ec_coeffB co)" "cmp_ok (ec_prevA co)" "cmp_ok (ec_coeffA co)"
    and q: "0 < cmp_num (ec_coeffB co)"
    and s: "ext_signs (ec_signPrev co) (ec_signA co) (cmp_num (ec_prevA co)) (cmp_num (ec_coeffA co))"
  shows "\<exists>co'. CMP_UpdateCoefficients mem co = Inr co' \<and> cmp_ok (ec_prevA co') \<and> cmp_ok (ec_coeffA co') \<and>
    cmp_num (ec_prevA co') = cmp_num (ec_coeffA co) \<and> ec_signPrev co' = ec_signA co \<and>
    cmp_num (ec_coeffA co') = cmp_num (ec_prevA co) + cmp_num (ec_coeffB co) * cmp_num (ec_coeffA co) \<and>
    ec_signA co' * int (cmp_num (ec_coeffA co')) = ec_signPrev co * int (cmp_num (ec_prevA co))
      - int (cmp_num (ec_coeffB co)) * (ec_signA co * int (cmp_num (ec_coeffA co))) \<and>
    ext_signs (ec_signPrev co') (ec_signA co') (cmp_num (ec_prevA co')) (cmp_num (ec_coeffA co'))"
proof -
  let ?Q = "cmp_num (ec_coeffB co)" and ?P = "cmp_num (ec_prevA co)" and ?A = "cmp_num (ec_coeffA co)"
  have ne: "cmp_words (ec_coeffB co) \<noteq> []" "cmp_words (ec_coeffA co) \<noteq> []"
    using ok by (auto simp: cmp_ok_def cmp_normal_def)
  obtain t where t: "CMP_Multiply mem (ec_coeffB co) (ec_coeffA co) (ec_temp2 co) = Inr t" "cmp_ok t" "cmp_num t = ?Q * ?A"
    using CMP_Multiply_correct [of mem _ _ "ec_temp2 co", OF mem ne] by blast
  have nt: "cmp_normal (cmp_words (ec_prevA co))" "cmp_normal (cmp_words t)" using ok t(2) by (simp_all add: cmp_ok_def)
  have moved: "\<exists>an an1. CMP_Move mem (ec_coeffA co) (ec_prevA co) = Inr an \<and> CMP_Move mem d (ec_coeffA co) = Inr an1 \<and>
      cmp_ok an \<and> cmp_words an = cmp_words (ec_coeffA co) \<and> cmp_ok an1 \<and> cmp_words an1 = cmp_words d" if "cmp_ok d" for d
    using CMP_Move_ok [of mem "ec_coeffA co" "ec_prevA co", OF mem ok(3)] CMP_Move_ok [of mem d "ec_coeffA co", OF mem that]
    by blast
  show ?thesis
  proof (cases "ec_signA co = ec_signPrev co")
    case False
    then have s': "ec_signPrev co = - ec_signA co" "\<bar>ec_signA co\<bar> = 1" "0 < ?P" "0 < ?A"
      using s by (auto simp: ext_signs_def)
    obtain d where d: "CMP_Add mem (ec_prevA co) t (ec_temp1 co) = Inr d" "cmp_ok d" "cmp_num d = ?P + ?Q * ?A"
      using CMP_Add_correct [of mem "ec_prevA co" t "ec_temp1 co", OF mem nt] unfolding t(3) by blast
    obtain an an1 where m: "CMP_Move mem (ec_coeffA co) (ec_prevA co) = Inr an" "CMP_Move mem d (ec_coeffA co) = Inr an1"
      "cmp_ok an" "cmp_words an = cmp_words (ec_coeffA co)" "cmp_ok an1" "cmp_words an1 = cmp_words d" using moved [OF d(2)] by blast
    have "CMP_UpdateCoefficients mem co = Inr (co\<lparr>ec_signPrev := ec_signA co, ec_temp2 := t, ec_temp1 := d,
        ec_signA := - ec_signA co, ec_prevA := an, ec_coeffA := an1\<rparr>)"
      using t(1) False d(1) m(1,2) by (simp add: CMP_UpdateCoefficients_def)
    moreover have "- ec_signA co * int (?P + ?Q * ?A) = ec_signPrev co * int ?P - int ?Q * (ec_signA co * int ?A)"
      by (simp add: s'(1) algebra_simps)
    ultimately show ?thesis using m d(3) s' by (simp add: ext_signs_def)
  next
    case True
    then have s': "ec_signPrev co = 1" "ec_signA co = 1" "?P = 1 \<and> ?A = 0 \<or> ?P = 0 \<and> ?A = 1"
      using s by (auto simp: ext_signs_def)
    have "\<exists>k d. CMP_AbsDifference mem (ec_prevA co) t (ec_temp1 co) = Inr (k, d) \<and> cmp_ok d \<and>
        cmp_num d = ?P + ?Q * ?A \<and> (if ?P = 1 then k = 1 else k = -1)"
    proof (cases "?P = 1")
      case p: True
      then have a: "?A = 0" using s'(3) by simp
      have "CMP_Compare (ec_prevA co) t \<ge> 0" using CMP_Compare_iff(3) [OF nt] a t(3) by simp
      then show ?thesis using p a t(3)
          CMP_Subtract_small [of mem "ec_prevA co" t "ec_temp1 co", OF mem ok(2) t(2)] by (auto simp: CMP_AbsDifference_def)
    next
      case False
      then have pa: "?P = 0" "?A = 1" using s'(3) by simp_all
      have "\<not> CMP_Compare (ec_prevA co) t \<ge> 0" using CMP_Compare_iff(3) [OF nt] pa t(3) q by simp
      then show ?thesis using pa t(3)
          CMP_Subtract_small [of mem t "ec_prevA co" "ec_temp1 co", OF mem t(2) ok(2)] by (auto simp: CMP_AbsDifference_def)
    qed
    then obtain k d where d: "CMP_AbsDifference mem (ec_prevA co) t (ec_temp1 co) = Inr (k, d)" "cmp_ok d"
      "cmp_num d = ?P + ?Q * ?A" "if ?P = 1 then k = 1 else k = -1" by blast
    obtain an an1 where m: "CMP_Move mem (ec_coeffA co) (ec_prevA co) = Inr an" "CMP_Move mem d (ec_coeffA co) = Inr an1"
      "cmp_ok an" "cmp_words an = cmp_words (ec_coeffA co)" "cmp_ok an1" "cmp_words an1 = cmp_words d" using moved [OF d(2)] by blast
    have "CMP_UpdateCoefficients mem co = Inr (co\<lparr>ec_signPrev := ec_signA co, ec_temp2 := t, ec_temp1 := d,
        ec_signA := ec_signA co * k, ec_prevA := an, ec_coeffA := an1\<rparr>)"
      using t(1) True d(1) m(1,2) by (simp add: CMP_UpdateCoefficients_def)
    then show ?thesis using m d(3,4) s' q by (auto simp: ext_signs_def)
  qed
qed

lemma CMP_ext_third_correct:
  assumes mem: "\<And>n. mem n" and I: "ext_inv big small R p c co" and c: "cmp_num c \<noteq> 0"
  shows "\<exists>p' c' r co'. CMP_ext_third mem p c spare co = Inr (p', c', r, co') \<and>
    ext_inv big small (cmp_num p) c' r co' \<and> cmp_num c' = cmp_num c \<and> 0 < cmp_num (ec_coeffA co')"
proof -
  note i = I [unfolded ext_inv_def]
  let ?Q = "cmp_num (ec_coeffB co)" and ?P = "cmp_num (ec_prevA co)" and ?A = "cmp_num (ec_coeffA co)"
  obtain co1 where U: "CMP_UpdateCoefficients mem co = Inr co1" "cmp_ok (ec_prevA co1)" "cmp_ok (ec_coeffA co1)"
    "cmp_num (ec_prevA co1) = ?A" "ec_signPrev co1 = ec_signA co" "cmp_num (ec_coeffA co1) = ?P + ?Q * ?A"
    "ec_signA co1 * int (cmp_num (ec_coeffA co1)) = ec_signPrev co * int ?P - int ?Q * (ec_signA co * int ?A)"
    "ext_signs (ec_signPrev co1) (ec_signA co1) (cmp_num (ec_prevA co1)) (cmp_num (ec_coeffA co1))"
    using CMP_UpdateCoefficients_correct [of mem co, OF mem _ _ _ ext_inv_quotient [OF I]] i by blast
  obtain p' c' q r where D: "CMP_Divide mem p c (ec_coeffB co1) spare = Inr (p', c', q, r)" "cmp_ok c'"
    "cmp_words p' = cmp_words p" "cmp_words c' = cmp_words c" "cmp_ok q" "cmp_ok r"
    "cmp_num q = cmp_num p div cmp_num c" "cmp_num r = cmp_num p mod cmp_num c"
    using CMP_Divide_correct [of mem p c "ec_coeffB co1" spare, OF mem] i c by blast
  let ?co = "co1\<lparr>ec_coeffB := q\<rparr>"
  have "CMP_ext_third mem p c spare co = Inr (p', c', r, ?co)"
    using U(1) D(1) by (simp add: CMP_ext_third_def)
  moreover have "ext_inv big small (cmp_num p) c' r ?co"
  proof -
    have R: "R = ?Q * cmp_num p + cmp_num c" using i by blast
    have "(?P + ?Q * ?A) * cmp_num p + ?A * cmp_num c = ?A * R + ?P * cmp_num p"
      unfolding R by (simp add: algebra_simps)
    moreover have "?A * R + ?P * cmp_num p = small" using i by blast
    ultimately have det: "(?P + ?Q * ?A) * cmp_num p + ?A * cmp_num c = small" by simp
    have d: "int small dvd int R - ec_signPrev co * int ?P * int big"
      "int small dvd int (cmp_num p) - ec_signA co * int ?A * int big" using i by blast+
    have "int (cmp_num c) - (ec_signPrev co * int ?P - int ?Q * (ec_signA co * int ?A)) * int big
        = (int R - ec_signPrev co * int ?P * int big) - int ?Q * (int (cmp_num p) - ec_signA co * int ?A * int big)"
      unfolding R by (simp add: algebra_simps)
    moreover have "int small dvd \<dots>" using dvd_diff [OF d(1) dvd_mult [OF d(2)]] by blast
    ultimately have "int small dvd int (cmp_num c) - ec_signA co1 * int (cmp_num (ec_coeffA co1)) * int big"
      unfolding U(7) by simp
    moreover have "gcd (cmp_num c) (cmp_num r) = gcd big small"
      using i unfolding D(8) by (metis gcd_red_nat)
    ultimately show ?thesis
      using i U D det c by (simp add: ext_inv_def)
  qed
  moreover have "0 < cmp_num (ec_coeffA ?co)"
    using i ext_inv_quotient [OF I] unfolding ext_signs_def by (auto simp: U(6))
  ultimately show ?thesis using D(4) by auto
qed

text \<open>How the loop ends: the last divisor is where the flag says, and the remainder is zero.\<close>

definition ext_result :: "nat \<Rightarrow> nat \<Rightarrow> CMPInt \<times> CMPInt \<times> CMPInt \<times> ext_coeffs \<times> nat \<Rightarrow> bool" where
  "ext_result big small = (\<lambda>(D, V, G, co, flag).
     \<exists>R z. ext_inv big small R (if flag = 0 then V else if flag = 2 then D else G) z co \<and> cmp_num z = 0 \<and>
       0 < cmp_num (ec_coeffA co) \<and> cmp_num (if flag = 0 then V else if flag = 2 then D else G) < R)"

lemma CMP_ext_loop_correct:
  assumes mem: "\<And>n. mem n"
  shows "ext_inv big small R p c co \<Longrightarrow> cmp_num c \<noteq> 0 \<Longrightarrow>
    \<exists>res. CMP_ext_loop mem spare p c co = Some (Inr res) \<and> ext_result big small res"
proof (induction "cmp_num c" arbitrary: R p c co spare rule: less_induct)
  case less
  have zero: "cmp_msw_zero x \<longleftrightarrow> cmp_num x = 0" if "ext_inv big small r y x k" for r y x k
    using that cmp_msw_zero_iff by (auto simp: ext_inv_def)
  have lt: "cmp_num x < cmp_num y" if "ext_inv big small r y x k" for r y x k
    using that by (simp add: ext_inv_def)
  obtain p1 c1 r1 co1 where 1: "CMP_ext_third mem p c spare co = Inr (p1, c1, r1, co1)"
    "ext_inv big small (cmp_num p) c1 r1 co1" "cmp_num c1 = cmp_num c" "0 < cmp_num (ec_coeffA co1)"
    using CMP_ext_third_correct [of mem big small R p c co spare, OF mem less.prems] by blast
  show ?case
  proof (cases "cmp_num r1 = 0")
    case True
    then have "CMP_ext_loop mem spare p c co = Some (Inr (r1, p1, c1, co1, 1))"
      using 1(1) zero [OF 1(2)] by (subst CMP_ext_loop.simps) simp
    moreover have "ext_result big small (r1, p1, c1, co1, 1)"
      using 1(2,3,4) True lt [OF less.prems(1)] by (auto simp: ext_result_def)
    ultimately show ?thesis by blast
  next
    case nz1: False
    obtain p2 c2 r2 co2 where 2: "CMP_ext_third mem c1 r1 p1 co1 = Inr (p2, c2, r2, co2)"
      "ext_inv big small (cmp_num c1) c2 r2 co2" "cmp_num c2 = cmp_num r1" "0 < cmp_num (ec_coeffA co2)"
      using CMP_ext_third_correct [of mem big small "cmp_num p" c1 r1 co1 p1, OF mem 1(2) nz1] by blast
    show ?thesis
    proof (cases "cmp_num r2 = 0")
      case True
      then have "CMP_ext_loop mem spare p c co = Some (Inr (c2, r2, p2, co2, 2))"
        using 1(1) 2(1) zero [OF 1(2)] zero [OF 2(2)] nz1 by (subst CMP_ext_loop.simps) simp
      moreover have "ext_result big small (c2, r2, p2, co2, 2)"
        using 2(2,3,4) True lt [OF 1(2)] by (auto simp: ext_result_def)
      ultimately show ?thesis by blast
    next
      case nz2: False
      obtain p3 c3 r3 co3 where 3: "CMP_ext_third mem c2 r2 p2 co2 = Inr (p3, c3, r3, co3)"
        "ext_inv big small (cmp_num c2) c3 r3 co3" "cmp_num c3 = cmp_num r2" "0 < cmp_num (ec_coeffA co3)"
        using CMP_ext_third_correct [of mem big small "cmp_num c1" c2 r2 co2 p2, OF mem 2(2) nz2] by blast
      show ?thesis
      proof (cases "cmp_num r3 = 0")
        case True
        then have "CMP_ext_loop mem spare p c co = Some (Inr (p3, c3, r3, co3, 0))"
          using 1(1) 2(1) 3(1) zero [OF 1(2)] zero [OF 2(2)] zero [OF 3(2)] nz1 nz2
          by (subst CMP_ext_loop.simps) simp
        moreover have "ext_result big small (p3, c3, r3, co3, 0)"
          using 3(2,3,4) True lt [OF 2(2)] by (auto simp: ext_result_def)
        ultimately show ?thesis by blast
      next
        case False
        then have "CMP_ext_loop mem spare p c co = CMP_ext_loop mem p3 c3 r3 co3"
          using 1(1) 2(1) 3(1) zero [OF 1(2)] zero [OF 2(2)] zero [OF 3(2)] nz1 nz2
          by (subst CMP_ext_loop.simps) simp
        moreover have "cmp_num r3 < cmp_num c"
          using lt [OF 3(2)] lt [OF 2(2)] lt [OF 1(2)] 1(3) 2(3) 3(3) by linarith
        ultimately show ?thesis using less.hyps [OF _ 3(2) False] by simp
      qed
    qed
  qed
qed

section \<open>The coefficients\<close>

lemma ext_finish_bounds:
  fixes A R P g big small :: nat
  assumes det: "A * R + P * g = small" and R: "g < R" and g: "0 < g" "g dvd big" "g < small" "small \<le> big" and A: "0 < A"
  shows "2 * g \<le> big" and "2 * A \<le> small"
proof -
  have lt: "g < big" using g by linarith
  obtain k where k: "big = g * k" using g(2) by blast
  with lt have "1 < k" by (cases k) auto
  then have "g * 2 \<le> g * k" by (intro mult_le_mono2) simp
  then show "2 * g \<le> big" using k by simp
  have "A * 2 \<le> A * R" using R g(1) by (intro mult_le_mono2) simp
  then show "2 * A \<le> small" using det by linarith
qed

lemma cong_gcd_nat:
  fixes x s b g :: nat
  assumes "int s dvd int g - int x * int b"
  shows "x * b mod s = g mod s"
proof -
  have "int (x * b) mod int s = int g mod int s"
    using assms by (metis mod_eq_dvd_iff of_nat_mult)
  then show ?thesis by (metis of_nat_eq_iff of_nat_mod)
qed

text \<open>Positive coefficient: the other one is negative, and made positive modulo \<open>big\<close>.\<close>

lemma ext_positive:
  fixes A g big small :: nat
  assumes d: "int small dvd int g - int A * int big" and b: "2 * g \<le> big" "2 * A \<le> small" "0 < A" "0 < g"
  shows "(A * big - g) mod small = 0" and "0 < (A * big - g) div small" and "(A * big - g) div small \<le> big"
    and "(big - (A * big - g) div small) * small mod big = g mod big"
proof -
  have "1 * big \<le> A * big" using b(3) by (intro mult_le_mono1) simp
  then have le: "g < A * big" using b by linarith
  have s: "0 < small" using b by linarith
  have dvd: "small dvd A * big - g"
  proof -
    have "int (A * big - g) = - (int g - int A * int big)" using le by simp
    then have "int small dvd int (A * big - g)" using d by (simp only: dvd_minus_iff)
    then show ?thesis by (simp only: of_nat_dvd_iff)
  qed
  then show "(A * big - g) mod small = 0" by simp
  obtain k where k: "A * big - g = small * k" using dvd by blast
  have kd: "(A * big - g) div small = k" using k s by simp
  show "0 < (A * big - g) div small" unfolding kd using k le by (cases k) simp_all
  have "A * big \<le> small * big" using b(2) by (intro mult_le_mono1) simp
  then have "small * k \<le> small * big" using k by linarith
  then have kb: "k \<le> big" using s by simp
  then show "(A * big - g) div small \<le> big" unfolding kd .
  have "(big - k) * small + A * big = g + small * big"
  proof -
    have "(big - k) * small = big * small - small * k" by (simp only: diff_mult_distrib mult.commute [of k small])
    moreover have "small * k \<le> big * small" using kb by (simp add: mult.commute)
    ultimately show ?thesis using k le by (simp add: mult.commute)
  qed
  then have "((big - k) * small + A * big) mod big = (g + small * big) mod big" by simp
  then show "(big - (A * big - g) div small) * small mod big = g mod big" unfolding kd by simp
qed

text \<open>Negative coefficient: it is made positive modulo \<open>small\<close>.\<close>

lemma ext_negative:
  fixes A g big small :: nat
  assumes d: "int small dvd int g + int A * int big" and b: "2 * g \<le> big" "2 * A \<le> small" "0 < A" "1 < small" "0 < g"
  shows "(A * big + g) mod small = 0" and "(A * big + g) div small < big"
    and "(A * big + g) div small * small mod big = g mod big" and "(small - A) * big mod small = g mod small"
proof -
  have dvd: "small dvd A * big + g"
  proof -
    have "int small dvd int (A * big + g)" using d by (simp add: add.commute)
    then show ?thesis by (simp only: of_nat_dvd_iff)
  qed
  then show "(A * big + g) mod small = 0" by simp
  obtain k where k: "A * big + g = small * k" using dvd by blast
  have kd: "(A * big + g) div small = k" using k b(4) by simp
  have "2 * A * big \<le> small * big" using b(2) by (intro mult_le_mono1) simp
  moreover have "2 * big \<le> small * big" using b(4) by (intro mult_le_mono1) simp
  moreover have "0 < big" using b(1,5) by linarith
  ultimately have "A * big + g < small * big" using b(1) by linarith
  then show "(A * big + g) div small < big" unfolding kd k by simp
  have "k * small mod big = (g + A * big) mod big" using k by (simp add: ac_simps)
  then show "(A * big + g) div small * small mod big = g mod big" unfolding kd by simp
  have "int g - int (small - A) * int big = (int g + int A * int big) - int small * int big"
    using b by (simp add: algebra_simps)
  then have "int small dvd int g - int (small - A) * int big"
    using dvd_diff [OF d dvd_triv_left] by (simp only:)
  then show "(small - A) * big mod small = g mod small" by (rule cong_gcd_nat)
qed

text \<open>The difference that is divided last has no zero words: it is at least the gcd.\<close>

lemma CMP_Subtract_normal:
  assumes mem: "\<And>n. mem n" and n: "cmp_ok x" "cmp_ok y" and le: "2 * cmp_num y \<le> cmp_num x"
  shows "\<exists>z. CMP_Subtract mem x y s = Inr z \<and> cmp_ok z \<and> cmp_num z = cmp_num x - cmp_num y"
proof -
  have nxy: "cmp_normal (cmp_words x)" "cmp_normal (cmp_words y)" using n by (simp_all add: cmp_ok_def)
  have le': "cmp_num y \<le> cmp_num x" using le by simp
  obtain z where z: "CMP_Subtract mem x y s = Inr z" "cmp_len z \<le> cmp_len x" "cmp_len x \<le> cmp_space z" "cmp_words z \<noteq> []"
    "cmp_num z = cmp_num x - cmp_num y" "cmp_len x \<noteq> cmp_len y \<Longrightarrow> cmp_normal (cmp_words z)"
    "cmp_len x = cmp_len y \<Longrightarrow> cmp_len z = cmp_len x"
    using CMP_Subtract_correct [of mem x y s, OF mem nxy le'] by blast
  have "cmp_normal (cmp_words z)"
  proof (cases "cmp_len x = cmp_len y")
    case True
    have "cmp_num y \<le> cmp_num z" using z(5) le by simp
    then show ?thesis using cmp_normal_full [OF nxy(2) z(4)] z(7) True by simp
  qed (use z(6) in simp)
  with z show ?thesis by (auto simp: cmp_ok_def)
qed

text \<open>What the extended algorithm promises: two coefficients and the gcd.\<close>

definition ext_ok :: "nat \<Rightarrow> nat \<Rightarrow> CMPInt \<Rightarrow> CMPInt \<Rightarrow> CMPInt \<Rightarrow> bool" where
  "ext_ok big small a b g \<longleftrightarrow>
     cmp_words a \<noteq> [] \<and> cmp_words b \<noteq> [] \<and> cmp_len a \<le> cmp_space a \<and> cmp_len b \<le> cmp_space b \<and>
     cmp_ok g \<and> cmp_num g = gcd big small \<and>
     cmp_num a * big mod small = gcd big small mod small \<and> cmp_num b * small mod big = gcd big small mod big \<and>
     (1 < big \<longrightarrow> cmp_num b < big)"

lemma CMP_ext_finish_correct:
  assumes mem: "\<And>n. mem n" and ok: "cmp_ok bigger" "cmp_ok smaller"
    and le: "cmp_num smaller \<le> cmp_num bigger" "0 < cmp_num smaller" "gcd (cmp_num bigger) (cmp_num smaller) < cmp_num smaller"
    and res: "ext_result (cmp_num bigger) (cmp_num smaller) res"
  shows "\<exists>smaller' a b g. CMP_ext_finish mem bigger smaller res = Inr (smaller', a, b, g) \<and>
    cmp_words smaller' = cmp_words smaller \<and> cmp_ok smaller' \<and> ext_ok (cmp_num bigger) (cmp_num smaller) a b g"
proof -
  let ?b = "cmp_num bigger" and ?s = "cmp_num smaller"
  obtain D V G co flag where r: "res = (D, V, G, co, flag)" by (metis prod_cases5)
  define L where "L = (if flag = 0 then V else if flag = 2 then D else G)"
  obtain R z where I: "ext_inv ?b ?s R L z co" "cmp_num z = 0" "0 < cmp_num (ec_coeffA co)" "cmp_num L < R"
    using res by (auto simp: ext_result_def r L_def)
  let ?A = "cmp_num (ec_coeffA co)" and ?g = "cmp_num L"
  note i = I(1) [unfolded ext_inv_def]
  have g: "?g = gcd ?b ?s" using i I(2) by simp
  obtain moved where moved: "(if flag = 0 then CMP_Move mem V G else if flag = 2 then CMP_Move mem D G else Inr G) = Inr moved"
    "cmp_ok moved" "cmp_words moved = cmp_words L"
  proof (cases "flag = 0 \<or> flag = 2")
    case True
    obtain d where "CMP_Move mem L G = Inr d" "cmp_words d = cmp_words L" "cmp_ok d"
      using CMP_Move_ok [of mem L G, OF mem] i by blast
    with True show ?thesis by (intro that [of d]) (auto simp: L_def)
  next
    case False
    with i show ?thesis by (intro that [of G]) (auto simp: L_def)
  qed
  have det: "?A * R + cmp_num (ec_prevA co) * ?g = ?s" using i by blast
  have gpos: "0 < ?g" "?g dvd ?b" "?g < ?s" using le g by simp_all
  note bounds = ext_finish_bounds [OF det I(4) gpos le(1) I(3)]
  have neA: "cmp_words (ec_coeffA co) \<noteq> []" "cmp_words bigger \<noteq> []" using i ok by (auto simp: cmp_ok_def cmp_normal_def)
  obtain t1 where t1: "CMP_Multiply mem (ec_coeffA co) bigger (ec_temp1 co) = Inr t1" "cmp_ok t1" "cmp_num t1 = ?A * ?b"
    using CMP_Multiply_correct [of mem _ _ "ec_temp1 co", OF mem neA] by blast
  have sd: "int ?s dvd int ?g - ec_signA co * int ?A * int ?b" using i by blast
  have nm: "cmp_normal (cmp_words moved)" "cmp_normal (cmp_words t1)" "cmp_normal (cmp_words bigger)"
      "cmp_normal (cmp_words smaller)" "cmp_normal (cmp_words (ec_coeffA co))"
    using moved(2) t1(2) ok i by (simp_all add: cmp_ok_def)
  have numm: "cmp_num moved = ?g" using moved(3) by simp
  show ?thesis
  proof (cases "ec_signA co > 0")
    case True
    then have "ec_signA co = 1" using i by (auto simp: ext_signs_def)
    then have d: "int ?s dvd int ?g - int ?A * int ?b" using sd by simp
    note e = ext_positive [OF d bounds I(3) gpos(1)]
    have "1 * ?b \<le> ?A * ?b" using I(3) by (intro mult_le_mono1) simp
    then have "2 * cmp_num moved \<le> cmp_num t1" using bounds(1) numm t1(3) by linarith
    then obtain t2 where t2: "CMP_Subtract mem t1 moved (ec_temp2 co) = Inr t2" "cmp_ok t2" "cmp_num t2 = ?A * ?b - ?g"
      using CMP_Subtract_normal [of mem t1 moved "ec_temp2 co", OF mem t1(2) moved(2)] t1(3) numm by auto
    obtain t2' s' cB t1' where D: "CMP_Divide mem t2 smaller (ec_coeffB co) t1 = Inr (t2', s', cB, t1')" "cmp_ok s'"
      "cmp_words s' = cmp_words smaller" "cmp_ok cB" "cmp_num cB = cmp_num t2 div ?s"
      using CMP_Divide_correct [of mem t2 smaller "ec_coeffB co" t1, OF mem t2(2) ok(2) le(2)] by blast
    have cB: "cmp_num cB = (?A * ?b - ?g) div ?s" using D(5) t2(3) by simp
    have leB: "cmp_num cB \<le> ?b" using e(3) cB by simp
    have ncB: "cmp_normal (cmp_words cB)" using D(4) by (simp add: cmp_ok_def)
    obtain w where w: "CMP_Subtract mem bigger cB t2' = Inr w" "cmp_words w \<noteq> []" "cmp_num w = ?b - cmp_num cB"
      using CMP_Subtract_correct [of mem bigger cB t2', OF mem nm(3) ncB leB] by blast
    obtain b where b: "CMP_Move mem w cB = Inr b" "cmp_words b = cmp_words w" "cmp_len w \<le> cmp_space b"
      using CMP_Move_correct [of mem w cB, OF mem] by blast
    have "CMP_ext_finish mem bigger smaller res = Inr (s', ec_coeffA co, b, moved)"
      using moved(1) t1(1) t2(1) D(1) w(1) b(1) True by (simp add: CMP_ext_finish_def r Let_def)
    moreover have "ext_ok ?b ?s (ec_coeffA co) b moved"
    proof -
      have "?A * ?b mod ?s = ?g mod ?s" by (rule cong_gcd_nat [OF d])
      then show ?thesis
        using i neA w b moved(2) numm g e(2,4) cB by (auto simp: ext_ok_def cmp_ok_def)
    qed
    ultimately show ?thesis using D(2,3) by blast
  next
    case False
    then have "ec_signA co = -1" using i by (auto simp: ext_signs_def)
    then have d: "int ?s dvd int ?g + int ?A * int ?b" using sd by simp
    have s1: "1 < ?s" using gpos by linarith
    note e = ext_negative [OF d bounds I(3) s1 gpos(1)]
    obtain t2 where t2: "CMP_Add mem t1 moved (ec_temp2 co) = Inr t2" "cmp_ok t2" "cmp_num t2 = ?A * ?b + ?g"
      using CMP_Add_correct [of mem t1 moved "ec_temp2 co", OF mem nm(2,1)] t1(3) numm by auto
    obtain t2' s' cB t1' where D: "CMP_Divide mem t2 smaller (ec_coeffB co) t1 = Inr (t2', s', cB, t1')" "cmp_ok s'"
      "cmp_words s' = cmp_words smaller" "cmp_ok cB" "cmp_num cB = cmp_num t2 div ?s"
      using CMP_Divide_correct [of mem t2 smaller "ec_coeffB co" t1, OF mem t2(2) ok(2) le(2)] by blast
    have cB: "cmp_num cB = (?A * ?b + ?g) div ?s" using D(5) t2(3) by simp
    have leA: "?A \<le> cmp_num s'" "cmp_normal (cmp_words s')" using bounds(2) D(2,3) by (simp_all add: cmp_ok_def)
    obtain w where w: "CMP_Subtract mem s' (ec_coeffA co) t2' = Inr w" "cmp_words w \<noteq> []" "cmp_num w = cmp_num s' - ?A"
      using CMP_Subtract_correct [of mem s' "ec_coeffA co" t2', OF mem leA(2) nm(5) leA(1)] by blast
    obtain a where a: "CMP_Move mem w (ec_coeffA co) = Inr a" "cmp_words a = cmp_words w" "cmp_len w \<le> cmp_space a"
      using CMP_Move_correct [of mem w "ec_coeffA co", OF mem] by blast
    have "CMP_ext_finish mem bigger smaller res = Inr (s', a, cB, moved)"
      using moved(1) t1(1) t2(1) D(1) w(1) a(1) False by (simp add: CMP_ext_finish_def r Let_def)
    moreover have "ext_ok ?b ?s a cB moved"
      using D(3,4) w a moved(2) numm g e(2,3,4) cB by (auto simp: ext_ok_def cmp_ok_def cmp_normal_def)
    ultimately show ?thesis using D(2,3) by blast
  qed
qed

lemma CMP_ext_main_correct:
  assumes mem: "\<And>n. mem n" and ok: "cmp_ok bigger" "cmp_ok smaller"
    and le: "cmp_num smaller \<le> cmp_num bigger" "0 < cmp_num smaller"
  shows "\<exists>smaller' a b g. CMP_ext_main mem bigger smaller cA cB gi = Inr (smaller', a, b, g) \<and>
    cmp_words smaller' = cmp_words smaller \<and> cmp_ok smaller' \<and> ext_ok (cmp_num bigger) (cmp_num smaller) a b g"
proof -
  let ?b = "cmp_num bigger" and ?s = "cmp_num smaller"
  obtain D where D: "CMP_Move mem bigger CMP_Constructor = Inr D" "cmp_words D = cmp_words bigger" "cmp_ok D"
    using CMP_Move_ok [of mem bigger CMP_Constructor, OF mem ok(1)] by blast
  obtain V where V: "CMP_Move mem smaller CMP_Constructor = Inr V" "cmp_words V = cmp_words smaller" "cmp_ok V"
    using CMP_Move_ok [of mem smaller CMP_Constructor, OF mem ok(2)] by blast
  have P: "CMP_reallocNoCopy mem 1 CMP_Constructor = Inr \<lparr>cmp_space = 1, cmp_words = []\<rparr>"
    using mem by (simp add: CMP_reallocNoCopy_def CMP_Constructor_def)
  obtain A where A: "CMP_ensureNoCopy mem 1 1 cA = Inr A" "1 \<le> cmp_space A"
    using CMP_ensureNoCopy_cases [of 1 1 mem cA] mem by auto
  let ?A = "A\<lparr>cmp_words := [0]\<rparr>" and ?P = "\<lparr>cmp_space = 1, cmp_words = [1 :: u32]\<rparr>"
  have s: "\<not> cmp_msw_zero smaller" using cmp_msw_zero_iff [OF ok(2)] le by simp
  have Vpos: "0 < cmp_num V" using V(2) le by simp
  obtain D' V' q r where d: "CMP_Divide mem D V cB gi = Inr (D', V', q, r)" "cmp_ok V'" "cmp_words V' = cmp_words V"
    "cmp_ok q" "cmp_ok r" "cmp_num q = cmp_num D div cmp_num V" "cmp_num r = cmp_num D mod cmp_num V"
    using CMP_Divide_correct [of mem D V cB gi, OF mem D(3) V(3) Vpos] by blast
  show ?thesis
  proof (cases "cmp_num r = 0")
    case True
    then have z: "cmp_msw_zero r" using cmp_msw_zero_iff [OF d(5)] by simp
    obtain g where g: "CMP_Move mem smaller r = Inr g" "cmp_words g = cmp_words smaller" "cmp_ok g"
      using CMP_Move_ok [of mem smaller r, OF mem ok(2)] by blast
    have "?s dvd ?b" using True d(7) D(2) V(2) by auto
    then have "gcd ?b ?s = ?s" by (simp add: gcd_nat.absorb2)
    then have "ext_ok ?b ?s ?A (q\<lparr>cmp_words := [1]\<rparr>) g"
      using A(2) g d(4) by (auto simp: ext_ok_def cmp_ok_def cmp_normal_def Suc_le_eq neq_Nil_conv)
    moreover have "CMP_ext_main mem bigger smaller cA cB gi = Inr (smaller, ?A, q\<lparr>cmp_words := [1]\<rparr>, g)"
      using D(1) V(1) P A(1) s d(1) z g(1) by (simp add: CMP_ext_main_def)
    ultimately show ?thesis using ok by blast
  next
    case False
    then have z: "\<not> cmp_msw_zero r" using cmp_msw_zero_iff [OF d(5)] by simp
    let ?co = "\<lparr>ec_temp1 = CMP_Constructor, ec_temp2 = CMP_Constructor, ec_coeffB = q,
        ec_signPrev = 1, ec_signA = 1, ec_prevA = ?P, ec_coeffA = ?A\<rparr>"
    have I: "ext_inv ?b ?s ?b V' r ?co"
      unfolding ext_inv_def
    proof (intro conjI)
      show "?b = cmp_num (ec_coeffB ?co) * cmp_num V' + cmp_num r"
        using d(3,6,7) D(2) V(2) by simp
      show "cmp_num r < cmp_num V'" using d(3,7) Vpos by simp
      show "gcd (cmp_num V') (cmp_num r) = gcd ?b ?s"
        using d(3,7) D(2) V(2) by (metis gcd_red_nat)
    qed (use A d le V in \<open>simp_all add: cmp_ok_def cmp_normal_def ext_signs_def\<close>)
    obtain res where L: "CMP_ext_loop mem D' V' r ?co = Some (Inr res)" "ext_result ?b ?s res"
      using CMP_ext_loop_correct [of mem ?b ?s ?b V' r ?co D', OF mem I False] by blast
    have "gcd ?b ?s \<noteq> ?s"
    proof
      assume "gcd ?b ?s = ?s"
      then have "?s dvd ?b" by (metis gcd_dvd1)
      with False d(7) D(2) V(2) show False by simp
    qed
    moreover have "gcd ?b ?s \<le> ?s" using le(2) by (intro gcd_le2_nat) simp
    ultimately have "gcd ?b ?s < ?s" by (rule le_neq_trans [rotated])
    from CMP_ext_finish_correct [of mem bigger smaller res, OF mem ok le this L(2)]
    obtain s' a b g where F: "CMP_ext_finish mem bigger smaller res = Inr (s', a, b, g)" "cmp_words s' = cmp_words smaller"
      "cmp_ok s'" "ext_ok ?b ?s a b g" by blast
    have "CMP_ext_main mem bigger smaller cA cB gi = Inr (s', a, b, g)"
      using D(1) V(1) P A(1) s d(1) z L(1) F(1) by (simp add: CMP_ext_main_def)
    with F(2-4) show ?thesis by blast
  qed
qed

lemma CMP_ext_main_zero:
  assumes mem: "\<And>n. mem n" and ok: "cmp_ok bigger" "cmp_ok smaller" and z: "cmp_num smaller = 0" "cmp_num bigger \<noteq> 0"
  shows "\<exists>a b g. CMP_ext_main mem bigger smaller cA cB gi = Inr (smaller, a, b, g) \<and> cmp_words g = cmp_words bigger"
proof -
  obtain D where D: "CMP_Move mem bigger CMP_Constructor = Inr D"
    using CMP_Move_ok [of mem bigger CMP_Constructor, OF mem ok(1)] by blast
  obtain V where V: "CMP_Move mem smaller CMP_Constructor = Inr V"
    using CMP_Move_ok [of mem smaller CMP_Constructor, OF mem ok(2)] by blast
  obtain g where g: "CMP_Move mem bigger gi = Inr g" "cmp_words g = cmp_words bigger"
    using CMP_Move_ok [of mem bigger gi, OF mem ok(1)] by blast
  have P: "CMP_reallocNoCopy mem 1 CMP_Constructor = Inr \<lparr>cmp_space = 1, cmp_words = []\<rparr>"
    using mem by (simp add: CMP_reallocNoCopy_def CMP_Constructor_def)
  obtain A B where "CMP_ensureNoCopy mem 1 1 cA = Inr A" "CMP_ensureNoCopy mem 1 1 cB = Inr B"
    using CMP_ensureNoCopy_cases [of 1 1 mem cA] CMP_ensureNoCopy_cases [of 1 1 mem cB] mem by auto
  then show ?thesis
    using D V P g z cmp_msw_zero_iff [OF ok(2)] cmp_msw_zero_iff [OF ok(1)] by (simp add: CMP_ext_main_def)
qed

section \<open>The modular inverse\<close>

lemma CMP_ModInvert_correct:
  assumes mem: "\<And>n. mem n" and x: "cmp_ok x" and m: "cmp_ok m" "1 < cmp_num m" and lt: "cmp_num x < cmp_num m"
  shows "if coprime (cmp_num x) (cmp_num m)
    then \<exists>x' m' z. CMP_ModInvert mem x m s = Inr (x', m', z) \<and> cmp_words x' = cmp_words x \<and> cmp_words m' = cmp_words m \<and>
      cmp_ok x' \<and> cmp_ok m' \<and> cmp_words z \<noteq> [] \<and> cmp_num z < cmp_num m \<and> cmp_num z * cmp_num x mod cmp_num m = 1
    else CMP_ModInvert mem x m s = Inl CMP_INVERSE"
proof -
  have n: "cmp_normal (cmp_words x)" "cmp_normal (cmp_words m)" using x m by (simp_all add: cmp_ok_def)
  have cmp: "\<not> CMP_Compare x m \<ge> 0" using CMP_Compare_iff(3) [OF n] lt by simp
  have one: "cmp_len g = 1 \<and> cmp_words g ! 0 = 1 \<longleftrightarrow> cmp_num g = 1" if "cmp_ok g" for g
  proof
    assume "cmp_num g = 1"
    then have "cmp_words g = [1]" using that by (intro cmp_normal_inj) (simp_all add: cmp_ok_def cmp_normal_def)
    then show "cmp_len g = 1 \<and> cmp_words g ! 0 = 1" by simp
  qed (cases "cmp_words g", auto)
  show ?thesis
  proof (cases "cmp_num x = 0")
    case True
    obtain a b g where E: "CMP_ext_main mem m x s CMP_Constructor CMP_Constructor = Inr (x, a, b, g)" "cmp_words g = cmp_words m"
      using CMP_ext_main_zero [of mem m x s CMP_Constructor CMP_Constructor, OF mem m(1) x True] m(2) by auto
    obtain t where t: "CMP_Move mem a CMP_Constructor = Inr t" using CMP_Move_correct [of mem a CMP_Constructor, OF mem] by blast
    obtain a' where a': "CMP_Move mem b a = Inr a'" using CMP_Move_correct [of mem b a, OF mem] by blast
    obtain b' where b': "CMP_Move mem t b = Inr b'" using CMP_Move_correct [of mem t b, OF mem] by blast
    have "CMP_ComputeExtendedGCD mem x m s CMP_Constructor CMP_Constructor = Inr (x, m, a', b', g)"
      using cmp E(1) t a' b' by (simp add: CMP_ComputeExtendedGCD_def)
    moreover have "\<not> (cmp_len m = 1 \<and> cmp_words m ! 0 = 1)" using one [OF m(1)] m(2) by simp
    ultimately have "CMP_ModInvert mem x m s = Inl CMP_INVERSE"
      using cmp E(2) by (auto simp: CMP_ModInvert_def)
    with True m(2) show ?thesis by simp
  next
    case False
    have le: "cmp_num x \<le> cmp_num m" "0 < cmp_num x" using lt False by simp_all
    obtain x' a b g where E: "CMP_ext_main mem m x s CMP_Constructor CMP_Constructor = Inr (x', a, b, g)"
      "cmp_words x' = cmp_words x" "cmp_ok x'" "ext_ok (cmp_num m) (cmp_num x) a b g"
      using CMP_ext_main_correct [of mem m x s CMP_Constructor CMP_Constructor, OF mem m(1) x le] by blast
    obtain t where t: "CMP_Move mem a CMP_Constructor = Inr t" using CMP_Move_correct [of mem a CMP_Constructor, OF mem] by blast
    obtain a' where a': "CMP_Move mem b a = Inr a'" "cmp_words a' = cmp_words b" using CMP_Move_correct [of mem b a, OF mem] by blast
    obtain b' where b': "CMP_Move mem t b = Inr b'" using CMP_Move_correct [of mem t b, OF mem] by blast
    have G: "CMP_ComputeExtendedGCD mem x m s CMP_Constructor CMP_Constructor = Inr (x', m, a', b', g)"
      using cmp E(1) t a' b' by (simp add: CMP_ComputeExtendedGCD_def)
    have g: "cmp_ok g" "cmp_num g = gcd (cmp_num m) (cmp_num x)" using E(4) by (simp_all add: ext_ok_def)
    have cop: "coprime (cmp_num x) (cmp_num m) \<longleftrightarrow> cmp_num g = 1"
      unfolding g(2) by (simp add: coprime_iff_gcd_eq_1 gcd.commute)
    show ?thesis
    proof (cases "coprime (cmp_num x) (cmp_num m)")
      case True
      then have g1: "cmp_num g = 1" using cop by simp
      then have "CMP_ModInvert mem x m s = Inr (x', m, a')"
        using cmp G one [OF g(1)] by (auto simp: CMP_ModInvert_def)
      moreover have "cmp_num b * cmp_num x mod cmp_num m = 1" "cmp_num b < cmp_num m" "cmp_words b \<noteq> []"
        using E(4) g1 g(2) m(2) by (simp_all add: ext_ok_def)
      ultimately show ?thesis using True E(2,3) a'(2) m(1) by auto
    next
      case False
      then have "cmp_num g \<noteq> 1" using cop by simp
      then have "CMP_ModInvert mem x m s = Inl CMP_INVERSE"
        using cmp G one [OF g(1)] by (auto simp: CMP_ModInvert_def)
      with False show ?thesis by simp
    qed
  qed
qed

end
