(* ===== verification/CMP_Convert.thy ===== *)
theory CMP_Convert
  imports CMP_ModExp CMP_ExtGCD
begin

text \<open>
  Conversions: security/lib/crypto/cmpcnv.c. Octet strings have their most significant byte first.
  What a routine writes into its output buffer is the list that it returns.
\<close>

section \<open>The model\<close>

text \<open>The bytes of a word are shifted together, the least significant first.\<close>

fun CMP_bytes_word :: "nat \<Rightarrow> u32 \<Rightarrow> u8 list \<Rightarrow> u32" where
  "CMP_bytes_word j w [] = w"
| "CMP_bytes_word j w (b # bs) = CMP_bytes_word (j + 1) (w OR push_bit (j * 8) (ucast b)) bs"

text \<open>Words of 4 bytes, and the last one of what is left; the bytes come from the end of the string.\<close>

function CMP_octet_words :: "u8 list \<Rightarrow> u32 list" where
  "CMP_octet_words bs = (if bs = [] then [] else CMP_bytes_word 0 0 (take 4 bs) # CMP_octet_words (drop 4 bs))"
  by pat_completeness auto
termination by (relation "measure length") auto

declare CMP_octet_words.simps [simp del]

definition CMP_OctetStringToCMPInt :: "(nat \<Rightarrow> bool) \<Rightarrow> u8 list \<Rightarrow> CMPInt \<Rightarrow> CMPStatus + CMPInt" where
  "CMP_OctetStringToCMPInt mem octetString theInt =
     (let theIntLen = (length octetString + 4 - 1) div 4
      in on_success (CMP_ensureNoCopy mem theIntLen (theIntLen + 1) theInt) (\<lambda>theInt.
         if theIntLen = 0 then Inl CMP_OUT_OF_BOUNDS
         else Inr (theInt\<lparr>cmp_words := CMP_strip (CMP_octet_words (rev octetString))\<rparr>)))"

definition CMP_byte :: "nat \<Rightarrow> u32 \<Rightarrow> u8" where
  "CMP_byte i w = ucast (drop_bit (i * 8) w)"

text \<open>The index of the first byte that is not zero, or 0.\<close>

fun CMP_first_byte :: "u32 \<Rightarrow> nat \<Rightarrow> nat" where
  "CMP_first_byte w 0 = 0"
| "CMP_first_byte w (Suc i) = (if CMP_byte (Suc i) w = 0 then CMP_first_byte w i else Suc i)"

text \<open>The bytes \<open>i\<close> down to 0 of the first word, then all bytes of the others.\<close>

definition CMP_word_octets :: "nat \<Rightarrow> u32 \<Rightarrow> u8 list" where
  "CMP_word_octets i w = map (\<lambda>j. CMP_byte j w) (rev [0..<i + 1])"

definition CMP_CMPIntToOctetString :: "CMPInt \<Rightarrow> nat \<Rightarrow> CMPStatus + u8 list" where
  "CMP_CMPIntToOctetString theInt octetStringBufferSize =
     (if cmp_words theInt = [] then Inl CMP_OUT_OF_BOUNDS
      else let wordTmp = last (cmp_words theInt); i = CMP_first_byte wordTmp 3; firstByte = CMP_byte i wordTmp;
          octetStringLen = cmp_len theInt * 4 - (3 - i)
      in if firstByte = 0
         then if octetStringLen = 1
              then if octetStringLen > octetStringBufferSize then Inl CMP_INSUFFICIENT_SPACE else Inr [0]
              else Inl CMP_INVALID_ARGUMENT
         else if octetStringLen > octetStringBufferSize then Inl CMP_INSUFFICIENT_SPACE
         else Inr (CMP_word_octets i wordTmp @ concat (map (CMP_word_octets 3) (rev (butlast (cmp_words theInt))))))"

text \<open>The same with a zero byte in front where the first byte has its high bit set.\<close>

definition CMP_CMPIntToSignedOctetString :: "CMPInt \<Rightarrow> nat \<Rightarrow> CMPStatus + u8 list" where
  "CMP_CMPIntToSignedOctetString theInt octetStringBufferSize =
     (if cmp_words theInt = [] then Inl CMP_OUT_OF_BOUNDS
      else let wordTmp = last (cmp_words theInt); i = CMP_first_byte wordTmp 3; firstByte = CMP_byte i wordTmp;
          octetStringLen = cmp_len theInt * 4 - (3 - i) + (if firstByte AND 0x80 \<noteq> 0 then 1 else 0)
      in if firstByte = 0
         then if octetStringLen = 1
              then if octetStringLen > octetStringBufferSize then Inl CMP_INSUFFICIENT_SPACE else Inr [0]
              else Inl CMP_INVALID_ARGUMENT
         else if octetStringLen > octetStringBufferSize then Inl CMP_INSUFFICIENT_SPACE
         else Inr ((if firstByte AND 0x80 \<noteq> 0 then [0] else []) @
                CMP_word_octets i wordTmp @ concat (map (CMP_word_octets 3) (rev (butlast (cmp_words theInt))))))"

definition CMP_BITS_TO_LEN :: "nat \<Rightarrow> nat" where
  "CMP_BITS_TO_LEN modulusBits = (modulusBits + 8 - 1) div 8"

definition CMP_CMPIntToFixedLenOctetStr :: "CMPInt \<Rightarrow> nat \<Rightarrow> nat \<Rightarrow> CMPStatus + u8 list" where
  "CMP_CMPIntToFixedLenOctetStr theInt fixedLength bufferSize =
     (if bufferSize < fixedLength then Inl CMP_OUTPUT_LENGTH
      else let cmpIntLen = CMP_BITS_TO_LEN (CMP_BitLengthOfCMPInt theInt)
      in if cmpIntLen > fixedLength then Inl CMP_OUTPUT_LENGTH
         else if cmpIntLen < fixedLength
         then on_success (CMP_CMPIntToOctetString theInt bufferSize) (\<lambda>octets.
                Inr (replicate (fixedLength - cmpIntLen) 0 @ octets))
         else CMP_CMPIntToOctetString theInt bufferSize)"

definition CMP_CMPWordToCMPInt :: "(nat \<Rightarrow> bool) \<Rightarrow> u32 \<Rightarrow> CMPInt \<Rightarrow> CMPStatus + CMPInt" where
  "CMP_CMPWordToCMPInt mem sourceWord destInt =
     on_success (CMP_ensureNoCopy mem 1 2 destInt) (\<lambda>d. Inr (d\<lparr>cmp_words := [sourceWord]\<rparr>))"

definition CMP_PowerOfTwo :: "(nat \<Rightarrow> bool) \<Rightarrow> int \<Rightarrow> CMPInt \<Rightarrow> CMPStatus + CMPInt" where
  "CMP_PowerOfTwo mem exponent theInt =
     (if exponent < 0 then Inl CMP_INVALID_ARGUMENT
      else let wordIndex = nat exponent div 32; bitIndex = nat exponent - wordIndex * 32
      in on_success (CMP_ensureNoCopy mem (wordIndex + 1) (wordIndex + 2) theInt) (\<lambda>theInt.
           Inr (theInt\<lparr>cmp_words := replicate wordIndex 0 @ [push_bit bitIndex 1]\<rparr>)))"

definition CMP_OctetLengthOfCMPInt :: "CMPInt \<Rightarrow> nat" where
  "CMP_OctetLengthOfCMPInt theInt = cmp_len theInt * 4 - (3 - CMP_first_byte (last (cmp_words theInt)) 3)"

section \<open>The number of an octet string\<close>

fun octets_le :: "u8 list \<Rightarrow> nat" where
  "octets_le [] = 0"
| "octets_le (b # bs) = unat b + 256 * octets_le bs"

definition octets_val :: "u8 list \<Rightarrow> nat" where
  "octets_val os = octets_le (rev os)"

lemma unat_8: "unat (b :: u8) < 256"
  using unsigned_less [of b] by simp

lemma octets_le_append: "octets_le (xs @ ys) = octets_le xs + 256 ^ length xs * octets_le ys"
  by (induction xs) (simp_all add: algebra_simps)

lemma octets_le_less: "octets_le bs < 256 ^ length bs"
proof (induction bs)
  case (Cons b bs)
  then have "octets_le bs + 1 \<le> 256 ^ length bs" by simp
  then have "256 * (octets_le bs + 1) \<le> 256 * 256 ^ length bs" by (rule mult_le_mono2)
  with unat_8 [of b] show ?case by simp
qed simp

lemma octets_le_inj: "length xs = length ys \<Longrightarrow> octets_le xs = octets_le ys \<Longrightarrow> xs = ys"
proof (induction xs ys rule: list_induct2)
  case (Cons x xs y ys)
  have "octets_le (x # xs) mod 256 = unat x" "octets_le (x # xs) div 256 = octets_le xs"
    "octets_le (y # ys) mod 256 = unat y" "octets_le (y # ys) div 256 = octets_le ys"
    using unat_8 [of x] unat_8 [of y] by simp_all
  with Cons show ?case by (metis word_unat_eq_iff)
qed simp

lemma octets_le_zeros [simp]: "octets_le (replicate n 0) = 0"
  by (induction n) simp_all

text \<open>From octets to words.\<close>

lemma CMP_bytes_word_val:
  "unat w < 256 ^ j \<Longrightarrow> j + length bs \<le> 4 \<Longrightarrow> unat (CMP_bytes_word j w bs) = unat w + 256 ^ j * octets_le bs"
proof (induction bs arbitrary: j w)
  case (Cons b bs)
  have j: "j \<le> 3" using Cons.prems(2) by simp
  have "unat b * 2 ^ (j * 8) < 256 * 2 ^ (j * 8)" using unat_8 [of b] by (intro mult_strict_right_mono) simp_all
  also have "\<dots> = 2 ^ (8 + j * 8)" by (simp add: power_add)
  also have "\<dots> \<le> (2 :: nat) ^ 32" using j by (intro power_increasing) simp_all
  finally have lt: "unat b * 2 ^ (j * 8) < 4294967296" by simp
  have p: "(256 :: nat) ^ j = 2 ^ (j * 8)" using power_mult [of "2 :: nat" 8 j] by (simp add: mult.commute)
  have sh: "unat (push_bit (j * 8) (ucast b :: u32)) = unat b * 2 ^ (j * 8)"
    unfolding unsigned_push_bit_eq using lt by (simp add: unsigned_ucast_eq take_bit_nat_eq_self push_bit_eq_mult unat_8 [THEN less_trans])
  have dis: "w AND push_bit (j * 8) (ucast b :: u32) = 0"
  proof (rule bit_word_eqI)
    fix n
    have "\<not> bit w n" if "j * 8 \<le> n"
    proof -
      have "unat w < 2 ^ n" using Cons.prems(1) that unfolding p by (meson less_le_trans one_le_numeral power_increasing)
      then have "\<not> bit (unat w) n" by (simp add: bit_iff_odd)
      then show ?thesis by (simp add: bit_unsigned_iff)
    qed
    then show "bit (w AND push_bit (j * 8) (ucast b)) n \<longleftrightarrow> bit (0 :: u32) n"
      by (auto simp: bit_and_iff bit_push_bit_iff)
  qed
  have u: "unat (w OR push_bit (j * 8) (ucast b)) = unat w + 256 ^ j * unat b"
    unfolding unat_or_disjoint [OF dis] sh p by simp
  have "256 ^ j * unat b + 256 ^ j \<le> 256 ^ j * 256"
  proof -
    have "256 ^ j * (unat b + 1) \<le> 256 ^ j * 256" using unat_8 [of b] by (intro mult_le_mono2) simp
    then show ?thesis by (simp only: distrib_left mult_1_right)
  qed
  then have "unat (w OR push_bit (j * 8) (ucast b)) < 256 ^ (j + 1)" unfolding u power_add power_one_right using Cons.prems(1) by linarith
  from Cons.IH [OF this] Cons.prems(2) show ?case by (simp add: u algebra_simps)
qed simp

lemma CMP_octet_words_val: "cmp_val (CMP_octet_words bs) = octets_le bs"
proof (induction bs rule: CMP_octet_words.induct)
  case (1 bs)
  show ?case
  proof (cases "bs = []")
    case True
    then show ?thesis by (simp add: CMP_octet_words.simps)
  next
    case False
    have w: "unat (CMP_bytes_word 0 0 (take 4 bs)) = octets_le (take 4 bs)"
      using CMP_bytes_word_val [of 0 0 "take 4 bs"] by simp
    have s: "octets_le bs = octets_le (take 4 bs) + 256 ^ length (take 4 bs) * octets_le (drop 4 bs)"
      using octets_le_append [of "take 4 bs" "drop 4 bs"] by simp
    have "256 ^ length (take 4 bs) * octets_le (drop 4 bs) = 4294967296 * octets_le (drop 4 bs)"
    proof (cases "4 \<le> length bs")
      case True
      then show ?thesis by simp
    next
      case False
      then have "drop 4 bs = []" by simp
      then show ?thesis by simp
    qed
    with s w 1 False show ?thesis by (subst CMP_octet_words.simps) simp
  qed
qed

text \<open>From words to octets.\<close>

lemma unat_CMP_byte: "unat (CMP_byte i w) = unat w div 256 ^ i mod 256"
proof -
  have p: "(2 :: nat) ^ (i * 8) = 256 ^ i" using power_mult [of "2 :: nat" 8 i] by (simp add: mult.commute)
  have "unat (drop_bit (i * 8) w) = unat w div 2 ^ (i * 8)" unfolding unat_drop_bit_eq by (simp add: drop_bit_eq_div)
  then show ?thesis unfolding p by (simp add: CMP_byte_def unsigned_ucast_eq take_bit_eq_mod)
qed

lemma CMP_low_bytes_val: "octets_le (map (\<lambda>j. CMP_byte j w) [0..<k]) = unat w mod 256 ^ k"
proof (induction k)
  case (Suc k)
  have "unat w mod 256 ^ Suc k = unat w mod 256 ^ k + 256 ^ k * (unat w div 256 ^ k mod 256)"
    using mod_mult2_eq [of "unat w" "256 ^ k" 256] by (simp add: mult.commute)
  with Suc show ?case by (simp add: octets_le_append unat_CMP_byte)
qed simp

lemma CMP_word_octets_val: "octets_val (CMP_word_octets i w) = unat w mod 256 ^ (i + 1)"
  unfolding octets_val_def CMP_word_octets_def using CMP_low_bytes_val [of w "i + 1"] by (simp add: rev_map)

lemma CMP_words_octets_val:
  "octets_val (concat (map (CMP_word_octets 3) (rev ws))) = cmp_val ws \<and> length (concat (map (CMP_word_octets 3) (rev ws))) = 4 * length ws"
proof (induction ws)
  case (Cons w ws)
  have "unat w mod 256 ^ (3 + 1) = unat w" using unat_32 [of w] by simp
  with CMP_word_octets_val [of 3 w] have w: "octets_le (rev (CMP_word_octets 3 w)) = unat w" by (simp add: octets_val_def)
  have l: "length (CMP_word_octets 3 w) = 4" by (simp add: CMP_word_octets_def)
  from Cons show ?case by (simp add: octets_val_def octets_le_append w l)
qed (simp add: octets_val_def)

lemma CMP_first_byte_val:
  "unat w < 256 ^ (i + 1) \<Longrightarrow> CMP_first_byte w i \<le> i \<and> unat w < 256 ^ (CMP_first_byte w i + 1) \<and>
    (CMP_byte (CMP_first_byte w i) w = 0 \<longleftrightarrow> w = 0) \<and> (w \<noteq> 0 \<longrightarrow> 256 ^ CMP_first_byte w i \<le> unat w) \<and>
    (w = 0 \<longrightarrow> CMP_first_byte w i = 0)"
proof (induction i)
  case 0
  have "CMP_byte 0 w = 0 \<longleftrightarrow> unat (CMP_byte 0 w) = 0" by (simp add: unat_eq_0)
  also have "\<dots> \<longleftrightarrow> w = 0" using 0 by (simp add: unat_CMP_byte unat_eq_0)
  finally show ?case using 0 by (auto simp: Suc_le_eq unat_gt_0)
next
  case (Suc i)
  have b: "CMP_byte (Suc i) w = 0 \<longleftrightarrow> unat w < 256 ^ Suc i"
  proof -
    have "unat w div 256 ^ Suc i < 256" using Suc.prems by (simp add: less_mult_imp_div_less mult.commute)
    then have "unat (CMP_byte (Suc i) w) = unat w div 256 ^ Suc i" by (simp add: unat_CMP_byte del: power_Suc)
    then have "CMP_byte (Suc i) w = 0 \<longleftrightarrow> unat w div 256 ^ Suc i = 0" by (metis unat_eq_0)
    then show ?thesis by (simp add: div_eq_0_iff del: power_Suc)
  qed
  show ?case
  proof (cases "CMP_byte (Suc i) w = 0")
    case True
    with Suc.IH b show ?thesis by auto
  next
    case False
    then have "256 ^ Suc i \<le> unat w" using b by simp
    moreover have "w \<noteq> 0" using False by (auto simp: CMP_byte_def)
    ultimately show ?thesis using False Suc.prems by simp
  qed
qed

text \<open>\<open>CMP_CMPIntToOctetString\<close> writes the shortest octet string of the value, of at least one octet.\<close>

lemma CMP_CMPIntToOctetString_correct:
  assumes ok: "cmp_ok x"
  shows "\<exists>os. octets_val os = cmp_num x \<and> length os = CMP_OctetLengthOfCMPInt x \<and> 0 < length os \<and>
    cmp_num x < 256 ^ length os \<and> (cmp_num x \<noteq> 0 \<longrightarrow> 256 ^ (length os - 1) \<le> cmp_num x) \<and> (cmp_num x = 0 \<longrightarrow> length os = 1) \<and>
    (\<forall>n. CMP_CMPIntToOctetString x n = (if length os \<le> n then Inr os else Inl CMP_INSUFFICIENT_SPACE))"
proof -
  let ?ws = "cmp_words x"
  have ne: "?ws \<noteq> []" and n: "cmp_normal ?ws" using ok by (auto simp: cmp_ok_def cmp_normal_def)
  let ?w = "last ?ws"
  define i where "i = CMP_first_byte ?w 3"
  have f: "i \<le> 3" "unat ?w < 256 ^ (i + 1)" "CMP_byte i ?w = 0 \<longleftrightarrow> ?w = 0" "?w \<noteq> 0 \<Longrightarrow> 256 ^ i \<le> unat ?w" "?w = 0 \<Longrightarrow> i = 0"
    using CMP_first_byte_val [of ?w 3] unat_32 [of ?w] by (simp_all add: i_def)
  show ?thesis
  proof (cases "?w = 0")
    case True
    then have l: "cmp_len x = 1" using n by (simp add: cmp_normal_def)
    then have w: "?ws = [0]" using True ne by (cases ?ws) simp_all
    have i0: "i = 0" using f(5) True by simp
    have "CMP_CMPIntToOctetString x n = (if length [0 :: u8] \<le> n then Inr [0] else Inl CMP_INSUFFICIENT_SPACE)" for n
      using i0 by (simp add: CMP_CMPIntToOctetString_def w i_def CMP_byte_def Let_def)
    moreover have "CMP_OctetLengthOfCMPInt x = 1" using i0 by (simp add: CMP_OctetLengthOfCMPInt_def w i_def)
    ultimately show ?thesis by (intro exI [of _ "[0]"]) (simp add: w octets_val_def)
  next
    case False
    let ?os = "CMP_word_octets i ?w @ concat (map (CMP_word_octets 3) (rev (butlast ?ws)))"
    have len1: "length (CMP_word_octets i ?w) = i + 1" by (simp add: CMP_word_octets_def)
    have rest: "octets_le (rev (concat (map (CMP_word_octets 3) (rev (butlast ?ws))))) = cmp_val (butlast ?ws)"
      "length (concat (map (CMP_word_octets 3) (rev (butlast ?ws)))) = 4 * (cmp_len x - 1)"
      using CMP_words_octets_val [of "butlast ?ws"] by (simp_all add: octets_val_def)
    have first: "octets_le (rev (CMP_word_octets i ?w)) = unat ?w"
      using CMP_word_octets_val [of i ?w] f(2) by (simp add: octets_val_def)
    have p: "(256 :: nat) ^ (4 * k) = 2 ^ (32 * k)" for k
      using power_mult [of "256 :: nat" 4 k] power_mult [of "2 :: nat" 32 k] by simp
    have v: "cmp_num x = cmp_val (butlast ?ws) + 256 ^ (4 * (cmp_len x - 1)) * unat ?w"
      unfolding p by (rule cmp_val_last [OF ne])
    have val: "octets_val ?os = cmp_num x"
      unfolding v octets_val_def rev_append octets_le_append length_rev rest first ..
    have "1 \<le> cmp_len x" using ne by (simp add: Suc_le_eq)
    then have osl: "cmp_len x * 4 - (3 - i) = length ?os" using f(1) len1 rest(2) by simp
    have len: "length ?os = 4 * (cmp_len x - 1) + i + 1" using len1 rest(2) by simp
    have "CMP_CMPIntToOctetString x n = (if length ?os \<le> n then Inr ?os else Inl CMP_INSUFFICIENT_SPACE)" for n
      using False f(3) ne unfolding CMP_CMPIntToOctetString_def Let_def i_def [symmetric] osl by simp
    moreover have "CMP_OctetLengthOfCMPInt x = length ?os"
      unfolding CMP_OctetLengthOfCMPInt_def i_def [symmetric] osl ..
    moreover have "cmp_num x < 256 ^ length ?os" using octets_le_less [of "rev ?os"] unfolding length_rev val [unfolded octets_val_def] .
    moreover have "256 ^ (length ?os - 1) \<le> cmp_num x"
    proof -
      have "256 ^ (4 * (cmp_len x - 1)) * 256 ^ i \<le> 256 ^ (4 * (cmp_len x - 1)) * unat ?w"
        using f(4) [OF False] by (rule mult_le_mono2)
      moreover have "(256 :: nat) ^ (length ?os - 1) = 256 ^ (4 * (cmp_len x - 1)) * 256 ^ i"
        unfolding len by (simp add: power_add)
      ultimately show ?thesis unfolding v by linarith
    qed
    moreover have "0 < length ?os" unfolding len by simp
    moreover have "cmp_num x \<noteq> 0" using False ne by (auto simp: cmp_val_0)
    ultimately show ?thesis using val by (intro exI [of _ ?os]) simp
  qed
qed

lemma CMP_BITS_TO_LEN_octets:
  assumes ok: "cmp_ok x"
  shows "CMP_BITS_TO_LEN (CMP_BitLengthOfCMPInt x) = CMP_OctetLengthOfCMPInt x"
proof -
  obtain os :: "u8 list" where os: "length os = CMP_OctetLengthOfCMPInt x" "0 < length os" "cmp_num x < 256 ^ length os"
    "cmp_num x \<noteq> 0 \<Longrightarrow> 256 ^ (length os - 1) \<le> cmp_num x" "cmp_num x = 0 \<Longrightarrow> length os = 1"
    using CMP_CMPIntToOctetString_correct [OF ok] by metis
  define b k where d: "b = CMP_BitLengthOfCMPInt x" "k = length os"
  note bl = CMP_BitLength_bounds [OF ok, folded d(1)]
  have p: "(256 :: nat) ^ n = 2 ^ (8 * n)" for n using power_mult [of "2 :: nat" 8 n] by simp
  show ?thesis
  proof (cases "cmp_num x = 0")
    case True
    then have w: "cmp_words x = [0]" using ok by (intro cmp_normal_inj) (simp_all add: cmp_ok_def cmp_normal_def)
    have "0 < cmp_space x" using ok w by (simp add: cmp_ok_def)
    then have "CMP_BitLengthOfCMPInt x = 1" using w by (simp add: CMP_BitLengthOfCMPInt_def CMP_bits_loop.simps)
    with os(1,5) True show ?thesis by (simp add: CMP_BITS_TO_LEN_def)
  next
    case False
    have "(2 :: nat) ^ (b - 1) < 2 ^ (8 * k)" using bl(4) [OF False] os(3) unfolding p d(2) by linarith
    then have "b - 1 < 8 * k" by simp
    then have u: "b \<le> 8 * k" by linarith
    have "(2 :: nat) ^ (8 * (k - 1)) < 2 ^ b" using bl(1) os(4) [OF False] unfolding p d(2) by linarith
    then have l: "8 * (k - 1) < b" by simp
    have "0 < k" using os(2) by (simp add: d(2))
    with l have "8 * k < b + 8" by linarith
    with u have "(b + 7) div 8 = k" by (intro div_nat_eqI) simp_all
    then show ?thesis using os(1) by (simp add: CMP_BITS_TO_LEN_def d)
  qed
qed

text \<open>With a fixed length the octets are padded with zeros in front.\<close>

lemma CMP_CMPIntToFixedLenOctetStr_correct:
  assumes ok: "cmp_ok x" and lt: "cmp_num x < 256 ^ n" and n: "0 < n" "n \<le> size'"
  shows "\<exists>os. CMP_CMPIntToFixedLenOctetStr x n size' = Inr os \<and> length os = n \<and> octets_val os = cmp_num x"
proof -
  obtain os where os: "octets_val os = cmp_num x" "length os = CMP_OctetLengthOfCMPInt x" "0 < length os"
    "cmp_num x \<noteq> 0 \<Longrightarrow> 256 ^ (length os - 1) \<le> cmp_num x" "cmp_num x = 0 \<Longrightarrow> length os = 1"
    "\<And>m. CMP_CMPIntToOctetString x m = (if length os \<le> m then Inr os else Inl CMP_INSUFFICIENT_SPACE)"
    using CMP_CMPIntToOctetString_correct [OF ok] by metis
  have le: "length os \<le> n"
  proof (cases "cmp_num x = 0")
    case True
    with os(5) n show ?thesis by simp
  next
    case False
    have "(256 :: nat) ^ (length os - 1) < 256 ^ n" using os(4) [OF False] lt by (rule le_less_trans)
    then have "length os - 1 < n" by simp
    then show ?thesis by simp
  qed
  have e: "CMP_BITS_TO_LEN (CMP_BitLengthOfCMPInt x) = length os" using CMP_BITS_TO_LEN_octets [OF ok] os(2) by simp
  show ?thesis
  proof (cases "length os < n")
    case True
    then have "CMP_CMPIntToFixedLenOctetStr x n size' = Inr (replicate (n - length os) 0 @ os)"
      using n(2) le unfolding CMP_CMPIntToFixedLenOctetStr_def e by (simp add: os(6))
    moreover have "octets_val (replicate (n - length os) 0 @ os) = cmp_num x"
      using os(1) by (simp add: octets_val_def octets_le_append)
    ultimately show ?thesis using le by simp
  next
    case False
    then have "CMP_CMPIntToFixedLenOctetStr x n size' = Inr os"
      using n(2) le unfolding CMP_CMPIntToFixedLenOctetStr_def e by (simp add: os(6))
    with False le os(1) show ?thesis by simp
  qed
qed

lemma CMP_OctetStringToCMPInt_correct:
  assumes mem: "\<And>n. mem n" and os: "os \<noteq> []"
  shows "\<exists>x. CMP_OctetStringToCMPInt mem os s = Inr x \<and> cmp_ok x \<and> cmp_num x = octets_val os"
proof -
  let ?n = "(length os + 4 - 1) div 4" and ?ws = "CMP_octet_words (rev os)"
  have len: "length (CMP_octet_words bs) = (length bs + 3) div 4" for bs
  proof (induction bs rule: CMP_octet_words.induct)
    case (1 bs)
    show ?case
    proof (cases "bs = []")
      case True
      then show ?thesis by (simp add: CMP_octet_words.simps)
    next
      case False
      then have "length (CMP_octet_words bs) = Suc ((length bs - 4 + 3) div 4)"
        using 1 by (subst CMP_octet_words.simps) simp
      also have "\<dots> = (length bs + 3) div 4"
      proof (cases "4 \<le> length bs")
        case True
        then obtain k where k: "length bs = k + 4" by (metis le_add_diff_inverse2)
        have "Suc ((k + 3) div 4) = (k + 3 + 1 * 4) div 4" by (subst div_mult_self1) simp_all
        then show ?thesis unfolding k by (simp add: ac_simps)
      next
        case short: False
        then have "length bs = 1 \<or> length bs = 2 \<or> length bs = 3" proof -
          have "length bs \<noteq> 0" using False by simp
          with short show ?thesis by linarith
        qed
        then show ?thesis by auto
      qed
      finally show ?thesis .
    qed
  qed
  have n: "0 < ?n" using os by (cases os) simp_all
  then have ne: "?ws \<noteq> []" using len [of "rev os"] by auto
  obtain d where d: "CMP_ensureNoCopy mem ?n (?n + 1) s = Inr d" "?n \<le> cmp_space d"
    using CMP_ensureNoCopy_cases [of ?n "?n + 1" mem s] mem by auto
  have "CMP_OctetStringToCMPInt mem os s = Inr (d\<lparr>cmp_words := CMP_strip ?ws\<rparr>)"
    using d(1) n by (simp add: CMP_OctetStringToCMPInt_def Let_def)
  moreover have "cmp_ok (d\<lparr>cmp_words := CMP_strip ?ws\<rparr>)" "cmp_val (CMP_strip ?ws) = octets_val os"
    using CMP_strip_props [OF ne] d(2) len [of "rev os"] CMP_octet_words_val [of "rev os"]
    by (simp_all add: cmp_ok_def octets_val_def)
  ultimately show ?thesis by simp
qed

lemma octets_val_inj: "length xs = length ys \<Longrightarrow> octets_val xs = octets_val ys \<Longrightarrow> xs = ys"
  using octets_le_inj [of "rev xs" "rev ys"] by (simp add: octets_val_def)

lemma CMP_CMPIntToFixedLenOctetStr_minimal:
  assumes ok: "cmp_ok x"
  shows "\<exists>os. octets_val os = cmp_num x \<and> length os = CMP_OctetLengthOfCMPInt x \<and>
    (\<forall>n size'. CMP_CMPIntToFixedLenOctetStr x n size' =
      (if size' < n \<or> n < length os then Inl CMP_OUTPUT_LENGTH else Inr (replicate (n - length os) 0 @ os)))"
proof -
  obtain os where os: "octets_val os = cmp_num x" "length os = CMP_OctetLengthOfCMPInt x"
    "\<And>m. CMP_CMPIntToOctetString x m = (if length os \<le> m then Inr os else Inl CMP_INSUFFICIENT_SPACE)"
    using CMP_CMPIntToOctetString_correct [OF ok] by metis
  have e: "CMP_BITS_TO_LEN (CMP_BitLengthOfCMPInt x) = length os" using CMP_BITS_TO_LEN_octets [OF ok] os(2) by simp
  have "CMP_CMPIntToFixedLenOctetStr x n size' =
      (if size' < n \<or> n < length os then Inl CMP_OUTPUT_LENGTH else Inr (replicate (n - length os) 0 @ os))" for n size'
    unfolding CMP_CMPIntToFixedLenOctetStr_def e by (auto simp: os(3) Let_def)
  with os(1,2) show ?thesis by blast
qed

end
