(* ===== verification/CMP_Properties.thy ===== *)
theory CMP_Properties
  imports CMP_Convert
begin

text \<open>
  What the callers of the multi-precision library rely on, as statements about the numbers that the
  words represent.
\<close>

text \<open>
  The portable form of \<open>CMP_MULT_HIGHLOW\<close>, which forms the double word product of two words
  from products of half words, is the one that a compiler with 64 bit integers gets.
\<close>

theorem CMP_MULT_HIGHLOW_portable:
  "CMP_MULT_HIGHLOW a b = CMP_MULT_HIGHLOW_gnu a b \<and>
   (case CMP_MULT_HIGHLOW a b of (lo, hi) \<Rightarrow> unat lo + 4294967296 * unat hi = unat a * unat b)"
  using CMP_MULT_HIGHLOW_val [of a b] by (simp add: CMP_MULT_HIGHLOW_same split: prod.split)

text \<open>
  \<open>CMP_Multiply\<close> gives a normalised number whose value is the product.
\<close>

theorem CMP_Multiply_product:
  assumes "\<And>n. mem n" and "cmp_ok x" and "cmp_ok y"
  shows "\<exists>z. CMP_Multiply mem x y s = Inr z \<and> cmp_ok z \<and>
    cmp_val (cmp_words z) = cmp_val (cmp_words x) * cmp_val (cmp_words y)"
  using CMP_Multiply_correct [of mem x y s, OF assms(1)] assms(2,3)
  by (auto simp: cmp_ok_def cmp_normal_def)

theorem CMP_Multiply_product_witness:
  "\<exists>z. CMP_Multiply (\<lambda>_. True) \<lparr>cmp_space = 2, cmp_words = [0xffffffff, 7]\<rparr>
      \<lparr>cmp_space = 2, cmp_words = [3, 0xffffffff]\<rparr> CMP_Constructor = Inr z \<and> cmp_ok z \<and>
    cmp_val (cmp_words z) = cmp_val [0xffffffff, 7] * cmp_val [3, 0xffffffff]"
  using CMP_Multiply_product [of "\<lambda>_. True" "\<lparr>cmp_space = 2, cmp_words = [0xffffffff, 7]\<rparr>"
      "\<lparr>cmp_space = 2, cmp_words = [3, 0xffffffff]\<rparr>" CMP_Constructor]
  by (simp add: cmp_ok_def cmp_normal_def)

text \<open>
  C8. \<open>CMP_Divide\<close> gives quotient and remainder of the division by a number that is not zero: the
  estimated quotient words are corrected and the loops end. The operands, which it shifts while it
  works, come back as they were; a divisor of zero is refused.
\<close>

theorem CMP_Divide_quotient_remainder:
  assumes "\<And>n. mem n" and "cmp_ok a" and "cmp_ok b"
  shows "if cmp_val (cmp_words b) = 0 then CMP_Divide mem a b quot rem = Inl CMP_ZERO_DIVIDE
    else \<exists>a' b' q r. CMP_Divide mem a b quot rem = Inr (a', b', q, r) \<and>
      cmp_words a' = cmp_words a \<and> cmp_words b' = cmp_words b \<and> cmp_ok q \<and> cmp_ok r \<and>
      cmp_val (cmp_words a) = cmp_val (cmp_words q) * cmp_val (cmp_words b) + cmp_val (cmp_words r) \<and>
      cmp_val (cmp_words r) < cmp_val (cmp_words b)"
proof (cases "cmp_val (cmp_words b) = 0")
  case True
  have n: "cmp_normal (cmp_words a)" "cmp_normal (cmp_words b)" using assms(2,3) by (simp_all add: cmp_ok_def)
  have "\<not> CMP_Compare a b < 0" using CMP_Compare_iff(1) [OF n] True by simp
  moreover obtain q where "CMP_ensureNoCopy mem 1 2 quot = Inr q"
    using CMP_ensureNoCopy_cases [of 1 2 mem quot] assms(1) by auto
  moreover have "CMP_GetOffsetOfMSB b = 32" using CMP_GetOffsetOfMSB_correct(1) [of mem b] assms(1,3) True by blast
  ultimately show ?thesis using True by (simp add: CMP_Divide_def)
next
  case False
  then have pos: "0 < cmp_val (cmp_words b)" by simp
  show ?thesis
    using False CMP_Divide_correct [of mem a b quot rem, OF assms(1-3) pos] mod_less_divisor [OF pos, of "cmp_val (cmp_words a)"]
    by (metis div_mult_mod_eq)
qed

theorem CMP_Divide_quotient_remainder_witness:
  "\<exists>a' b' q r. CMP_Divide (\<lambda>_. True) \<lparr>cmp_space = 3, cmp_words = [5, 0, 0x80000000]\<rparr>
      \<lparr>cmp_space = 2, cmp_words = [0xffffffff, 3]\<rparr> CMP_Constructor CMP_Constructor = Inr (a', b', q, r) \<and>
      cmp_words a' = [5, 0, 0x80000000] \<and> cmp_words b' = [0xffffffff, 3] \<and> cmp_ok q \<and> cmp_ok r \<and>
      cmp_val [5, 0, 0x80000000] = cmp_val (cmp_words q) * cmp_val [0xffffffff, 3] + cmp_val (cmp_words r) \<and>
      cmp_val (cmp_words r) < cmp_val [0xffffffff, 3]"
  using CMP_Divide_quotient_remainder [of "\<lambda>_. True" "\<lparr>cmp_space = 3, cmp_words = [5, 0, 0x80000000]\<rparr>"
      "\<lparr>cmp_space = 2, cmp_words = [0xffffffff, 3]\<rparr>" CMP_Constructor CMP_Constructor]
  by (simp add: cmp_ok_def cmp_normal_def)

text \<open>
  C20. \<open>CMP_ComputeGCD\<close> ends and gives the greatest common divisor, in either order of its operands;
  only for two zeros there is none.
\<close>

theorem CMP_ComputeGCD_gcd:
  assumes "\<And>n. mem n" and "cmp_ok u" and "cmp_ok v"
  shows "if cmp_val (cmp_words u) = 0 \<and> cmp_val (cmp_words v) = 0 then CMP_ComputeGCD mem u v g = Inl CMP_DOMAIN
    else \<exists>z. CMP_ComputeGCD mem u v g = Inr z \<and> cmp_ok z \<and>
      cmp_val (cmp_words z) = gcd (cmp_val (cmp_words u)) (cmp_val (cmp_words v))"
  using CMP_ComputeGCD_correct [of mem u v g, OF assms(1)] assms(2,3) by auto

theorem CMP_ComputeGCD_gcd_witness:
  "\<exists>z. CMP_ComputeGCD (\<lambda>_. True) \<lparr>cmp_space = 1, cmp_words = [12]\<rparr> \<lparr>cmp_space = 2, cmp_words = [18, 6]\<rparr> CMP_Constructor = Inr z \<and>
    cmp_ok z \<and> cmp_val (cmp_words z) = gcd (cmp_val [12]) (cmp_val [18, 6])"
  using CMP_ComputeGCD_gcd [of "\<lambda>_. True" "\<lparr>cmp_space = 1, cmp_words = [12]\<rparr>"
      "\<lparr>cmp_space = 2, cmp_words = [18, 6]\<rparr>" CMP_Constructor]
  by (simp add: cmp_ok_def cmp_normal_def)


text \<open>
  C18. Montgomery arithmetic computes products modulo an odd number: two numbers below the modulus are
  converted, multiplied and converted back.
\<close>

theorem CMP_Montgomery_multiplies:
  assumes "\<And>n. mem n" and "cmp_ok m" and "odd (cmp_val (cmp_words m))" and "cmp_ok x" and "cmp_ok y"
    and "cmp_val (cmp_words x) < cmp_val (cmp_words m)" and "cmp_val (cmp_words y) < cmp_val (cmp_words m)"
  shows "\<exists>c m' m'' a b p z. CMP_ComputeMontCoeff m = Inr c \<and>
    CMP_ConvertToMont mem x m s1 = Inr (m', a) \<and> CMP_ConvertToMont mem y m' s2 = Inr (m'', b) \<and>
    CMP_MontProduct mem a b m'' c s3 = Inr p \<and> CMP_ConvertFromMont mem p m'' c s4 = Inr z \<and> cmp_ok z \<and>
    cmp_val (cmp_words z) = cmp_val (cmp_words x) * cmp_val (cmp_words y) mod cmp_val (cmp_words m)"
proof -
  let ?M = "cmp_val (cmp_words m)"
  have "cmp_normal (cmp_words m)" using assms(2) by (simp add: cmp_ok_def)
  then obtain w ws where w: "cmp_words m = w # ws" by (cases "cmp_words m") (simp_all add: cmp_normal_def)
  have "odd (unat w)" using assms(3) by (simp add: w)
  then obtain c where c: "CMP_ComputeMontCoeff m = Inr c" "w * c = - 1"
    using CMP_ComputeMontCoeff_correct [OF w] by blast
  have m: "mont_modulus m c" using assms(2,3) c(2) w by (simp add: mont_modulus_def)
  obtain m' a where a: "CMP_ConvertToMont mem x m s1 = Inr (m', a)" "cmp_ok m'" "cmp_words m' = cmp_words m"
    "mont_rep m a (cmp_val (cmp_words x))"
    using CMP_ConvertToMont_correct [of mem m x s1, OF assms(1,2,4,6)] by blast
  have lt: "cmp_val (cmp_words y) < cmp_val (cmp_words m')" using assms(7) a(3) by simp
  obtain m'' b where b: "CMP_ConvertToMont mem y m' s2 = Inr (m'', b)" "cmp_ok m''" "cmp_words m'' = cmp_words m"
    "mont_rep m' b (cmp_val (cmp_words y))"
    using CMP_ConvertToMont_correct [of mem m' y s2, OF assms(1) a(2) assms(5) lt] a(3) by auto
  have m'': "mont_modulus m'' c" using m b(2,3) by (simp add: mont_modulus_def)
  have reps: "mont_rep m'' a (cmp_val (cmp_words x))" "mont_rep m'' b (cmp_val (cmp_words y))"
    using a(3,4) b(3,4) by (simp_all add: mont_rep_def mont_R_def)
  obtain p where p: "CMP_MontProduct mem a b m'' c s3 = Inr p"
    "mont_rep m'' p (cmp_val (cmp_words x) * cmp_val (cmp_words y))"
    using CMP_MontProduct_rep [of mem m'' c a _ b _ s3, OF assms(1) m'' reps] by blast
  show ?thesis
    using c(1) a(1) b(1) p(1) CMP_ConvertFromMont_correct [of mem m'' c p _ s4, OF assms(1) m'' p(2)] b(3) by auto
qed

theorem CMP_Montgomery_multiplies_witness:
  "\<exists>c m' m'' a b p z. CMP_ComputeMontCoeff \<lparr>cmp_space = 2, cmp_words = [9, 4]\<rparr> = Inr c \<and>
    CMP_ConvertToMont (\<lambda>_. True) \<lparr>cmp_space = 2, cmp_words = [0, 4]\<rparr> \<lparr>cmp_space = 2, cmp_words = [9, 4]\<rparr> CMP_Constructor = Inr (m', a) \<and>
    CMP_ConvertToMont (\<lambda>_. True) \<lparr>cmp_space = 1, cmp_words = [7]\<rparr> m' CMP_Constructor = Inr (m'', b) \<and>
    CMP_MontProduct (\<lambda>_. True) a b m'' c CMP_Constructor = Inr p \<and>
    CMP_ConvertFromMont (\<lambda>_. True) p m'' c CMP_Constructor = Inr z \<and> cmp_ok z \<and>
    cmp_val (cmp_words z) = cmp_val [0, 4] * cmp_val [7] mod cmp_val [9, 4]"
  using CMP_Montgomery_multiplies [of "\<lambda>_. True" "\<lparr>cmp_space = 2, cmp_words = [9, 4]\<rparr>"
      "\<lparr>cmp_space = 2, cmp_words = [0, 4]\<rparr>" "\<lparr>cmp_space = 1, cmp_words = [7]\<rparr>" CMP_Constructor CMP_Constructor
      CMP_Constructor CMP_Constructor]
  by (simp add: cmp_ok_def cmp_normal_def)

text \<open>
  C3. \<open>CMP_ModExp\<close> raises to any power modulo an odd number, whatever windows the exponent has. An
  even modulus is refused, and so are a base that is not below the modulus, and the modulus 1.
\<close>

theorem CMP_ModExp_power:
  assumes "\<And>n. mem n" and "cmp_ok base" and "cmp_ok x" and "cmp_ok m"
  shows "if even (cmp_val (cmp_words m)) then CMP_ModExp mem base x m s = Inl CMP_MODULUS
    else if cmp_val (cmp_words m) = 1 \<or> cmp_val (cmp_words m) \<le> cmp_val (cmp_words base)
      then CMP_ModExp mem base x m s = Inl CMP_RANGE
    else \<exists>m' z. CMP_ModExp mem base x m s = Inr (m', z) \<and> cmp_words m' = cmp_words m \<and> cmp_ok z \<and>
      cmp_val (cmp_words z) = cmp_val (cmp_words base) ^ cmp_val (cmp_words x) mod cmp_val (cmp_words m)"
proof -
  consider "even (cmp_val (cmp_words m))"
    | "odd (cmp_val (cmp_words m))" "cmp_val (cmp_words m) = 1 \<or> cmp_val (cmp_words m) \<le> cmp_val (cmp_words base)"
    | "odd (cmp_val (cmp_words m))" "1 < cmp_val (cmp_words m)" "cmp_val (cmp_words base) < cmp_val (cmp_words m)"
    using odd_pos [of "cmp_val (cmp_words m)"] by linarith
  then show ?thesis
  proof cases
    case 1
    with CMP_ModExp_even [OF assms(4)] show ?thesis by simp
  next
    case 2
    with CMP_ModExp_range [of mem m base x s, OF assms(1,4) 2(1) assms(2) 2(2)] show ?thesis by simp
  next
    case 3
    with CMP_ModExp_correct [of mem m base x s, OF assms(1,4) 3(1,2) assms(2) 3(3) assms(3)] show ?thesis by auto
  qed
qed

theorem CMP_ModExp_power_witness:
  "\<exists>m' z. CMP_ModExp (\<lambda>_. True) \<lparr>cmp_space = 1, cmp_words = [7]\<rparr> \<lparr>cmp_space = 1, cmp_words = [0xabcdef]\<rparr>
      \<lparr>cmp_space = 2, cmp_words = [9, 4]\<rparr> CMP_Constructor = Inr (m', z) \<and> cmp_words m' = [9, 4] \<and> cmp_ok z \<and>
    cmp_val (cmp_words z) = cmp_val [7] ^ cmp_val [0xabcdef] mod cmp_val [9, 4]"
proof -
  let ?b = "\<lparr>cmp_space = 1, cmp_words = [7 :: u32]\<rparr>" and ?x = "\<lparr>cmp_space = 1, cmp_words = [0xabcdef :: u32]\<rparr>"
    and ?m = "\<lparr>cmp_space = 2, cmp_words = [9, 4 :: u32]\<rparr>"
  have ok: "cmp_ok ?b" "cmp_ok ?x" "cmp_ok ?m" by (simp_all add: cmp_ok_def cmp_normal_def)
  have m: "odd (cmp_val (cmp_words ?m))" "\<not> (cmp_val (cmp_words ?m) = 1 \<or> cmp_val (cmp_words ?m) \<le> cmp_val (cmp_words ?b))"
    by simp_all
  show ?thesis using CMP_ModExp_power [of "\<lambda>_. True" ?b ?x ?m CMP_Constructor, OF TrueI ok] m
    by (simp only: if_False CMPInt.select_convs)
qed

text \<open>
  C17. Exponentiation by the Chinese remainder theorem is exponentiation modulo the product of the
  primes, for exponents that agree modulo each of them and a coefficient that is the inverse of the
  second prime modulo the first: \<open>CMP_ModExpCRT\<close> and \<open>CMP_ModExp\<close> return the same words.
\<close>

theorem CMP_ModExpCRT_is_ModExp:
  assumes "\<And>n. mem n" and "cmp_ok x" and "cmp_ok d" and "cmp_ok n"
    and "cmp_ok p" and "odd (cmp_val (cmp_words p))" and "1 < cmp_val (cmp_words p)"
    and "cmp_ok q" and "odd (cmp_val (cmp_words q))" and "1 < cmp_val (cmp_words q)"
    and "cmp_ok dp" and "cmp_ok dq" and "cmp_ok cr"
    and "cmp_val (cmp_words n) = cmp_val (cmp_words p) * cmp_val (cmp_words q)"
    and "cmp_val (cmp_words x) < cmp_val (cmp_words n)"
    and "cmp_val (cmp_words x) ^ cmp_val (cmp_words dp) mod cmp_val (cmp_words p)
      = cmp_val (cmp_words x) ^ cmp_val (cmp_words d) mod cmp_val (cmp_words p)"
    and "cmp_val (cmp_words x) ^ cmp_val (cmp_words dq) mod cmp_val (cmp_words q)
      = cmp_val (cmp_words x) ^ cmp_val (cmp_words d) mod cmp_val (cmp_words q)"
    and "cmp_val (cmp_words cr) * cmp_val (cmp_words q) mod cmp_val (cmp_words p) = 1"
  shows "\<exists>x' p' q' n' y z. CMP_ModExpCRT mem x p q dp dq cr s1 = Inr (x', p', q', y) \<and>
    CMP_ModExp mem x d n s2 = Inr (n', z) \<and> cmp_words y = cmp_words z"
proof -
  let ?P = "cmp_val (cmp_words p)" and ?Q = "cmp_val (cmp_words q)" and ?V = "cmp_val (cmp_words x) ^ cmp_val (cmp_words d)"
  obtain x' p' q' y where y: "CMP_ModExpCRT mem x p q dp dq cr s1 = Inr (x', p', q', y)" "cmp_ok y"
    "cmp_val (cmp_words y) < ?P * ?Q" "cmp_val (cmp_words y) mod ?P = ?V mod ?P" "cmp_val (cmp_words y) mod ?Q = ?V mod ?Q"
    using CMP_ModExpCRT_correct [of mem x p q dp dq cr s1, OF assms(1,2,5-13,18)] assms(16,17) by auto
  have n: "odd (cmp_val (cmp_words n))" "1 < cmp_val (cmp_words n)"
    using assms(6,7,9,10,14) less_1_mult [of ?P ?Q] by simp_all
  obtain n' z where z: "CMP_ModExp mem x d n s2 = Inr (n', z)" "cmp_ok z" "cmp_val (cmp_words z) = ?V mod cmp_val (cmp_words n)"
    using CMP_ModExp_correct [of mem n x d s2, OF assms(1,4) n assms(2,15,3)] by blast
  have lt: "?V mod (?P * ?Q) < ?P * ?Q" using assms(7,10) by simp
  have r: "cmp_val (cmp_words y) mod ?P = ?V mod (?P * ?Q) mod ?P" "cmp_val (cmp_words y) mod ?Q = ?V mod (?P * ?Q) mod ?Q"
    using y(4,5) by (simp_all add: mod_mod_cancel)
  have "cmp_val (cmp_words y) = cmp_val (cmp_words z)"
    unfolding z(3) assms(14) by (rule residues_unique [OF assms(18) y(3) lt r])
  then have "cmp_words y = cmp_words z" using y(2) z(2) cmp_normal_inj by (simp add: cmp_ok_def)
  with y(1) z(1) show ?thesis by blast
qed

theorem CMP_ModExpCRT_is_ModExp_witness:
  "\<exists>x' p' q' n' y z. CMP_ModExpCRT (\<lambda>_. True) \<lparr>cmp_space = 1, cmp_words = [3]\<rparr> \<lparr>cmp_space = 1, cmp_words = [7]\<rparr>
      \<lparr>cmp_space = 1, cmp_words = [5]\<rparr> \<lparr>cmp_space = 1, cmp_words = [5]\<rparr> \<lparr>cmp_space = 1, cmp_words = [3]\<rparr>
      \<lparr>cmp_space = 1, cmp_words = [3]\<rparr> CMP_Constructor = Inr (x', p', q', y) \<and>
    CMP_ModExp (\<lambda>_. True) \<lparr>cmp_space = 1, cmp_words = [3]\<rparr> \<lparr>cmp_space = 1, cmp_words = [11]\<rparr>
      \<lparr>cmp_space = 1, cmp_words = [35]\<rparr> CMP_Constructor = Inr (n', z) \<and> cmp_words y = cmp_words z"
  by (rule CMP_ModExpCRT_is_ModExp) (simp_all add: cmp_ok_def cmp_normal_def)

text \<open>
  C7. \<open>CMP_ModInvert\<close> finds the inverse below the modulus, or reports that there is none. Operands
  that are not below the modulus are refused.
\<close>

theorem CMP_ModInvert_inverse:
  assumes "\<And>n. mem n" and "cmp_ok x" and "cmp_ok m" and "cmp_num m \<noteq> 1"
  shows "if cmp_num m \<le> cmp_num x
      then CMP_ModInvert mem x m s = Inl (if cmp_num m = 0 then CMP_MODULUS else CMP_RANGE)
    else if \<not> coprime (cmp_num x) (cmp_num m) then CMP_ModInvert mem x m s = Inl CMP_INVERSE
    else \<exists>x' m' z. CMP_ModInvert mem x m s = Inr (x', m', z) \<and> cmp_words x' = cmp_words x \<and>
      cmp_words m' = cmp_words m \<and> cmp_num z < cmp_num m \<and> cmp_num z * cmp_num x mod cmp_num m = 1"
proof (cases "cmp_num m \<le> cmp_num x")
  case True
  have n: "cmp_normal (cmp_words x)" "cmp_normal (cmp_words m)" using assms(2,3) by (simp_all add: cmp_ok_def)
  have "CMP_Compare x m \<ge> 0" using CMP_Compare_iff(3) [OF n] True by simp
  with True show ?thesis using cmp_msw_zero_iff [OF assms(3)] by (simp add: CMP_ModInvert_def)
next
  case False
  then have lt: "cmp_num x < cmp_num m" "1 < cmp_num m" using assms(4) by linarith+
  have "if coprime (cmp_num x) (cmp_num m)
    then \<exists>x' m' z. CMP_ModInvert mem x m s = Inr (x', m', z) \<and> cmp_words x' = cmp_words x \<and> cmp_words m' = cmp_words m \<and>
      cmp_ok x' \<and> cmp_ok m' \<and> cmp_words z \<noteq> [] \<and> cmp_num z < cmp_num m \<and> cmp_num z * cmp_num x mod cmp_num m = 1
    else CMP_ModInvert mem x m s = Inl CMP_INVERSE"
    by (rule CMP_ModInvert_correct [of mem x m s, OF assms(1,2,3) lt(2,1)])
  with False show ?thesis by (simp split: if_splits) blast
qed

theorem CMP_ModInvert_inverse_witness:
  "\<exists>x' m' z. CMP_ModInvert (\<lambda>_. True) \<lparr>cmp_space = 1, cmp_words = [7]\<rparr> \<lparr>cmp_space = 2, cmp_words = [9, 4]\<rparr> CMP_Constructor
      = Inr (x', m', z) \<and> cmp_words x' = [7] \<and> cmp_words m' = [9, 4] \<and>
    cmp_num z < 17179869193 \<and> cmp_num z * 7 mod 17179869193 = 1"
proof -
  have "gcd (17179869193 :: nat) 7 = 1"
    using gcd_red_nat [of 17179869193 7] gcd_red_nat [of 7 4] gcd_red_nat [of 4 3] by simp
  then have "coprime (7 :: nat) 17179869193" by (simp add: coprime_iff_gcd_eq_1 gcd.commute)
  then show ?thesis
    using CMP_ModInvert_inverse [of "\<lambda>_. True" "\<lparr>cmp_space = 1, cmp_words = [7]\<rparr>"
        "\<lparr>cmp_space = 2, cmp_words = [9, 4]\<rparr>" CMP_Constructor]
    by (simp add: cmp_ok_def cmp_normal_def)
qed

text \<open>
  C19. The table of powers of \<open>CMP_ModExp\<close>: when an entry is missing, \<open>CMP_GenerateNewExponent\<close> makes it
  from entries that are there, never writing a product over one of its factors, and everything that
  is flagged afterwards is right. The code asks in a comment whether its loop can be left without a
  product: it cannot.
\<close>

theorem CMP_GenerateNewExponent_entry:
  assumes "\<And>n. mem n" and "mont_modulus m c" and "exp_table_ok m b L (ex, tab)"
    and "unat expo < 2 ^ L" and "\<not> ex ! unat expo"
  shows "\<exists>ex' tab'. CMP_GenerateNewExponent mem m c expo (ex, tab) = Inr (ex', tab') \<and>
    exp_table_ok m b L (ex', tab') \<and> ex' ! unat expo"
  by (rule CMP_GenerateNewExponent_correct [of mem m c b L ex tab expo, OF assms])

theorem CMP_GenerateNewExponent_entry_witness:
  "let one = \<lparr>cmp_space = 1, cmp_words = [4]\<rparr>; m = \<lparr>cmp_space = 1, cmp_words = [7]\<rparr>
   in \<exists>ex' tab'. CMP_GenerateNewExponent (\<lambda>_. True) m 1227133513 3 ([True, True, True, False], [one, one, one, CMP_Constructor])
      = Inr (ex', tab') \<and> exp_table_ok m 1 2 (ex', tab') \<and> ex' ! 3"
proof -
  let ?o = "\<lparr>cmp_space = 1, cmp_words = [4 :: u32]\<rparr>" and ?m = "\<lparr>cmp_space = 1, cmp_words = [7 :: u32]\<rparr>"
  have m: "mont_modulus ?m 1227133513" by (simp add: mont_modulus_def cmp_ok_def cmp_normal_def)
  have o: "mont_rep ?m ?o 1" by (simp add: mont_rep_def mont_R_def cmp_ok_def cmp_normal_def)
  have i: "i = 0 \<or> i = 1 \<or> i = 2 \<or> i = 3" if "i < 4" for i :: nat using that by linarith
  have j: "j = 0 \<or> j = 1" if "j < 2" for j :: nat using that by linarith
  have t: "exp_table_ok ?m 1 2 ([True, True, True, False], [?o, ?o, ?o, CMP_Constructor])"
    using o by (auto dest!: i j)
  show ?thesis
    using CMP_GenerateNewExponent_entry [of "\<lambda>_. True" ?m 1227133513 1 2 _ _ 3, OF TrueI m t] by (simp add: Let_def)
qed

text \<open>
  C36. The octets of a number. A string that is turned into an integer and written again with its own
  length comes back unchanged, whatever zero octets it starts with; an output buffer that is shorter
  than the asked length is refused, and so is a number that does not fit into it.
\<close>

theorem CMP_octets_roundtrip:
  assumes "\<And>n. mem n" and "os \<noteq> []"
  shows "\<exists>x. CMP_OctetStringToCMPInt mem os s = Inr x \<and> cmp_ok x \<and> cmp_num x = octets_val os \<and>
    (\<forall>n size'. CMP_CMPIntToFixedLenOctetStr x n size' =
      (if size' < n \<or> n < CMP_OctetLengthOfCMPInt x then Inl CMP_OUTPUT_LENGTH
       else Inr (replicate (n - CMP_OctetLengthOfCMPInt x) 0 @ drop (length os - CMP_OctetLengthOfCMPInt x) os))) \<and>
    CMP_CMPIntToFixedLenOctetStr x (length os) (length os) = Inr os"
proof -
  obtain x where x: "CMP_OctetStringToCMPInt mem os s = Inr x" "cmp_ok x" "cmp_num x = octets_val os"
    using CMP_OctetStringToCMPInt_correct [of mem os s, OF assms] by blast
  note fixed = CMP_CMPIntToFixedLenOctetStr_minimal [OF x(2)]
  have lt: "cmp_num x < 256 ^ length os" using octets_le_less [of "rev os"] by (simp add: x(3) octets_val_def)
  obtain ys where "CMP_CMPIntToFixedLenOctetStr x (length os) (length os) = Inr ys" "length ys = length os" "octets_val ys = octets_val os"
    using CMP_CMPIntToFixedLenOctetStr_correct [OF x(2) lt] assms(2) x(3) by auto
  then have same: "CMP_CMPIntToFixedLenOctetStr x (length os) (length os) = Inr os"
    using octets_val_inj by metis
  obtain zs where zs: "\<And>n size'. CMP_CMPIntToFixedLenOctetStr x n size' =
      (if size' < n \<or> n < length zs then Inl CMP_OUTPUT_LENGTH else Inr (replicate (n - length zs) 0 @ zs))"
    "length zs = CMP_OctetLengthOfCMPInt x"
    using fixed by blast
  have "length zs \<le> length os" "os = replicate (length os - length zs) 0 @ zs" using same by (auto simp: zs(1) split: if_splits)
  then have "drop (length os - CMP_OctetLengthOfCMPInt x) os = zs" unfolding zs(2) [symmetric] by (metis append_eq_conv_conj length_replicate)
  with x same zs show ?thesis by auto
qed

theorem CMP_octets_roundtrip_witness:
  "CMP_CMPIntToFixedLenOctetStr
     (case CMP_OctetStringToCMPInt (\<lambda>n. True) [0, 0, 1, 2, 3, 4] CMP_Constructor of Inr x \<Rightarrow> x | Inl e \<Rightarrow> CMP_Constructor) 6 6
     = Inr [0, 0, 1, 2, 3, 4]"
  proof -
  obtain x where x: "CMP_OctetStringToCMPInt (\<lambda>n. True) [0, 0, 1, 2, 3, 4] CMP_Constructor = Inr x"
    "CMP_CMPIntToFixedLenOctetStr x (length [0, 0, 1, 2, 3, 4 :: u8]) (length [0, 0, 1, 2, 3, 4 :: u8]) = Inr [0, 0, 1, 2, 3, 4]"
    using CMP_octets_roundtrip [of "\<lambda>n. True" "[0, 0, 1, 2, 3, 4]" CMP_Constructor] by blast
  from x(2) have "CMP_CMPIntToFixedLenOctetStr x 6 6 = Inr [0, 0, 1, 2, 3, 4]" by (simp add: eval_nat_numeral)
  with x(1) show ?thesis by simp
qed

end
