(* ===== verification/RNG.thy ===== *)
theory RNG
  imports SHA1 CMP_Convert
begin

text \<open>
  The random number generator: security/lib/util/algrand.c. A context has 20 bytes of state and the 20
  bytes of output of which the last \<open>outputAvailable\<close> have not been handed out. What \<open>RNG_GetNoise\<close>
  delivers on a platform is a parameter, the list of the bytes that it writes. A routine returns the
  context as it leaves it, also when it fails, and whether it returned \<open>SECSuccess\<close>.
\<close>

section \<open>The model\<close>

record RNGContext =
  rng_state :: "u8 list"
  rng_output :: "u8 list"
  rng_outputAvailable :: nat
  rng_digestContext :: SHA1Context
  rng_seed :: "u8 list"

text \<open>The loops \<open>for (i = 19; i >= 0; i--)\<close> of \<open>stir\<close>, over lists with the last byte first.\<close>

fun RNG_add_loop :: "u32 \<Rightarrow> u8 list \<Rightarrow> u8 list \<Rightarrow> u8 list" where
  "RNG_add_loop x (s # ss) (d # ds) =
     (let x = x + (ucast s + ucast d) in ucast x # RNG_add_loop (drop_bit 8 x) ss ds)"
| "RNG_add_loop x _ _ = []"

definition RNG_add :: "u32 \<Rightarrow> u8 list \<Rightarrow> u8 list \<Rightarrow> u8 list" where
  "RNG_add x state' digest = rev (RNG_add_loop x (rev state') (rev digest))"

text \<open>Begin, update and end on the context's digest.\<close>

definition RNG_digest :: "RNGContext \<Rightarrow> u8 list \<Rightarrow> RNGContext \<times> u8 list" where
  "RNG_digest cx input =
     (let (sha1cx, digest) = SHA1_End (SHA1_Update (SHA1_Begin (rng_digestContext cx)) input)
      in (cx\<lparr>rng_digestContext := sha1cx\<rparr>, digest))"

definition RNG_stir :: "RNGContext \<Rightarrow> u8 list option \<Rightarrow> RNGContext \<times> bool" where
  "RNG_stir cx input =
     (let (cx, digest) = (case input of Some inp \<Rightarrow> RNG_digest cx inp | None \<Rightarrow> (cx, replicate 20 0));
          digest = RNG_add 0 (rng_state cx) digest;
          (cx, digest) = RNG_digest cx digest
      in if digest = rng_output cx then (cx, False)
         else let cx = cx\<lparr>rng_output := digest\<rparr>;
                  digest = RNG_add 1 (rng_state cx) digest;
                  (cx, newState) = RNG_digest cx digest
              in (cx\<lparr>rng_state := newState, rng_outputAvailable := 20\<rparr>, True))"

definition RNG_Init :: "RNGContext \<Rightarrow> RNGContext" where
  "RNG_Init cx = cx\<lparr>rng_state := replicate 20 0, rng_output := replicate 20 0, rng_outputAvailable := 0\<rparr>"

definition RNG_Update :: "RNGContext \<Rightarrow> u8 list option \<Rightarrow> RNGContext \<times> bool" where
  "RNG_Update cx input = RNG_stir cx input"

lemma RNG_stir_available: "RNG_stir cx input = (cx', True) \<Longrightarrow> rng_outputAvailable cx' = 20"
  by (auto simp: RNG_stir_def Let_def split: prod.splits if_splits option.splits)

function RNG_generate_loop :: "RNGContext \<Rightarrow> nat \<Rightarrow> nat \<Rightarrow> u8 list \<Rightarrow> RNGContext \<times> u8 list \<times> bool" where
  "RNG_generate_loop cx available outputLen dest =
     (if outputLen > available
      then (case RNG_stir cx None of
              (cx', True) \<Rightarrow> RNG_generate_loop cx' (rng_outputAvailable cx') (outputLen - available)
                             (dest @ drop (20 - available) (rng_output cx))
            | (cx', False) \<Rightarrow> (cx', dest @ drop (20 - available) (rng_output cx), False))
      else (cx\<lparr>rng_outputAvailable := available - outputLen\<rparr>,
            dest @ take outputLen (drop (20 - available) (rng_output cx)), True))"
  by pat_completeness auto
termination
  by (relation "measure (\<lambda>(cx, available, outputLen, dest). 2 * outputLen + (if available = 0 then 1 else 0))")
    (auto dest!: RNG_stir_available [OF sym])

declare RNG_generate_loop.simps [simp del]

text \<open>The bytes that were written come back, also after a failure.\<close>

definition RNG_GenerateRandomBytes :: "RNGContext \<Rightarrow> nat \<Rightarrow> RNGContext \<times> u8 list \<times> bool" where
  "RNG_GenerateRandomBytes cx outputLen = RNG_generate_loop cx (rng_outputAvailable cx) outputLen []"

definition RNG_Reseed :: "u8 list \<Rightarrow> RNGContext \<Rightarrow> RNGContext \<times> bool" where
  "RNG_Reseed noise cx =
     (let cx = cx\<lparr>rng_seed := memcpy_at (rng_seed cx) 0 noise\<rparr> in RNG_Update cx (Some (rng_seed cx)))"

text \<open>The two allocations of a context; \<open>PORT_ZAlloc\<close> clears it.\<close>

definition RNG_createContext :: "bool \<Rightarrow> bool \<Rightarrow> u8 list \<Rightarrow> RNGContext option" where
  "RNG_createContext alloc alloc_digest noise =
     (if \<not> alloc \<or> \<not> alloc_digest then None
      else let cx = \<lparr>rng_state = replicate 20 0, rng_output = replicate 20 0, rng_outputAvailable = 0,
                  rng_digestContext = SHA1_NewContext, rng_seed = memcpy_at (replicate 20 0) 0 noise\<rparr>
           in case RNG_Update cx (Some (rng_seed cx)) of (cx, status) \<Rightarrow> if status then Some cx else None)"

text \<open>The root generator \<open>sec_base_rng\<close>; an access through the null pointer is \<open>OUT_OF_BOUNDS\<close>.\<close>

definition RNG_RNGInit :: "bool \<Rightarrow> bool \<Rightarrow> u8 list \<Rightarrow> RNGContext option \<Rightarrow> RNGContext option \<times> bool" where
  "RNG_RNGInit alloc alloc_digest noise sec_base_rng =
     (case sec_base_rng of
        Some cx \<Rightarrow> (Some cx, True)
      | None \<Rightarrow> (let base = RNG_createContext alloc alloc_digest noise in (base, base \<noteq> None)))"

definition RNG_RandomUpdate ::
  "bool \<Rightarrow> bool \<Rightarrow> u8 list \<Rightarrow> RNGContext option \<Rightarrow> u8 list option \<Rightarrow> RNGContext option \<times> bool" where
  "RNG_RandomUpdate alloc alloc_digest noise sec_base_rng data =
     (case RNG_RNGInit alloc alloc_digest noise sec_base_rng of
        (Some cx, True) \<Rightarrow> (case RNG_Update cx data of (cx, status) \<Rightarrow> (Some cx, status))
      | (base, _) \<Rightarrow> (base, False))"

definition RNG_ResetRandom ::
  "bool \<Rightarrow> bool \<Rightarrow> u8 list \<Rightarrow> u8 list \<Rightarrow> RNGContext option \<Rightarrow> RNGContext option \<times> bool" where
  "RNG_ResetRandom alloc alloc_digest noise reseed_noise sec_base_rng =
     (case RNG_RNGInit alloc alloc_digest noise sec_base_rng of
        (Some cx, True) \<Rightarrow> (case RNG_Reseed reseed_noise cx of (cx, status) \<Rightarrow> (Some cx, status))
      | (base, _) \<Rightarrow> (base, False))"

definition RNG_GenerateGlobalRandomBytes ::
  "RNGContext option \<Rightarrow> nat \<Rightarrow> c_error + RNGContext option \<times> u8 list \<times> bool" where
  "RNG_GenerateGlobalRandomBytes sec_base_rng bytes =
     (case sec_base_rng of
        None \<Rightarrow> Inl OUT_OF_BOUNDS
      | Some cx \<Rightarrow> (case RNG_GenerateRandomBytes cx bytes of (cx, out, status) \<Rightarrow> Inr (Some cx, out, status)))"

definition RNG_CreateContext ::
  "bool \<Rightarrow> bool \<Rightarrow> u8 list \<Rightarrow> RNGContext option \<Rightarrow> RNGContext option \<times> RNGContext option" where
  "RNG_CreateContext alloc alloc_digest noise sec_base_rng =
     (case sec_base_rng of
        None \<Rightarrow> (None, None)
      | Some base \<Rightarrow> (case RNG_createContext alloc alloc_digest noise of
            None \<Rightarrow> (Some base, None)
          | Some cx \<Rightarrow> (case RNG_GenerateRandomBytes base 20 of
                (base, bytes, status) \<Rightarrow>
                  let cx = cx\<lparr>rng_seed := memcpy_at (rng_seed cx) 0 bytes\<rparr>
                  in if \<not> status then (Some base, None)
                     else (case RNG_Update cx (Some (rng_seed cx)) of
                             (cx, status) \<Rightarrow> (Some base, if status then Some cx else None)))))"

section \<open>The bytes of the generator\<close>

definition rng_ok :: "RNGContext \<Rightarrow> bool" where
  "rng_ok cx \<longleftrightarrow> length (rng_state cx) = 20 \<and> length (rng_output cx) = 20 \<and> rng_outputAvailable cx \<le> 20 \<and>
     sha1_valid (rng_digestContext cx)"

definition rng_unread :: "RNGContext \<Rightarrow> u8 list" where
  "rng_unread cx = drop (20 - rng_outputAvailable cx) (rng_output cx)"

text \<open>The bytes of \<open>k\<close> refills from a state, and that the continuous test lets them pass.\<close>

fun rng_stream :: "nat \<Rightarrow> u8 list \<Rightarrow> u8 list" where
  "rng_stream 0 state' = []"
| "rng_stream (Suc k) state' =
     (let out = sha1_digest state' in out @ rng_stream k (sha1_digest (RNG_add 1 state' out)))"

fun rng_fresh :: "nat \<Rightarrow> u8 list \<Rightarrow> u8 list \<Rightarrow> bool" where
  "rng_fresh 0 previous state' = True"
| "rng_fresh (Suc k) previous state' =
     (let out = sha1_digest state' in out \<noteq> previous \<and> rng_fresh k out (sha1_digest (RNG_add 1 state' out)))"

definition rng_refills :: "RNGContext \<Rightarrow> nat \<Rightarrow> nat" where
  "rng_refills cx n = (n - rng_outputAvailable cx + 19) div 20"

text \<open>The addition in \<open>stir\<close> is that of numbers of 160 bits.\<close>

lemma RNG_add_loop_val:
  "length ss = length ds \<Longrightarrow> unat x \<le> 1 \<Longrightarrow>
   length (RNG_add_loop x ss ds) = length ss \<and>
   octets_le (RNG_add_loop x ss ds) = (unat x + octets_le ss + octets_le ds) mod 256 ^ length ss"
proof (induction ss ds arbitrary: x rule: list_induct2)
  case (Cons s ss d ds)
  define y where "y = x + (ucast s + ucast d)"
  have u: "unat y = unat x + unat s + unat d"
  proof -
    have "unat (ucast s :: u32) = unat s" "unat (ucast d :: u32) = unat d" by (simp_all add: unsigned_ucast_eq take_bit_nat_eq_self unat_8 [THEN less_trans])
    then show ?thesis using Cons.prems unat_8 [of s] unat_8 [of d] by (simp add: y_def unat_word_ariths)
  qed
  have c: "unat (drop_bit 8 y) = unat y div 256" unfolding unat_drop_bit_eq by (simp add: drop_bit_eq_div)
  have "unat y \<le> 511" using u Cons.prems unat_8 [of s] unat_8 [of d] by linarith
  then have le: "unat (drop_bit 8 y) \<le> 1" unfolding c by simp
  have l: "unat (ucast y :: u8) = unat y mod 256" by (simp add: unsigned_ucast_eq take_bit_eq_mod)
  have "unat y mod 256 + 256 * ((unat y div 256 + octets_le ss + octets_le ds) mod 256 ^ length ss)
      = (unat y + 256 * (octets_le ss + octets_le ds)) mod (256 * 256 ^ length ss)"
  proof -
    define t where "t = octets_le ss + octets_le ds"
    have "(unat y + 256 * t) div 256 = unat y div 256 + t" "(unat y + 256 * t) mod 256 = unat y mod 256" by simp_all
    then show ?thesis using mod_mult2_eq [of "unat y + 256 * t" 256 "256 ^ length ss"] unfolding add.assoc t_def [symmetric] by (simp add: ac_simps)
  qed
  with Cons.IH [OF le] l c u show ?case by (simp add: Let_def flip: y_def) (simp add: algebra_simps)
qed simp

lemma RNG_add_val:
  assumes "length s = length d" and "x = 0 \<or> x = 1"
  shows "length (RNG_add x s d) = length s" and "octets_val (RNG_add x s d) = (unat x + octets_val s + octets_val d) mod 256 ^ length s"
  using RNG_add_loop_val [of "rev s" "rev d" x] assms by (auto simp: RNG_add_def octets_val_def)

lemma RNG_add_zero: "length s = n \<Longrightarrow> RNG_add 0 s (replicate n 0) = s"
proof -
  assume l: "length s = n"
  have "octets_val s < 256 ^ length s" using octets_le_less [of "rev s"] by (simp add: octets_val_def)
  with RNG_add_val [of s "replicate n 0" 0] l have "octets_val (RNG_add 0 s (replicate n 0)) = octets_val s"
    by (simp add: octets_val_def)
  with RNG_add_val(1) [of s "replicate n 0" 0] l show ?thesis by (intro octets_val_inj) simp_all
qed

lemma RNG_digest_correct:
  assumes "sha1_valid (rng_digestContext cx)"
  shows "\<exists>dc. sha1_valid dc \<and> RNG_digest cx inp = (cx\<lparr>rng_digestContext := dc\<rparr>, sha1_digest inp)"
proof -
  let ?c = "SHA1_Update (SHA1_Begin (rng_digestContext cx)) inp"
  have "sha1_absorbed ?c ([] @ inp)" using SHA1_Update_absorbed SHA1_Begin_absorbed [OF assms] by blast
  note e = SHA1_End_absorbed [OF this]
  have "RNG_digest cx inp = (cx\<lparr>rng_digestContext := fst (SHA1_End ?c)\<rparr>, sha1_digest inp)"
    using e(1) by (simp add: RNG_digest_def case_prod_beta Let_def)
  with e(2) show ?thesis by blast
qed

lemma RNG_stir_None:
  assumes ok: "rng_ok cx"
  shows "let out = sha1_digest (rng_state cx) in
    \<exists>dc. sha1_valid dc \<and> RNG_stir cx None =
      (if out = rng_output cx then (cx\<lparr>rng_digestContext := dc\<rparr>, False)
       else (cx\<lparr>rng_digestContext := dc, rng_output := out, rng_state := sha1_digest (RNG_add 1 (rng_state cx) out), rng_outputAvailable := 20\<rparr>, True))"
proof -
  let ?out = "sha1_digest (rng_state cx)"
  have v: "sha1_valid (rng_digestContext cx)" and z: "RNG_add 0 (rng_state cx) (replicate 20 0) = rng_state cx"
    using ok by (simp_all add: rng_ok_def RNG_add_zero)
  obtain dc where dc: "sha1_valid dc" "RNG_digest cx (rng_state cx) = (cx\<lparr>rng_digestContext := dc\<rparr>, ?out)"
    using RNG_digest_correct [OF v] by blast
  let ?c = "cx\<lparr>rng_digestContext := dc, rng_output := ?out\<rparr>"
  obtain dc' where dc': "sha1_valid dc'" "RNG_digest ?c (RNG_add 1 (rng_state cx) ?out)
      = (?c\<lparr>rng_digestContext := dc'\<rparr>, sha1_digest (RNG_add 1 (rng_state cx) ?out))"
    using RNG_digest_correct [of ?c "RNG_add 1 (rng_state cx) ?out"] dc(1) by auto
  have "RNG_stir cx None = (if ?out = rng_output cx then (cx\<lparr>rng_digestContext := dc\<rparr>, False)
       else (cx\<lparr>rng_digestContext := dc', rng_output := ?out, rng_state := sha1_digest (RNG_add 1 (rng_state cx) ?out), rng_outputAvailable := 20\<rparr>, True))"
    using dc'(2) by (simp add: RNG_stir_def Let_def z dc(2))
  with dc(1) dc'(1) show ?thesis by (auto simp: Let_def)
qed

lemma RNG_stir_ok: "rng_ok cx \<Longrightarrow> RNG_stir cx None = (cx', status) \<Longrightarrow> rng_ok cx'"
  using RNG_stir_None [of cx] by (auto simp: Let_def rng_ok_def length_sha1_digest split: if_splits)

lemma RNG_stir_fresh:
  "rng_ok cx \<Longrightarrow> RNG_stir cx None = (cx', status) \<Longrightarrow> status \<longleftrightarrow> sha1_digest (rng_state cx) \<noteq> rng_output cx"
  using RNG_stir_None [of cx] by (auto simp: Let_def split: if_splits)

lemma RNG_stir_step:
  "rng_ok cx \<Longrightarrow> RNG_stir cx None = (cx', True) \<Longrightarrow> rng_output cx' = sha1_digest (rng_state cx) \<and>
    rng_state cx' = sha1_digest (RNG_add 1 (rng_state cx) (rng_output cx')) \<and> rng_outputAvailable cx' = 20 \<and>
    rng_unread cx' = sha1_digest (rng_state cx)"
  using RNG_stir_None [of cx] by (auto simp: Let_def rng_unread_def split: if_splits)

lemma RNG_stir_fails:
  "rng_ok cx \<Longrightarrow> RNG_stir cx None = (cx', False) \<Longrightarrow> rng_output cx' = rng_output cx \<and> rng_state cx' = rng_state cx \<and>
    rng_outputAvailable cx' = rng_outputAvailable cx"
  using RNG_stir_None [of cx] by (auto simp: Let_def split: if_splits)

text \<open>What the loop writes when it is entered with the available bytes of its context.\<close>

lemma RNG_generate_loop_spec:
  assumes "rng_ok cx" and "a = rng_outputAvailable cx"
  shows "case RNG_generate_loop cx a n dest of (cx', out, status) \<Rightarrow>
    rng_ok cx' \<and> status = rng_fresh (rng_refills cx n) (rng_output cx) (rng_state cx) \<and>
    (status \<longrightarrow> (\<exists>bs. out = dest @ bs \<and> length bs = n \<and>
       (\<forall>k. rng_unread cx @ rng_stream (rng_refills cx n + k) (rng_state cx) = bs @ rng_unread cx' @ rng_stream k (rng_state cx'))))"
  using assms
proof (induction cx a n dest rule: RNG_generate_loop.induct)
  case (1 cx a n dest)
  note ok = 1(2) and a = 1(3)
  have lo: "length (rng_output cx) = 20" "a \<le> 20" using ok a by (simp_all add: rng_ok_def)
  show ?case
  proof (cases "a < n")
    case False
    let ?cx' = "cx\<lparr>rng_outputAvailable := a - n\<rparr>" and ?bs = "take n (rng_unread cx)"
    have e: "RNG_generate_loop cx a n dest = (?cx', dest @ ?bs, True)"
      using False by (subst RNG_generate_loop.simps) (simp add: rng_unread_def a)
    have "20 - (a - n) = n + (20 - a)" using False lo(2) by linarith
    then have "rng_unread ?cx' = drop n (rng_unread cx)" by (simp add: rng_unread_def a)
    moreover have "rng_refills cx n = 0" using False a by (simp add: rng_refills_def)
    moreover have "length ?bs = n" using False lo a by (simp add: rng_unread_def)
    moreover have "rng_ok ?cx'" using ok lo by (simp add: rng_ok_def)
    moreover have "rng_unread cx @ xs = ?bs @ drop n (rng_unread cx) @ xs" for xs
      by (metis append.assoc append_take_drop_id)
    ultimately show ?thesis unfolding e by simp
  next
    case True
    define r where "r = (n - a - 20 + 19) div 20"
    have r: "rng_refills cx n = Suc r"
    proof -
      have "(n - a + 19) div 20 = Suc ((n - a - 20 + 19) div 20)" using True by (cases "n - a \<le> 20") (auto simp: div_if [of "n - a + 19"])
      then show ?thesis by (simp add: rng_refills_def r_def a)
    qed
    obtain cx1 status where s: "RNG_stir cx None = (cx1, status)" by (cases "RNG_stir cx None") blast
    note ok1 = RNG_stir_ok [OF ok s] and fresh = RNG_stir_fresh [OF ok s]
    show ?thesis
    proof (cases status)
      case False
      then have "RNG_generate_loop cx a n dest = (cx1, dest @ drop (20 - a) (rng_output cx), False)"
        using True s by (subst RNG_generate_loop.simps) simp
      with False ok1 fresh show ?thesis by (simp add: r)
    next
      case st: True
      note step = RNG_stir_step [OF ok s [unfolded st eqTrueI [OF st]]]
      have e: "RNG_generate_loop cx a n dest
          = RNG_generate_loop cx1 (rng_outputAvailable cx1) (n - a) (dest @ rng_unread cx)"
        using True s st by (subst RNG_generate_loop.simps) (simp add: rng_unread_def a)
      have r1: "rng_refills cx1 (n - a) = r" using step by (simp add: rng_refills_def r_def)
      have IH: "case RNG_generate_loop cx1 (rng_outputAvailable cx1) (n - a) (dest @ rng_unread cx) of (cx', out, status) \<Rightarrow>
          rng_ok cx' \<and> status = rng_fresh r (rng_output cx1) (rng_state cx1) \<and>
          (status \<longrightarrow> (\<exists>bs. out = (dest @ rng_unread cx) @ bs \<and> length bs = n - a \<and>
            (\<forall>k. rng_unread cx1 @ rng_stream (r + k) (rng_state cx1) = bs @ rng_unread cx' @ rng_stream k (rng_state cx'))))"
        using 1(1) [OF True s [symmetric]] st ok1 r1 by (simp add: rng_unread_def a)
      have l: "length (rng_unread cx) = a" using lo by (simp add: rng_unread_def a)
      have f: "rng_fresh (Suc r) (rng_output cx) (rng_state cx) = rng_fresh r (rng_output cx1) (rng_state cx1)"
        using fresh st step by (simp add: Let_def)
      have str: "rng_stream (Suc r + k) (rng_state cx) = rng_unread cx1 @ rng_stream (r + k) (rng_state cx1)" for k
        using step by (simp add: Let_def)
      obtain cx2 out st2 where g: "RNG_generate_loop cx1 (rng_outputAvailable cx1) (n - a) (dest @ rng_unread cx) = (cx2, out, st2)"
        by (cases "RNG_generate_loop cx1 (rng_outputAvailable cx1) (n - a) (dest @ rng_unread cx)") blast
      have o2: "rng_ok cx2" "st2 = rng_fresh r (rng_output cx1) (rng_state cx1)" using IH by (simp_all add: g)
      have "\<exists>bs. out = dest @ bs \<and> length bs = n \<and>
         (\<forall>k. rng_unread cx @ rng_stream (Suc r + k) (rng_state cx) = bs @ rng_unread cx2 @ rng_stream k (rng_state cx2))" if st2: "st2"
      proof -
        obtain bs where bs: "out = (dest @ rng_unread cx) @ bs" "length bs = n - a"
          "\<And>k. rng_unread cx1 @ rng_stream (r + k) (rng_state cx1) = bs @ rng_unread cx2 @ rng_stream k (rng_state cx2)"
          using IH st2 by (auto simp: g)
        show ?thesis by (intro exI [of _ "rng_unread cx @ bs"]) (unfold str, use bs l True in simp)
      qed
      with o2 show ?thesis unfolding e g r f by simp
    qed
  qed
qed

lemma RNG_GenerateRandomBytes_spec:
  assumes "rng_ok cx" and "RNG_GenerateRandomBytes cx n = (cx', out, status)"
  shows "rng_ok cx'" and "status \<longleftrightarrow> rng_fresh (rng_refills cx n) (rng_output cx) (rng_state cx)"
    and "status \<Longrightarrow> length out = n \<and> (\<forall>k. rng_unread cx @ rng_stream (rng_refills cx n + k) (rng_state cx)
        = out @ rng_unread cx' @ rng_stream k (rng_state cx'))"
  using RNG_generate_loop_spec [OF assms(1) refl, of n "[]"] assms(2) by (auto simp: RNG_GenerateRandomBytes_def)

text \<open>A failure leaves a context whose next refill fails in the same way.\<close>

lemma RNG_generate_loop_failed:
  assumes "rng_ok cx" and "a = rng_outputAvailable cx" and "RNG_generate_loop cx a n dest = (cx', out, False)"
  shows "sha1_digest (rng_state cx') = rng_output cx' \<and> rng_ok cx' \<and> length dest \<le> length out - length (rng_unread cx') \<and>
    length (rng_unread cx') \<le> length out \<and> drop (length out - length (rng_unread cx')) out = rng_unread cx' \<and>
    length out < length dest + n"
  using assms
proof (induction cx a n dest rule: RNG_generate_loop.induct)
  case (1 cx a n dest)
  note ok = 1(2) and a = 1(3)
  have lo: "length (rng_output cx) = 20" "a \<le> 20" using ok a by (simp_all add: rng_ok_def)
  have n: "a < n" using 1(4) by (subst (asm) RNG_generate_loop.simps) (auto split: if_splits)
  obtain cx1 status where s: "RNG_stir cx None = (cx1, status)" by (cases "RNG_stir cx None") blast
  note ok1 = RNG_stir_ok [OF ok s] and fresh = RNG_stir_fresh [OF ok s]
  have l: "length (rng_unread cx) = a" using lo by (simp add: rng_unread_def a)
  show ?case
  proof (cases status)
    case False
    then have "RNG_stir cx None = (cx1, False)" using s by simp
    note f = RNG_stir_fails [OF ok this]
    have e: "cx' = cx1" "out = dest @ rng_unread cx"
      using 1(4) n s False by (subst (asm) RNG_generate_loop.simps, simp add: rng_unread_def a)+
    have u: "rng_unread cx1 = rng_unread cx" using f by (simp add: rng_unread_def)
    show ?thesis using ok1 fresh False f l n by (simp add: e u)
  next
    case True
    note step = RNG_stir_step [OF ok s [unfolded eqTrueI [OF True]]]
    have "RNG_generate_loop cx1 (rng_outputAvailable cx1) (n - a) (dest @ rng_unread cx) = (cx', out, False)"
      using 1(4) n s True by (subst (asm) RNG_generate_loop.simps) (simp add: rng_unread_def a)
    then show ?thesis using 1(1) [OF n s [symmetric]] True ok1 l n by (auto simp: rng_unread_def a)
  qed
qed

section \<open>Properties\<close>

text \<open>Requests one after the other, as long as they succeed.\<close>

fun rng_requests :: "RNGContext \<Rightarrow> nat list \<Rightarrow> RNGContext \<times> u8 list list \<times> bool" where
  "rng_requests cx [] = (cx, [], True)"
| "rng_requests cx (n # ns) =
     (case RNG_GenerateRandomBytes cx n of
        (cx, out, False) \<Rightarrow> (cx, [], False)
      | (cx, out, True) \<Rightarrow> (case rng_requests cx ns of (cx, outs, status) \<Rightarrow> (cx, out # outs, status)))"

text \<open>
  C9. The generator hands out one stream of bytes. Requests of any lengths return its consecutive
  pieces, first the bytes that are left in the context and then the digests \<open>SHA1 (state)\<close>, between
  which the state becomes \<open>SHA1 (state + output + 1)\<close> with the sum taken modulo 2^160. No byte is
  handed out twice, none is skipped, and the bytes left at the end continue the stream.
\<close>

theorem RNG_refines_stream:
  assumes "rng_ok cx" and "rng_requests cx ns = (cx', outs, True)"
  shows "rng_ok cx' \<and> map length outs = ns \<and>
    (\<exists>j. \<forall>k. rng_unread cx @ rng_stream (j + k) (rng_state cx) = concat outs @ rng_unread cx' @ rng_stream k (rng_state cx')) \<and>
    (\<forall>s d. length s = 20 \<longrightarrow> length d = 20 \<longrightarrow> octets_val (RNG_add 1 s d) = (1 + octets_val s + octets_val d) mod 2 ^ 160)"
proof -
  have "rng_ok cx' \<and> map length outs = ns \<and>
    (\<exists>j. \<forall>k. rng_unread cx @ rng_stream (j + k) (rng_state cx) = concat outs @ rng_unread cx' @ rng_stream k (rng_state cx'))"
    using assms
  proof (induction ns arbitrary: cx outs)
    case Nil
    then show ?case by (auto intro: exI [of _ 0])
  next
    case (Cons n ns)
    obtain c out st where g: "RNG_GenerateRandomBytes cx n = (c, out, st)" by (cases "RNG_GenerateRandomBytes cx n") blast
    with Cons.prems(2) have st: "st" by (cases st) auto
    with g Cons.prems(2) obtain os where os: "rng_requests c ns = (cx', os, True)" "outs = out # os"
      by (auto split: prod.splits)
    note s = RNG_GenerateRandomBytes_spec [OF Cons.prems(1) g]
    obtain j where j: "\<And>k. rng_unread c @ rng_stream (j + k) (rng_state c) = concat os @ rng_unread cx' @ rng_stream k (rng_state cx')"
      and IH: "rng_ok cx'" "map length os = ns" using Cons.IH [OF s(1) os(1)] by blast
    have "rng_unread cx @ rng_stream (rng_refills cx n + (j + k)) (rng_state cx) = out @ rng_unread c @ rng_stream (j + k) (rng_state c)" for k
      using s(3) [OF st] by blast
    then have "rng_unread cx @ rng_stream ((rng_refills cx n + j) + k) (rng_state cx) = concat outs @ rng_unread cx' @ rng_stream k (rng_state cx')" for k
      using j by (simp add: os(2) add.assoc)
    with IH s(3) [OF st] show ?case unfolding os(2) by auto
  qed
  moreover have "octets_val (RNG_add 1 s d) = (1 + octets_val s + octets_val d) mod 2 ^ 160" if "length s = 20" "length d = 20" for s d
    using RNG_add_val(2) [of s d 1] that by simp
  ultimately show ?thesis by blast
qed

definition rng_example :: RNGContext where
  "rng_example = \<lparr>rng_state = replicate 20 5, rng_output = map NOT (sha1_digest (replicate 20 5)), rng_outputAvailable = 8,
     rng_digestContext = SHA1_NewContext, rng_seed = replicate 20 0\<rparr>"

theorem RNG_refines_stream_witness:
  "\<exists>cx' a b. rng_requests rng_example [6, 5] = (cx', [a, b], True) \<and> length a = 6 \<and> length b = 5 \<and>
    a @ b = drop 12 (map NOT (sha1_digest (replicate 20 5))) @ take 3 (sha1_digest (replicate 20 5))"
proof -
  let ?d = "sha1_digest (replicate 20 5)"
  have ld: "length ?d = 20" by (rule length_sha1_digest)
  have ok: "rng_ok rng_example" by (simp add: rng_ok_def rng_example_def ld sha1_valid_def SHA1_NewContext_def)
  have ne: "?d \<noteq> map NOT ?d"
  proof
    assume "?d = map NOT ?d"
    then have "?d ! 0 = NOT (?d ! 0)" using ld by (metis nth_map zero_less_numeral)
    then have "bit (?d ! 0) 0 = bit (NOT (?d ! 0)) 0" by simp
    then show False by (simp add: bit_not_iff)
  qed
  let ?c = "rng_example\<lparr>rng_outputAvailable := 2\<rparr>" and ?a = "take 6 (drop 12 (map NOT ?d))"
  have a: "RNG_GenerateRandomBytes rng_example 6 = (?c, ?a, True)"
    by (simp add: RNG_GenerateRandomBytes_def RNG_generate_loop.simps) (simp add: rng_example_def)
  have okc: "rng_ok ?c" using ok by (simp add: rng_ok_def)
  obtain cx' b st where b: "RNG_GenerateRandomBytes ?c 5 = (cx', b, st)" by (cases "RNG_GenerateRandomBytes ?c 5") blast
  have "rng_fresh (rng_refills ?c 5) (rng_output ?c) (rng_state ?c)" using ne by (simp add: rng_refills_def rng_example_def)
  then have st: "st" using RNG_GenerateRandomBytes_spec(2) [OF okc b] by blast
  with a b have r: "rng_requests rng_example [6, 5] = (cx', [?a, b], True)" by simp
  note all = RNG_refines_stream [OF ok r]
  have len: "map length [?a, b] = [6, 5]" using all by (elim conjE)
  from all [THEN conjunct2, THEN conjunct2, THEN conjunct1] obtain j where
    j: "\<forall>k. rng_unread rng_example @ rng_stream (j + k) (rng_state rng_example) = concat [?a, b] @ rng_unread cx' @ rng_stream k (rng_state cx')"
    by (rule exE)
  have "take 11 (rng_unread rng_example @ rng_stream (j + 1) (rng_state rng_example)) = ?a @ b"
    using spec [OF j, of 1] len by simp
  then have "?a @ b = drop 12 (map NOT ?d) @ take 3 ?d" by (simp add: rng_unread_def rng_example_def Let_def ld)
  with r len show ?thesis by (intro exI [of _ cx'] exI [of _ ?a] exI [of _ b]) simp
qed

text \<open>
  C25. The continuous test of \<open>stir\<close> is final: once a request has failed, because a block would have
  been the same as the one before, no further request is answered with a new byte. The requests that fit
  into the bytes that the context counts as available are answered with the bytes that the failing
  call wrote last, as often as it is asked; every longer request fails again, until the generator is updated.
\<close>

theorem RNG_failure_repeats:
  assumes "rng_ok cx" and "RNG_GenerateRandomBytes cx n = (cx', out, False)"
  shows "case RNG_GenerateRandomBytes cx' m of (cx'', out', status) \<Rightarrow>
    (status \<longleftrightarrow> m \<le> rng_outputAvailable cx') \<and> rng_outputAvailable cx' \<le> length out \<and>
    (status \<longrightarrow> out' = take m (drop (length out - rng_outputAvailable cx') out))"
proof -
  have f: "sha1_digest (rng_state cx') = rng_output cx'" "rng_ok cx'" "length (rng_unread cx') \<le> length out"
    "drop (length out - length (rng_unread cx')) out = rng_unread cx'"
    using RNG_generate_loop_failed [OF assms(1) refl, of n "[]" cx' out] assms(2) by (simp_all add: RNG_GenerateRandomBytes_def)
  have l: "length (rng_unread cx') = rng_outputAvailable cx'" using f(2) by (simp add: rng_ok_def rng_unread_def)
  obtain cx'' out' status where g: "RNG_GenerateRandomBytes cx' m = (cx'', out', status)"
    by (cases "RNG_GenerateRandomBytes cx' m") blast
  note s = RNG_GenerateRandomBytes_spec [OF f(2) g]
  show ?thesis
  proof (cases "m \<le> rng_outputAvailable cx'")
    case True
    then have "RNG_GenerateRandomBytes cx' m = (cx'\<lparr>rng_outputAvailable := rng_outputAvailable cx' - m\<rparr>, take m (rng_unread cx'), True)"
      by (simp add: RNG_GenerateRandomBytes_def RNG_generate_loop.simps rng_unread_def)
    with True f l show ?thesis by simp
  next
    case False
    then have "rng_refills cx' m \<noteq> 0" by (simp add: rng_refills_def div_eq_0_iff)
    then obtain r where "rng_refills cx' m = Suc r" by (cases "rng_refills cx' m") simp_all
    then have "\<not> status" using s(2) f(1) by (simp add: Let_def)
    with False f(3) l g show ?thesis by simp
  qed
qed

definition rng_stuck :: RNGContext where
  "rng_stuck = \<lparr>rng_state = replicate 20 5, rng_output = sha1_digest (replicate 20 5), rng_outputAvailable = 8,
     rng_digestContext = SHA1_NewContext, rng_seed = replicate 20 0\<rparr>"

theorem RNG_failure_repeats_witness:
  "\<exists>cx' cx''. RNG_GenerateRandomBytes rng_stuck 9 = (cx', drop 12 (sha1_digest (replicate 20 5)), False) \<and>
     RNG_GenerateRandomBytes cx' 8 = (cx'', drop 12 (sha1_digest (replicate 20 5)), True)"
proof -
  let ?d = "sha1_digest (replicate 20 5)"
  have ok: "rng_ok rng_stuck" by (simp add: rng_ok_def rng_stuck_def length_sha1_digest sha1_valid_def SHA1_NewContext_def)
  obtain dc where dc: "RNG_stir rng_stuck None = (rng_stuck\<lparr>rng_digestContext := dc\<rparr>, False)"
    using RNG_stir_None [OF ok] by (auto simp: Let_def rng_stuck_def)
  let ?c = "rng_stuck\<lparr>rng_digestContext := dc\<rparr>"
  have a: "rng_outputAvailable rng_stuck = 8" "rng_output rng_stuck = ?d" by (simp_all add: rng_stuck_def)
  have g: "RNG_GenerateRandomBytes rng_stuck 9 = (?c, drop 12 ?d, False)"
    unfolding RNG_GenerateRandomBytes_def by (subst RNG_generate_loop.simps) (simp add: dc a)
  obtain cx'' out' st where g2: "RNG_GenerateRandomBytes ?c 8 = (cx'', out', st)" by (cases "RNG_GenerateRandomBytes ?c 8") blast
  from RNG_failure_repeats [OF ok g, of 8] have "st" "out' = drop 12 ?d" by (simp_all add: g2 a length_sha1_digest)
  with g g2 show ?thesis by auto
qed

end
