(* ===== verification/RSA_Numbers.thy ===== *)
theory RSA_Numbers
  imports Prelude
begin

text \<open>
  The arithmetic behind the public key operations: Fermat's little theorem, from the divisibility of
  the binomial coefficients, and exponents that are inverse to each other modulo \<open>p - 1\<close>.
\<close>

definition prime_nat :: "nat \<Rightarrow> bool" where
  "prime_nat p \<longleftrightarrow> 1 < p \<and> (\<forall>d. d dvd p \<longrightarrow> d = 1 \<or> d = p)"

lemma prime_coprime: "prime_nat p \<Longrightarrow> \<not> p dvd a \<Longrightarrow> coprime p a"
proof -
  assume p: "prime_nat p" "\<not> p dvd a"
  then have "gcd p a = 1 \<or> gcd p a = p" by (simp add: prime_nat_def)
  with p(2) show ?thesis by (metis coprime_iff_gcd_eq_1 gcd_dvd2)
qed

lemma prime_dvd_product: "prime_nat p \<Longrightarrow> p dvd a * b \<Longrightarrow> p dvd a \<or> p dvd b"
  using prime_coprime [of p a] by (metis coprime_dvd_mult_right_iff)

lemma prime_dvd_choose: "prime_nat p \<Longrightarrow> 0 < k \<Longrightarrow> k < p \<Longrightarrow> p dvd (p choose k)"
proof -
  assume p: "prime_nat p" and k: "0 < k" "k < p"
  obtain j where j: "k = Suc j" using k(1) by (cases k) simp_all
  have "k * (p choose k) = p * ((p - 1) choose j)" unfolding j by (rule binomial_absorption)
  then have "p dvd k * (p choose k)" by simp
  moreover have "\<not> p dvd k" using k by (auto dest: dvd_imp_le)
  ultimately show ?thesis using prime_dvd_product [OF p] by blast
qed

lemma mod_cancel_coprime: "coprime p a \<Longrightarrow> (a * x) mod p = (a * y) mod p \<Longrightarrow> x mod p = y mod (p :: nat)"
proof (induction x y rule: linorder_wlog)
  case (le x y)
  then have "p dvd a * y - a * x" by (metis mod_eq_dvd_iff_nat mult_le_mono2)
  then have "p dvd y - x" using le by (metis coprime_dvd_mult_right_iff right_diff_distrib')
  with le show ?case by (metis mod_eq_dvd_iff_nat)
qed simp

lemma fermat_power: "prime_nat p \<Longrightarrow> a ^ p mod p = a mod p"
proof (induction a)
  case 0
  then have "0 < p" by (simp add: prime_nat_def)
  then show ?case by (simp add: power_0_left)
next
  case (Suc a)
  have p: "1 < p" using Suc.prems by (simp add: prime_nat_def)
  have "(a + 1) ^ p = (\<Sum>k\<le>p. of_nat (p choose k) * a ^ k * 1 ^ (p - k))" by (rule binomial_ring)
  also have "\<dots> = (\<Sum>k\<le>p. (p choose k) * a ^ k)" by simp
  also have "{..p} = insert 0 (insert p {0<..<p})" using p by auto
  also have "(\<Sum>k\<in>\<dots>. (p choose k) * a ^ k) = 1 + (a ^ p + (\<Sum>k\<in>{0<..<p}. (p choose k) * a ^ k))" using p by simp
  finally have e: "(a + 1) ^ p = a ^ p + 1 + (\<Sum>k\<in>{0<..<p}. (p choose k) * a ^ k)" by simp
  have "p dvd (\<Sum>k\<in>{0<..<p}. (p choose k) * a ^ k)"
    by (intro dvd_sum dvd_mult2 prime_dvd_choose [OF Suc.prems]) auto
  then obtain c where c: "(\<Sum>k\<in>{0<..<p}. (p choose k) * a ^ k) = p * c" by (rule dvdE)
  have "(a + 1) ^ p mod p = (a ^ p + 1) mod p" unfolding e c by (rule mod_mult_self2)
  also have "\<dots> = (a + 1) mod p" using Suc by (metis mod_add_left_eq)
  finally show ?case by simp
qed

lemma fermat_one: "prime_nat p \<Longrightarrow> \<not> p dvd a \<Longrightarrow> a ^ (p - 1) mod p = 1"
proof -
  assume p: "prime_nat p" and a: "\<not> p dvd a"
  have p1: "1 < p" using p by (simp add: prime_nat_def)
  have "a ^ p = a * a ^ (p - 1)" using p1 by (metis Suc_diff_1 less_trans power_Suc zero_less_one)
  then have "(a * a ^ (p - 1)) mod p = (a * 1) mod p" using fermat_power [OF p, of a] by simp
  then have "a ^ (p - 1) mod p = 1 mod p" using mod_cancel_coprime [OF prime_coprime [OF p a]] by blast
  with p1 show ?thesis by simp
qed

text \<open>Exponents count modulo \<open>p - 1\<close>, for all bases as long as they are not zero.\<close>

lemma fermat_exponents:
  assumes p: "prime_nat p" and "a mod (p - 1) = b mod (p - 1)" and "0 < a" and "0 < b"
  shows "x ^ a mod p = x ^ b mod p"
  using assms(2,3,4)
proof (induction a b rule: linorder_wlog)
  case (le a b)
  show ?case
  proof (cases "p dvd x")
    case True
    then have "p dvd x ^ a" "p dvd x ^ b" using le(3,4) by (metis dvd_power dvd_trans)+
    then show ?thesis by (simp add: dvd_eq_mod_eq_0)
  next
    case False
    have "p - 1 dvd b - a" using le(1,2) by (metis mod_eq_dvd_iff_nat)
    then obtain k where "b - a = (p - 1) * k" by (rule dvdE)
    with le(1) have k: "b = a + (p - 1) * k" by simp
    have "x ^ b mod p = x ^ a * (x ^ (p - 1) mod p) ^ k mod p"
      unfolding k power_add power_mult by (metis mod_mult_right_eq power_mod)
    then show ?thesis unfolding fermat_one [OF p False] by simp
  qed
qed simp

lemma fermat_inverse_exponent:
  "prime_nat p \<Longrightarrow> e mod (p - 1) = 1 mod (p - 1) \<Longrightarrow> 0 < e \<Longrightarrow> a ^ e mod p = a mod p"
  using fermat_exponents [of p e 1 a] by simp

end
