(* ===== verification/RSA.thy ===== *)
theory RSA
  imports CMP_Convert RNG RSA_Numbers
begin

text \<open>
  The RSA operations: security/lib/crypto/rsa.c (public key) and crt.c (private key, by the Chinese
  remainder theorem, with the input blinded by a random number). A context keeps the bytes of a block
  that is not complete. The sizes of blocks and buffers are natural numbers. A routine that fails
  returns the error only.
\<close>

section \<open>The model\<close>

datatype RSAError =
    RSA_ERROR c_error
  | SEC_ERROR_BAD_DATA
  | RSA_CMP CMPStatus   \<comment> \<open>the status of a routine on numbers, which the code returns as it is\<close>
  | RSA_INDETERMINATE   \<comment> \<open>bytes are read that were never written\<close>

abbreviation rsa_cmp :: "CMPStatus + 'a \<Rightarrow> RSAError + 'a" where
  "rsa_cmp r \<equiv> map_sum RSA_CMP id r"

record RSAPublicKey =
  rpk_modulus :: "u8 list"
  rpk_publicExponent :: "u8 list"

record RSAPrivateKey =
  rsk_modulus :: "u8 list"
  rsk_publicExponent :: "u8 list"
  rsk_privateExponent :: "u8 list"
  rsk_prime0 :: "u8 list"
  rsk_prime1 :: "u8 list"
  rsk_primeExponent0 :: "u8 list"
  rsk_primeExponent1 :: "u8 list"
  rsk_coefficient :: "u8 list"

text \<open>Which allocations succeed: of words for numbers, and of the blocks of these routines.\<close>

record RSAMemory =
  mem_cmp :: "nat \<Rightarrow> bool"
  mem_context :: bool
  mem_input :: bool
  mem_tempBuffer :: bool
  mem_block :: bool

record RSAPublicContext =
  pub_blockLen :: nat
  pub_input :: "u8 list"
  pub_modulus :: CMPInt
  pub_publicExponent :: CMPInt

datatype RSAMode = NO_BLIND_MODE | BLIND_BBT_MODE

record RSAPrivateContext =
  priv_mode :: RSAMode
  priv_blockLen :: nat
  priv_input :: "u8 list"
  priv_modulus :: CMPInt
  priv_publicExponent :: CMPInt
  priv_privateExponent :: CMPInt
  priv_prime0 :: CMPInt
  priv_prime1 :: CMPInt
  priv_primeExponent0 :: CMPInt
  priv_primeExponent1 :: CMPInt
  priv_coefficient :: CMPInt

text \<open>
  The block structure of both \<open>Update\<close> routines: the held bytes are completed to a block, then all
  blocks of the input are processed, the rest is held. \<open>run\<close> is \<open>RSA_Operation\<close> or \<open>RSA_CRT\<close> with the
  space that is left for output. Blocks of no bytes do not occur in a context that was created.
\<close>

function RSA_blocks ::
  "('s \<Rightarrow> nat \<Rightarrow> u8 list \<Rightarrow> RSAError + 's \<times> u8 list) \<Rightarrow> nat \<Rightarrow> 's \<Rightarrow> nat \<Rightarrow> u8 list \<Rightarrow>
   RSAError + 's \<times> u8 list \<times> u8 list" where
  "RSA_blocks run blockLen s maxPartOutLen partIn =
     (if length partIn < blockLen then Inr (s, [], partIn)
      else if blockLen = 0 then Inl (RSA_ERROR OUT_OF_BOUNDS)
      else on_success (run s maxPartOutLen (take blockLen partIn)) (\<lambda>(s, out).
           on_success (RSA_blocks run blockLen s (maxPartOutLen - length out) (drop blockLen partIn))
             (\<lambda>(s, outs, rest). Inr (s, out @ outs, rest))))"
  by pat_completeness auto
termination
  by (relation "measure (\<lambda>(run, blockLen, s, n, partIn). length partIn)") auto

declare RSA_blocks.simps [simp del]

definition RSA_update ::
  "('s \<Rightarrow> nat \<Rightarrow> u8 list \<Rightarrow> RSAError + 's \<times> u8 list) \<Rightarrow> nat \<Rightarrow> u8 list \<Rightarrow> 's \<Rightarrow> nat \<Rightarrow> u8 list \<Rightarrow>
   RSAError + 's \<times> u8 list \<times> u8 list" where
  "RSA_update run blockLen input s maxPartOutLen partIn =
     (if length input + length partIn < blockLen then Inr (s, [], input @ partIn)
      else if length input > 0
      then let partialLen = blockLen - length input
           in on_success (run s maxPartOutLen (input @ take partialLen partIn)) (\<lambda>(s, out).
              on_success (RSA_blocks run blockLen s (maxPartOutLen - length out) (drop partialLen partIn))
                (\<lambda>(s, outs, rest). Inr (s, out @ outs, rest)))
      else RSA_blocks run blockLen s maxPartOutLen partIn)"

subsection \<open>rsa.c\<close>

definition RSA_CreatePublicContext :: "RSAMemory \<Rightarrow> RSAPublicKey \<Rightarrow> RSAError + RSAPublicContext" where
  "RSA_CreatePublicContext m key =
     (if \<not> mem_context m then Inl (RSA_ERROR NO_MEMORY)
      else on_success (rsa_cmp (CMP_OctetStringToCMPInt (mem_cmp m) (rpk_modulus key) CMP_Constructor)) (\<lambda>modulus.
           on_success (rsa_cmp (CMP_OctetStringToCMPInt (mem_cmp m) (rpk_publicExponent key) CMP_Constructor)) (\<lambda>publicExponent.
           let blockLen = CMP_BITS_TO_LEN (CMP_BitLengthOfCMPInt modulus)
           in if \<not> mem_input m then Inl (RSA_ERROR NO_MEMORY)
              else Inr \<lparr>pub_blockLen = blockLen, pub_input = [], pub_modulus = modulus, pub_publicExponent = publicExponent\<rparr>)))"

definition RSA_Operation ::
  "RSAMemory \<Rightarrow> RSAPublicContext \<Rightarrow> nat \<Rightarrow> u8 list \<Rightarrow> RSAError + RSAPublicContext \<times> u8 list" where
  "RSA_Operation m cx maxOutputLen input =
     (if pub_blockLen cx > maxOutputLen then Inl (RSA_ERROR SEC_ERROR_OUTPUT_LEN)
      else on_success (rsa_cmp (CMP_OctetStringToCMPInt (mem_cmp m) input CMP_Constructor)) (\<lambda>cmpInputBuffer.
           on_success (rsa_cmp (CMP_ModExp (mem_cmp m) cmpInputBuffer (pub_publicExponent cx) (pub_modulus cx) CMP_Constructor))
             (\<lambda>(modulus, cmpOutputBuffer).
           let modulusLen = CMP_BITS_TO_LEN (CMP_BitLengthOfCMPInt modulus)
           in on_success (rsa_cmp (CMP_CMPIntToFixedLenOctetStr cmpOutputBuffer modulusLen maxOutputLen)) (\<lambda>output.
                Inr (cx\<lparr>pub_modulus := modulus\<rparr>, output)))))"

definition RSA_PublicUpdate ::
  "RSAMemory \<Rightarrow> RSAPublicContext \<Rightarrow> nat \<Rightarrow> u8 list \<Rightarrow> RSAError + RSAPublicContext \<times> u8 list" where
  "RSA_PublicUpdate m cx maxPartOutLen partIn =
     on_success (RSA_update (RSA_Operation m) (pub_blockLen cx) (pub_input cx) cx maxPartOutLen partIn)
       (\<lambda>(cx, partOut, rest). Inr (cx\<lparr>pub_input := rest\<rparr>, partOut))"

definition RSA_PublicEnd :: "RSAPublicContext \<Rightarrow> RSAError + RSAPublicContext" where
  "RSA_PublicEnd cx = (if length (pub_input cx) \<noteq> 0 then Inl (RSA_ERROR SEC_ERROR_INPUT_LEN) else Inr (cx\<lparr>pub_input := []\<rparr>))"

subsection \<open>crt.c\<close>

definition RSA_CreatePrivateContext :: "RSAMemory \<Rightarrow> RSAPrivateKey \<Rightarrow> RSAError + RSAPrivateContext" where
  "RSA_CreatePrivateContext m key =
     (let octets = \<lambda>os. rsa_cmp (CMP_OctetStringToCMPInt (mem_cmp m) os CMP_Constructor) in
      if \<not> mem_context m then Inl (RSA_ERROR NO_MEMORY)
      else on_success (octets (rsk_modulus key)) (\<lambda>modulus.
           let blockLen = CMP_BITS_TO_LEN (CMP_BitLengthOfCMPInt modulus)
           in if \<not> mem_input m then Inl (RSA_ERROR NO_MEMORY)
              else on_success (octets (rsk_publicExponent key)) (\<lambda>publicExponent.
                   on_success (octets (rsk_privateExponent key)) (\<lambda>privateExponent.
                   on_success (octets (rsk_prime0 key)) (\<lambda>prime0.
                   on_success (octets (rsk_prime1 key)) (\<lambda>prime1.
                   on_success (octets (rsk_primeExponent0 key)) (\<lambda>primeExponent0.
                   on_success (octets (rsk_primeExponent1 key)) (\<lambda>primeExponent1.
                   on_success (octets (rsk_coefficient key)) (\<lambda>coefficient.
                     Inr \<lparr>priv_mode = BLIND_BBT_MODE, priv_blockLen = blockLen, priv_input = [], priv_modulus = modulus,
                       priv_publicExponent = publicExponent, priv_privateExponent = privateExponent,
                       priv_prime0 = prime0, priv_prime1 = prime1, priv_primeExponent0 = primeExponent0,
                       priv_primeExponent1 = primeExponent1, priv_coefficient = coefficient\<rparr>)))))))))"

text \<open>
  \<open>blinded\<close> is the random number with its first byte cleared, \<open>None\<close> where no buffer could be allocated:
  then the routine returns success without having done anything.
\<close>

definition RSA_random :: "RSAMemory \<Rightarrow> RNGContext option \<Rightarrow> nat \<Rightarrow> RSAError + RNGContext option \<times> u8 list" where
  "RSA_random m rng modulusLen =
     (case RNG_GenerateGlobalRandomBytes rng modulusLen of
        Inl e \<Rightarrow> Inl (RSA_ERROR e)
      | Inr (rng, bytes, status) \<Rightarrow>
          if length bytes < modulusLen then Inl RSA_INDETERMINATE else Inr (rng, bytes[0 := 0]))"

definition BlindingMultiply ::
  "RSAMemory \<Rightarrow> RNGContext option \<Rightarrow> RSAPrivateContext \<Rightarrow> CMPInt \<Rightarrow> CMPInt \<Rightarrow>
   RSAError + RNGContext option \<times> RSAPrivateContext \<times> CMPInt \<times> CMPInt" where
  "BlindingMultiply m rng cx blindingInverse inputCMP =
     (let modulusLen = cmp_len (priv_modulus cx) * 4 in
      if \<not> mem_tempBuffer m then Inr (rng, cx, blindingInverse, inputCMP)
      else on_success (RSA_random m rng modulusLen) (\<lambda>(rng, tempBuffer).
           on_success (rsa_cmp (CMP_OctetStringToCMPInt (mem_cmp m) tempBuffer CMP_Constructor)) (\<lambda>randomCMP.
           on_success (rsa_cmp (CMP_ModExp (mem_cmp m) randomCMP (priv_publicExponent cx) (priv_modulus cx) CMP_Constructor))
             (\<lambda>(modulus, blindingValue).
           on_success (rsa_cmp (CMP_ModInvert (mem_cmp m) randomCMP modulus blindingInverse)) (\<lambda>(randomCMP, modulus, blindingInverse).
           on_success (rsa_cmp (CMP_ModMultiply (mem_cmp m) blindingValue inputCMP modulus randomCMP)) (\<lambda>(modulus, randomCMP).
           on_success (rsa_cmp (CMP_Move (mem_cmp m) randomCMP inputCMP)) (\<lambda>inputCMP.
             Inr (rng, cx\<lparr>priv_modulus := modulus\<rparr>, blindingInverse, inputCMP))))))))"

definition RSA_CRT ::
  "RSAMemory \<Rightarrow> RNGContext option \<times> RSAPrivateContext \<Rightarrow> nat \<Rightarrow> u8 list \<Rightarrow>
   RSAError + (RNGContext option \<times> RSAPrivateContext) \<times> u8 list" where
  "RSA_CRT m s maxOutputLen input =
     (case s of (rng, cx) \<Rightarrow>
      if priv_blockLen cx > maxOutputLen then Inl (RSA_ERROR SEC_ERROR_OUTPUT_LEN)
      else on_success (rsa_cmp (CMP_OctetStringToCMPInt (mem_cmp m) input CMP_Constructor)) (\<lambda>inputCMP.
           if CMP_Compare inputCMP (priv_modulus cx) \<ge> 0 then Inl SEC_ERROR_BAD_DATA
           else on_success (if priv_mode cx = BLIND_BBT_MODE then BlindingMultiply m rng cx CMP_Constructor inputCMP
                            else Inr (rng, cx, CMP_Constructor, inputCMP)) (\<lambda>(rng, cx, blindingInverse, inputCMP).
                on_success (rsa_cmp (CMP_ModExpCRT (mem_cmp m) inputCMP (priv_prime0 cx) (priv_prime1 cx) (priv_primeExponent0 cx)
                    (priv_primeExponent1 cx) (priv_coefficient cx) CMP_Constructor)) (\<lambda>(inputCMP, prime0, prime1, outputCMP).
                let cx = cx\<lparr>priv_prime0 := prime0, priv_prime1 := prime1\<rparr>
                in if priv_mode cx = BLIND_BBT_MODE
                   then on_success (rsa_cmp (CMP_ModMultiply (mem_cmp m) outputCMP blindingInverse (priv_modulus cx) inputCMP))
                          (\<lambda>(modulus, inputCMP).
                        let modulusLen = CMP_BITS_TO_LEN (CMP_BitLengthOfCMPInt modulus)
                        in on_success (rsa_cmp (CMP_CMPIntToFixedLenOctetStr inputCMP modulusLen maxOutputLen)) (\<lambda>output.
                             Inr ((rng, cx\<lparr>priv_modulus := modulus\<rparr>), output)))
                   else let modulusLen = CMP_BITS_TO_LEN (CMP_BitLengthOfCMPInt (priv_modulus cx))
                        in on_success (rsa_cmp (CMP_CMPIntToFixedLenOctetStr outputCMP modulusLen maxOutputLen)) (\<lambda>output.
                             Inr ((rng, cx), output))))))"

definition RSA_PrivateUpdate ::
  "RSAMemory \<Rightarrow> RNGContext option \<Rightarrow> RSAPrivateContext \<Rightarrow> nat \<Rightarrow> u8 list \<Rightarrow>
   RSAError + RNGContext option \<times> RSAPrivateContext \<times> u8 list" where
  "RSA_PrivateUpdate m rng cx maxPartOutLen partIn =
     on_success (RSA_update (RSA_CRT m) (priv_blockLen cx) (priv_input cx) (rng, cx) maxPartOutLen partIn)
       (\<lambda>((rng, cx), partOut, rest). Inr (rng, cx\<lparr>priv_input := rest\<rparr>, partOut))"

definition RSA_PrivateEnd :: "RSAPrivateContext \<Rightarrow> RSAError + RSAPrivateContext" where
  "RSA_PrivateEnd cx = (if length (priv_input cx) \<noteq> 0 then Inl (RSA_ERROR SEC_ERROR_INPUT_LEN) else Inr (cx\<lparr>priv_input := []\<rparr>))"

section \<open>Blocks in sequence\<close>

text \<open>The octets of a number in a block of \<open>k\<close> bytes.\<close>

fun octets_of :: "nat \<Rightarrow> nat \<Rightarrow> u8 list" where
  "octets_of 0 v = []"
| "octets_of (Suc k) v = octets_of k (v div 256) @ [of_nat v]"

lemma length_octets_of [simp]: "length (octets_of k v) = k"
  by (induction k arbitrary: v) simp_all

lemma octets_val_snoc: "octets_val (os @ [b]) = 256 * octets_val os + unat b"
  by (simp add: octets_val_def)

lemma octets_val_of: "v < 256 ^ k \<Longrightarrow> octets_val (octets_of k v) = v"
proof (induction k arbitrary: v)
  case (Suc k)
  then have "v div 256 < 256 ^ k" by (simp add: less_mult_imp_div_less mult.commute)
  with Suc.IH show ?case by (simp add: octets_val_snoc unat_of_nat)
qed (simp add: octets_val_def)

lemma octets_of_val: "octets_of (length os) (octets_val os) = os"
proof (intro octets_val_inj octets_val_of)
  show "octets_val os < 256 ^ length os" using octets_le_less [of "rev os"] by (simp add: octets_val_def)
qed simp

lemma octets_of_eq: "length os = k \<Longrightarrow> octets_val os = v \<Longrightarrow> os = octets_of k v"
  using octets_of_val [of os] by simp

text \<open>
  What the \<open>Update\<close> routines rely on: a successful run turns a good block \<open>b\<close> into the block \<open>f b\<close>.
  Then a successful update has turned all complete blocks, whatever was held, and holds the rest.
\<close>

locale rsa_stream =
  fixes run :: "'s \<Rightarrow> nat \<Rightarrow> u8 list \<Rightarrow> RSAError + 's \<times> u8 list"
    and blockLen :: nat
    and ok :: "'s \<Rightarrow> bool"
    and f :: "u8 list \<Rightarrow> u8 list"
  assumes run_success: "ok s \<Longrightarrow> length b = blockLen \<Longrightarrow> run s n b = Inr (s', out) \<Longrightarrow> ok s' \<and> out = f b"
begin

lemma blocks_success:
  "ok s \<Longrightarrow> RSA_blocks run blockLen s n xs = Inr (s', out, rest) \<Longrightarrow>
   ok s' \<and> out = concat (map f (blocks blockLen xs)) \<and> rest = leftover blockLen xs"
proof (induction "length xs" arbitrary: xs s n out rule: less_induct)
  case less
  show ?case
  proof (cases "length xs < blockLen")
    case True
    with less.prems show ?thesis by (subst (asm) RSA_blocks.simps) simp
  next
    case False
    then have pos: "0 < blockLen" using less.prems(2) by (subst (asm) RSA_blocks.simps) (auto split: if_splits)
    from False less.prems(2) pos obtain s1 out1 outs where 1: "run s n (take blockLen xs) = Inr (s1, out1)"
      and 2: "RSA_blocks run blockLen s1 (n - length out1) (drop blockLen xs) = Inr (s', outs, rest)" and out: "out = out1 @ outs"
      by (subst (asm) RSA_blocks.simps) (auto simp: on_success_Inr)
    have b: "length (take blockLen xs) = blockLen" using False by simp
    note run = run_success [OF less.prems(1) b 1]
    have "length (drop blockLen xs) < length xs" using False pos by simp
    with less.hyps run 2 have "ok s' \<and> outs = concat (map f (blocks blockLen (drop blockLen xs))) \<and> rest = leftover blockLen (drop blockLen xs)"
      by blast
    with run out pos False show ?thesis by (simp add: blocks.simps [of blockLen xs] leftover.simps [of blockLen xs])
  qed
qed

lemma update_success:
  assumes s: "ok s" and upd: "RSA_update run blockLen held s n xs = Inr (s', out, rest)" and held: "length held < blockLen"
  shows "ok s' \<and> out = concat (map f (blocks blockLen (held @ xs))) \<and> rest = leftover blockLen (held @ xs)"
proof (cases "length held + length xs < blockLen")
  case True
  then have "length (held @ xs) < blockLen" by simp
  note short = blocks_short [OF this] leftover_short [OF this]
  from True upd s show ?thesis unfolding short by (simp add: RSA_update_def)
next
  case False
  show ?thesis
  proof (cases "length held > 0")
    case True
    let ?k = "blockLen - length held"
    obtain s1 out1 outs where 1: "run s n (held @ take ?k xs) = Inr (s1, out1)"
      and 2: "RSA_blocks run blockLen s1 (n - length out1) (drop ?k xs) = Inr (s', outs, rest)" and out: "out = out1 @ outs"
      using upd False True by (auto simp: RSA_update_def Let_def on_success_Inr)
    have b: "length (held @ take ?k xs) = blockLen" using False held by simp
    note run = run_success [OF s b 1]
    from blocks_success [OF _ 2] run
    have "ok s' \<and> outs = concat (map f (blocks blockLen (drop ?k xs))) \<and> rest = leftover blockLen (drop ?k xs)" by blast
    moreover have pos: "0 < blockLen" using held by simp
    have e: "held @ xs = (held @ take ?k xs) @ drop ?k xs" by simp
    have "blocks blockLen (held @ xs) = (held @ take ?k xs) # blocks blockLen (drop ?k xs)"
      "leftover blockLen (held @ xs) = leftover blockLen (drop ?k xs)"
      unfolding e by (rule blocks_append_block [OF pos b], rule leftover_append_block [OF pos b])
    ultimately show ?thesis using run out by simp
  next
    case no: False
    with False upd have "RSA_blocks run blockLen s n xs = Inr (s', out, rest)" by (simp add: RSA_update_def)
    from blocks_success [OF s this] no show ?thesis by simp
  qed
qed

end

text \<open>With room for the output of all blocks and good blocks only, an update succeeds.\<close>

locale rsa_stream_total = rsa_stream +
  fixes good :: "u8 list \<Rightarrow> bool"
  assumes run_total: "ok s \<Longrightarrow> length b = blockLen \<Longrightarrow> good b \<Longrightarrow> blockLen \<le> n \<Longrightarrow> \<exists>r. run s n b = Inr r"
    and length_f: "length b = blockLen \<Longrightarrow> good b \<Longrightarrow> length (f b) = blockLen"
begin

lemma blocks_total:
  "ok s \<Longrightarrow> 0 < blockLen \<Longrightarrow> \<forall>b \<in> set (blocks blockLen xs). good b \<Longrightarrow> length xs \<le> n \<Longrightarrow>
   \<exists>r. RSA_blocks run blockLen s n xs = Inr r"
proof (induction "length xs" arbitrary: xs s n rule: less_induct)
  case less
  show ?case
  proof (cases "length xs < blockLen")
    case True
    then show ?thesis by (subst RSA_blocks.simps) simp
  next
    case False
    let ?b = "take blockLen xs" and ?xs = "drop blockLen xs"
    have bs: "blocks blockLen xs = ?b # blocks blockLen ?xs" using False less.prems(2) by (simp add: blocks.simps [of blockLen xs])
    have b: "length ?b = blockLen" "good ?b" "blockLen \<le> n" using False less.prems(3,4) bs by simp_all
    obtain s1 out1 where 1: "run s n ?b = Inr (s1, out1)" using run_total [OF less.prems(1) b] by auto
    note run = run_success [OF less.prems(1) b(1) 1]
    have "length out1 = blockLen" using run length_f [OF b(1,2)] by simp
    then have "\<exists>r. RSA_blocks run blockLen s1 (n - length out1) ?xs = Inr r"
      using less.hyps [of ?xs s1 "n - length out1"] run False less.prems bs by simp
    then show ?thesis using False less.prems(2) 1 by (subst RSA_blocks.simps) auto
  qed
qed

lemma update_total:
  assumes s: "ok s" and held: "length held < blockLen" and good: "\<forall>b \<in> set (blocks blockLen (held @ xs)). good b"
    and n: "length held + length xs \<le> n"
  shows "\<exists>s'. RSA_update run blockLen held s n xs = Inr (s', concat (map f (blocks blockLen (held @ xs))), leftover blockLen (held @ xs)) \<and> ok s'"
proof -
  have pos: "0 < blockLen" using held by simp
  have "\<exists>r. RSA_update run blockLen held s n xs = Inr r"
  proof (cases "length held + length xs < blockLen")
    case True
    then show ?thesis by (simp add: RSA_update_def)
  next
    case False
    show ?thesis
    proof (cases "length held > 0")
      case True
      let ?k = "blockLen - length held"
      let ?b = "held @ take ?k xs"
      have lb: "length ?b = blockLen" using False held by simp
      have "held @ xs = ?b @ drop ?k xs" by simp
      then have bs: "blocks blockLen (held @ xs) = ?b # blocks blockLen (drop ?k xs)"
        using blocks_append_block [OF pos lb] by metis
      have b: "good ?b" "blockLen \<le> n" using good bs False n by simp_all
      obtain s1 out1 where 1: "run s n ?b = Inr (s1, out1)" using run_total [OF s lb b] by auto
      note run = run_success [OF s lb 1]
      have "length out1 = blockLen" using run length_f [OF lb b(1)] by simp
      then have "\<exists>r. RSA_blocks run blockLen s1 (n - length out1) (drop ?k xs) = Inr r"
        using blocks_total [of s1 "drop ?k xs" "n - length out1"] run pos good bs n False by simp
      then show ?thesis using False True 1 by (auto simp: RSA_update_def Let_def)
    next
      case no: False
      then show ?thesis using False blocks_total [OF s pos, of xs n] good n by (auto simp: RSA_update_def)
    qed
  qed
  then obtain s' out rest where u: "RSA_update run blockLen held s n xs = Inr (s', out, rest)" by auto
  with update_success [OF s u held] show ?thesis by auto
qed

end

section \<open>The public operation\<close>

text \<open>The contexts of one public key, and what a block becomes.\<close>

definition pub_holds :: "RSAMemory \<Rightarrow> nat \<Rightarrow> nat \<Rightarrow> nat \<Rightarrow> RSAPublicContext \<Rightarrow> bool" where
  "pub_holds m n e k cx \<longleftrightarrow> (\<forall>w. mem_cmp m w) \<and> odd n \<and> 1 < n \<and> cmp_ok (pub_modulus cx) \<and> cmp_num (pub_modulus cx) = n \<and>
     cmp_ok (pub_publicExponent cx) \<and> cmp_num (pub_publicExponent cx) = e \<and> pub_blockLen cx = k \<and>
     CMP_OctetLengthOfCMPInt (pub_modulus cx) = k"

definition rsa_power :: "nat \<Rightarrow> nat \<Rightarrow> nat \<Rightarrow> u8 list \<Rightarrow> u8 list" where
  "rsa_power n e k b = octets_of k (octets_val b ^ e mod n)"

lemma octets_val_less: "octets_val b < 256 ^ length b"
  using octets_le_less [of "rev b"] by (simp add: octets_val_def)

lemma CMP_OctetLength_bounds:
  assumes "cmp_ok x" and "CMP_OctetLengthOfCMPInt x = k"
  shows "0 < k" and "cmp_num x < 256 ^ k" and "cmp_num x \<noteq> 0 \<Longrightarrow> 256 ^ (k - 1) \<le> cmp_num x"
proof -
  obtain os :: "u8 list" where "length os = k" "0 < length os" "cmp_num x < 256 ^ length os" "cmp_num x \<noteq> 0 \<Longrightarrow> 256 ^ (length os - 1) \<le> cmp_num x"
    using CMP_CMPIntToOctetString_correct [OF assms(1)] assms(2) by metis
  then show "0 < k" "cmp_num x < 256 ^ k" "cmp_num x \<noteq> 0 \<Longrightarrow> 256 ^ (k - 1) \<le> cmp_num x" by auto
qed

lemma CMP_OctetLength_words: "cmp_words x = cmp_words y \<Longrightarrow> CMP_OctetLengthOfCMPInt x = CMP_OctetLengthOfCMPInt y"
  by (simp add: CMP_OctetLengthOfCMPInt_def)

lemma CMP_fixed_octets:
  assumes "cmp_ok x" and "cmp_num x < 256 ^ k" and "0 < k" and "k \<le> size'"
  shows "CMP_CMPIntToFixedLenOctetStr x k size' = Inr (octets_of k (cmp_num x))"
  using CMP_CMPIntToFixedLenOctetStr_correct [OF assms] octets_of_eq by metis

lemma RSA_Operation_correct:
  assumes h: "pub_holds m n e k cx" and b: "length b = k" and g: "octets_val b < n" and r: "k \<le> room"
  shows "\<exists>cx'. RSA_Operation m cx room b = Inr (cx', rsa_power n e k b) \<and> pub_holds m n e k cx' \<and> pub_input cx' = pub_input cx"
proof -
  have mem: "\<And>w. mem_cmp m w" and n: "odd n" "1 < n" and mo: "cmp_ok (pub_modulus cx)" "cmp_num (pub_modulus cx) = n"
    and ex: "cmp_ok (pub_publicExponent cx)" "cmp_num (pub_publicExponent cx) = e" and k: "pub_blockLen cx = k" "CMP_OctetLengthOfCMPInt (pub_modulus cx) = k"
    using h by (simp_all add: pub_holds_def)
  note kb = CMP_OctetLength_bounds [OF mo(1) k(2)]
  have "b \<noteq> []" using b kb(1) by auto
  then obtain x where x: "CMP_OctetStringToCMPInt (mem_cmp m) b CMP_Constructor = Inr x" "cmp_ok x" "cmp_num x = octets_val b"
    using CMP_OctetStringToCMPInt_correct [of "mem_cmp m" b CMP_Constructor, OF mem] by blast
  obtain m' z where z: "CMP_ModExp (mem_cmp m) x (pub_publicExponent cx) (pub_modulus cx) CMP_Constructor = Inr (m', z)"
    "cmp_words m' = cmp_words (pub_modulus cx)" "cmp_ok m'" "cmp_ok z" "cmp_num z = octets_val b ^ e mod n"
    using CMP_ModExp_correct [of "mem_cmp m" "pub_modulus cx" x "pub_publicExponent cx" CMP_Constructor, OF mem mo(1) _ _ x(2) _ ex(1)]
      n g by (auto simp: mo(2) ex(2) x(3))
  have k': "CMP_OctetLengthOfCMPInt m' = k" using CMP_OctetLength_words [OF z(2)] k(2) by simp
  then have len: "CMP_BITS_TO_LEN (CMP_BitLengthOfCMPInt m') = k" using CMP_BITS_TO_LEN_octets [OF z(3)] by simp
  have "cmp_num z < n" using n by (simp add: z(5))
  with kb(2) have lt: "cmp_num z < 256 ^ k" by (simp add: mo(2))
  have "RSA_Operation m cx room b = Inr (cx\<lparr>pub_modulus := m'\<rparr>, rsa_power n e k b)"
    using r by (simp add: RSA_Operation_def k(1) x(1) z(1) Let_def len CMP_fixed_octets [OF z(4) lt kb(1) r] rsa_power_def flip: z(5))
  moreover have "pub_holds m n e k (cx\<lparr>pub_modulus := m'\<rparr>)"
    using h z(2,3) k' by (simp add: pub_holds_def)
  ultimately show ?thesis by simp
qed

text \<open>A block that is not below the modulus is refused.\<close>

lemma RSA_Operation_range:
  assumes h: "pub_holds m n e k cx" and b: "length b = k" and g: "n \<le> octets_val b" and r: "k \<le> room"
  shows "RSA_Operation m cx room b = Inl (RSA_CMP CMP_RANGE)"
proof -
  have mem: "\<And>w. mem_cmp m w" and n: "odd n" "1 < n" and mo: "cmp_ok (pub_modulus cx)" "cmp_num (pub_modulus cx) = n"
    and k: "pub_blockLen cx = k" "CMP_OctetLengthOfCMPInt (pub_modulus cx) = k"
    using h by (simp_all add: pub_holds_def)
  have "b \<noteq> []" using b CMP_OctetLength_bounds(1) [OF mo(1) k(2)] by auto
  then obtain x where x: "CMP_OctetStringToCMPInt (mem_cmp m) b CMP_Constructor = Inr x" "cmp_ok x" "cmp_num x = octets_val b"
    using CMP_OctetStringToCMPInt_correct [of "mem_cmp m" b CMP_Constructor, OF mem] by blast
  have "CMP_ModExp (mem_cmp m) x (pub_publicExponent cx) (pub_modulus cx) CMP_Constructor = Inl CMP_RANGE"
    using CMP_ModExp_range [of "mem_cmp m" "pub_modulus cx" x, OF mem mo(1) _ x(2)] n g by (simp add: mo(2) x(3))
  with r show ?thesis by (simp add: RSA_Operation_def k(1) x(1))
qed

interpretation rsa_public: rsa_stream_total "RSA_Operation m" k "pub_holds m n e k" "rsa_power n e k" "\<lambda>b. octets_val b < n"
proof (unfold_locales, goal_cases)
  case (1 s b room s' out)
  show ?case
  proof (cases "k \<le> room")
    case True
    show ?thesis
    proof (cases "octets_val b < n")
      case False
      with 1 RSA_Operation_range [OF 1(1,2) _ True] show ?thesis by simp
    next
      case less: True
      with 1 RSA_Operation_correct [OF 1(1,2) less True] show ?thesis by auto
    qed
  next
    case False
    with 1 show ?thesis by (simp add: RSA_Operation_def pub_holds_def)
  qed
next
  case (2 s b room)
  with RSA_Operation_correct [OF 2] show ?case by blast
qed (simp add: rsa_power_def)

lemma RSA_CreatePublicContext_holds:
  assumes mem: "\<And>w. mem_cmp m w" "mem_context m" "mem_input m" and key: "rpk_modulus key \<noteq> []" "rpk_publicExponent key \<noteq> []"
    and n: "odd (octets_val (rpk_modulus key))" "1 < octets_val (rpk_modulus key)"
  shows "\<exists>cx k. RSA_CreatePublicContext m key = Inr cx \<and> pub_input cx = [] \<and> 0 < k \<and>
    octets_val (rpk_modulus key) < 256 ^ k \<and> 256 ^ (k - 1) \<le> octets_val (rpk_modulus key) \<and>
    pub_holds m (octets_val (rpk_modulus key)) (octets_val (rpk_publicExponent key)) k cx"
proof -
  obtain x where x: "CMP_OctetStringToCMPInt (mem_cmp m) (rpk_modulus key) CMP_Constructor = Inr x" "cmp_ok x" "cmp_num x = octets_val (rpk_modulus key)"
    using CMP_OctetStringToCMPInt_correct [of "mem_cmp m" "rpk_modulus key" CMP_Constructor, OF mem(1) key(1)] by blast
  obtain y where y: "CMP_OctetStringToCMPInt (mem_cmp m) (rpk_publicExponent key) CMP_Constructor = Inr y" "cmp_ok y" "cmp_num y = octets_val (rpk_publicExponent key)"
    using CMP_OctetStringToCMPInt_correct [of "mem_cmp m" "rpk_publicExponent key" CMP_Constructor, OF mem(1) key(2)] by blast
  have l: "CMP_BITS_TO_LEN (CMP_BitLengthOfCMPInt x) = CMP_OctetLengthOfCMPInt x" by (rule CMP_BITS_TO_LEN_octets [OF x(2)])
  note kb = CMP_OctetLength_bounds [OF x(2) refl]
  show ?thesis
    using kb n mem x y by (intro exI [of _ "CMP_OctetLengthOfCMPInt x"] exI) (auto simp: RSA_CreatePublicContext_def Let_def l pub_holds_def)
qed

section \<open>The private operation\<close>

text \<open>The numbers of a key, and when they belong together.\<close>

record RSANumbers =
  rn_n :: nat
  rn_e :: nat
  rn_d :: nat
  rn_p :: nat
  rn_q :: nat
  rn_dp :: nat
  rn_dq :: nat
  rn_c :: nat

definition rsa_valid :: "RSANumbers \<Rightarrow> bool" where
  "rsa_valid K \<longleftrightarrow> prime_nat (rn_p K) \<and> prime_nat (rn_q K) \<and> 2 < rn_p K \<and> 2 < rn_q K \<and> rn_n K = rn_p K * rn_q K \<and>
     rn_e K * rn_d K mod (rn_p K - 1) = 1 \<and> rn_e K * rn_d K mod (rn_q K - 1) = 1 \<and>
     rn_dp K mod (rn_p K - 1) = rn_d K mod (rn_p K - 1) \<and> rn_dq K mod (rn_q K - 1) = rn_d K mod (rn_q K - 1) \<and>
     rn_c K * rn_q K mod rn_p K = 1"

lemma prime_nat_odd: "prime_nat p \<Longrightarrow> 2 < p \<Longrightarrow> odd p"
  by (auto simp: prime_nat_def)

lemma rsa_valid_modulus: "rsa_valid K \<Longrightarrow> odd (rn_n K) \<and> 1 < rn_n K \<and> odd (rn_p K) \<and> odd (rn_q K)"
proof -
  assume v: "rsa_valid K"
  then have o: "odd (rn_p K)" "odd (rn_q K)" using prime_nat_odd by (auto simp: rsa_valid_def)
  have "1 * 1 < rn_p K * rn_q K" by (rule mult_strict_mono) (use v in \<open>simp_all add: rsa_valid_def\<close>)
  with v o show ?thesis by (simp add: rsa_valid_def)
qed

lemma mod_of_product: "(x mod (p * q)) mod p = x mod p" "(x mod (p * q)) mod q = x mod (q :: nat)"
  by (simp_all add: mod_mod_cancel)

text \<open>Numbers below the modulus are determined by their residues.\<close>

lemma rsa_residues:
  assumes v: "rsa_valid K" and "x mod rn_p K = y mod rn_p K" and "x mod rn_q K = y mod rn_q K"
  shows "x mod rn_n K = y mod rn_n K"
proof (rule residues_unique [of "rn_c K" "rn_q K" "rn_p K"])
  show "rn_c K * rn_q K mod rn_p K = 1" using v by (simp add: rsa_valid_def)
  have n: "rn_n K = rn_p K * rn_q K" "0 < rn_n K" using v rsa_valid_modulus [OF v] by (simp_all add: rsa_valid_def)
  show "x mod rn_n K < rn_p K * rn_q K" "y mod rn_n K < rn_p K * rn_q K" using n by (simp_all flip: n(1))
  show "x mod rn_n K mod rn_p K = y mod rn_n K mod rn_p K" "x mod rn_n K mod rn_q K = y mod rn_n K mod rn_q K"
    unfolding n(1) mod_of_product using assms by simp_all
qed

lemma rsa_crt_value:
  assumes v: "rsa_valid K" and z: "z < rn_n K" "z mod rn_p K = x ^ rn_dp K mod rn_p K" "z mod rn_q K = x ^ rn_dq K mod rn_q K"
  shows "z = x ^ rn_d K mod rn_n K"
proof -
  have pos: "0 < rn_d K" "0 < rn_dp K" "0 < rn_dq K"
    using v by (auto simp: rsa_valid_def intro!: Nat.gr0I)
  have "x ^ rn_dp K mod rn_p K = x ^ rn_d K mod rn_p K" "x ^ rn_dq K mod rn_q K = x ^ rn_d K mod rn_q K"
    by (rule fermat_exponents; use v pos in \<open>simp add: rsa_valid_def\<close>)+
  with z have "z mod rn_n K = x ^ rn_d K mod rn_n K" by (intro rsa_residues [OF v]) simp_all
  with z(1) show ?thesis by simp
qed

lemma rsa_inverse: "rsa_valid K \<Longrightarrow> (x ^ rn_e K) ^ rn_d K mod rn_n K = x mod rn_n K"
proof -
  assume v: "rsa_valid K"
  have pos: "0 < rn_e K * rn_d K" using v by (auto simp: rsa_valid_def intro!: Nat.gr0I)
  have "x ^ (rn_e K * rn_d K) mod rn_n K = x mod rn_n K"
    by (intro rsa_residues [OF v] fermat_inverse_exponent pos) (use v in \<open>auto simp: rsa_valid_def\<close>)
  then show ?thesis by (simp add: power_mult)
qed

text \<open>The blinding drops out.\<close>

lemma rsa_unblinded:
  assumes v: "rsa_valid K" and r: "ri * r mod rn_n K = 1"
  shows "((r ^ rn_e K mod rn_n K * x mod rn_n K) ^ rn_d K mod rn_n K) * ri mod rn_n K = x ^ rn_d K mod rn_n K"
proof -
  let ?n = "rn_n K"
  have "((r ^ rn_e K mod ?n * x mod ?n) ^ rn_d K mod ?n) * ri mod ?n = (r ^ rn_e K * x) ^ rn_d K * ri mod ?n"
    by (metis mod_mult_left_eq power_mod)
  also have "\<dots> = ((r ^ rn_e K) ^ rn_d K mod ?n) * (x ^ rn_d K * ri) mod ?n"
    by (simp add: power_mult_distrib mult.assoc mod_mult_left_eq)
  also have "\<dots> = r * (x ^ rn_d K * ri) mod ?n" unfolding rsa_inverse [OF v] by (rule mod_mult_left_eq)
  also have "r * (x ^ rn_d K * ri) = (ri * r) * x ^ rn_d K" by (simp add: ac_simps)
  also have "(ri * r) * x ^ rn_d K mod ?n = (ri * r mod ?n) * x ^ rn_d K mod ?n" by (rule mod_mult_left_eq [symmetric])
  finally show ?thesis by (simp add: r)
qed

text \<open>A context of a key; \<open>m\<close> never refuses memory.\<close>

definition rsa_memory :: "RSAMemory \<Rightarrow> bool" where
  "rsa_memory m \<longleftrightarrow> (\<forall>w. mem_cmp m w) \<and> mem_context m \<and> mem_input m \<and> mem_tempBuffer m \<and> mem_block m"

definition priv_holds :: "RSAMemory \<Rightarrow> RSANumbers \<Rightarrow> nat \<Rightarrow> RSAPrivateContext \<Rightarrow> bool" where
  "priv_holds m K k cx \<longleftrightarrow> rsa_memory m \<and> rsa_valid K \<and> priv_blockLen cx = k \<and> CMP_OctetLengthOfCMPInt (priv_modulus cx) = k \<and>
     (\<forall>(x, v) \<in> {(priv_modulus cx, rn_n K), (priv_publicExponent cx, rn_e K), (priv_prime0 cx, rn_p K), (priv_prime1 cx, rn_q K),
        (priv_primeExponent0 cx, rn_dp K), (priv_primeExponent1 cx, rn_dq K), (priv_coefficient cx, rn_c K)}. cmp_ok x \<and> cmp_num x = v)"

lemma BlindingMultiply_correct:
  assumes h: "priv_holds m K k cx" and x: "cmp_ok x" and rnd: "RSA_random m rng (cmp_len (priv_modulus cx) * 4) = Inr (rng', r)"
    "r \<noteq> []"
  shows "if rn_n K \<le> octets_val r then BlindingMultiply m rng cx bi x = Inl (RSA_CMP CMP_RANGE)
    else if \<not> coprime (octets_val r) (rn_n K) then BlindingMultiply m rng cx bi x = Inl (RSA_CMP CMP_INVERSE)
    else \<exists>cx' z y. BlindingMultiply m rng cx bi x = Inr (rng', cx', z, y) \<and> priv_holds m K k cx' \<and> priv_mode cx' = priv_mode cx \<and>
      cmp_words z \<noteq> [] \<and> cmp_num z * octets_val r mod rn_n K = 1 \<and> cmp_ok y \<and>
      cmp_num y = octets_val r ^ rn_e K mod rn_n K * cmp_num x mod rn_n K \<and> priv_input cx' = priv_input cx"
proof -
  have mem: "\<And>w. mem_cmp m w" and tb: "mem_tempBuffer m" and v: "rsa_valid K"
    and mo: "cmp_ok (priv_modulus cx)" "cmp_num (priv_modulus cx) = rn_n K"
    and ex: "cmp_ok (priv_publicExponent cx)" "cmp_num (priv_publicExponent cx) = rn_e K"
    using h by (simp_all add: priv_holds_def rsa_memory_def)
  note n = rsa_valid_modulus [OF v]
  obtain R where R: "CMP_OctetStringToCMPInt (mem_cmp m) r CMP_Constructor = Inr R" "cmp_ok R" "cmp_num R = octets_val r"
    using CMP_OctetStringToCMPInt_correct [of "mem_cmp m" r CMP_Constructor, OF mem rnd(2)] by blast
  show ?thesis
  proof (cases "rn_n K \<le> octets_val r")
    case True
    then have "CMP_ModExp (mem_cmp m) R (priv_publicExponent cx) (priv_modulus cx) CMP_Constructor = Inl CMP_RANGE"
      using CMP_ModExp_range [of "mem_cmp m" "priv_modulus cx" R, OF mem mo(1) _ R(2)] n by (simp add: mo(2) R(3))
    with True show ?thesis by (simp add: BlindingMultiply_def Let_def tb rnd(1) R(1))
  next
    case False
    then have lt: "octets_val r < rn_n K" by simp
    obtain m1 b where b: "CMP_ModExp (mem_cmp m) R (priv_publicExponent cx) (priv_modulus cx) CMP_Constructor = Inr (m1, b)"
      "cmp_words m1 = cmp_words (priv_modulus cx)" "cmp_ok m1" "cmp_ok b" "cmp_num b = octets_val r ^ rn_e K mod rn_n K"
      using CMP_ModExp_correct [of "mem_cmp m" "priv_modulus cx" R "priv_publicExponent cx" CMP_Constructor, OF mem mo(1) _ _ R(2) _ ex(1)]
        n lt by (auto simp: mo(2) ex(2) R(3))
    have m1: "cmp_num m1 = rn_n K" using b(2) mo(2) by simp
    have inv: "if coprime (octets_val r) (rn_n K)
      then \<exists>x' m' z. CMP_ModInvert (mem_cmp m) R m1 bi = Inr (x', m', z) \<and> cmp_words x' = cmp_words R \<and> cmp_words m' = cmp_words m1 \<and>
        cmp_ok x' \<and> cmp_ok m' \<and> cmp_words z \<noteq> [] \<and> cmp_num z < rn_n K \<and> cmp_num z * octets_val r mod rn_n K = 1
      else CMP_ModInvert (mem_cmp m) R m1 bi = Inl CMP_INVERSE"
      using CMP_ModInvert_correct [of "mem_cmp m" R m1 bi, OF mem R(2) b(3), unfolded m1 R(3)] n lt by simp
    show ?thesis
    proof (cases "coprime (octets_val r) (rn_n K)")
      case no: False
      with inv False show ?thesis by (simp add: BlindingMultiply_def Let_def tb rnd(1) R(1) b(1))
    next
      case True
      then obtain R' m2 z where z: "CMP_ModInvert (mem_cmp m) R m1 bi = Inr (R', m2, z)" "cmp_words m2 = cmp_words m1"
        "cmp_ok m2" "cmp_words z \<noteq> []" "cmp_num z * octets_val r mod rn_n K = 1"
        using inv by auto
      have m2: "cmp_num m2 = rn_n K" using z(2) m1 by simp
      have ne: "cmp_words b \<noteq> []" "cmp_words x \<noteq> []" using b(4) x by (auto simp: cmp_ok_def cmp_normal_def)
      obtain m3 t where t: "CMP_ModMultiply (mem_cmp m) b x m2 R' = Inr (m3, t)" "cmp_words m3 = cmp_words m2" "cmp_ok m3" "cmp_ok t"
        "cmp_num t = octets_val r ^ rn_e K mod rn_n K * cmp_num x mod rn_n K"
        using CMP_ModMultiply_correct [of "mem_cmp m" b x m2 R', OF mem ne z(3)] n by (auto simp: m2 b(5))
      obtain y where y: "CMP_Move (mem_cmp m) t x = Inr y" "cmp_words y = cmp_words t" "cmp_ok y"
        using CMP_Move_ok [of "mem_cmp m" t x, OF mem t(4)] by blast
      have w: "cmp_words m3 = cmp_words (priv_modulus cx)" using t(2) z(2) b(2) by simp
      then have "CMP_OctetLengthOfCMPInt m3 = k" using CMP_OctetLength_words [OF w] h by (simp add: priv_holds_def)
      then have "priv_holds m K k (cx\<lparr>priv_modulus := m3\<rparr>)" using h t(3) w by (simp add: priv_holds_def)
      moreover have "BlindingMultiply m rng cx bi x = Inr (rng', cx\<lparr>priv_modulus := m3\<rparr>, z, y)"
        by (simp add: BlindingMultiply_def Let_def tb rnd(1) R(1) b(1) z(1) t(1) y(1))
      ultimately show ?thesis using lt True z(4,5) y(2,3) t(5) False by auto
    qed
  qed
qed

lemma RSA_random_length: "RSA_random m rng len = Inr (rng', r) \<Longrightarrow> len \<le> length r"
  by (auto simp: RSA_random_def split: sum.splits prod.splits if_splits)

text \<open>The exponentiation between blinding and unblinding.\<close>

lemma RSA_ModExpCRT_correct:
  assumes h: "priv_holds m K k cx" and y: "cmp_ok y"
  shows "\<exists>y' p' q' z. CMP_ModExpCRT (mem_cmp m) y (priv_prime0 cx) (priv_prime1 cx) (priv_primeExponent0 cx) (priv_primeExponent1 cx)
      (priv_coefficient cx) CMP_Constructor = Inr (y', p', q', z) \<and> priv_holds m K k (cx\<lparr>priv_prime0 := p', priv_prime1 := q'\<rparr>) \<and>
    cmp_ok z \<and> cmp_num z = cmp_num y ^ rn_d K mod rn_n K"
proof -
  have mem: "\<And>w. mem_cmp m w" and v: "rsa_valid K"
    and p: "cmp_ok (priv_prime0 cx)" "cmp_num (priv_prime0 cx) = rn_p K" and q: "cmp_ok (priv_prime1 cx)" "cmp_num (priv_prime1 cx) = rn_q K"
    and e: "cmp_ok (priv_primeExponent0 cx)" "cmp_num (priv_primeExponent0 cx) = rn_dp K" "cmp_ok (priv_primeExponent1 cx)" "cmp_num (priv_primeExponent1 cx) = rn_dq K"
    and c: "cmp_ok (priv_coefficient cx)" "cmp_num (priv_coefficient cx) = rn_c K"
    using h by (simp_all add: priv_holds_def rsa_memory_def)
  note n = rsa_valid_modulus [OF v]
  have pq: "2 < rn_p K" "2 < rn_q K" "rn_n K = rn_p K * rn_q K" "rn_c K * rn_q K mod rn_p K = 1" using v by (simp_all add: rsa_valid_def)
  obtain y' p' q' z where z: "CMP_ModExpCRT (mem_cmp m) y (priv_prime0 cx) (priv_prime1 cx) (priv_primeExponent0 cx) (priv_primeExponent1 cx)
      (priv_coefficient cx) CMP_Constructor = Inr (y', p', q', z)" "cmp_ok p'" "cmp_ok q'" "cmp_ok z" "cmp_num p' = rn_p K" "cmp_num q' = rn_q K"
    "cmp_num z < rn_n K" "cmp_num z mod rn_p K = cmp_num y ^ rn_dp K mod rn_p K" "cmp_num z mod rn_q K = cmp_num y ^ rn_dq K mod rn_q K"
    using CMP_ModExpCRT_correct [of "mem_cmp m" y "priv_prime0 cx" "priv_prime1 cx" "priv_primeExponent0 cx" "priv_primeExponent1 cx"
        "priv_coefficient cx" CMP_Constructor, OF mem y p(1) _ _ q(1) _ _ e(1,3) c(1), unfolded p(2) q(2) e(2,4) c(2)] n pq p(2) q(2)
    by auto
  have "priv_holds m K k (cx\<lparr>priv_prime0 := p', priv_prime1 := q'\<rparr>)" using h z(2,3,5,6) by (simp add: priv_holds_def)
  with z(1,4) rsa_crt_value [OF v z(7,8,9)] show ?thesis by blast
qed

text \<open>
  One block. The blinding does not show in the result; it can only make the operation fail, when the
  number that was drawn is not below the modulus or not prime to it.
\<close>

definition rsa_draw :: "RSAMemory \<Rightarrow> RNGContext option \<Rightarrow> RSAPrivateContext \<Rightarrow> RSAError + nat" where
  "rsa_draw m rng cx =
     (if priv_mode cx = BLIND_BBT_MODE
      then on_success (RSA_random m rng (cmp_len (priv_modulus cx) * 4)) (\<lambda>(rng, r). Inr (octets_val r)) else Inr 1)"

definition rsa_draw_error :: "RSANumbers \<Rightarrow> RSAError + nat \<Rightarrow> RSAError option" where
  "rsa_draw_error K r =
     (case r of
        Inl e \<Rightarrow> Some e
      | Inr r \<Rightarrow> if rn_n K \<le> r then Some (RSA_CMP CMP_RANGE)
                else if \<not> coprime r (rn_n K) then Some (RSA_CMP CMP_INVERSE) else None)"

lemma RSA_CRT_correct:
  assumes h: "priv_holds m K k cx" and b: "length b = k"
  shows "case RSA_CRT m (rng, cx) room b of
      Inl err \<Rightarrow> err = (if room < k then RSA_ERROR SEC_ERROR_OUTPUT_LEN else if rn_n K \<le> octets_val b then SEC_ERROR_BAD_DATA
                    else the (rsa_draw_error K (rsa_draw m rng cx))) \<and>
        (k \<le> room \<longrightarrow> octets_val b < rn_n K \<longrightarrow> rsa_draw_error K (rsa_draw m rng cx) \<noteq> None)
    | Inr ((rng', cx'), out) \<Rightarrow> k \<le> room \<and> octets_val b < rn_n K \<and> rsa_draw_error K (rsa_draw m rng cx) = None \<and>
        out = rsa_power (rn_n K) (rn_d K) k b \<and> priv_holds m K k cx' \<and> priv_mode cx' = priv_mode cx \<and> priv_input cx' = priv_input cx"
proof (cases "room < k")
  case True
  with h show ?thesis by (simp add: RSA_CRT_def priv_holds_def)
next
  case False
  have mem: "\<And>w. mem_cmp m w" and v: "rsa_valid K"
    and mo: "cmp_ok (priv_modulus cx)" "cmp_num (priv_modulus cx) = rn_n K" and k: "priv_blockLen cx = k" "CMP_OctetLengthOfCMPInt (priv_modulus cx) = k"
    using h by (simp_all add: priv_holds_def rsa_memory_def)
  note n = rsa_valid_modulus [OF v] and kb = CMP_OctetLength_bounds [OF mo(1) k(2)]
  have "b \<noteq> []" using b kb(1) by auto
  then obtain x where x: "CMP_OctetStringToCMPInt (mem_cmp m) b CMP_Constructor = Inr x" "cmp_ok x" "cmp_num x = octets_val b"
    using CMP_OctetStringToCMPInt_correct [of "mem_cmp m" b CMP_Constructor, OF mem] by blast
  have norm: "cmp_normal (cmp_words x)" "cmp_normal (cmp_words (priv_modulus cx))" using x(2) mo(1) by (simp_all add: cmp_ok_def)
  have cmp: "CMP_Compare x (priv_modulus cx) \<ge> 0 \<longleftrightarrow> rn_n K \<le> octets_val b" using CMP_Compare_iff(3) [OF norm] by (simp add: mo(2) x(3))
  show ?thesis
  proof (cases "rn_n K \<le> octets_val b")
    case True
    with False cmp show ?thesis by (simp add: RSA_CRT_def k(1) x(1))
  next
    case small: False
    have fixed: "CMP_CMPIntToFixedLenOctetStr w (CMP_BITS_TO_LEN (CMP_BitLengthOfCMPInt mo')) room = Inr (octets_of k (cmp_num w))"
      if "cmp_ok w" "cmp_num w < rn_n K" "cmp_ok mo'" "CMP_OctetLengthOfCMPInt mo' = k" for w mo'
    proof -
      have "cmp_num w < 256 ^ k" using that(2) kb(2) by (simp add: mo(2))
      then show ?thesis using CMP_fixed_octets [OF that(1) _ kb(1)] False CMP_BITS_TO_LEN_octets [OF that(3)] that(4) by simp
    qed
    show ?thesis
    proof (cases "priv_mode cx")
      case NO_BLIND_MODE
      obtain y' p' q' z where z: "CMP_ModExpCRT (mem_cmp m) x (priv_prime0 cx) (priv_prime1 cx) (priv_primeExponent0 cx) (priv_primeExponent1 cx)
          (priv_coefficient cx) CMP_Constructor = Inr (y', p', q', z)" "priv_holds m K k (cx\<lparr>priv_prime0 := p', priv_prime1 := q'\<rparr>)"
        "cmp_ok z" "cmp_num z = octets_val b ^ rn_d K mod rn_n K"
        using RSA_ModExpCRT_correct [OF h x(2)] by (auto simp: x(3))
      have lt: "cmp_num z < rn_n K" using n by (simp add: z(4))
      have "RSA_CRT m (rng, cx) room b = Inr ((rng, cx\<lparr>priv_prime0 := p', priv_prime1 := q'\<rparr>), rsa_power (rn_n K) (rn_d K) k b)"
        using NO_BLIND_MODE False cmp small by (simp add: RSA_CRT_def k(1) x(1) z(1) Let_def fixed [OF z(3) lt mo(1) k(2)] rsa_power_def flip: z(4))
      moreover have "rsa_draw_error K (rsa_draw m rng cx) = None" using n NO_BLIND_MODE by (simp add: rsa_draw_def rsa_draw_error_def)
      ultimately show ?thesis using z(2) False small by simp
    next
      case BLIND_BBT_MODE
      show ?thesis
      proof (cases "RSA_random m rng (cmp_len (priv_modulus cx) * 4)")
        case (Inl e)
        have tb: "mem_tempBuffer m" using h by (simp add: priv_holds_def rsa_memory_def)
        have "RSA_CRT m (rng, cx) room b = Inl e"
          using BLIND_BBT_MODE False cmp small tb Inl by (simp add: RSA_CRT_def k(1) x(1) BlindingMultiply_def Let_def)
        with False small BLIND_BBT_MODE Inl show ?thesis by (simp add: rsa_draw_def rsa_draw_error_def)
      next
        case (Inr rr)
        then obtain rng' r where r: "RSA_random m rng (cmp_len (priv_modulus cx) * 4) = Inr (rng', r)" by (cases rr) auto
        have "0 < cmp_len (priv_modulus cx)" using mo(1) by (auto simp: cmp_ok_def cmp_normal_def)
        with RSA_random_length [OF r] have ne: "r \<noteq> []" by auto
        note bm = BlindingMultiply_correct [OF h x(2) r ne, of CMP_Constructor]
        have draw: "rsa_draw_error K (rsa_draw m rng cx) = (if rn_n K \<le> octets_val r then Some (RSA_CMP CMP_RANGE)
            else if \<not> coprime (octets_val r) (rn_n K) then Some (RSA_CMP CMP_INVERSE) else None)"
          using BLIND_BBT_MODE r by (simp add: rsa_draw_def rsa_draw_error_def)
        show ?thesis
        proof (cases "rn_n K \<le> octets_val r \<or> \<not> coprime (octets_val r) (rn_n K)")
          case True
          then have "BlindingMultiply m rng cx CMP_Constructor x = Inl (the (rsa_draw_error K (rsa_draw m rng cx)))"
            using bm draw by (auto split: if_splits)
          then have "RSA_CRT m (rng, cx) room b = Inl (the (rsa_draw_error K (rsa_draw m rng cx)))"
            using BLIND_BBT_MODE False cmp small by (simp add: RSA_CRT_def k(1) x(1))
          with False small True draw show ?thesis by auto
        next
          case good: False
          then obtain cx1 bi y where y: "BlindingMultiply m rng cx CMP_Constructor x = Inr (rng', cx1, bi, y)" "priv_holds m K k cx1"
            "priv_mode cx1 = priv_mode cx" "cmp_words bi \<noteq> []" "cmp_num bi * octets_val r mod rn_n K = 1" "cmp_ok y"
            "cmp_num y = octets_val r ^ rn_e K mod rn_n K * octets_val b mod rn_n K" "priv_input cx1 = priv_input cx"
            using bm x(3) by (auto split: if_splits)
          obtain y' p' q' z where z: "CMP_ModExpCRT (mem_cmp m) y (priv_prime0 cx1) (priv_prime1 cx1) (priv_primeExponent0 cx1) (priv_primeExponent1 cx1)
              (priv_coefficient cx1) CMP_Constructor = Inr (y', p', q', z)" "priv_holds m K k (cx1\<lparr>priv_prime0 := p', priv_prime1 := q'\<rparr>)"
            "cmp_ok z" "cmp_num z = cmp_num y ^ rn_d K mod rn_n K"
            using RSA_ModExpCRT_correct [OF y(2) y(6)] by blast
          have m1: "cmp_ok (priv_modulus cx1)" "cmp_num (priv_modulus cx1) = rn_n K" "CMP_OctetLengthOfCMPInt (priv_modulus cx1) = k"
            using y(2) by (simp_all add: priv_holds_def)
          have zn: "cmp_words z \<noteq> []" using z(3) by (auto simp: cmp_ok_def cmp_normal_def)
          obtain m2 w where w: "CMP_ModMultiply (mem_cmp m) z bi (priv_modulus cx1) y' = Inr (m2, w)" "cmp_words m2 = cmp_words (priv_modulus cx1)"
            "cmp_ok m2" "cmp_ok w" "cmp_num w = cmp_num z * cmp_num bi mod rn_n K"
            using CMP_ModMultiply_correct [of "mem_cmp m" z bi "priv_modulus cx1" y', OF mem zn y(4) m1(1)] n by (auto simp: m1(2))
          have val: "cmp_num w = octets_val b ^ rn_d K mod rn_n K"
            unfolding w(5) z(4) y(7) by (rule rsa_unblinded [OF v y(5)])
          have lt: "cmp_num w < rn_n K" using n by (simp add: val)
          have k2: "CMP_OctetLengthOfCMPInt m2 = k" using CMP_OctetLength_words [OF w(2)] m1(3) by simp
          let ?cx2 = "cx1\<lparr>priv_prime0 := p', priv_prime1 := q', priv_modulus := m2\<rparr>"
          have "RSA_CRT m (rng, cx) room b = Inr ((rng', ?cx2), rsa_power (rn_n K) (rn_d K) k b)"
            using BLIND_BBT_MODE False cmp small
            by (simp add: RSA_CRT_def k(1) x(1) y(1) z(1) w(1) y(3) Let_def fixed [OF w(4) lt w(3) k2] rsa_power_def flip: val)
          moreover have "priv_holds m K k ?cx2" using z(2) w(2,3) k2 m1(2) by (simp add: priv_holds_def)
          ultimately show ?thesis using False small good draw y(3,8) by simp
        qed
      qed
    qed
  qed
qed
interpretation rsa_private: rsa_stream "RSA_CRT m" k "\<lambda>(rng, cx). priv_holds m K k cx" "rsa_power (rn_n K) (rn_d K) k"
proof (unfold_locales, goal_cases)
  case (1 s b room s' out)
  obtain rng cx rng' cx' where s: "s = (rng, cx)" "s' = (rng', cx')" by (cases s, cases s') blast
  from RSA_CRT_correct [where m = m and K = K and k = k and cx = cx and b = b and rng = rng and room = room] 1 show ?case by (simp add: s)
qed

definition priv_key_of :: "RSAPrivateKey \<Rightarrow> RSANumbers \<Rightarrow> bool" where
  "priv_key_of key K \<longleftrightarrow> rsa_valid K \<and>
     (\<forall>(os, v) \<in> {(rsk_modulus key, rn_n K), (rsk_publicExponent key, rn_e K), (rsk_privateExponent key, rn_d K), (rsk_prime0 key, rn_p K),
        (rsk_prime1 key, rn_q K), (rsk_primeExponent0 key, rn_dp K), (rsk_primeExponent1 key, rn_dq K), (rsk_coefficient key, rn_c K)}.
        os \<noteq> [] \<and> octets_val os = v)"

lemma RSA_CreatePrivateContext_holds:
  assumes mem: "rsa_memory m" and key: "priv_key_of key K"
  shows "\<exists>cx k. RSA_CreatePrivateContext m key = Inr cx \<and> priv_input cx = [] \<and> priv_mode cx = BLIND_BBT_MODE \<and> 0 < k \<and>
    rn_n K < 256 ^ k \<and> 256 ^ (k - 1) \<le> rn_n K \<and> priv_holds m K k cx"
proof -
  have v: "rsa_valid K" using key by (simp add: priv_key_of_def)
  have ex: "\<exists>x. CMP_OctetStringToCMPInt (mem_cmp m) os CMP_Constructor = Inr x \<and> cmp_ok x \<and> cmp_num x = octets_val os" if "os \<noteq> []" for os
    using CMP_OctetStringToCMPInt_correct [of "mem_cmp m" os CMP_Constructor] mem that by (simp add: rsa_memory_def)
  obtain x0 where x0: "CMP_OctetStringToCMPInt (mem_cmp m) (rsk_modulus key) CMP_Constructor = Inr x0" "cmp_ok x0" "cmp_num x0 = rn_n K"
    using ex [of "rsk_modulus key"] key by (auto simp: priv_key_of_def)
  obtain x1 where x1: "CMP_OctetStringToCMPInt (mem_cmp m) (rsk_publicExponent key) CMP_Constructor = Inr x1" "cmp_ok x1" "cmp_num x1 = rn_e K"
    using ex [of "rsk_publicExponent key"] key by (auto simp: priv_key_of_def)
  obtain x2 where x2: "CMP_OctetStringToCMPInt (mem_cmp m) (rsk_privateExponent key) CMP_Constructor = Inr x2" "cmp_ok x2" "cmp_num x2 = rn_d K"
    using ex [of "rsk_privateExponent key"] key by (auto simp: priv_key_of_def)
  obtain x3 where x3: "CMP_OctetStringToCMPInt (mem_cmp m) (rsk_prime0 key) CMP_Constructor = Inr x3" "cmp_ok x3" "cmp_num x3 = rn_p K"
    using ex [of "rsk_prime0 key"] key by (auto simp: priv_key_of_def)
  obtain x4 where x4: "CMP_OctetStringToCMPInt (mem_cmp m) (rsk_prime1 key) CMP_Constructor = Inr x4" "cmp_ok x4" "cmp_num x4 = rn_q K"
    using ex [of "rsk_prime1 key"] key by (auto simp: priv_key_of_def)
  obtain x5 where x5: "CMP_OctetStringToCMPInt (mem_cmp m) (rsk_primeExponent0 key) CMP_Constructor = Inr x5" "cmp_ok x5" "cmp_num x5 = rn_dp K"
    using ex [of "rsk_primeExponent0 key"] key by (auto simp: priv_key_of_def)
  obtain x6 where x6: "CMP_OctetStringToCMPInt (mem_cmp m) (rsk_primeExponent1 key) CMP_Constructor = Inr x6" "cmp_ok x6" "cmp_num x6 = rn_dq K"
    using ex [of "rsk_primeExponent1 key"] key by (auto simp: priv_key_of_def)
  obtain x7 where x7: "CMP_OctetStringToCMPInt (mem_cmp m) (rsk_coefficient key) CMP_Constructor = Inr x7" "cmp_ok x7" "cmp_num x7 = rn_c K"
    using ex [of "rsk_coefficient key"] key by (auto simp: priv_key_of_def)
  define k where "k = CMP_OctetLengthOfCMPInt x0"
  have l: "CMP_BITS_TO_LEN (CMP_BitLengthOfCMPInt x0) = k" unfolding k_def by (rule CMP_BITS_TO_LEN_octets [OF x0(2)])
  note kb = CMP_OctetLength_bounds [OF x0(2) k_def [symmetric]]
  let ?cx = "\<lparr>priv_mode = BLIND_BBT_MODE, priv_blockLen = k, priv_input = [], priv_modulus = x0, priv_publicExponent = x1,
    priv_privateExponent = x2, priv_prime0 = x3, priv_prime1 = x4, priv_primeExponent0 = x5, priv_primeExponent1 = x6, priv_coefficient = x7\<rparr>"
  have "RSA_CreatePrivateContext m key = Inr ?cx"
    using mem by (simp add: RSA_CreatePrivateContext_def Let_def l rsa_memory_def x0(1) x1(1) x2(1) x3(1) x4(1) x5(1) x6(1) x7(1))
  moreover have "priv_holds m K k ?cx"
    using mem v x0(2,3) x1(2,3) x3(2,3) x4(2,3) x5(2,3) x6(2,3) x7(2,3) by (simp add: priv_holds_def k_def)
  ultimately show ?thesis using kb rsa_valid_modulus [OF v] x0(3) by (intro exI [of _ ?cx] exI [of _ k]) simp
qed

end
