(* ===== verification/RSA_PKCS1.thy ===== *)
theory RSA_PKCS1
  imports RSA Block_Cipher
begin

text \<open>
  The blocks of PKCS #1 and the operations on whole messages: security/lib/crypto/algrsa.c. The
  assertions of the code are compiled out. A buffer of the caller is the list that is returned.
\<close>

section \<open>The model\<close>

datatype BlockError =
    SECFailure   \<comment> \<open>the routine returns \<open>SECFailure\<close> or a null pointer\<close>
  | SECFailure_BAD_DATA   \<comment> \<open>the same after \<open>PORT_SetError (SEC_ERROR_BAD_DATA)\<close>\<close>
  | BlockUndefined   \<comment> \<open>an access outside a buffer, or bytes that were never written\<close>

fun rsa_status :: "RSAError \<Rightarrow> BlockError" where
  "rsa_status (RSA_ERROR OUT_OF_BOUNDS) = BlockUndefined"
| "rsa_status (RSA_CMP CMP_OUT_OF_BOUNDS) = BlockUndefined"
| "rsa_status (RSA_CMP CMP_NO_RETURN) = BlockUndefined"
| "rsa_status RSA_INDETERMINATE = BlockUndefined"
| "rsa_status _ = SECFailure"

datatype RSA_BlockType = RSA_BlockPrivate0 | RSA_BlockPrivate | RSA_BlockPublic | RSA_BlockOAEP | RSA_BlockRaw | RSA_BlockTotal

fun RSA_BlockType_octet :: "RSA_BlockType \<Rightarrow> u8" where
  "RSA_BlockType_octet RSA_BlockPrivate0 = 0"
| "RSA_BlockType_octet RSA_BlockPrivate = 1"
| "RSA_BlockType_octet RSA_BlockPublic = 2"
| "RSA_BlockType_octet RSA_BlockOAEP = 3"
| "RSA_BlockType_octet RSA_BlockRaw = 4"
| "RSA_BlockType_octet RSA_BlockTotal = 5"

text \<open>Which allocations succeed, and the noise of the platform for a new generator.\<close>

record BlockMemory =
  mem_rsa :: RSAMemory
  mem_result :: bool   \<comment> \<open>the blocks that are returned\<close>
  mem_rng :: bool
  mem_rng_digest :: bool
  mem_sha1 :: bool
  mem_clone :: bool
  mem_salt :: bool
  mem_noise :: "u8 list"

subsection \<open>Masks\<close>

function oaep_h1_loop :: "SHA1Context \<Rightarrow> u8 \<Rightarrow> u8 list \<Rightarrow> u8 list" where
  "oaep_h1_loop sha1cx end_octet data =
     (if data = [] then []
      else let sha1 = snd (SHA1_End (SHA1_Update (SHA1_CloneContext sha1cx) [end_octet]));
               sha1off = (if length data < 20 then 20 - length data else 0)
           in xor8 (take (20 - sha1off) data) (drop sha1off sha1) @
              oaep_h1_loop sha1cx (end_octet + 1) (drop (20 - sha1off) data))"
  by pat_completeness auto
termination
  by (relation "measure (\<lambda>(cx, o', data). length data)") auto

declare oaep_h1_loop.simps [simp del]

definition oaep_xor_with_h1 :: "BlockMemory \<Rightarrow> u8 list \<Rightarrow> u8 list \<Rightarrow> BlockError + u8 list" where
  "oaep_xor_with_h1 m data salt =
     (if \<not> mem_sha1 m then Inl SECFailure
      else if data \<noteq> [] \<and> \<not> mem_clone m then Inl BlockUndefined
      else Inr (oaep_h1_loop (SHA1_Update (SHA1_Begin SHA1_NewContext) salt) 0 data))"

definition oaep_xor_with_h2 :: "u8 list \<Rightarrow> u8 list \<Rightarrow> u8 list" where
  "oaep_xor_with_h2 salt data = xor8 salt (drop (20 - length salt) (SHA1_HashBuf SHA1_NewContext data))"

subsection \<open>Formatting\<close>

text \<open>
  The loop \<open>do ... while (bp[i] == RSA_BLOCK_AFTER_PAD_OCTET)\<close>, which need not end; \<open>b\<close> is what the
  byte holds, if it has been written. The status of the generator is not looked at.
\<close>

partial_function (option) RSA_nonzero_octet :: "RNGContext \<Rightarrow> u8 option \<Rightarrow> (BlockError + RNGContext \<times> u8) option" where
  "RSA_nonzero_octet rng b =
     (case RNG_GenerateRandomBytes rng 1 of
        (rng, bytes, status) \<Rightarrow>
          (case (if bytes = [] then b else Some (hd bytes)) of
             None \<Rightarrow> Some (Inl BlockUndefined)
           | Some b \<Rightarrow> if b = 0 then RSA_nonzero_octet rng (Some b) else Some (Inr (rng, b))))"

fun RSA_nonzero_pad :: "nat \<Rightarrow> RNGContext \<Rightarrow> (BlockError + RNGContext \<times> u8 list) option" where
  "RSA_nonzero_pad 0 rng = Some (Inr (rng, []))"
| "RSA_nonzero_pad (Suc n) rng =
     (case RSA_nonzero_octet rng None of
        None \<Rightarrow> None
      | Some (Inl e) \<Rightarrow> Some (Inl e)
      | Some (Inr (rng, b)) \<Rightarrow> (case RSA_nonzero_pad n rng of
            None \<Rightarrow> None
          | Some (Inl e) \<Rightarrow> Some (Inl e)
          | Some (Inr (rng, bs)) \<Rightarrow> Some (Inr (rng, b # bs))))"

text \<open>
  A length of padding below zero: \<open>PORT_Memset\<close> takes it for a huge number; the loop of random bytes
  does nothing, and the data follow, up to the end of the block, where they do not start before it.
\<close>

definition RSA_FormatPrivate :: "nat \<Rightarrow> RSA_BlockType \<Rightarrow> u8 list \<Rightarrow> BlockError + u8 list" where
  "RSA_FormatPrivate modulusLen blockType data =
     (let padLen = int modulusLen - int (length data) - 3
      in if padLen < 0 then Inl BlockUndefined
         else Inr ([0, RSA_BlockType_octet blockType] @
                replicate (nat padLen) (if blockType = RSA_BlockPrivate0 then 0 else 0xff) @ [0] @ data))"

definition RSA_FormatPublic :: "nat \<Rightarrow> RNGContext \<Rightarrow> u8 list \<Rightarrow> (BlockError + u8 list) option" where
  "RSA_FormatPublic modulusLen rng data =
     (let padLen = int modulusLen - int (length data) - 3
      in if padLen < -2 then Some (Inl BlockUndefined)
         else (case RSA_nonzero_pad (nat padLen) rng of
                 None \<Rightarrow> None
               | Some (Inl e) \<Rightarrow> Some (Inl e)
               | Some (Inr (rng, pad)) \<Rightarrow> Some (Inr (take (nat (2 + padLen)) [0, RSA_BlockType_octet RSA_BlockPublic] @ pad @ [0] @ data))))"

definition RSA_FormatOAEP :: "BlockMemory \<Rightarrow> nat \<Rightarrow> RNGContext \<Rightarrow> u8 list \<Rightarrow> BlockError + u8 list" where
  "RSA_FormatOAEP m modulusLen rng data =
     (if modulusLen < 2 + 8 + 8 + length data then Inl BlockUndefined
      else case RNG_GenerateRandomBytes rng 8 of (rng, salt, status) \<Rightarrow>
           if length salt < 8 then Inl BlockUndefined
           else case (if 2 + 8 + 8 + length data < modulusLen
                      then RNG_GenerateRandomBytes rng (modulusLen - (2 + 8 + 8 + length data)) else (rng, [], True)) of
                  (rng, pad2, status) \<Rightarrow>
                    let padded = replicate 8 0 @ data @ pad2
                    in if length padded < modulusLen - 10 then Inl BlockUndefined
                       else on_success (oaep_xor_with_h1 m padded salt) (\<lambda>modified1.
                            Inr ([0, RSA_BlockType_octet RSA_BlockOAEP] @ oaep_xor_with_h2 salt modified1 @ modified1)))"

definition RSA_FormatOneBlock ::
  "BlockMemory \<Rightarrow> RNGContext option \<Rightarrow> nat \<Rightarrow> RSA_BlockType \<Rightarrow> u8 list \<Rightarrow> (BlockError + RNGContext option \<times> u8 list) option" where
  "RSA_FormatOneBlock m base modulusLen blockType data =
     (if \<not> mem_result m then Some (Inl SECFailure)
      else if modulusLen < 2 then Some (Inl BlockUndefined)
      else case blockType of
        RSA_BlockPrivate0 \<Rightarrow> Some (map_sum id (Pair base) (RSA_FormatPrivate modulusLen blockType data))
      | RSA_BlockPrivate \<Rightarrow> Some (map_sum id (Pair base) (RSA_FormatPrivate modulusLen blockType data))
      | RSA_BlockPublic \<Rightarrow>
          (case RNG_CreateContext (mem_rng m) (mem_rng_digest m) (mem_noise m) base of
             (base, None) \<Rightarrow> Some (Inl SECFailure)
           | (base, Some rng) \<Rightarrow> map_option (map_sum id (Pair base)) (RSA_FormatPublic modulusLen rng data))
      | RSA_BlockOAEP \<Rightarrow>
          (case RNG_CreateContext (mem_rng m) (mem_rng_digest m) (mem_noise m) base of
             (base, None) \<Rightarrow> Some (Inl SECFailure)
           | (base, Some rng) \<Rightarrow> Some (map_sum id (Pair base) (RSA_FormatOAEP m modulusLen rng data)))
      | _ \<Rightarrow> Some (Inl SECFailure))"

text \<open>\<open>RSA_BlockRaw\<close> writes into the block without a look whether there is one.\<close>

definition RSA_FormatBlock ::
  "BlockMemory \<Rightarrow> RNGContext option \<Rightarrow> nat \<Rightarrow> RSA_BlockType \<Rightarrow> u8 list \<Rightarrow> (BlockError + RNGContext option \<times> u8 list) option" where
  "RSA_FormatBlock m base modulusLen blockType data =
     (case blockType of
        RSA_BlockRaw \<Rightarrow>
          Some (if \<not> mem_result m \<or> modulusLen < length data then Inl BlockUndefined
                else Inr (base, replicate (modulusLen - length data) 0 @ data))
      | RSA_BlockTotal \<Rightarrow> Some (Inl SECFailure)
      | _ \<Rightarrow> RSA_FormatOneBlock m base modulusLen blockType data)"

subsection \<open>Decoding\<close>

text \<open>
  \<open>for (i = 0; i < n; i++) if (stop (*dp++)) break;\<close> with the offset \<open>dp\<close> into the block; the result
  is \<open>i\<close> and \<open>dp\<close>. Then the copy of the data part.
\<close>

fun RSA_scan :: "(u8 \<Rightarrow> bool) \<Rightarrow> u8 list \<Rightarrow> nat \<Rightarrow> nat \<Rightarrow> nat \<Rightarrow> BlockError + nat \<times> nat" where
  "RSA_scan stop data dp i 0 = Inr (i, dp)"
| "RSA_scan stop data dp i (Suc n) =
     (if length data \<le> dp then Inl BlockUndefined
      else if stop (data ! dp) then Inr (i, dp + 1)
      else RSA_scan stop data (dp + 1) (i + 1) n)"

definition RSA_octet_at :: "u8 list \<Rightarrow> nat \<Rightarrow> BlockError + u8" where
  "RSA_octet_at data dp = (if dp < length data then Inr (data ! dp) else Inl BlockUndefined)"

definition RSA_copy_out :: "BlockMemory \<Rightarrow> u8 list \<Rightarrow> nat \<Rightarrow> nat \<Rightarrow> BlockError + u8 list" where
  "RSA_copy_out m data dp len =
     (if \<not> mem_result m then Inl SECFailure
      else if dp + len \<le> length data then Inr (take len (drop dp data)) else Inl BlockUndefined)"

definition RSA_DecodePrivate0 :: "BlockMemory \<Rightarrow> u8 list \<Rightarrow> nat \<Rightarrow> nat \<Rightarrow> BlockError + u8 list" where
  "RSA_DecodePrivate0 m data modulusLen expectedLen =
     (if expectedLen \<noteq> 0
      then let padLen = unat (of_nat modulusLen - of_nat expectedLen - 3 :: u32)
           in on_success (RSA_scan (\<lambda>b. b \<noteq> 0) data 2 0 padLen) (\<lambda>(i, dp).
              if i \<noteq> padLen then Inl SECFailure_BAD_DATA
              else on_success (RSA_octet_at data dp) (\<lambda>b.
                   if b \<noteq> 0 then Inl SECFailure_BAD_DATA else RSA_copy_out m data (dp + 1) expectedLen))
      else on_success (RSA_scan (\<lambda>b. b \<noteq> 0) data 2 0 modulusLen) (\<lambda>(i, dp).
           if i = modulusLen then Inl SECFailure_BAD_DATA
           else let dp = dp - 1; padLen = dp - 2
                in on_success (RSA_octet_at data dp) (\<lambda>b.
                   if padLen < 8 \<or> b \<noteq> 0 then Inl SECFailure_BAD_DATA
                   else if modulusLen < dp + 1 then Inl BlockUndefined
                   else RSA_copy_out m data (dp + 1) (modulusLen - (dp + 1)))))"

text \<open>The branches of \<open>RSA_BlockPrivate\<close>, which looks at one more octet, and of \<open>RSA_BlockPublic\<close>.\<close>

definition RSA_DecodePadded :: "BlockMemory \<Rightarrow> bool \<Rightarrow> (u8 \<Rightarrow> bool) \<Rightarrow> u8 list \<Rightarrow> nat \<Rightarrow> nat \<Rightarrow> BlockError + u8 list" where
  "RSA_DecodePadded m private stop data modulusLen expectedLen =
     on_success (RSA_scan stop data 2 0 modulusLen) (\<lambda>(i, dp).
     if i = modulusLen then Inl SECFailure_BAD_DATA
     else on_success (if private then RSA_octet_at data dp else Inr 0) (\<lambda>b.
          if b \<noteq> 0 then Inl SECFailure_BAD_DATA
          else let padLen = dp - 2; dp = dp + 1; len = modulusLen - dp
               in if padLen < 8 \<or> (expectedLen \<noteq> 0 \<and> (modulusLen < dp \<or> expectedLen \<noteq> len)) then Inl SECFailure_BAD_DATA
                  else if modulusLen < dp then Inl BlockUndefined
                  else RSA_copy_out m data dp len))"

definition RSA_DecodeOAEP :: "BlockMemory \<Rightarrow> u8 list \<Rightarrow> nat \<Rightarrow> nat \<Rightarrow> BlockError + u8 list" where
  "RSA_DecodeOAEP m data modulusLen expectedLen =
     (let len = modulusLen - 10 in
      if \<not> mem_salt m then Inl SECFailure
      else if modulusLen < 10 \<or> length data < modulusLen then Inl BlockUndefined
      else let salt = oaep_xor_with_h2 (take 8 (drop 2 data)) (take len (drop 10 data));
               len = (if expectedLen \<noteq> 0 then expectedLen else len)
           in on_success (RSA_copy_out m data 10 len) (\<lambda>tmp_res.
              on_success (oaep_xor_with_h1 m tmp_res salt) (\<lambda>tmp_res.
              if list_ex (\<lambda>b. b \<noteq> 0) (take 8 tmp_res) then Inl SECFailure_BAD_DATA
              else if len < 8 then Inl BlockUndefined
              else RSA_copy_out m tmp_res 8 (len - 8))))"

definition RSA_DecodeOneBlock :: "BlockMemory \<Rightarrow> u8 list \<Rightarrow> nat \<Rightarrow> nat \<Rightarrow> BlockError + RSA_BlockType \<times> u8 list" where
  "RSA_DecodeOneBlock m data modulusLen expectedLen =
     on_success (RSA_octet_at data 0) (\<lambda>b0.
     if b0 \<noteq> 0 then Inl SECFailure_BAD_DATA
     else on_success (RSA_octet_at data 1) (\<lambda>bt.
     if bt = RSA_BlockType_octet RSA_BlockPrivate0
     then map_sum id (Pair RSA_BlockPrivate0) (RSA_DecodePrivate0 m data modulusLen expectedLen)
     else if bt = RSA_BlockType_octet RSA_BlockPrivate
     then map_sum id (Pair RSA_BlockPrivate) (RSA_DecodePadded m True (\<lambda>b. b \<noteq> 0xff) data modulusLen expectedLen)
     else if bt = RSA_BlockType_octet RSA_BlockPublic
     then map_sum id (Pair RSA_BlockPublic) (RSA_DecodePadded m False (\<lambda>b. b = 0) data modulusLen expectedLen)
     else if bt = RSA_BlockType_octet RSA_BlockOAEP
     then map_sum id (Pair RSA_BlockOAEP) (RSA_DecodeOAEP m data modulusLen expectedLen)
     else Inl SECFailure_BAD_DATA))"

subsection \<open>Operations on one block\<close>

text \<open>\<open>SECKEY_LowPublicModulusLen\<close> and \<open>SECKEY_LowPrivateModulusLen\<close> of an RSA key: one leading zero is not counted.\<close>

definition SECKEY_LowModulusLen :: "u8 list \<Rightarrow> BlockError + nat" where
  "SECKEY_LowModulusLen modulus =
     (case modulus of
        [] \<Rightarrow> Inl BlockUndefined
      | b0 # bs \<Rightarrow> Inr (if b0 \<noteq> 0 then length modulus else length modulus - 1))"

definition RSA_PrivateKeyOp ::
  "RSAMemory \<Rightarrow> RNGContext option \<Rightarrow> RSAPrivateKey \<Rightarrow> u8 list \<Rightarrow> nat \<Rightarrow> BlockError + RNGContext option \<times> u8 list" where
  "RSA_PrivateKeyOp m rng key input modulus_len =
     map_sum rsa_status id
       (on_success (RSA_CreatePrivateContext m key) (\<lambda>rsa.
        if length input < modulus_len then Inl (RSA_ERROR OUT_OF_BOUNDS)
        else on_success (RSA_PrivateUpdate m rng rsa modulus_len (take modulus_len input)) (\<lambda>(rng, rsa, output).
             on_success (RSA_PrivateEnd rsa) (\<lambda>rsa. Inr (rng, output)))))"

definition RSA_PublicKeyOp :: "RSAMemory \<Rightarrow> RSAPublicKey \<Rightarrow> u8 list \<Rightarrow> nat \<Rightarrow> BlockError + u8 list" where
  "RSA_PublicKeyOp m key input modulus_len =
     map_sum rsa_status id
       (on_success (RSA_CreatePublicContext m key) (\<lambda>rsa.
        if length input < modulus_len then Inl (RSA_ERROR OUT_OF_BOUNDS)
        else on_success (RSA_PublicUpdate m rsa modulus_len (take modulus_len input)) (\<lambda>(rsa, output).
             on_success (RSA_PublicEnd rsa) (\<lambda>rsa. Inr output))))"

text \<open>Leaving at a failure, with a formatting that need not end.\<close>

fun on_block :: "(BlockError + 'a) option \<Rightarrow> ('a \<Rightarrow> BlockError + 'b) \<Rightarrow> (BlockError + 'b) option" where
  "on_block None f = None"
| "on_block (Some r) f = Some (on_success r f)"

text \<open>The automatic arrays of \<open>MAX_RSA_MODULUS_LEN\<close> bytes that take the result of an operation.\<close>

definition RSA_buffer :: "nat \<Rightarrow> u8 list \<Rightarrow> BlockError + u8 list" where
  "RSA_buffer modulus_len output =
     (if 256 < length output \<or> length output < modulus_len then Inl BlockUndefined else Inr output)"


text \<open>The check of the padding: an octet zero ends it.\<close>

fun RSA_padding_ok :: "u8 list \<Rightarrow> bool" where
  "RSA_padding_ok [] = True"
| "RSA_padding_ok (b # bs) = (if b = 0 then True else if b \<noteq> 0xff then False else RSA_padding_ok bs)"

definition RSA_CheckSign :: "RSAMemory \<Rightarrow> RSAPublicKey \<Rightarrow> u8 list \<Rightarrow> u8 list \<Rightarrow> BlockError + unit" where
  "RSA_CheckSign m key sign hash =
     on_success (SECKEY_LowModulusLen (rpk_modulus key)) (\<lambda>modulus_len.
     if length sign \<noteq> modulus_len then Inl SECFailure
     else if int (length hash) > int modulus_len - 8 then Inl SECFailure
     else on_success (case RSA_PublicKeyOp m key sign modulus_len of
                        Inl BlockUndefined \<Rightarrow> Inl BlockUndefined | Inl _ \<Rightarrow> Inl SECFailure | Inr out \<Rightarrow> RSA_buffer modulus_len out)
            (\<lambda>buffer.
          if buffer ! 0 \<noteq> 0 then Inl SECFailure
          else if buffer ! 1 \<noteq> 1 then Inl SECFailure
          else if \<not> RSA_padding_ok (take (modulus_len - length hash - 1 - 2) (drop 2 buffer)) then Inl SECFailure
          else if take (length hash) (drop (modulus_len - length hash) buffer) \<noteq> hash then Inl SECFailure
          else Inr ()))"

text \<open>
  The length of what follows the padding, 0 if there is no end of it; \<open>any\<close> accepts all octets as
  padding. \<open>RSA_CheckSignRecover\<close> does not look at the status of the operation: after a failure it
  reads a buffer that was never written.
\<close>

fun RSA_data_len :: "bool \<Rightarrow> u8 list \<Rightarrow> nat option" where
  "RSA_data_len any [] = Some 0"
| "RSA_data_len any (b # bs) =
     (if b = 0 then Some (length bs) else if b \<noteq> 0xff \<and> \<not> any then None else RSA_data_len any bs)"

definition RSA_CheckSignRecover :: "RSAMemory \<Rightarrow> RSAPublicKey \<Rightarrow> nat \<Rightarrow> u8 list \<Rightarrow> BlockError + u8 list" where
  "RSA_CheckSignRecover m key max_output_len sign =
     on_success (SECKEY_LowModulusLen (rpk_modulus key)) (\<lambda>modulus_len.
     if length sign \<noteq> modulus_len then Inl SECFailure
     else on_success (case RSA_PublicKeyOp m key sign modulus_len of
                        Inl _ \<Rightarrow> Inl BlockUndefined | Inr out \<Rightarrow> RSA_buffer modulus_len out) (\<lambda>buffer.
          if modulus_len < 2 then Inl BlockUndefined
          else if buffer ! 0 \<noteq> 0 then Inl SECFailure
          else if buffer ! 1 \<noteq> 1 then Inl SECFailure
          else case RSA_data_len False (drop 2 (take modulus_len buffer)) of
                 None \<Rightarrow> Inl SECFailure
               | Some data_len \<Rightarrow>
                   if data_len = 0 then Inl SECFailure
                   else if data_len > max_output_len then Inl SECFailure
                   else Inr (take data_len (drop (modulus_len - data_len) buffer))))"



subsection \<open>Without padding\<close>

definition RSA_SignRaw ::
  "BlockMemory \<Rightarrow> RNGContext option \<Rightarrow> RSAPrivateKey \<Rightarrow> nat \<Rightarrow> u8 list \<Rightarrow> (BlockError + RNGContext option \<times> u8 list) option" where
  "RSA_SignRaw m rng key maxOutputLen input =
     (case SECKEY_LowModulusLen (rsk_modulus key) of
        Inl e \<Rightarrow> Some (Inl e)
      | Inr modulus_len \<Rightarrow>
          if maxOutputLen < modulus_len then Some (Inl SECFailure)
          else on_block (RSA_FormatBlock m rng modulus_len RSA_BlockRaw input) (\<lambda>(rng, formatted).
               RSA_PrivateKeyOp (mem_rsa m) rng key formatted modulus_len))"

definition RSA_CheckSignRaw :: "RSAMemory \<Rightarrow> RSAPublicKey \<Rightarrow> u8 list \<Rightarrow> u8 list \<Rightarrow> BlockError + unit" where
  "RSA_CheckSignRaw m key sign hash =
     on_success (SECKEY_LowModulusLen (rpk_modulus key)) (\<lambda>modulus_len.
     if length sign \<noteq> modulus_len then Inl SECFailure
     else if length hash > modulus_len then Inl SECFailure
     else on_success (RSA_PublicKeyOp m key sign modulus_len) (\<lambda>out.
          on_success (RSA_buffer modulus_len out) (\<lambda>buffer.
          if take (length hash) (drop (modulus_len - length hash) buffer) \<noteq> hash then Inl SECFailure else Inr ())))"

definition RSA_CheckSignRecoverRaw :: "RSAMemory \<Rightarrow> RSAPublicKey \<Rightarrow> nat \<Rightarrow> u8 list \<Rightarrow> BlockError + u8 list" where
  "RSA_CheckSignRecoverRaw m key max_output_len sign =
     on_success (SECKEY_LowModulusLen (rpk_modulus key)) (\<lambda>modulus_len.
     if length sign \<noteq> modulus_len then Inl SECFailure
     else if max_output_len < modulus_len then Inl SECFailure
     else on_success (RSA_PublicKeyOp m key sign modulus_len) (\<lambda>out.
          on_success (RSA_buffer modulus_len out) (\<lambda>buffer. Inr (take modulus_len buffer))))"

definition RSA_EncryptRaw ::
  "BlockMemory \<Rightarrow> RNGContext option \<Rightarrow> RSAPublicKey \<Rightarrow> nat \<Rightarrow> u8 list \<Rightarrow> (BlockError + RNGContext option \<times> u8 list) option" where
  "RSA_EncryptRaw m rng key max_output_len input =
     (case SECKEY_LowModulusLen (rpk_modulus key) of
        Inl e \<Rightarrow> Some (Inl e)
      | Inr modulus_len \<Rightarrow>
          if max_output_len < modulus_len then Some (Inl SECFailure)
          else on_block (RSA_FormatBlock m rng modulus_len RSA_BlockRaw input) (\<lambda>(rng, formatted).
               map_sum id (Pair rng) (RSA_PublicKeyOp (mem_rsa m) key formatted modulus_len)))"

text \<open>The status of the operation is not looked at here either.\<close>

definition RSA_DecryptRaw ::
  "RSAMemory \<Rightarrow> RNGContext option \<Rightarrow> RSAPrivateKey \<Rightarrow> nat \<Rightarrow> u8 list \<Rightarrow> BlockError + RNGContext option \<times> u8 list" where
  "RSA_DecryptRaw m rng key max_output_len input =
     on_success (SECKEY_LowModulusLen (rsk_modulus key)) (\<lambda>modulus_len.
     let op = RSA_PrivateKeyOp m rng key input modulus_len in
     if op = Inl BlockUndefined then Inl BlockUndefined
     else if modulus_len = 0 then Inl SECFailure
     else if modulus_len > max_output_len then Inl SECFailure
     else case op of
            Inl e \<Rightarrow> Inl BlockUndefined
          | Inr (rng, out) \<Rightarrow> on_success (RSA_buffer modulus_len out) (\<lambda>buffer. Inr (rng, take modulus_len buffer)))"

section \<open>Whole operations\<close>

text \<open>A key pair in the form that the key database has: at most one leading zero in the modulus.\<close>

definition pub_key_of :: "RSAPublicKey \<Rightarrow> nat \<Rightarrow> nat \<Rightarrow> nat \<Rightarrow> bool" where
  "pub_key_of key n e k \<longleftrightarrow> odd n \<and> 1 < n \<and> rpk_publicExponent key \<noteq> [] \<and> octets_val (rpk_modulus key) = n \<and>
     octets_val (rpk_publicExponent key) = e \<and> SECKEY_LowModulusLen (rpk_modulus key) = Inr k \<and> 256 ^ (k - 1) \<le> n"

lemma SECKEY_LowModulusLen_less: "SECKEY_LowModulusLen os = Inr k \<Longrightarrow> octets_val os < 256 ^ k"
proof (cases os)
  case (Cons b bs)
  assume k: "SECKEY_LowModulusLen os = Inr k"
  show ?thesis
  proof (cases "b = 0")
    case True
    with k Cons octets_val_less [of bs] show ?thesis by (simp add: SECKEY_LowModulusLen_def octets_val_def octets_le_append)
  next
    case False
    with k Cons octets_val_less [of os] show ?thesis by (simp add: SECKEY_LowModulusLen_def)
  qed
qed (simp add: SECKEY_LowModulusLen_def)

lemma octet_length_unique:
  assumes "0 < j" and "256 ^ (j - 1) \<le> n" and "n < 256 ^ k" and "256 ^ (k - 1) \<le> n" and "(n :: nat) < 256 ^ j" and "1 < n"
  shows "j = k"
proof -
  have "(256 :: nat) ^ (j - 1) < 256 ^ k" "(256 :: nat) ^ (k - 1) < 256 ^ j" using assms by linarith+
  then have "j - 1 < k" "k - 1 < j" by simp_all
  moreover have "0 < k" using assms(3,6) by (cases k) simp_all
  ultimately show ?thesis using assms(1) by linarith
qed

lemma one_block: "0 < k \<Longrightarrow> length b = k \<Longrightarrow> blocks k b = [b] \<and> leftover k b = []"
  using blocks_append_block [of k b "[]"] leftover_append_block [of k b "[]"] by simp

lemma RSA_update_block: "0 < k \<Longrightarrow> length b = k \<Longrightarrow>
  RSA_update run k [] s n b = on_success (run s n b) (\<lambda>(s, out). Inr (s, out, []))"
  by (cases "run s n b") (auto simp: RSA_update_def RSA_blocks.simps [of run k s n b] RSA_blocks.simps [of run k _ _ "[]"])

lemma RSA_CreatePublicContext_key:
  assumes mem: "rsa_memory m" and key: "pub_key_of key n e k"
  shows "\<exists>cx. RSA_CreatePublicContext m key = Inr cx \<and> pub_input cx = [] \<and> 0 < k \<and> pub_holds m n e k cx"
proof -
  have kn: "odd n" "1 < n" "octets_val (rpk_modulus key) = n" "octets_val (rpk_publicExponent key) = e" "rpk_publicExponent key \<noteq> []"
    "256 ^ (k - 1) \<le> n" "n < 256 ^ k"
    using key SECKEY_LowModulusLen_less [of "rpk_modulus key" k] by (auto simp: pub_key_of_def)
  have ne: "rpk_modulus key \<noteq> []" using key by (auto simp: pub_key_of_def SECKEY_LowModulusLen_def)
  obtain cx j where cx: "RSA_CreatePublicContext m key = Inr cx" "pub_input cx = []" "0 < j" "n < 256 ^ j" "256 ^ (j - 1) \<le> n" "pub_holds m n e j cx"
    using RSA_CreatePublicContext_holds [of m key] mem ne kn by (auto simp: rsa_memory_def)
  have "j = k" by (rule octet_length_unique [OF cx(3,5) kn(7,6) cx(4) kn(2)])
  with cx show ?thesis by simp
qed

lemma RSA_PublicKeyOp_correct:
  assumes mem: "rsa_memory m" and key: "pub_key_of key n e k" and b: "length b = k"
  shows "RSA_PublicKeyOp m key b k = (if octets_val b < n then Inr (rsa_power n e k b) else Inl SECFailure)"
proof -
  obtain cx where cx: "RSA_CreatePublicContext m key = Inr cx" "pub_input cx = []" and k0: "0 < k" and h: "pub_holds m n e k cx"
    using RSA_CreatePublicContext_key [OF mem key] by blast
  have bl: "pub_blockLen cx = k" using h by (simp add: pub_holds_def)
  note upd = RSA_update_block [OF k0 b]
  show ?thesis
  proof (cases "octets_val b < n")
    case True
    then obtain cx' where "RSA_Operation m cx k b = Inr (cx', rsa_power n e k b)" using RSA_Operation_correct [OF h b True] by auto
    with True show ?thesis by (simp add: RSA_PublicKeyOp_def cx(1,2) bl b RSA_PublicUpdate_def upd RSA_PublicEnd_def)
  next
    case False
    then have "RSA_Operation m cx k b = Inl (RSA_CMP CMP_RANGE)" using RSA_Operation_range [OF h b] by simp
    with False show ?thesis by (simp add: RSA_PublicKeyOp_def cx(1,2) bl b RSA_PublicUpdate_def upd)
  qed
qed

text \<open>Why the private operation of a good key can still fail: the number that is drawn for blinding.\<close>

definition rsa_unlucky :: "RSAMemory \<Rightarrow> RNGContext option \<Rightarrow> RSANumbers \<Rightarrow> nat \<Rightarrow> RSAError option" where
  "rsa_unlucky m rng K k =
     rsa_draw_error K (on_success (RSA_random m rng ((k + 3) div 4 * 4)) (\<lambda>(rng, r). Inr (octets_val r)))"

lemma cmp_len_octets: "cmp_words x \<noteq> [] \<Longrightarrow> cmp_len x = (CMP_OctetLengthOfCMPInt x + 3) div 4"
proof -
  assume ne: "cmp_words x \<noteq> []"
  have "unat (last (cmp_words x)) < 256 ^ (3 + 1)" using unat_32 [of "last (cmp_words x)"] by simp
  then have "CMP_first_byte (last (cmp_words x)) 3 \<le> 3" using CMP_first_byte_val by blast
  moreover have "0 < cmp_len x" using ne by simp
  ultimately show ?thesis by (simp add: CMP_OctetLengthOfCMPInt_def)
qed

lemma RSA_PrivateKeyOp_correct:
  assumes mem: "rsa_memory m" and key: "priv_key_of key K" and k: "SECKEY_LowModulusLen (rsk_modulus key) = Inr k" "256 ^ (k - 1) \<le> rn_n K"
    and b: "length b = k"
  shows "if rn_n K \<le> octets_val b then RSA_PrivateKeyOp m rng key b k = Inl SECFailure
    else case rsa_unlucky m rng K k of
      Some e \<Rightarrow> RSA_PrivateKeyOp m rng key b k = Inl (rsa_status e)
    | None \<Rightarrow> \<exists>rng'. RSA_PrivateKeyOp m rng key b k = Inr (rng', rsa_power (rn_n K) (rn_d K) k b)"
proof -
  have v: "rsa_valid K" and mn: "octets_val (rsk_modulus key) = rn_n K" using key by (simp_all add: priv_key_of_def)
  note n = rsa_valid_modulus [OF v]
  have kn: "rn_n K < 256 ^ k" using SECKEY_LowModulusLen_less [OF k(1)] mn by simp
  obtain cx j where cx: "RSA_CreatePrivateContext m key = Inr cx" "priv_input cx = []" "priv_mode cx = BLIND_BBT_MODE" "0 < j"
    "rn_n K < 256 ^ j" "256 ^ (j - 1) \<le> rn_n K" "priv_holds m K j cx"
    using RSA_CreatePrivateContext_holds [OF mem key] by blast
  have j: "j = k" by (rule octet_length_unique [OF cx(4,6) kn k(2) cx(5)]) (use n in simp)
  have h: "priv_holds m K k cx" and k0: "0 < k" using cx(4,7) j by simp_all
  have bl: "priv_blockLen cx = k" and ol: "CMP_OctetLengthOfCMPInt (priv_modulus cx) = k" and mo: "cmp_ok (priv_modulus cx)"
    using h by (simp_all add: priv_holds_def)
  have "cmp_words (priv_modulus cx) \<noteq> []" using mo by (auto simp: cmp_ok_def cmp_normal_def)
  from cmp_len_octets [OF this] ol have "cmp_len (priv_modulus cx) * 4 = (k + 3) div 4 * 4" by simp
  then have u: "rsa_draw_error K (rsa_draw m rng cx) = rsa_unlucky m rng K k"
    unfolding rsa_unlucky_def rsa_draw_def cx(3) by simp
  note crt = RSA_CRT_correct [where rng = rng and room = k, OF h b, unfolded u]
  note upd = RSA_update_block [OF k0 b]
  have op: "RSA_PrivateKeyOp m rng key b k = map_sum rsa_status id (on_success (RSA_CRT m (rng, cx) k b) (\<lambda>((rng, cx), out). Inr (rng, out)))"
    by (cases "RSA_CRT m (rng, cx) k b") (auto simp: RSA_PrivateKeyOp_def cx(1,2) bl b RSA_PrivateUpdate_def upd RSA_PrivateEnd_def)
  show ?thesis
  proof (cases "RSA_CRT m (rng, cx) k b")
    case (Inl err)
    with crt show ?thesis unfolding op by (cases "rsa_unlucky m rng K k") auto
  next
    case (Inr r)
    with crt show ?thesis unfolding op by (cases r) auto
  qed
qed

text \<open>The two operations invert each other on blocks below the modulus.\<close>

lemma rsa_power_val:
  assumes "0 < n" and "n < 256 ^ k"
  shows "octets_val (rsa_power n e k b) = octets_val b ^ e mod n" and "octets_val (rsa_power n e k b) < n"
proof -
  have lt: "octets_val b ^ e mod n < n" using assms(1) by simp
  then have "octets_val b ^ e mod n < 256 ^ k" using assms(2) by simp
  then show "octets_val (rsa_power n e k b) = octets_val b ^ e mod n" unfolding rsa_power_def by (rule octets_val_of)
  with lt show "octets_val (rsa_power n e k b) < n" by simp
qed

lemma length_rsa_power [simp]: "length (rsa_power n e k b) = k"
  by (simp add: rsa_power_def)

lemma rsa_power_inverse:
  assumes v: "rsa_valid K" and k: "rn_n K < 256 ^ k" and b: "length b = k" "octets_val b < rn_n K"
  shows "rsa_power (rn_n K) (rn_d K) k (rsa_power (rn_n K) (rn_e K) k b) = b"
    and "rsa_power (rn_n K) (rn_e K) k (rsa_power (rn_n K) (rn_d K) k b) = b"
proof -
  have n: "0 < rn_n K" using rsa_valid_modulus [OF v] by simp
  note val = rsa_power_val(1) [OF n k]
  have i: "(octets_val b ^ rn_e K) ^ rn_d K mod rn_n K = octets_val b" using rsa_inverse [OF v] b(2) by simp
  then have j: "(octets_val b ^ rn_d K) ^ rn_e K mod rn_n K = octets_val b" by (simp only: power_mult [symmetric] mult.commute)
  show "rsa_power (rn_n K) (rn_d K) k (rsa_power (rn_n K) (rn_e K) k b) = b"
    using octets_of_val [of b] unfolding rsa_power_def [of _ "rn_d K"] val power_mod i b(1) .
  show "rsa_power (rn_n K) (rn_e K) k (rsa_power (rn_n K) (rn_d K) k b) = b"
    using octets_of_val [of b] unfolding rsa_power_def [of _ "rn_e K"] val power_mod j b(1) .
qed

text \<open>Both keys of a pair, and a block that starts with a zero.\<close>

definition key_pair :: "RSAPublicKey \<Rightarrow> RSAPrivateKey \<Rightarrow> RSANumbers \<Rightarrow> nat \<Rightarrow> bool" where
  "key_pair pub priv K k \<longleftrightarrow> priv_key_of priv K \<and> pub_key_of pub (rn_n K) (rn_e K) k \<and>
     SECKEY_LowModulusLen (rsk_modulus priv) = Inr k"

lemma key_pair_facts:
  assumes "key_pair pub priv K k"
  shows "rsa_valid K" and "0 < k" and "rn_n K < 256 ^ k" and "256 ^ (k - 1) \<le> rn_n K" and "0 < rn_n K"
    and "SECKEY_LowModulusLen (rpk_modulus pub) = Inr k"
proof -
  show v: "rsa_valid K" and l: "SECKEY_LowModulusLen (rpk_modulus pub) = Inr k" and "256 ^ (k - 1) \<le> rn_n K"
    using assms by (simp_all add: key_pair_def priv_key_of_def pub_key_of_def)
  show lt: "rn_n K < 256 ^ k" using SECKEY_LowModulusLen_less [OF l] assms by (simp add: key_pair_def pub_key_of_def)
  show "0 < rn_n K" using rsa_valid_modulus [OF v] by simp
  show "0 < k" using lt rsa_valid_modulus [OF v] by (cases k) simp_all
qed




lemma RSA_data_len_pad:
  "0 \<notin> set pad \<Longrightarrow> any \<or> set pad \<subseteq> {0xff} \<Longrightarrow> RSA_data_len any (pad @ 0 # data) = Some (length data)"
  by (induction pad) auto


section \<open>Properties\<close>

text \<open>Calls of \<open>RSA_PublicUpdate\<close> with their room for output, and the output of all.\<close>

fun rsa_public_calls :: "RSAMemory \<Rightarrow> RSAPublicContext \<Rightarrow> (nat \<times> u8 list) list \<Rightarrow> RSAError + RSAPublicContext \<times> u8 list" where
  "rsa_public_calls m cx [] = Inr (cx, [])"
| "rsa_public_calls m cx ((room, piece) # calls) =
     on_success (RSA_PublicUpdate m cx room piece) (\<lambda>(cx, out).
     on_success (rsa_public_calls m cx calls) (\<lambda>(cx, outs). Inr (cx, out @ outs)))"

lemma pub_holds_input: "pub_holds m n e k (cx\<lparr>pub_input := r\<rparr>) = pub_holds m n e k cx"
  by (simp add: pub_holds_def)

lemma rsa_public_calls_correct:
  assumes k: "0 < k"
  shows "pub_holds m n e k cx \<Longrightarrow> length (pub_input cx) < k \<Longrightarrow>
    \<forall>b \<in> set (blocks k (pub_input cx @ concat (map snd calls))). octets_val b < n \<Longrightarrow>
    \<forall>(room, piece) \<in> set calls. k + length piece \<le> room \<Longrightarrow>
    \<exists>cx'. rsa_public_calls m cx calls
        = Inr (cx', concat (map (rsa_power n e k) (blocks k (pub_input cx @ concat (map snd calls))))) \<and>
      pub_input cx' = leftover k (pub_input cx @ concat (map snd calls))"
proof (induction calls arbitrary: cx)
  case Nil
  then show ?case by simp
next
  case (Cons call calls)
  obtain room piece where call: "call = (room, piece)" by (cases call) blast
  let ?held = "pub_input cx @ piece" and ?rest = "concat (map snd calls)"
  have bl: "pub_blockLen cx = k" using Cons.prems(1) by (simp add: pub_holds_def)
  have split: "blocks k (pub_input cx @ piece @ ?rest) = blocks k ?held @ blocks k (leftover k ?held @ ?rest)"
    "leftover k (pub_input cx @ piece @ ?rest) = leftover k (leftover k ?held @ ?rest)"
    using blocks_append [of k ?held ?rest] leftover_append [of k ?held ?rest] by simp_all
  have good: "\<forall>b \<in> set (blocks k ?held). octets_val b < n" "\<forall>b \<in> set (blocks k (leftover k ?held @ ?rest)). octets_val b < n"
    using Cons.prems(3) by (auto simp: call split)
  have room: "length (pub_input cx) + length piece \<le> room" using Cons.prems(2,4) by (auto simp: call)
  obtain cx1 where 1: "RSA_update (RSA_Operation m) k (pub_input cx) cx room piece
      = Inr (cx1, concat (map (rsa_power n e k) (blocks k ?held)), leftover k ?held)" "pub_holds m n e k cx1"
    using rsa_public.update_total [OF Cons.prems(1,2) good(1) room] by blast
  let ?cx1 = "cx1\<lparr>pub_input := leftover k ?held\<rparr>"
  have h1: "pub_holds m n e k ?cx1" using 1(2) by (simp add: pub_holds_input)
  have l1: "length (pub_input ?cx1) < k" using length_leftover_less [OF k] by simp
  obtain cx' where "rsa_public_calls m ?cx1 calls = Inr (cx', concat (map (rsa_power n e k) (blocks k (leftover k ?held @ ?rest))))"
    "pub_input cx' = leftover k (leftover k ?held @ ?rest)"
    using Cons.IH [OF h1 l1] good(2) Cons.prems(4) by auto
  then show ?case by (simp add: call RSA_PublicUpdate_def bl 1(1) split)
qed

text \<open>
  The public operation over a stream of pieces. Whatever the lengths of the pieces in which a text
  arrives, with room for the output a context of the key turns every block of the text, as a number \<open>b\<close> below
  the modulus, into \<open>b ^ e mod n\<close> in as many bytes as the modulus has; at the end it reports an input
  length that is no multiple of that.
\<close>

theorem RSA_PublicUpdate_pieces:
  assumes "rsa_memory m" and "pub_key_of key n e k" and "\<forall>b \<in> set (blocks k (concat (map snd calls))). octets_val b < n"
    and "\<forall>(room, piece) \<in> set calls. k + length piece \<le> room"
  shows "\<exists>cx cx'. RSA_CreatePublicContext m key = Inr cx \<and>
    rsa_public_calls m cx calls = Inr (cx', concat (map (rsa_power n e k) (blocks k (concat (map snd calls))))) \<and>
    RSA_PublicEnd cx' = (if length (concat (map snd calls)) mod k = 0 then Inr (cx'\<lparr>pub_input := []\<rparr>) else Inl (RSA_ERROR SEC_ERROR_INPUT_LEN))"
proof -
  obtain cx where cx: "RSA_CreatePublicContext m key = Inr cx" "pub_input cx = []" "0 < k" "pub_holds m n e k cx"
    using RSA_CreatePublicContext_key [OF assms(1,2)] by blast
  obtain cx' where c: "rsa_public_calls m cx calls = Inr (cx', concat (map (rsa_power n e k) (blocks k (concat (map snd calls)))))"
    "pub_input cx' = leftover k (concat (map snd calls))"
    using rsa_public_calls_correct [OF cx(3,4), of calls, unfolded cx(2) append_Nil list.size(3), OF cx(3) assms(3,4)] by blast
  have "length (pub_input cx') = length (concat (map snd calls)) mod k" using length_leftover [OF cx(3)] by (simp add: c(2))
  then have "RSA_PublicEnd cx' = (if length (concat (map snd calls)) mod k = 0 then Inr (cx'\<lparr>pub_input := []\<rparr>) else Inl (RSA_ERROR SEC_ERROR_INPUT_LEN))"
    by (simp add: RSA_PublicEnd_def)
  with cx(1) c(1) show ?thesis by blast
qed

lemma RSA_ops_invert:
  assumes "rsa_memory m" and "key_pair pub priv K k" and "rsa_unlucky m rng K k = None" and "length b = k" and "octets_val b < rn_n K"
  shows "\<exists>c rng'. RSA_PublicKeyOp m pub b k = Inr c \<and> RSA_PrivateKeyOp m rng priv c k = Inr (rng', b) \<and> length c = k"
    and "\<exists>s rng'. RSA_PrivateKeyOp m rng priv b k = Inr (rng', s) \<and> RSA_PublicKeyOp m pub s k = Inr b \<and> length s = k"
proof -
  note f = key_pair_facts [OF assms(2)]
  have priv: "priv_key_of priv K" "SECKEY_LowModulusLen (rsk_modulus priv) = Inr k" and pub: "pub_key_of pub (rn_n K) (rn_e K) k"
    using assms(2) by (simp_all add: key_pair_def)
  note pubop = RSA_PublicKeyOp_correct [OF assms(1) pub]
  have privop: "\<exists>rng'. RSA_PrivateKeyOp m rng priv x k = Inr (rng', rsa_power (rn_n K) (rn_d K) k x)"
    if "length x = k" "octets_val x < rn_n K" for x
    using RSA_PrivateKeyOp_correct [OF assms(1) priv f(4) that(1), of rng] that(2) unfolding assms(3) option.case by (auto split: if_splits)
  note inv = rsa_power_inverse [OF f(1,3) assms(4,5)] and lt = rsa_power_val(2) [OF f(5,3)]
  have "RSA_PublicKeyOp m pub b k = Inr (rsa_power (rn_n K) (rn_e K) k b)" using pubop [OF assms(4)] assms(5) by simp
  moreover have "\<exists>rng'. RSA_PrivateKeyOp m rng priv (rsa_power (rn_n K) (rn_e K) k b) k = Inr (rng', b)"
    using privop [OF length_rsa_power lt [of "rn_e K" b]] unfolding inv(1) .
  ultimately show "\<exists>c rng'. RSA_PublicKeyOp m pub b k = Inr c \<and> RSA_PrivateKeyOp m rng priv c k = Inr (rng', b) \<and> length c = k" by auto
  obtain rng' where "RSA_PrivateKeyOp m rng priv b k = Inr (rng', rsa_power (rn_n K) (rn_d K) k b)"
    using privop [OF assms(4,5)] by blast
  moreover have "RSA_PublicKeyOp m pub (rsa_power (rn_n K) (rn_d K) k b) k = Inr b"
    using pubop [of "rsa_power (rn_n K) (rn_d K) k b"] inv(2) lt by simp
  ultimately show "\<exists>s rng'. RSA_PrivateKeyOp m rng priv b k = Inr (rng', s) \<and> RSA_PublicKeyOp m pub s k = Inr b \<and> length s = k" by auto
qed

lemma RSA_ops_refuse:
  assumes "rsa_memory m" and "key_pair pub priv K k" and "length b = k" and "rn_n K \<le> octets_val b"
  shows "RSA_PublicKeyOp m pub b k = Inl SECFailure" and "RSA_PrivateKeyOp m rng priv b k = Inl SECFailure"
  using RSA_PublicKeyOp_correct [of m pub "rn_n K" "rn_e K" k b] RSA_PrivateKeyOp_correct [of m priv K k b rng] key_pair_facts(4) [OF assms(2)] assms
  by (simp_all add: key_pair_def)

text \<open>
  C2. For the two keys of a pair the operations invert each other, in both orders, on every block
  below the modulus; other blocks are refused. The exponentiation by the Chinese remainder theorem and the
  blinding do not show in the result: the blinding can only refuse, when the number that is drawn
  is unlucky.
\<close>

theorem RSA_keys_invert:
  assumes "rsa_memory m" and "key_pair pub priv K k" and "rsa_unlucky m rng K k = None" and "length b = k"
  shows "if octets_val b < rn_n K
    then (\<exists>c rng'. RSA_PublicKeyOp m pub b k = Inr c \<and> RSA_PrivateKeyOp m rng priv c k = Inr (rng', b)) \<and>
      (\<exists>s rng'. RSA_PrivateKeyOp m rng priv b k = Inr (rng', s) \<and> RSA_PublicKeyOp m pub s k = Inr b)
    else RSA_PublicKeyOp m pub b k = Inl SECFailure \<and> RSA_PrivateKeyOp m rng priv b k = Inl SECFailure"
proof (cases "octets_val b < rn_n K")
  case True
  with RSA_ops_invert [OF assms] show ?thesis by auto
next
  case False
  with RSA_ops_refuse [OF assms(1,2,4)] show ?thesis by simp
qed

lemma data_at_end: "length pre + length data = k \<Longrightarrow> take (length data) (drop (k - length data) (pre @ data)) = data"
  by (metis add_diff_cancel_right' append_eq_conv_conj order_refl take_all)

lemma RSA_padded_data:
  assumes "0 \<notin> set pad" and "any \<or> set pad \<subseteq> {0xff}" and "blk = [0, t] @ pad @ [0] @ data" and "length blk = k"
  shows "RSA_data_len any (drop 2 (take k blk)) = Some (length data)"
    and "take (length data) (drop (k - length data) blk) = data" and "k = length pad + length data + 3"
proof -
  show "RSA_data_len any (drop 2 (take k blk)) = Some (length data)"
    using RSA_data_len_pad [OF assms(1,2)] assms(3,4) by simp
  show "take (length data) (drop (k - length data) blk) = data"
    using data_at_end [of "[0, t] @ pad @ [0]" data k] assms(3,4) by simp
  show "k = length pad + length data + 3" using assms(3,4) by simp
qed



lemma RSA_padding_take: "RSA_padding_ok (take i (replicate j 0xff @ 0 # xs))"
proof (induction j arbitrary: i)
  case 0
  show ?case by (cases i) simp_all
next
  case (Suc j)
  show ?case by (cases i) (simp_all add: Suc del: take_append take_replicate)
qed

text \<open>
  C24. \<open>RSA_CheckSign\<close> accepts more than signatures of the hash: the padding may be of any length, also of
  none, and between the octet zero that ends it and the hash at the end of the block there may be
  anything. \<open>RSA_CheckSignRecover\<close> gives back the hash together with what stands before it.
\<close>

theorem RSA_CheckSign_accepts_garbage:
  assumes "SECKEY_LowModulusLen (rpk_modulus key) = Inr k" and "k \<le> 256" and "RSA_PublicKeyOp m key s k = Inr blk"
    and "length s = k" and "length blk = k" and "hash \<noteq> []" and "length hash + 8 \<le> k"
    and "blk = [0, 1] @ replicate j 0xff @ [0] @ garbage @ hash"
  shows "RSA_CheckSign m key s hash = Inr () \<and> RSA_CheckSignRecover m key k s = Inr (garbage @ hash)"
proof -
  have head: "blk ! 0 = 0" "blk ! Suc 0 = 1" "drop 2 blk = replicate j 0xff @ [0] @ garbage @ hash" using assms(8) by simp_all
  have buf: "RSA_buffer k blk = Inr blk" using assms(2,5) by (simp add: RSA_buffer_def)
  have np: "0 \<notin> set (replicate j (0xff :: u8))" "set (replicate j (0xff :: u8)) \<subseteq> {0xff}" by auto
  note pd = RSA_padded_data [where any = False, OF np(1) disjI2 [OF np(2)] assms(8) assms(5)]
  have "take (length hash) (drop (k - length hash) blk) = hash"
    using data_at_end [of "[0, 1] @ replicate j 0xff @ [0] @ garbage" hash k] assms(5,8) by simp
  moreover have "RSA_padding_ok (take i (drop 2 blk))" for i
    unfolding head(3) append.simps by (rule RSA_padding_take)
  moreover have "length (garbage @ hash) \<noteq> 0" "length (garbage @ hash) \<le> k" "\<not> k < 2" using assms(5,6,7,8) by auto
  ultimately show ?thesis using assms(1,3,4,7) pd(1,2)
    by (simp add: RSA_CheckSign_def RSA_CheckSignRecover_def buf head(1,2))
qed

section \<open>Witnesses\<close>

text \<open>A small key, a machine with memory, and a generator with bytes left.\<close>

definition example_memory :: RSAMemory where
  "example_memory = \<lparr>mem_cmp = \<lambda>n. True, mem_context = True, mem_input = True, mem_tempBuffer = True, mem_block = True\<rparr>"

definition example_blocks :: BlockMemory where
  "example_blocks = \<lparr>mem_rsa = example_memory, mem_result = True, mem_rng = True, mem_rng_digest = True, mem_sha1 = True,
     mem_clone = True, mem_salt = True, mem_noise = []\<rparr>"

definition example_rng :: RNGContext where
  "example_rng = \<lparr>rng_state = replicate 20 5, rng_output = replicate 20 1, rng_outputAvailable = 20,
     rng_digestContext = SHA1_NewContext, rng_seed = replicate 20 0\<rparr>"

definition example_numbers :: RSANumbers where
  "example_numbers = \<lparr>rn_n = 16850989, rn_e = 7, rn_d = 2005093, rn_p = 4099, rn_q = 4111, rn_dp = 1171, rn_dq = 3523, rn_c = 1708\<rparr>"

definition example_public :: RSAPublicKey where
  "example_public = \<lparr>rpk_modulus = [0, 1, 1, 32, 45], rpk_publicExponent = [7]\<rparr>"

definition example_private :: RSAPrivateKey where
  "example_private = \<lparr>rsk_modulus = [0, 1, 1, 32, 45], rsk_publicExponent = [7], rsk_privateExponent = [0, 30, 152, 101],
     rsk_prime0 = [16, 3], rsk_prime1 = [16, 15], rsk_primeExponent0 = [4, 147], rsk_primeExponent1 = [13, 195], rsk_coefficient = [6, 172]\<rparr>"

lemma prime_nat_check: "1 < p \<Longrightarrow> p < b * b \<Longrightarrow> list_all (\<lambda>d. p mod d \<noteq> 0) [2..<b] \<Longrightarrow> prime_nat p"
  unfolding prime_nat_def
proof (intro conjI allI impI)
  fix d
  assume p: "1 < p" "p < b * b" and c: "list_all (\<lambda>d. p mod d \<noteq> 0) [2..<b]" and d: "d dvd p"
  obtain e where e: "p = d * e" using d by (rule dvdE)
  have small: "x = 1" if "x dvd p" "x < b" for x
  proof (rule ccontr)
    assume "x \<noteq> 1"
    moreover have "x \<noteq> 0" using that(1) p(1) by (metis dvd_0_left_iff not_less_zero)
    ultimately have "x \<in> set [2..<b]" using that(2) by simp
    then have "p mod x \<noteq> 0" using c by (simp add: list_all_iff)
    with that(1) show False by (simp add: dvd_eq_mod_eq_0)
  qed
  show "d = 1 \<or> d = p"
  proof (cases "d < b")
    case True
    with small d show ?thesis by blast
  next
    case False
    have "e < b"
    proof (rule ccontr)
      assume "\<not> e < b"
      with False have "b * b \<le> d * e" by (intro mult_le_mono) simp_all
      with p(2) e show False by simp
    qed
    with small [of e] e show ?thesis by simp
  qed
qed

lemma example_primes: "prime_nat 4099" "prime_nat 4111"
  by (rule prime_nat_check [of _ 65]; simp add: upt_rec)+

lemma example_valid: "rsa_valid example_numbers"
  using example_primes by (simp add: rsa_valid_def example_numbers_def)

lemma example_ready: "rsa_memory example_memory" "rsa_memory (mem_rsa example_blocks)" "mem_result example_blocks"
  "mem_rsa example_blocks = example_memory"
  by (simp_all add: rsa_memory_def example_memory_def example_blocks_def)

lemma example_pair: "key_pair example_public example_private example_numbers 4"
  using example_valid
  by (simp add: key_pair_def priv_key_of_def pub_key_of_def example_public_def example_private_def example_numbers_def
      octets_val_def SECKEY_LowModulusLen_def)

lemma example_lucky: "rsa_unlucky example_memory (Some example_rng) example_numbers 4 = None"
proof -
  have "gcd 65793 (16850989 :: nat) = 1"
    by (simp add: gcd_red_nat [of 65793 16850989] gcd_red_nat [of 16850989 65793] gcd_red_nat [of 65793 7981] gcd_red_nat [of 7981 1945]
        gcd_red_nat [of 1945 201] gcd_red_nat [of 201 136] gcd_red_nat [of 136 65] gcd_red_nat [of 65 6] gcd_red_nat [of 6 5])
  then have co: "coprime 65793 (16850989 :: nat)" by (simp add: coprime_iff_gcd_eq_1)
  have "RNG_GenerateRandomBytes example_rng 4 = (example_rng\<lparr>rng_outputAvailable := 16\<rparr>, [1, 1, 1, 1], True)"
    by (simp add: RNG_GenerateRandomBytes_def RNG_generate_loop.simps example_rng_def eval_nat_numeral)
  then have "RSA_random example_memory (Some example_rng) 4 = Inr (Some (example_rng\<lparr>rng_outputAvailable := 16\<rparr>), [0, 1, 1, 1])"
    by (simp add: RSA_random_def RNG_GenerateGlobalRandomBytes_def)
  then show ?thesis using co by (simp add: rsa_unlucky_def rsa_draw_error_def octets_val_def example_numbers_def)
qed

theorem RSA_keys_invert_witness:
  "\<exists>c rng'. RSA_PublicKeyOp example_memory example_public [0, 0, 1, 2] 4 = Inr c \<and>
     RSA_PrivateKeyOp example_memory (Some example_rng) example_private c 4 = Inr (rng', [0, 0, 1, 2])"
  using RSA_keys_invert [OF example_ready(1) example_pair example_lucky, of "[0, 0, 1, 2]"]
  by (simp add: octets_val_def example_numbers_def)


theorem RSA_CheckSign_accepts_garbage_witness:
  "RSA_CheckSign example_memory \<lparr>rpk_modulus = [255, 255, 255, 255, 255, 255, 255, 255, 255], rpk_publicExponent = [1]\<rparr> [0, 1, 0, 66, 66, 66, 66, 66, 9] [9] = Inr () \<and>
   RSA_CheckSignRecover example_memory \<lparr>rpk_modulus = [255, 255, 255, 255, 255, 255, 255, 255, 255], rpk_publicExponent = [1]\<rparr> 9 [0, 1, 0, 66, 66, 66, 66, 66, 9]
     = Inr [66, 66, 66, 66, 66, 9]"
proof -
  let ?key = "\<lparr>rpk_modulus = [255, 255, 255, 255, 255, 255, 255, 255, 255], rpk_publicExponent = [1]\<rparr>" and ?b = "[0, 1, 0, 66, 66, 66, 66, 66, 9] :: u8 list"
  have len: "SECKEY_LowModulusLen (rpk_modulus ?key) = Inr 9" by (simp add: SECKEY_LowModulusLen_def)
  have key: "pub_key_of ?key 4722366482869645213695 1 9"
    by (simp add: pub_key_of_def SECKEY_LowModulusLen_def octets_val_def)
  have less: "octets_val ?b < 4722366482869645213695" by (simp add: octets_val_def)
  have "?b = octets_of 9 (octets_val ?b)" by (rule octets_of_eq) simp_all
  then have "rsa_power 4722366482869645213695 1 9 ?b = ?b"
    unfolding rsa_power_def power_one_right mod_less [OF less] by (rule sym)
  then have op: "RSA_PublicKeyOp example_memory ?key ?b 9 = Inr ?b"
    using RSA_PublicKeyOp_correct [OF example_ready(1) key, of ?b] less by simp
  have "RSA_CheckSign example_memory ?key ?b [9] = Inr () \<and>
      RSA_CheckSignRecover example_memory ?key 9 ?b = Inr ([66, 66, 66, 66, 66] @ [9])"
    by (rule RSA_CheckSign_accepts_garbage [OF len _ op, where j = 0]) simp_all
  then show ?thesis by (simp only: append.simps)
qed

theorem RSA_PublicUpdate_pieces_witness:
  "\<exists>cx cx'. RSA_CreatePublicContext example_memory \<lparr>rpk_modulus = [15], rpk_publicExponent = [3]\<rparr> = Inr cx \<and>
     rsa_public_calls example_memory cx [(3, [2]), (3, [3, 1])] = Inr (cx', [8, 12, 1]) \<and> (\<exists>cx''. RSA_PublicEnd cx' = Inr cx'')"
proof -
  have key: "pub_key_of \<lparr>rpk_modulus = [15], rpk_publicExponent = [3]\<rparr> 15 3 1"
    by (simp add: pub_key_of_def SECKEY_LowModulusLen_def octets_val_def)
  have bl: "blocks 1 [2, 3, 1 :: u8] = [[2], [3], [1]]" by (simp add: blocks.simps)
  have "rsa_power 15 3 1 [2] = [8]" "rsa_power 15 3 1 [3] = [12]" "rsa_power 15 3 1 [1] = [1]"
    by (simp_all add: rsa_power_def octets_val_def)
  then show ?thesis
    using RSA_PublicUpdate_pieces [OF example_ready(1) key, of "[(3, [2]), (3, [3, 1])]"] bl by (auto simp: octets_val_def)
qed

end
