(* ===== verification/DSA.thy ===== *)
theory DSA
  imports RSA
begin

text \<open>
  DSA: security/lib/crypto/dsas.c (signing in two steps, a block of random octets first and the digest
  then) and dsav.c (verification). \<open>mem\<close> says which allocations of words succeed, \<open>alloc\<close> whether the
  context is allocated. A routine that fails leaves the context behind; it is \<open>None\<close> where an allocation
  failed inside an operation that works on the numbers of the context. A result parameter is what is
  returned.
\<close>

section \<open>The model\<close>

datatype DSAError =
    DSA_FAILURE   \<comment> \<open>\<open>SECFailure\<close> or a null pointer\<close>
  | DSA_NEED_RANDOM   \<comment> \<open>the same after \<open>PORT_SetError (SEC_ERROR_NEED_RANDOM)\<close>\<close>
  | DSA_UNDEFINED   \<comment> \<open>an access outside a buffer\<close>

record PQGParams =
  pqg_prime :: "u8 list"
  pqg_subPrime :: "u8 list"
  pqg_base :: "u8 list"

record DSAPublicKey =
  dpk_params :: PQGParams
  dpk_publicValue :: "u8 list"

record DSAPrivateKey =
  dsk_params :: PQGParams
  dsk_publicValue :: "u8 list"
  dsk_privateValue :: "u8 list"

record DSASignContext =
  dsas_state :: int
  dsas_p :: CMPInt
  dsas_q :: CMPInt
  dsas_g :: CMPInt
  dsas_privateValue :: CMPInt
  dsas_r :: CMPInt
  dsas_xr :: CMPInt
  dsas_kInv :: CMPInt

record DSAVerifyContext =
  dsav_initialized :: int
  dsav_p :: CMPInt
  dsav_q :: CMPInt
  dsav_g :: CMPInt
  dsav_publicValue :: CMPInt

text \<open>
  What a status does to a routine: \<open>dsa_keep\<close> after an operation that does not touch the context,
  \<open>dsa_fail\<close> after one that works on its numbers, but not before \<open>CMP_MODULUS\<close> and \<open>CMP_RANGE\<close> are found;
  \<open>CMP_INVERSE\<close> leaves the modulus as it is.
\<close>

definition dsa_keep :: "'cx \<Rightarrow> CMPStatus \<Rightarrow> DSAError \<times> 'cx option" where
  "dsa_keep cx e = (if e = CMP_OUT_OF_BOUNDS \<or> e = CMP_NO_RETURN then (DSA_UNDEFINED, None) else (DSA_FAILURE, Some cx))"

definition dsa_fail :: "'cx \<Rightarrow> CMPStatus \<Rightarrow> DSAError \<times> 'cx option" where
  "dsa_fail cx e =
     (if e = CMP_OUT_OF_BOUNDS \<or> e = CMP_NO_RETURN then (DSA_UNDEFINED, None)
      else if e = CMP_MODULUS \<or> e = CMP_RANGE \<or> e = CMP_INVERSE then (DSA_FAILURE, Some cx) else (DSA_FAILURE, None))"

text \<open>The numbers of a key; both \<open>Create\<close> routines read the parameters in the same way.\<close>

definition DSA_octets :: "(nat \<Rightarrow> bool) \<Rightarrow> u8 list \<Rightarrow> DSAError + CMPInt" where
  "DSA_octets mem octets = map_sum (\<lambda>e. fst (dsa_keep () e)) id (CMP_OctetStringToCMPInt mem octets CMP_Constructor)"

definition DSA_params :: "(nat \<Rightarrow> bool) \<Rightarrow> PQGParams \<Rightarrow> DSAError + CMPInt \<times> CMPInt \<times> CMPInt" where
  "DSA_params mem params =
     on_success (DSA_octets mem (pqg_prime params)) (\<lambda>p.
     let bitLength = CMP_BitLengthOfCMPInt p
     in if bitLength < 256 \<or> bitLength > 2048 then Inl DSA_FAILURE
        else on_success (DSA_octets mem (pqg_subPrime params)) (\<lambda>q.
             let bitLength = CMP_BitLengthOfCMPInt q
             in if bitLength \<noteq> 160 then Inl DSA_FAILURE
                else on_success (DSA_octets mem (pqg_base params)) (\<lambda>g.
                     if CMP_Compare g p \<ge> 0 then Inl DSA_FAILURE else Inr (p, q, g))))"

subsection \<open>dsas.c\<close>

definition DSA_CreateSignContext :: "(nat \<Rightarrow> bool) \<Rightarrow> bool \<Rightarrow> DSAPrivateKey \<Rightarrow> DSAError + DSASignContext" where
  "DSA_CreateSignContext mem alloc key =
     (if \<not> alloc then Inl DSA_FAILURE
      else on_success (DSA_params mem (dsk_params key)) (\<lambda>(p, q, g).
           on_success (DSA_octets mem (dsk_privateValue key)) (\<lambda>privateValue.
           if CMP_Compare privateValue q \<ge> 0 then Inl DSA_FAILURE
           else Inr \<lparr>dsas_state = 1, dsas_p = p, dsas_q = q, dsas_g = g, dsas_privateValue = privateValue,
                  dsas_r = CMP_Constructor, dsas_xr = CMP_Constructor, dsas_kInv = CMP_Constructor\<rparr>)))"

text \<open>
  \<open>CMP_ModInvert\<close> into \<open>kInv\<close>. When there is no inverse the coefficient of the extended gcd has been
  written there nevertheless.
\<close>

definition DSA_invert ::
  "(nat \<Rightarrow> bool) \<Rightarrow> DSASignContext \<Rightarrow> CMPInt \<Rightarrow> (DSAError \<times> DSASignContext option) + DSASignContext \<times> CMPInt" where
  "DSA_invert mem cx k =
     (case CMP_ModInvert mem k (dsas_q cx) (dsas_kInv cx) of
        Inr (k, q, kInv) \<Rightarrow> Inr (cx\<lparr>dsas_q := q, dsas_kInv := kInv\<rparr>, k)
      | Inl CMP_INVERSE \<Rightarrow>
          (case CMP_ComputeExtendedGCD mem k (dsas_q cx) (dsas_kInv cx) CMP_Constructor CMP_Constructor of
             Inr (k, q, kInv, coeff2, gcdInt) \<Rightarrow> Inl (DSA_NEED_RANDOM, Some (cx\<lparr>dsas_q := q, dsas_kInv := kInv\<rparr>))
           | Inl e \<Rightarrow> Inl (DSA_NEED_RANDOM, None))
      | Inl e \<Rightarrow> Inl (dsa_fail cx e))"

text \<open>\<open>k\<close> is reduced for its inverse if it is greater than \<open>q\<close>.\<close>

definition DSA_presign_inverse ::
  "(nat \<Rightarrow> bool) \<Rightarrow> DSASignContext \<Rightarrow> CMPInt \<Rightarrow> (DSAError \<times> DSASignContext option) + DSASignContext \<times> CMPInt \<times> CMPInt" where
  "DSA_presign_inverse mem cx k =
     (if CMP_Compare k (dsas_q cx) > 0
      then on_success (map_sum (dsa_fail cx) id (CMP_ModularReduce mem k (dsas_q cx) CMP_Constructor)) (\<lambda>(k, q, tempCMP).
           on_success (DSA_invert mem (cx\<lparr>dsas_q := q\<rparr>) tempCMP) (\<lambda>(cx, tempCMP). Inr (cx, k, tempCMP)))
      else on_success (DSA_invert mem cx k) (\<lambda>(cx, k). Inr (cx, k, CMP_Constructor)))"

text \<open>\<open>r\<close> is the power of the base reduced modulo \<open>q\<close>, with the \<open>k\<close> that is not reduced; \<open>xr\<close> its product with \<open>x\<close>.\<close>

definition DSA_presign_numbers ::
  "(nat \<Rightarrow> bool) \<Rightarrow> DSASignContext \<Rightarrow> CMPInt \<Rightarrow> CMPInt \<Rightarrow> (DSAError \<times> DSASignContext option) + DSASignContext" where
  "DSA_presign_numbers mem cx k tempCMP =
     on_success (map_sum (dsa_fail cx) id (CMP_ModExp mem (dsas_g cx) k (dsas_p cx) tempCMP)) (\<lambda>(p, tempCMP).
     let cx = cx\<lparr>dsas_p := p\<rparr> in
     on_success (map_sum (dsa_fail cx) id (CMP_ModularReduce mem tempCMP (dsas_q cx) (dsas_r cx))) (\<lambda>(tempCMP, q, r).
     let cx = cx\<lparr>dsas_q := q, dsas_r := r\<rparr> in
     on_success (map_sum (dsa_fail cx) id (CMP_ModMultiply mem (dsas_privateValue cx) (dsas_r cx) (dsas_q cx) (dsas_xr cx)))
       (\<lambda>(q, xr). Inr (cx\<lparr>dsas_q := q, dsas_xr := xr\<rparr>))))"

definition DSA_Presign ::
  "(nat \<Rightarrow> bool) \<Rightarrow> DSASignContext \<Rightarrow> u8 list \<Rightarrow> (DSAError \<times> DSASignContext option) + DSASignContext" where
  "DSA_Presign mem cx randomBlock =
     (if dsas_state cx \<noteq> 1 \<and> dsas_state cx \<noteq> 2 then Inl (DSA_FAILURE, Some cx)
      else if length randomBlock < 20 then Inl (DSA_UNDEFINED, None)
      else on_success (map_sum (dsa_keep cx) id (CMP_OctetStringToCMPInt mem (take 20 randomBlock) CMP_Constructor)) (\<lambda>k.
           on_success (DSA_presign_inverse mem cx k) (\<lambda>(cx, k, tempCMP).
           on_success (DSA_presign_numbers mem cx k tempCMP) (\<lambda>cx. Inr (cx\<lparr>dsas_state := 2\<rparr>)))))"

definition DSA_Sign ::
  "(nat \<Rightarrow> bool) \<Rightarrow> DSASignContext \<Rightarrow> nat \<Rightarrow> u8 list \<Rightarrow> (DSAError \<times> DSASignContext option) + DSASignContext \<times> u8 list" where
  "DSA_Sign mem cx maxSignLength digest =
     (if dsas_state cx \<noteq> 2 then Inl (DSA_FAILURE, Some cx)
      else if maxSignLength < 20 * 2 then Inl (DSA_FAILURE, Some cx)
      else if length digest \<noteq> 20 then Inl (DSA_FAILURE, Some cx)
      else on_success (map_sum (dsa_keep cx) id (CMP_OctetStringToCMPInt mem digest CMP_Constructor)) (\<lambda>digestCMP.
      on_success (map_sum (dsa_keep cx) id (CMP_Add mem (dsas_xr cx) digestCMP CMP_Constructor)) (\<lambda>tempCMP.
      on_success (map_sum (dsa_fail cx) id (CMP_ModMultiply mem (dsas_kInv cx) tempCMP (dsas_q cx) CMP_Constructor)) (\<lambda>(q, sigCMP).
      let cx = cx\<lparr>dsas_q := q\<rparr> in
      on_success (map_sum (dsa_keep cx) id (CMP_CMPWordToCMPInt mem 0 tempCMP)) (\<lambda>tempCMP.
      if CMP_Compare tempCMP sigCMP = 0 then Inl (DSA_NEED_RANDOM, Some cx)
      else on_success (map_sum (dsa_keep cx) id (CMP_CMPIntToFixedLenOctetStr (dsas_r cx) 20 20)) (\<lambda>signature.
           on_success (map_sum (dsa_keep cx) id (CMP_CMPIntToFixedLenOctetStr sigCMP 20 20)) (\<lambda>signature'.
             Inr (cx\<lparr>dsas_state := 1\<rparr>, signature @ signature'))))))))"

subsection \<open>dsav.c\<close>

definition DSA_CreateVerifyContext :: "(nat \<Rightarrow> bool) \<Rightarrow> bool \<Rightarrow> DSAPublicKey \<Rightarrow> DSAError + DSAVerifyContext" where
  "DSA_CreateVerifyContext mem alloc key =
     (if \<not> alloc then Inl DSA_FAILURE
      else on_success (DSA_params mem (dpk_params key)) (\<lambda>(p, q, g).
           on_success (DSA_octets mem (dpk_publicValue key)) (\<lambda>publicValue.
           if CMP_Compare publicValue p \<ge> 0 then Inl DSA_FAILURE
           else Inr \<lparr>dsav_initialized = 1, dsav_p = p, dsav_q = q, dsav_g = g, dsav_publicValue = publicValue\<rparr>)))"

definition DSA_Verify ::
  "(nat \<Rightarrow> bool) \<Rightarrow> DSAVerifyContext \<Rightarrow> u8 list \<Rightarrow> u8 list \<Rightarrow> (DSAError \<times> DSAVerifyContext option) + DSAVerifyContext" where
  "DSA_Verify mem cx signature digest =
     (let octets = (\<lambda>os. map_sum (dsa_keep cx) id (CMP_OctetStringToCMPInt mem os CMP_Constructor)) in
      if dsav_initialized cx \<noteq> 1 then Inl (DSA_FAILURE, Some cx)
      else if length digest \<noteq> 20 then Inl (DSA_FAILURE, Some cx)
      else if length signature \<noteq> 20 * 2 then Inl (DSA_FAILURE, Some cx)
      else on_success (octets digest) (\<lambda>digestCMP.
      on_success (octets (take 20 signature)) (\<lambda>rPortion.
      if CMP_Compare rPortion (dsav_q cx) \<ge> 0 then Inl (DSA_FAILURE, Some cx)
      else on_success (octets (drop 20 signature)) (\<lambda>sigPortion.
      if CMP_Compare sigPortion (dsav_q cx) \<ge> 0 then Inl (DSA_FAILURE, Some cx)
      else on_success (map_sum (dsa_fail cx) id (CMP_ModInvert mem sigPortion (dsav_q cx) CMP_Constructor)) (\<lambda>(sigPortion, q, sigInverse).
      let cx = cx\<lparr>dsav_q := q\<rparr> in
      on_success (map_sum (dsa_fail cx) id (CMP_ModMultiply mem digestCMP sigInverse (dsav_q cx) CMP_Constructor)) (\<lambda>(q, u1).
      let cx = cx\<lparr>dsav_q := q\<rparr> in
      on_success (map_sum (dsa_fail cx) id (CMP_ModMultiply mem rPortion sigInverse (dsav_q cx) CMP_Constructor)) (\<lambda>(q, u2).
      let cx = cx\<lparr>dsav_q := q\<rparr> in
      on_success (map_sum (dsa_fail cx) id (CMP_ModExp mem (dsav_g cx) u1 (dsav_p cx) CMP_Constructor)) (\<lambda>(p, a).
      let cx = cx\<lparr>dsav_p := p\<rparr> in
      on_success (map_sum (dsa_fail cx) id (CMP_ModExp mem (dsav_publicValue cx) u2 (dsav_p cx) CMP_Constructor)) (\<lambda>(p, b).
      let cx = cx\<lparr>dsav_p := p\<rparr> in
      on_success (map_sum (dsa_fail cx) id (CMP_ModMultiply mem a b (dsav_p cx) CMP_Constructor)) (\<lambda>(p, ab).
      let cx = cx\<lparr>dsav_p := p\<rparr> in
      on_success (map_sum (dsa_fail cx) id (CMP_ModularReduce mem ab (dsav_q cx) CMP_Constructor)) (\<lambda>(ab, q, v).
      let cx = cx\<lparr>dsav_q := q\<rparr> in
      if CMP_Compare v rPortion = 0 then Inr cx else Inl (DSA_FAILURE, Some cx))))))))))))"

section \<open>What the operations do to the numbers\<close>

lemma CMP_BitLength_iff:
  assumes "cmp_ok x" and "0 < n"
  shows "CMP_BitLengthOfCMPInt x \<le> n \<longleftrightarrow> cmp_num x < 2 ^ n"
proof
  assume "CMP_BitLengthOfCMPInt x \<le> n"
  then have "(2 :: nat) ^ CMP_BitLengthOfCMPInt x \<le> 2 ^ n" by simp
  then show "cmp_num x < 2 ^ n" by (rule less_le_trans [OF CMP_BitLength_bounds(1) [OF assms(1)]])
next
  assume lt: "cmp_num x < 2 ^ n"
  show "CMP_BitLengthOfCMPInt x \<le> n"
  proof (rule ccontr)
    assume "\<not> ?thesis"
    then have le: "n \<le> CMP_BitLengthOfCMPInt x - 1" "CMP_BitLengthOfCMPInt x \<noteq> 1" using assms(2) by simp_all
    then have p: "(2 :: nat) ^ n \<le> 2 ^ (CMP_BitLengthOfCMPInt x - 1)" by (intro power_increasing) simp_all
    have "cmp_num x \<noteq> 0"
    proof
      assume z: "cmp_num x = 0"
      then have "cmp_num x = cmp_num \<lparr>cmp_space = 1, cmp_words = [0]\<rparr>" by simp
      then have "cmp_words x = [0]" using assms(1) by (intro cmp_normal_inj) (simp_all add: cmp_ok_def cmp_normal_def)
      then have "CMP_BitLengthOfCMPInt x = 1" using assms(1)
        by (simp add: CMP_BitLengthOfCMPInt_def CMP_bits_loop.simps cmp_ok_def)
      with le(2) show False by simp
    qed
    then have "2 ^ n \<le> cmp_num x" by (intro le_trans [OF p CMP_BitLength_bounds(4) [OF assms(1)]])
    with lt show False by (blast dest: leD)
  qed
qed

text \<open>The first coefficient of the extended gcd when the first operand is the smaller one.\<close>

lemma CMP_ExtendedGCD_coefficient:
  assumes mem: "\<And>n. mem n" and x: "cmp_ok x" and m: "cmp_ok m" "1 < cmp_num m" and lt: "cmp_num x < cmp_num m"
  shows "\<exists>x' z b g. CMP_ComputeExtendedGCD mem x m s CMP_Constructor CMP_Constructor = Inr (x', m, z, b, g) \<and>
    cmp_words z \<noteq> [] \<and> cmp_num z < cmp_num m \<and> (cmp_num x = 0 \<longrightarrow> cmp_num z = 1)"
proof -
  have n: "cmp_normal (cmp_words x)" "cmp_normal (cmp_words m)" using x m by (simp_all add: cmp_ok_def)
  have cmp: "\<not> CMP_Compare x m \<ge> 0" using CMP_Compare_iff(3) [OF n] lt by simp
  have main: "\<exists>x' a b g. CMP_ext_main mem m x s CMP_Constructor CMP_Constructor = Inr (x', a, b, g) \<and>
    cmp_words b \<noteq> [] \<and> cmp_num b < cmp_num m \<and> (cmp_num x = 0 \<longrightarrow> cmp_num b = 1)"
  proof (cases "cmp_num x = 0")
    case True
    obtain D where D: "CMP_Move mem m CMP_Constructor = Inr D" using CMP_Move_ok [of mem m CMP_Constructor, OF mem m(1)] by blast
    obtain V where V: "CMP_Move mem x CMP_Constructor = Inr V" using CMP_Move_ok [of mem x CMP_Constructor, OF mem x] by blast
    have P: "CMP_reallocNoCopy mem 1 CMP_Constructor = Inr \<lparr>cmp_space = 1, cmp_words = []\<rparr>"
      using mem by (simp add: CMP_reallocNoCopy_def CMP_Constructor_def)
    obtain A B where "CMP_ensureNoCopy mem 1 1 s = Inr A" "CMP_ensureNoCopy mem 1 1 CMP_Constructor = Inr B"
      using CMP_ensureNoCopy_cases [of 1 1 mem s] CMP_ensureNoCopy_cases [of 1 1 mem CMP_Constructor] mem by auto
    then show ?thesis
      using D V P True m cmp_msw_zero_iff [OF x] cmp_msw_zero_iff [OF m(1)] by (simp add: CMP_ext_main_def)
  next
    case False
    have le: "cmp_num x \<le> cmp_num m" "0 < cmp_num x" using lt False by simp_all
    show ?thesis
      using CMP_ext_main_correct [of mem m x s CMP_Constructor CMP_Constructor, OF mem m(1) x le] False m(2)
      by (auto simp: ext_ok_def)
  qed
  then obtain x' a b g where E: "CMP_ext_main mem m x s CMP_Constructor CMP_Constructor = Inr (x', a, b, g)"
    "cmp_words b \<noteq> []" "cmp_num b < cmp_num m" "cmp_num x = 0 \<longrightarrow> cmp_num b = 1" by (elim exE conjE) rule
  obtain t where t: "CMP_Move mem a CMP_Constructor = Inr t" using CMP_Move_correct [of mem a CMP_Constructor, OF mem] by blast
  obtain a' where a': "CMP_Move mem b a = Inr a'" "cmp_words a' = cmp_words b" using CMP_Move_correct [of mem b a, OF mem] by blast
  obtain b' where b': "CMP_Move mem t b = Inr b'" using CMP_Move_correct [of mem t b, OF mem] by blast
  have "CMP_ComputeExtendedGCD mem x m s CMP_Constructor CMP_Constructor = Inr (x', m, a', b', g)"
    using cmp E(1) t a' b' by (simp add: CMP_ComputeExtendedGCD_def)
  with E(2-4) a'(2) show ?thesis by auto
qed

subsection \<open>Keys and contexts\<close>

lemma DSA_octets_success:
  assumes mem: "\<And>n. mem n"
  shows "os \<noteq> [] \<Longrightarrow> \<exists>x. DSA_octets mem os = Inr x \<and> cmp_ok x \<and> cmp_num x = octets_val os"
    and "DSA_octets mem os = Inr x \<Longrightarrow> os \<noteq> [] \<and> cmp_ok x \<and> cmp_num x = octets_val os"
proof -
  show 1: "\<exists>x. DSA_octets mem os = Inr x \<and> cmp_ok x \<and> cmp_num x = octets_val os" if "os \<noteq> []"
    using CMP_OctetStringToCMPInt_correct [of mem os CMP_Constructor, OF mem that] by (auto simp: DSA_octets_def)
  show "os \<noteq> [] \<and> cmp_ok x \<and> cmp_num x = octets_val os" if h: "DSA_octets mem os = Inr x"
  proof -
    have "os \<noteq> []"
    proof
      assume e: "os = []"
      obtain d where "CMP_ensureNoCopy mem 0 1 CMP_Constructor = Inr d"
        using CMP_ensureNoCopy_cases [of 0 1 mem CMP_Constructor] mem by auto
      then show False using h e by (simp add: DSA_octets_def CMP_OctetStringToCMPInt_def)
    qed
    with 1 h show ?thesis by auto
  qed
qed

lemma DSA_params_success:
  assumes mem: "\<And>n. mem n"
  shows "DSA_params mem ps = Inr (p, q, g) \<Longrightarrow>
    cmp_ok p \<and> cmp_ok q \<and> cmp_ok g \<and> cmp_num p = octets_val (pqg_prime ps) \<and> cmp_num q = octets_val (pqg_subPrime ps) \<and>
    cmp_num g = octets_val (pqg_base ps) \<and> 2 ^ 255 \<le> cmp_num p \<and> cmp_num p < 2 ^ 2048 \<and>
    2 ^ 159 \<le> cmp_num q \<and> cmp_num q < 2 ^ 160 \<and> cmp_num g < cmp_num p"
proof -
  assume "DSA_params mem ps = Inr (p, q, g)"
  then have o: "DSA_octets mem (pqg_prime ps) = Inr p" "DSA_octets mem (pqg_subPrime ps) = Inr q" "DSA_octets mem (pqg_base ps) = Inr g"
    and b: "\<not> CMP_BitLengthOfCMPInt p \<le> 255" "CMP_BitLengthOfCMPInt p \<le> 2048" "CMP_BitLengthOfCMPInt q = 160"
    and c: "\<not> CMP_Compare g p \<ge> 0"
    by (auto simp: DSA_params_def Let_def on_success_Inr split: if_splits)
  note num = DSA_octets_success(2) [OF mem o(1)] DSA_octets_success(2) [OF mem o(2)] DSA_octets_success(2) [OF mem o(3)]
  have "\<not> CMP_BitLengthOfCMPInt q \<le> 159" "CMP_BitLengthOfCMPInt q \<le> 160" using b by simp_all
  with b num have "\<not> cmp_num p < 2 ^ 255" "cmp_num p < 2 ^ 2048" "\<not> cmp_num q < 2 ^ 159" "cmp_num q < 2 ^ 160"
    using CMP_BitLength_iff [of p 255] CMP_BitLength_iff [of p 2048] CMP_BitLength_iff [of q 159] CMP_BitLength_iff [of q 160]
    by (simp_all only: simp_thms)
  moreover have "cmp_num g < cmp_num p" using c num CMP_Compare_iff(3) [of g p] by (simp add: cmp_ok_def)
  ultimately show ?thesis using num by (simp add: not_less)
qed

text \<open>A context holds the numbers of the key; after pre-signing also those that belong to \<open>k\<close>.\<close>

definition dsas_holds :: "nat \<Rightarrow> nat \<Rightarrow> nat \<Rightarrow> nat \<Rightarrow> DSASignContext \<Rightarrow> bool" where
  "dsas_holds p q g x cx \<longleftrightarrow>
     cmp_ok (dsas_p cx) \<and> cmp_ok (dsas_q cx) \<and> cmp_ok (dsas_g cx) \<and> cmp_ok (dsas_privateValue cx) \<and>
     cmp_num (dsas_p cx) = p \<and> cmp_num (dsas_q cx) = q \<and> cmp_num (dsas_g cx) = g \<and> cmp_num (dsas_privateValue cx) = x \<and>
     g < p \<and> x < q \<and> 2 ^ 255 \<le> p \<and> 2 ^ 159 \<le> q \<and> q < 2 ^ 160"

definition dsas_ready :: "nat \<Rightarrow> DSASignContext \<Rightarrow> bool" where
  "dsas_ready q cx \<longleftrightarrow> cmp_ok (dsas_r cx) \<and> cmp_num (dsas_r cx) < q \<and> cmp_ok (dsas_xr cx) \<and> cmp_num (dsas_xr cx) < q \<and>
     cmp_words (dsas_kInv cx) \<noteq> [] \<and> cmp_num (dsas_kInv cx) < q"

definition dsas_nonce :: "nat \<Rightarrow> nat \<Rightarrow> nat \<Rightarrow> nat \<Rightarrow> nat \<Rightarrow> DSASignContext \<Rightarrow> bool" where
  "dsas_nonce p q g x k cx \<longleftrightarrow> cmp_num (dsas_kInv cx) * k mod q = 1 \<and> cmp_num (dsas_r cx) = (g ^ k mod p) mod q \<and>
     cmp_num (dsas_xr cx) = x * ((g ^ k mod p) mod q) mod q"

lemma DSA_CreateSignContext_holds:
  assumes mem: "\<And>n. mem n" and cr: "DSA_CreateSignContext mem alloc key = Inr cx"
  shows "dsas_state cx = 1" and "dsas_holds (octets_val (pqg_prime (dsk_params key))) (octets_val (pqg_subPrime (dsk_params key)))
    (octets_val (pqg_base (dsk_params key))) (octets_val (dsk_privateValue key)) cx"
proof -
  obtain p q g x where c: "DSA_params mem (dsk_params key) = Inr (p, q, g)" "DSA_octets mem (dsk_privateValue key) = Inr x"
    "\<not> CMP_Compare x q \<ge> 0" "cx = \<lparr>dsas_state = 1, dsas_p = p, dsas_q = q, dsas_g = g, dsas_privateValue = x,
       dsas_r = CMP_Constructor, dsas_xr = CMP_Constructor, dsas_kInv = CMP_Constructor\<rparr>"
    using cr by (auto simp: DSA_CreateSignContext_def on_success_Inr split: if_splits)
  note ps = DSA_params_success [OF mem c(1)] and x = DSA_octets_success(2) [OF mem c(2)]
  have "cmp_num x < cmp_num q" using c(3) ps x CMP_Compare_iff(3) [of x q] by (simp add: cmp_ok_def)
  with ps x show "dsas_state cx = 1" "dsas_holds (octets_val (pqg_prime (dsk_params key))) (octets_val (pqg_subPrime (dsk_params key)))
    (octets_val (pqg_base (dsk_params key))) (octets_val (dsk_privateValue key)) cx"
    by (simp_all add: c(4) dsas_holds_def)
qed

text \<open>The inverse of a number below \<open>q\<close>, or the coefficient that is left behind.\<close>

lemma DSA_invert_cases:
  assumes mem: "\<And>n. mem n" and h: "dsas_holds p q g x cx" and k: "cmp_ok k" "cmp_num k < q"
  shows "if coprime (cmp_num k) q
    then \<exists>q' kInv k'. DSA_invert mem cx k = Inr (cx\<lparr>dsas_q := q', dsas_kInv := kInv\<rparr>, k') \<and> cmp_words k' = cmp_words k \<and> cmp_ok k' \<and>
      dsas_holds p q g x (cx\<lparr>dsas_q := q', dsas_kInv := kInv\<rparr>) \<and> cmp_words kInv \<noteq> [] \<and> cmp_num kInv < q \<and> cmp_num kInv * cmp_num k mod q = 1
    else \<exists>kInv. DSA_invert mem cx k = Inl (DSA_NEED_RANDOM, Some (cx\<lparr>dsas_kInv := kInv\<rparr>)) \<and>
      cmp_words kInv \<noteq> [] \<and> cmp_num kInv < q \<and> (cmp_num k = 0 \<longrightarrow> cmp_num kInv = 1)"
proof -
  have q: "cmp_ok (dsas_q cx)" "cmp_num (dsas_q cx) = q" "2 ^ 159 \<le> q" using h by (simp_all add: dsas_holds_def)
  have q1: "1 < cmp_num (dsas_q cx)" using q(2,3) by simp
  have lt: "cmp_num k < cmp_num (dsas_q cx)" using k(2) q(2) by simp
  note I = CMP_ModInvert_correct [of mem k "dsas_q cx" "dsas_kInv cx", OF mem k(1) q(1) q1 lt]
  show ?thesis
  proof (cases "coprime (cmp_num k) q")
    case True
    then obtain k' q' z where z: "CMP_ModInvert mem k (dsas_q cx) (dsas_kInv cx) = Inr (k', q', z)" "cmp_words k' = cmp_words k"
      "cmp_words q' = cmp_words (dsas_q cx)" "cmp_ok k'" "cmp_ok q'" "cmp_words z \<noteq> []" "cmp_num z < q" "cmp_num z * cmp_num k mod q = 1"
      using I q(2) by auto
    then have "DSA_invert mem cx k = Inr (cx\<lparr>dsas_q := q', dsas_kInv := z\<rparr>, k')" by (simp add: DSA_invert_def)
    moreover have "dsas_holds p q g x (cx\<lparr>dsas_q := q', dsas_kInv := z\<rparr>)" using h z by (simp add: dsas_holds_def)
    ultimately show ?thesis unfolding if_P [OF True] using z by blast
  next
    case False
    then have "CMP_ModInvert mem k (dsas_q cx) (dsas_kInv cx) = Inl CMP_INVERSE" using I q(2) by simp
    moreover obtain k' z b g where "CMP_ComputeExtendedGCD mem k (dsas_q cx) (dsas_kInv cx) CMP_Constructor CMP_Constructor = Inr (k', dsas_q cx, z, b, g)"
      "cmp_words z \<noteq> []" "cmp_num z < cmp_num (dsas_q cx)" "cmp_num k = 0 \<longrightarrow> cmp_num z = 1"
      using CMP_ExtendedGCD_coefficient [of mem k "dsas_q cx" "dsas_kInv cx", OF mem k(1) q(1) q1 lt] by (elim exE conjE) rule
    ultimately show ?thesis using False q(2) by (auto simp: DSA_invert_def)
  qed
qed

lemma DSA_presign_inverse_cases:
  assumes mem: "\<And>n. mem n" and h: "dsas_holds p q g x cx" and k: "cmp_ok k" "cmp_num k = K"
  shows "if K = q then DSA_presign_inverse mem cx k = Inl (DSA_FAILURE, Some cx)
    else if coprime K q
    then \<exists>q' kInv k' t. DSA_presign_inverse mem cx k = Inr (cx\<lparr>dsas_q := q', dsas_kInv := kInv\<rparr>, k', t) \<and> cmp_num k' = K \<and> cmp_ok k' \<and>
      dsas_holds p q g x (cx\<lparr>dsas_q := q', dsas_kInv := kInv\<rparr>) \<and> cmp_words kInv \<noteq> [] \<and> cmp_num kInv < q \<and> cmp_num kInv * K mod q = 1
    else \<exists>q' kInv. DSA_presign_inverse mem cx k = Inl (DSA_NEED_RANDOM, Some (cx\<lparr>dsas_q := q', dsas_kInv := kInv\<rparr>)) \<and>
      dsas_holds p q g x (cx\<lparr>dsas_q := q', dsas_kInv := kInv\<rparr>) \<and>
      cmp_words kInv \<noteq> [] \<and> cmp_num kInv < q \<and> (K = 0 \<longrightarrow> cmp_num kInv = 1)"
proof -
  have q: "cmp_ok (dsas_q cx)" "cmp_num (dsas_q cx) = q" "2 ^ 159 \<le> q" using h by (simp_all add: dsas_holds_def)
  have q1: "1 < q" using q(3) by simp
  have cmp: "CMP_Compare k (dsas_q cx) > 0 \<longleftrightarrow> K > q" "CMP_Compare k (dsas_q cx) \<ge> 0 \<longleftrightarrow> K \<ge> q"
    using CMP_Compare_iff(2,3) [of k "dsas_q cx"] k q by (simp_all add: cmp_ok_def)
  consider "K < q" | "K = q" | "q < K" by linarith
  then show ?thesis
  proof cases
    case 1
    have lt: "cmp_num k < q" using 1 k(2) by simp
    have keep: "dsas_holds p q g x (cx\<lparr>dsas_q := dsas_q cx, dsas_kInv := z\<rparr>)" for z using h by (simp add: dsas_holds_def)
    show ?thesis
    proof (cases "coprime K q")
      case True
      with DSA_invert_cases [where mem = mem, OF mem h k(1) lt] obtain q' kInv k' where
        i: "DSA_invert mem cx k = Inr (cx\<lparr>dsas_q := q', dsas_kInv := kInv\<rparr>, k')" and
        j: "cmp_num k' = K" "cmp_ok k'" "dsas_holds p q g x (cx\<lparr>dsas_q := q', dsas_kInv := kInv\<rparr>)"
        "cmp_words kInv \<noteq> []" "cmp_num kInv < q" "cmp_num kInv * K mod q = 1" using k(2) by auto
      have "DSA_presign_inverse mem cx k = Inr (cx\<lparr>dsas_q := q', dsas_kInv := kInv\<rparr>, k', CMP_Constructor)"
        using 1 cmp(1) i by (simp add: DSA_presign_inverse_def)
      moreover have nq: "K \<noteq> q" using 1 by simp
      ultimately show ?thesis unfolding if_not_P [OF nq] if_P [OF True] using j by blast
    next
      case False
      with DSA_invert_cases [where mem = mem, OF mem h k(1) lt] obtain kInv where
        i: "DSA_invert mem cx k = Inl (DSA_NEED_RANDOM, Some (cx\<lparr>dsas_kInv := kInv\<rparr>))" and
        j: "cmp_words kInv \<noteq> []" "cmp_num kInv < q" "K = 0 \<longrightarrow> cmp_num kInv = 1" using k(2) by auto
      have "cx\<lparr>dsas_kInv := kInv\<rparr> = cx\<lparr>dsas_q := dsas_q cx, dsas_kInv := kInv\<rparr>" by simp
      then have "DSA_presign_inverse mem cx k = Inl (DSA_NEED_RANDOM, Some (cx\<lparr>dsas_q := dsas_q cx, dsas_kInv := kInv\<rparr>))"
        using 1 cmp(1) i by (simp add: DSA_presign_inverse_def)
      moreover have nq: "K \<noteq> q" using 1 by simp
      ultimately show ?thesis unfolding if_not_P [OF nq] if_not_P [OF False] using j keep [of kInv] by blast
    qed
  next
    case 2
    have "\<not> cmp_msw_zero (dsas_q cx)" using cmp_msw_zero_iff [OF q(1)] q(2) q1 by simp
    with 2 cmp show ?thesis by (simp add: DSA_presign_inverse_def DSA_invert_def CMP_ModInvert_def dsa_fail_def)
  next
    case 3
    have pos: "0 < cmp_num (dsas_q cx)" using q(2) q1 by simp
    obtain k' q' t where r: "CMP_ModularReduce mem k (dsas_q cx) CMP_Constructor = Inr (k', q', t)" "cmp_ok k'" "cmp_ok q'"
      "cmp_words k' = cmp_words k" "cmp_words q' = cmp_words (dsas_q cx)" "cmp_ok t" "cmp_num t = K mod q"
      using CMP_ModularReduce_correct [of mem k "dsas_q cx" CMP_Constructor, OF mem k(1) q(1) pos] k(2) q(2) by auto
    have h': "dsas_holds p q g x (cx\<lparr>dsas_q := q'\<rparr>)" using h r(3,5) by (simp add: dsas_holds_def)
    have lt: "cmp_num t < q" using r(7) q1 by simp
    have cop: "coprime (K mod q) q \<longleftrightarrow> coprime K q" using q1 by simp
    have K: "cmp_num k' = K" using r(4) k(2) by simp
    note I = DSA_invert_cases [where mem = mem, OF mem h' r(6) lt, unfolded r(7) cop mod_mult_right_eq]
    show ?thesis
    proof (cases "coprime K q")
      case True
      with I obtain q2 kInv k2 where
        i: "DSA_invert mem (cx\<lparr>dsas_q := q'\<rparr>) t = Inr (cx\<lparr>dsas_q := q2, dsas_kInv := kInv\<rparr>, k2)" and
        j: "dsas_holds p q g x (cx\<lparr>dsas_q := q2, dsas_kInv := kInv\<rparr>)"
        "cmp_words kInv \<noteq> []" "cmp_num kInv < q" "cmp_num kInv * K mod q = 1" by auto
      have "DSA_presign_inverse mem cx k = Inr (cx\<lparr>dsas_q := q2, dsas_kInv := kInv\<rparr>, k', k2)"
        using 3 cmp(1) r(1) i by (simp add: DSA_presign_inverse_def)
      moreover have nq: "K \<noteq> q" using 3 by simp
      ultimately show ?thesis unfolding if_not_P [OF nq] if_P [OF True] using j K r(2) by blast
    next
      case False
      with I obtain kInv where i: "DSA_invert mem (cx\<lparr>dsas_q := q'\<rparr>) t = Inl (DSA_NEED_RANDOM, Some (cx\<lparr>dsas_q := q', dsas_kInv := kInv\<rparr>))"
        "cmp_words kInv \<noteq> []" "cmp_num kInv < q" by auto
      moreover have "dsas_holds p q g x (cx\<lparr>dsas_q := q', dsas_kInv := kInv\<rparr>)" using h' by (simp add: dsas_holds_def)
      ultimately show ?thesis using 3 False cmp(1) r(1) by (auto simp: DSA_presign_inverse_def)
    qed
  qed
qed

lemma DSA_presign_numbers_cases:
  assumes mem: "\<And>n. mem n" and h: "dsas_holds p q g x cx" and k: "cmp_ok k" "cmp_num k = K"
  shows "if even p then DSA_presign_numbers mem cx k t = Inl (DSA_FAILURE, Some cx)
    else \<exists>p' q' r xr. DSA_presign_numbers mem cx k t = Inr (cx\<lparr>dsas_p := p', dsas_q := q', dsas_r := r, dsas_xr := xr\<rparr>) \<and>
      dsas_holds p q g x (cx\<lparr>dsas_p := p', dsas_q := q', dsas_r := r, dsas_xr := xr\<rparr>) \<and> cmp_ok r \<and> cmp_ok xr \<and>
      cmp_num r = (g ^ K mod p) mod q \<and> cmp_num xr = x * ((g ^ K mod p) mod q) mod q"
proof -
  have n: "cmp_ok (dsas_p cx)" "cmp_num (dsas_p cx) = p" "cmp_ok (dsas_g cx)" "cmp_num (dsas_g cx) = g"
    "cmp_ok (dsas_q cx)" "cmp_num (dsas_q cx) = q" "cmp_words (dsas_privateValue cx) \<noteq> []" "cmp_num (dsas_privateValue cx) = x"
    "g < p" "2 ^ 255 \<le> p" "2 ^ 159 \<le> q"
    using h by (simp_all add: dsas_holds_def cmp_ok_def cmp_normal_def)
  show ?thesis
  proof (cases "even p")
    case True
    then have e: "even (cmp_num (dsas_p cx))" using n(2) by simp
    have "CMP_ModExp mem (dsas_g cx) k (dsas_p cx) t = Inl CMP_MODULUS" by (rule CMP_ModExp_even [OF n(1) e])
    with True show ?thesis by (simp add: DSA_presign_numbers_def dsa_fail_def)
  next
    case False
    have a: "odd (cmp_num (dsas_p cx))" "1 < cmp_num (dsas_p cx)" "cmp_num (dsas_g cx) < cmp_num (dsas_p cx)"
      using False n by simp_all
    obtain p' z where e: "CMP_ModExp mem (dsas_g cx) k (dsas_p cx) t = Inr (p', z)" "cmp_words p' = cmp_words (dsas_p cx)"
      "cmp_ok p'" "cmp_ok z" "cmp_num z = g ^ K mod p"
      using CMP_ModExp_correct [of mem "dsas_p cx" "dsas_g cx" k t, OF mem n(1) a(1,2) n(3) a(3) k(1)] n(2,4) k(2) by auto
    have q0: "0 < cmp_num (dsas_q cx)" using n(6,11) by simp
    obtain z' q' r where r: "CMP_ModularReduce mem z (dsas_q cx) (dsas_r cx) = Inr (z', q', r)" "cmp_ok q'"
      "cmp_words q' = cmp_words (dsas_q cx)" "cmp_ok r" "cmp_num r = (g ^ K mod p) mod q"
      using CMP_ModularReduce_correct [of mem z "dsas_q cx" "dsas_r cx", OF mem e(4) n(5) q0] e(5) n(6) by auto
    have r': "cmp_words r \<noteq> []" "0 < cmp_num q'" using r(3,4) q0 by (simp_all add: cmp_ok_def cmp_normal_def)
    obtain q'' xr where xr: "CMP_ModMultiply mem (dsas_privateValue cx) r q' (dsas_xr cx) = Inr (q'', xr)"
      "cmp_words q'' = cmp_words q'" "cmp_ok q''" "cmp_ok xr" "cmp_num xr = x * ((g ^ K mod p) mod q) mod q"
      using CMP_ModMultiply_correct [of mem "dsas_privateValue cx" r q' "dsas_xr cx", OF mem n(7) r'(1) r(2) r'(2)] r(3,5) n(6,8) by auto
    have "DSA_presign_numbers mem cx k t = Inr (cx\<lparr>dsas_p := p', dsas_q := q'', dsas_r := r, dsas_xr := xr\<rparr>)"
      using e(1) r(1) xr(1) by (simp add: DSA_presign_numbers_def)
    moreover have "dsas_holds p q g x (cx\<lparr>dsas_p := p', dsas_q := q'', dsas_r := r, dsas_xr := xr\<rparr>)"
      using h e(2,3) xr(2,3) r(3) by (simp add: dsas_holds_def)
    ultimately show ?thesis unfolding if_not_P [OF False] using r(4,5) xr(4,5) by blast
  qed
qed

text \<open>
  Pre-signing. Three blocks are refused or lead to an error: \<open>q\<close> itself, which is not reduced, those that
  have no inverse, and all of them when \<open>p\<close> is even.
\<close>

lemma DSA_Presign_cases:
  assumes mem: "\<And>n. mem n" and h: "dsas_holds p q g x cx" and st: "dsas_state cx = 1 \<or> dsas_state cx = 2"
    and b: "20 \<le> length blk" and K: "K = octets_val (take 20 blk)"
  shows "if K = q then DSA_Presign mem cx blk = Inl (DSA_FAILURE, Some cx)
    else if \<not> coprime K q
    then \<exists>cx'. DSA_Presign mem cx blk = Inl (DSA_NEED_RANDOM, Some cx') \<and> dsas_holds p q g x cx' \<and>
      dsas_state cx' = dsas_state cx \<and> dsas_r cx' = dsas_r cx \<and> dsas_xr cx' = dsas_xr cx \<and>
      cmp_words (dsas_kInv cx') \<noteq> [] \<and> cmp_num (dsas_kInv cx') < q \<and> (K = 0 \<longrightarrow> cmp_num (dsas_kInv cx') = 1)
    else if even p
    then \<exists>cx'. DSA_Presign mem cx blk = Inl (DSA_FAILURE, Some cx') \<and> dsas_holds p q g x cx' \<and>
      dsas_state cx' = dsas_state cx \<and> dsas_r cx' = dsas_r cx \<and> dsas_xr cx' = dsas_xr cx \<and>
      cmp_words (dsas_kInv cx') \<noteq> [] \<and> cmp_num (dsas_kInv cx') < q
    else \<exists>cx'. DSA_Presign mem cx blk = Inr cx' \<and> dsas_holds p q g x cx' \<and> dsas_state cx' = 2 \<and>
      dsas_ready q cx' \<and> dsas_nonce p q g x K cx'"
proof -
  have ne: "take 20 blk \<noteq> []" using b by auto
  obtain k where k: "CMP_OctetStringToCMPInt mem (take 20 blk) CMP_Constructor = Inr k" "cmp_ok k" "cmp_num k = K"
    using CMP_OctetStringToCMPInt_correct [of mem "take 20 blk" CMP_Constructor, OF mem ne] K by auto
  have start: "DSA_Presign mem cx blk = on_success (DSA_presign_inverse mem cx k) (\<lambda>(cx, k, tempCMP).
           on_success (DSA_presign_numbers mem cx k tempCMP) (\<lambda>cx. Inr (cx\<lparr>dsas_state := 2\<rparr>)))"
    using st b k(1) by (auto simp: DSA_Presign_def)
  note I = DSA_presign_inverse_cases [where mem = mem, OF mem h k(2,3)]
  show ?thesis
  proof (cases "K = q \<or> \<not> coprime K q")
    case True
    with I show ?thesis by (auto simp: start)
  next
    case False
    with I obtain q' kInv k' t where i: "DSA_presign_inverse mem cx k = Inr (cx\<lparr>dsas_q := q', dsas_kInv := kInv\<rparr>, k', t)"
      "cmp_ok k'" "cmp_num k' = K" "dsas_holds p q g x (cx\<lparr>dsas_q := q', dsas_kInv := kInv\<rparr>)" "cmp_words kInv \<noteq> []" "cmp_num kInv < q"
      "cmp_num kInv * K mod q = 1" by auto
    note N = DSA_presign_numbers_cases [where mem = mem, OF mem i(4,2,3), of t]
    show ?thesis
    proof (cases "even p")
      case True
      with N False i show ?thesis by (simp add: start)
    next
      case odd: False
      with N obtain p' q'' r xr where n: "DSA_presign_numbers mem (cx\<lparr>dsas_q := q', dsas_kInv := kInv\<rparr>) k' t =
          Inr (cx\<lparr>dsas_q := q', dsas_kInv := kInv, dsas_p := p', dsas_q := q'', dsas_r := r, dsas_xr := xr\<rparr>)"
        "dsas_holds p q g x (cx\<lparr>dsas_q := q', dsas_kInv := kInv, dsas_p := p', dsas_q := q'', dsas_r := r, dsas_xr := xr\<rparr>)"
        "cmp_ok r" "cmp_ok xr" "cmp_num r = (g ^ K mod p) mod q" "cmp_num xr = x * ((g ^ K mod p) mod q) mod q" by auto
      have q0: "0 < q" using i(6) by simp
      let ?cx = "cx\<lparr>dsas_q := q', dsas_kInv := kInv, dsas_p := p', dsas_q := q'', dsas_r := r, dsas_xr := xr, dsas_state := 2\<rparr>"
      have "DSA_Presign mem cx blk = Inr ?cx" using i(1) n(1) by (simp add: start)
      moreover have "dsas_holds p q g x ?cx" using n(2) by (simp add: dsas_holds_def)
      moreover have "dsas_ready q ?cx" using n(3-6) i(5,6) q0 by (simp add: dsas_ready_def)
      moreover have "dsas_nonce p q g x K ?cx" using n(5,6) i(7) by (simp add: dsas_nonce_def)
      moreover have "dsas_state ?cx = 2" by simp
      ultimately show ?thesis unfolding if_not_P [OF odd] using False by auto
    qed
  qed
qed

text \<open>Signing.\<close>

lemma DSA_Sign_cases:
  assumes mem: "\<And>n. mem n" and h: "dsas_holds p q g x cx" and st: "dsas_state cx = 2" and r: "dsas_ready q cx"
    and len: "40 \<le> room" "length digest = 20"
    and S: "S = cmp_num (dsas_kInv cx) * (cmp_num (dsas_xr cx) + octets_val digest) mod q"
  shows "\<exists>q'. dsas_holds p q g x (cx\<lparr>dsas_q := q'\<rparr>) \<and>
    DSA_Sign mem cx room digest =
      (if S = 0 then Inl (DSA_NEED_RANDOM, Some (cx\<lparr>dsas_q := q'\<rparr>))
       else Inr (cx\<lparr>dsas_q := q', dsas_state := 1\<rparr>, octets_of 20 (cmp_num (dsas_r cx)) @ octets_of 20 S))"
proof -
  have ne: "digest \<noteq> []" using len(2) by auto
  have q: "cmp_ok (dsas_q cx)" "cmp_num (dsas_q cx) = q" "2 ^ 159 \<le> q" "q < 2 ^ 160" using h by (simp_all add: dsas_holds_def)
  have pos: "0 < cmp_num (dsas_q cx)" using q(2,3) by simp
  have rd: "cmp_ok (dsas_r cx)" "cmp_num (dsas_r cx) < q" "cmp_ok (dsas_xr cx)" "cmp_words (dsas_kInv cx) \<noteq> []"
    using r by (simp_all add: dsas_ready_def)
  obtain d where d: "CMP_OctetStringToCMPInt mem digest CMP_Constructor = Inr d" "cmp_ok d" "cmp_num d = octets_val digest"
    using CMP_OctetStringToCMPInt_correct [of mem digest CMP_Constructor, OF mem ne] by auto
  have nrm: "cmp_normal (cmp_words (dsas_xr cx))" "cmp_normal (cmp_words d)" using rd(3) d(2) by (simp_all add: cmp_ok_def)
  obtain t where t: "CMP_Add mem (dsas_xr cx) d CMP_Constructor = Inr t" "cmp_ok t" "cmp_num t = cmp_num (dsas_xr cx) + octets_val digest"
    using CMP_Add_correct [of mem "dsas_xr cx" d CMP_Constructor, OF mem nrm] d(3) by auto
  have tw: "cmp_words t \<noteq> []" using t(2) by (simp add: cmp_ok_def cmp_normal_def)
  obtain q' z where z: "CMP_ModMultiply mem (dsas_kInv cx) t (dsas_q cx) CMP_Constructor = Inr (q', z)" "cmp_words q' = cmp_words (dsas_q cx)"
    "cmp_ok q'" "cmp_ok z" "cmp_num z = S"
    using CMP_ModMultiply_correct [of mem "dsas_kInv cx" t "dsas_q cx" CMP_Constructor, OF mem rd(4) tw q(1) pos] t(3) q(2) S by auto
  obtain o' where "CMP_ensureNoCopy mem 1 2 t = Inr o'" "1 \<le> cmp_space o'" using CMP_ensureNoCopy_cases [of 1 2 mem t] mem by auto
  then obtain o2 where o2: "CMP_CMPWordToCMPInt mem 0 t = Inr o2" "cmp_ok o2" "cmp_num o2 = 0"
    by (auto simp: CMP_CMPWordToCMPInt_def cmp_ok_def cmp_normal_def)
  have zero: "CMP_Compare o2 z = 0 \<longleftrightarrow> S = 0" using CMP_Compare_iff(5) [of o2 z] o2(2,3) z(4,5) by (auto simp: cmp_ok_def)
  have Sq: "S < q" using S q(3) by simp
  have p: "(256 :: nat) ^ 20 = 2 ^ 160" by simp
  have lt: "cmp_num (dsas_r cx) < 256 ^ 20" "cmp_num z < 256 ^ 20" unfolding p using rd(2) Sq q(4) z(5) by simp_all
  have out: "CMP_CMPIntToFixedLenOctetStr (dsas_r cx) 20 20 = Inr (octets_of 20 (cmp_num (dsas_r cx)))"
    "CMP_CMPIntToFixedLenOctetStr z 20 20 = Inr (octets_of 20 S)"
    using CMP_fixed_octets [OF rd(1) lt(1)] CMP_fixed_octets [OF z(4) lt(2)] z(5) by simp_all
  have "DSA_Sign mem cx room digest =
      (if S = 0 then Inl (DSA_NEED_RANDOM, Some (cx\<lparr>dsas_q := q'\<rparr>))
       else Inr (cx\<lparr>dsas_q := q', dsas_state := 1\<rparr>, octets_of 20 (cmp_num (dsas_r cx)) @ octets_of 20 S))"
    using st len d(1) t(1) z(1) o2(1) zero out by (simp add: DSA_Sign_def)
  moreover have "dsas_holds p q g x (cx\<lparr>dsas_q := q'\<rparr>)" using h z(2,3) by (simp add: dsas_holds_def)
  ultimately show ?thesis by blast
qed

text \<open>Verification.\<close>

definition dsav_holds :: "nat \<Rightarrow> nat \<Rightarrow> nat \<Rightarrow> nat \<Rightarrow> DSAVerifyContext \<Rightarrow> bool" where
  "dsav_holds p q g y cx \<longleftrightarrow> dsav_initialized cx = 1 \<and>
     cmp_ok (dsav_p cx) \<and> cmp_ok (dsav_q cx) \<and> cmp_ok (dsav_g cx) \<and> cmp_ok (dsav_publicValue cx) \<and>
     cmp_num (dsav_p cx) = p \<and> cmp_num (dsav_q cx) = q \<and> cmp_num (dsav_g cx) = g \<and> cmp_num (dsav_publicValue cx) = y \<and>
     g < p \<and> y < p \<and> 2 ^ 255 \<le> p \<and> 2 ^ 159 \<le> q \<and> q < 2 ^ 160"

lemma DSA_CreateVerifyContext_holds:
  assumes mem: "\<And>n. mem n" and cr: "DSA_CreateVerifyContext mem alloc key = Inr cx"
  shows "dsav_holds (octets_val (pqg_prime (dpk_params key))) (octets_val (pqg_subPrime (dpk_params key)))
    (octets_val (pqg_base (dpk_params key))) (octets_val (dpk_publicValue key)) cx"
proof -
  obtain p q g y where c: "DSA_params mem (dpk_params key) = Inr (p, q, g)" "DSA_octets mem (dpk_publicValue key) = Inr y"
    "\<not> CMP_Compare y p \<ge> 0" "cx = \<lparr>dsav_initialized = 1, dsav_p = p, dsav_q = q, dsav_g = g, dsav_publicValue = y\<rparr>"
    using cr by (auto simp: DSA_CreateVerifyContext_def on_success_Inr split: if_splits)
  note ps = DSA_params_success [OF mem c(1)] and y = DSA_octets_success(2) [OF mem c(2)]
  have "cmp_num y < cmp_num p" using c(3) ps y CMP_Compare_iff(3) [of y p] by (simp add: cmp_ok_def)
  with ps y show ?thesis by (simp add: c(4) dsav_holds_def)
qed

lemma DSA_Verify_cases:
  assumes mem: "\<And>n. mem n" and h: "dsav_holds p q g y cx" and odd: "odd p" and len: "length digest = 20"
    and rs: "r < q" "s < q" "coprime s q"
  shows "\<exists>w cx'. w * s mod q = 1 \<and> dsav_holds p q g y cx' \<and>
    DSA_Verify mem cx (octets_of 20 r @ octets_of 20 s) digest =
      (if (g ^ (octets_val digest * w mod q) mod p) * (y ^ (r * w mod q) mod p) mod p mod q = r
       then Inr cx' else Inl (DSA_FAILURE, Some cx'))"
proof -
  have n: "cmp_ok (dsav_p cx)" "cmp_num (dsav_p cx) = p" "cmp_ok (dsav_g cx)" "cmp_num (dsav_g cx) = g"
    "cmp_ok (dsav_q cx)" "cmp_num (dsav_q cx) = q" "cmp_ok (dsav_publicValue cx)" "cmp_num (dsav_publicValue cx) = y"
    "g < p" "y < p" "1 < p" "1 < q" "q < 2 ^ 160" "dsav_initialized cx = 1"
    using h by (simp_all add: dsav_holds_def)
  have octets: "\<exists>c. CMP_OctetStringToCMPInt mem os CMP_Constructor = Inr c \<and> cmp_ok c \<and> cmp_num c = octets_val os" if "length os = 20" for os
  proof -
    have "os \<noteq> []" using that by auto
    then show ?thesis using CMP_OctetStringToCMPInt_correct [of mem os CMP_Constructor, OF mem] by blast
  qed
  have "(256 :: nat) ^ 20 = 2 ^ 160" by simp
  then have "r < 256 ^ 20" "s < 256 ^ 20" using rs(1,2) n(13) by linarith+
  then obtain d cr cs where d: "CMP_OctetStringToCMPInt mem digest CMP_Constructor = Inr d" "cmp_ok d" "cmp_num d = octets_val digest"
    and cr: "CMP_OctetStringToCMPInt mem (octets_of 20 r) CMP_Constructor = Inr cr" "cmp_ok cr" "cmp_num cr = r"
    and cs: "CMP_OctetStringToCMPInt mem (octets_of 20 s) CMP_Constructor = Inr cs" "cmp_ok cs" "cmp_num cs = s"
    using octets [OF len] octets [of "octets_of 20 r"] octets [of "octets_of 20 s"] by (auto simp: octets_val_of)
  have cmp: "\<not> CMP_Compare cr (dsav_q cx) \<ge> 0" "\<not> CMP_Compare cs (dsav_q cx) \<ge> 0"
    using CMP_Compare_iff(3) [of cr "dsav_q cx"] CMP_Compare_iff(3) [of cs "dsav_q cx"] cr cs n(5,6) rs by (simp_all add: cmp_ok_def)
  have q1: "1 < cmp_num (dsav_q cx)" and sq: "cmp_num cs < cmp_num (dsav_q cx)" using n(6,12) cs(3) rs(2) by simp_all
  obtain cs' q1' w where w: "CMP_ModInvert mem cs (dsav_q cx) CMP_Constructor = Inr (cs', q1', w)" "cmp_words q1' = cmp_words (dsav_q cx)"
    "cmp_ok q1'" "cmp_words w \<noteq> []" "cmp_num w * s mod q = 1"
    using CMP_ModInvert_correct [of mem cs "dsav_q cx" CMP_Constructor, OF mem cs(2) n(5) q1 sq] cs(3) n(6) rs(3) by auto
  have ne: "cmp_words d \<noteq> []" "cmp_words cr \<noteq> []" "0 < cmp_num q1'" using d(2) cr(2) w(2) q1 by (simp_all add: cmp_ok_def cmp_normal_def)
  obtain q2 u1 where u1: "CMP_ModMultiply mem d w q1' CMP_Constructor = Inr (q2, u1)" "cmp_words q2 = cmp_words q1'" "cmp_ok q2" "cmp_ok u1"
    "cmp_num u1 = octets_val digest * cmp_num w mod q"
    using CMP_ModMultiply_correct [of mem d w q1' CMP_Constructor, OF mem ne(1) w(4,3) ne(3)] d(3) w(2) n(6) by auto
  have pos2: "0 < cmp_num q2" using u1(2) ne(3) by simp
  obtain q3 u2 where u2: "CMP_ModMultiply mem cr w q2 CMP_Constructor = Inr (q3, u2)" "cmp_words q3 = cmp_words q2" "cmp_ok q3" "cmp_ok u2"
    "cmp_num u2 = r * cmp_num w mod q"
    using CMP_ModMultiply_correct [of mem cr w q2 CMP_Constructor, OF mem ne(2) w(4) u1(3) pos2] cr(3) u1(2) w(2) n(6) by auto
  have p1: "odd (cmp_num (dsav_p cx))" "1 < cmp_num (dsav_p cx)" "cmp_num (dsav_g cx) < cmp_num (dsav_p cx)" using odd n by simp_all
  obtain p2 a where a: "CMP_ModExp mem (dsav_g cx) u1 (dsav_p cx) CMP_Constructor = Inr (p2, a)" "cmp_words p2 = cmp_words (dsav_p cx)" "cmp_ok p2"
    "cmp_ok a" "cmp_num a = g ^ (octets_val digest * cmp_num w mod q) mod p"
    using CMP_ModExp_correct [of mem "dsav_p cx" "dsav_g cx" u1 CMP_Constructor, OF mem n(1) p1(1,2) n(3) p1(3) u1(4)] n(2,4) u1(5) by auto
  have p2: "odd (cmp_num p2)" "1 < cmp_num p2" "cmp_num (dsav_publicValue cx) < cmp_num p2" using odd n a(2) by simp_all
  obtain p3 b where b: "CMP_ModExp mem (dsav_publicValue cx) u2 p2 CMP_Constructor = Inr (p3, b)" "cmp_words p3 = cmp_words p2" "cmp_ok p3"
    "cmp_ok b" "cmp_num b = y ^ (r * cmp_num w mod q) mod p"
    using CMP_ModExp_correct [of mem p2 "dsav_publicValue cx" u2 CMP_Constructor, OF mem a(3) p2(1,2) n(7) p2(3) u2(4)] n(2,8) u2(5) a(2) by auto
  have ab0: "cmp_words a \<noteq> []" "cmp_words b \<noteq> []" "0 < cmp_num p3" using a(4) b(2,4) p2(2) by (simp_all add: cmp_ok_def cmp_normal_def)
  obtain p4 ab where ab: "CMP_ModMultiply mem a b p3 CMP_Constructor = Inr (p4, ab)" "cmp_words p4 = cmp_words p3" "cmp_ok p4" "cmp_ok ab"
    "cmp_num ab = (g ^ (octets_val digest * cmp_num w mod q) mod p) * (y ^ (r * cmp_num w mod q) mod p) mod p"
    using CMP_ModMultiply_correct [of mem a b p3 CMP_Constructor, OF mem ab0(1,2) b(3) ab0(3)] a(2,5) b(2,5) n(2) by auto
  have pos3: "0 < cmp_num q3" using u2(2) pos2 by simp
  obtain ab' q4 v where v: "CMP_ModularReduce mem ab q3 CMP_Constructor = Inr (ab', q4, v)" "cmp_words q4 = cmp_words q3" "cmp_ok q4" "cmp_ok v"
    "cmp_num v = cmp_num ab mod q"
    using CMP_ModularReduce_correct [of mem ab q3 CMP_Constructor, OF mem ab(4) u2(3) pos3] u2(2) u1(2) w(2) n(6) by auto
  have eq: "CMP_Compare v cr = 0 \<longleftrightarrow> cmp_num ab mod q = r" using CMP_Compare_iff(5) [of v cr] v(4,5) cr(2,3) by (simp add: cmp_ok_def)
  let ?cx = "cx\<lparr>dsav_q := q1', dsav_q := q2, dsav_q := q3, dsav_p := p2, dsav_p := p3, dsav_p := p4, dsav_q := q4\<rparr>"
  have "DSA_Verify mem cx (octets_of 20 r @ octets_of 20 s) digest = (if cmp_num ab mod q = r then Inr ?cx else Inl (DSA_FAILURE, Some ?cx))"
    using n(14) len d(1) cr(1) cs(1) cmp w(1) u1(1) u2(1) a(1) b(1) ab(1) v(1) eq by (simp add: DSA_Verify_def)
  moreover have "dsav_holds p q g y ?cx" using h ab(2,3) b(2) a(2) v(2,3) u2(2) u1(2) w(2) by (simp add: dsav_holds_def)
  ultimately show ?thesis using w(5) unfolding ab(5) by blast
qed

lemma DSA_Verify_no_inverse:
  assumes mem: "\<And>n. mem n" and h: "dsav_holds p q g y cx" and len: "length digest = 20"
    and rs: "r < q" "s < q" "\<not> coprime s q"
  shows "DSA_Verify mem cx (octets_of 20 r @ octets_of 20 s) digest = Inl (DSA_FAILURE, Some cx)"
proof -
  have n: "cmp_ok (dsav_q cx)" "cmp_num (dsav_q cx) = q" "1 < q" "q < 2 ^ 160" "dsav_initialized cx = 1"
    using h by (simp_all add: dsav_holds_def)
  have octets: "\<exists>c. CMP_OctetStringToCMPInt mem os CMP_Constructor = Inr c \<and> cmp_ok c \<and> cmp_num c = octets_val os" if "length os = 20" for os
  proof -
    have "os \<noteq> []" using that by auto
    then show ?thesis using CMP_OctetStringToCMPInt_correct [of mem os CMP_Constructor, OF mem] by blast
  qed
  have "(256 :: nat) ^ 20 = 2 ^ 160" by simp
  then have "r < 256 ^ 20" "s < 256 ^ 20" using rs(1,2) n(4) by linarith+
  then obtain d cr cs where d: "CMP_OctetStringToCMPInt mem digest CMP_Constructor = Inr d"
    and cr: "CMP_OctetStringToCMPInt mem (octets_of 20 r) CMP_Constructor = Inr cr" "cmp_ok cr" "cmp_num cr = r"
    and cs: "CMP_OctetStringToCMPInt mem (octets_of 20 s) CMP_Constructor = Inr cs" "cmp_ok cs" "cmp_num cs = s"
    using octets [OF len] octets [of "octets_of 20 r"] octets [of "octets_of 20 s"] by (auto simp: octets_val_of)
  have cmp: "\<not> CMP_Compare cr (dsav_q cx) \<ge> 0" "\<not> CMP_Compare cs (dsav_q cx) \<ge> 0"
    using CMP_Compare_iff(3) [of cr "dsav_q cx"] CMP_Compare_iff(3) [of cs "dsav_q cx"] cr cs n(1,2) rs by (simp_all add: cmp_ok_def)
  have q1: "1 < cmp_num (dsav_q cx)" and sq: "cmp_num cs < cmp_num (dsav_q cx)" using n(2,3) cs(3) rs(2) by simp_all
  have "CMP_ModInvert mem cs (dsav_q cx) CMP_Constructor = Inl CMP_INVERSE"
    using CMP_ModInvert_correct [of mem cs "dsav_q cx" CMP_Constructor, OF mem cs(2) n(1) q1 sq] cs(3) n(2) rs(3) by simp
  then show ?thesis using n(5) len d cr(1) cs(1) cmp by (simp add: DSA_Verify_def dsa_fail_def)
qed

section \<open>Signatures\<close>

text \<open>The numbers of a key pair.\<close>

definition dsa_keys :: "DSAPublicKey \<Rightarrow> DSAPrivateKey \<Rightarrow> nat \<Rightarrow> nat \<Rightarrow> nat \<Rightarrow> nat \<Rightarrow> bool" where
  "dsa_keys pub prv p q g x \<longleftrightarrow>
     dpk_params pub = dsk_params prv \<and> pqg_prime (dsk_params prv) \<noteq> [] \<and> octets_val (pqg_prime (dsk_params prv)) = p \<and>
     pqg_subPrime (dsk_params prv) \<noteq> [] \<and> octets_val (pqg_subPrime (dsk_params prv)) = q \<and>
     pqg_base (dsk_params prv) \<noteq> [] \<and> octets_val (pqg_base (dsk_params prv)) = g \<and>
     dsk_privateValue prv \<noteq> [] \<and> octets_val (dsk_privateValue prv) = x \<and>
     dpk_publicValue pub \<noteq> [] \<and> octets_val (dpk_publicValue pub) = g ^ x mod p \<and>
     odd p \<and> 2 ^ 255 \<le> p \<and> p < 2 ^ 2048 \<and> 2 ^ 159 \<le> q \<and> q < 2 ^ 160 \<and> g < p \<and> g ^ q mod p = 1 \<and> x < q"

lemma DSA_params_valid:
  assumes mem: "\<And>n. mem n" and ne: "pqg_prime ps \<noteq> []" "pqg_subPrime ps \<noteq> []" "pqg_base ps \<noteq> []"
    and b: "2 ^ 255 \<le> octets_val (pqg_prime ps)" "octets_val (pqg_prime ps) < 2 ^ 2048"
    "2 ^ 159 \<le> octets_val (pqg_subPrime ps)" "octets_val (pqg_subPrime ps) < 2 ^ 160" "octets_val (pqg_base ps) < octets_val (pqg_prime ps)"
  shows "\<exists>p q g. DSA_params mem ps = Inr (p, q, g)"
proof -
  obtain p where p: "DSA_octets mem (pqg_prime ps) = Inr p" "cmp_ok p" "cmp_num p = octets_val (pqg_prime ps)"
    using DSA_octets_success(1) [where mem = mem, OF mem ne(1)] by auto
  obtain q where q: "DSA_octets mem (pqg_subPrime ps) = Inr q" "cmp_ok q" "cmp_num q = octets_val (pqg_subPrime ps)"
    using DSA_octets_success(1) [where mem = mem, OF mem ne(2)] by auto
  obtain g where g: "DSA_octets mem (pqg_base ps) = Inr g" "cmp_ok g" "cmp_num g = octets_val (pqg_base ps)"
    using DSA_octets_success(1) [where mem = mem, OF mem ne(3)] by auto
  have "\<not> cmp_num p < 2 ^ 255" "cmp_num p < 2 ^ 2048" "\<not> cmp_num q < 2 ^ 159" "cmp_num q < 2 ^ 160"
    unfolding p(3) q(3) not_less by (rule b)+
  then have "\<not> CMP_BitLengthOfCMPInt p \<le> 255" "CMP_BitLengthOfCMPInt p \<le> 2048" "\<not> CMP_BitLengthOfCMPInt q \<le> 159" "CMP_BitLengthOfCMPInt q \<le> 160"
    using CMP_BitLength_iff [OF p(2), of 255] CMP_BitLength_iff [OF p(2), of 2048] CMP_BitLength_iff [OF q(2), of 159] CMP_BitLength_iff [OF q(2), of 160]
    by (simp_all only: simp_thms zero_less_numeral)
  moreover have "\<not> CMP_Compare g p \<ge> 0" using CMP_Compare_iff(3) [of g p] g p b(5) by (simp add: cmp_ok_def)
  ultimately show ?thesis using p(1) q(1) g(1) by (simp add: DSA_params_def)
qed

lemma DSA_contexts_created:
  assumes mem: "\<And>n. mem n" and k: "dsa_keys pub prv p q g x"
  shows "\<exists>scx vcx. DSA_CreateSignContext mem True prv = Inr scx \<and> DSA_CreateVerifyContext mem True pub = Inr vcx \<and>
    dsas_state scx = 1 \<and> dsas_holds p q g x scx \<and> dsav_holds p q g (g ^ x mod p) vcx"
proof -
  obtain P Q G where ps: "DSA_params mem (dsk_params prv) = Inr (P, Q, G)"
    using DSA_params_valid [of mem "dsk_params prv", OF mem] k by (auto simp: dsa_keys_def)
  note num = DSA_params_success [OF mem ps]
  obtain X where X: "DSA_octets mem (dsk_privateValue prv) = Inr X" "cmp_ok X" "cmp_num X = x"
    using DSA_octets_success(1) [where mem = mem and os = "dsk_privateValue prv", OF mem] k by (auto simp: dsa_keys_def)
  obtain Y where Y: "DSA_octets mem (dpk_publicValue pub) = Inr Y" "cmp_ok Y" "cmp_num Y = g ^ x mod p"
    using DSA_octets_success(1) [where mem = mem and os = "dpk_publicValue pub", OF mem] k by (auto simp: dsa_keys_def)
  have pq: "cmp_num P = p" "cmp_num Q = q" "x < q" "0 < p" using num k by (simp_all add: dsa_keys_def)
  have nrm: "cmp_normal (cmp_words X)" "cmp_normal (cmp_words Y)" "cmp_normal (cmp_words P)" "cmp_normal (cmp_words Q)"
    using X(2) Y(2) num by (simp_all add: cmp_ok_def)
  have "\<not> CMP_Compare X Q \<ge> 0" unfolding CMP_Compare_iff(3) [OF nrm(1,4)] X(3) pq(2) not_le by (rule pq(3))
  moreover have "\<not> CMP_Compare Y P \<ge> 0"
    unfolding CMP_Compare_iff(3) [OF nrm(2,3)] Y(3) pq(1) not_le by (rule mod_less_divisor [OF pq(4)])
  ultimately obtain scx vcx where cx: "DSA_CreateSignContext mem True prv = Inr scx" "DSA_CreateVerifyContext mem True pub = Inr vcx"
    using ps X(1) Y(1) k by (auto simp: DSA_CreateSignContext_def DSA_CreateVerifyContext_def dsa_keys_def)
  from DSA_CreateSignContext_holds [OF mem cx(1)] DSA_CreateVerifyContext_holds [OF mem cx(2)] cx k
  show ?thesis by (simp add: dsa_keys_def)
qed

text \<open>Exponents of the base count modulo \<open>q\<close>.\<close>

lemma dsa_exponents:
  assumes "g ^ q mod p = 1" and "a mod q = b mod (q :: nat)"
  shows "g ^ a mod p = g ^ b mod (p :: nat)"
proof -
  have "g ^ c mod p = g ^ (c mod q) mod p" for c
  proof -
    have "(g ^ q) ^ (c div q) mod p = (g ^ q mod p) ^ (c div q) mod p" by (rule power_mod [symmetric])
    then have one: "(g ^ q) ^ (c div q) mod p = 1 mod p" by (simp add: assms(1))
    have "g ^ c mod p = g ^ (c mod q + q * (c div q)) mod p" by (simp only: mod_mult_div_eq)
    also have "\<dots> = g ^ (c mod q) * ((g ^ q) ^ (c div q)) mod p" by (simp only: power_add power_mult)
    also have "\<dots> = g ^ (c mod q) * ((g ^ q) ^ (c div q) mod p) mod p" by (rule mod_mult_right_eq [symmetric])
    also have "\<dots> = g ^ (c mod q) * (1 mod p) mod p" by (simp only: one)
    also have "\<dots> = g ^ (c mod q) * 1 mod p" by (rule mod_mult_right_eq)
    finally show ?thesis by simp
  qed
  from this [of a] this [of b] assms(2) show ?thesis by simp
qed

lemma dsa_equation:
  assumes g: "g ^ q mod p = 1" and kInv: "kInv * k mod q = 1" and S: "S = kInv * (x * r mod q + h) mod q" and w: "w * S mod q = 1"
  shows "(g ^ (h * w mod q) mod p) * ((g ^ x mod p) ^ (r * w mod q) mod p) mod p = g ^ k mod (p :: nat)"
proof -
  have "(g ^ (h * w mod q) mod p) * ((g ^ x mod p) ^ (r * w mod q) mod p) mod p = g ^ (h * w mod q + x * (r * w mod q)) mod p"
    unfolding power_add power_mult by (metis mod_mult_eq power_mod)
  also have "\<dots> = g ^ k mod p"
  proof (rule dsa_exponents [OF g])
    have "(h * w mod q + x * (r * w mod q)) mod q = (h * w + x * (r * w)) mod q"
      by (intro mod_add_cong mod_mult_right_eq mod_mod_trivial)
    also have "\<dots> = w * (x * r + h) mod q" by (simp add: algebra_simps)
    also have "\<dots> = w * (x * r + h) * (kInv * k mod q) mod q" unfolding kInv by simp
    also have "\<dots> = w * (x * r + h) * (kInv * k) mod q" by (rule mod_mult_right_eq)
    also have "\<dots> = k * w * (kInv * (x * r + h)) mod q" by (simp only: ac_simps)
    also have "\<dots> = k * w * S mod q" unfolding S by (metis mod_add_left_eq mod_mult_right_eq)
    also have "\<dots> = k * (w * S mod q) mod q" unfolding mult.assoc by (rule mod_mult_right_eq [symmetric])
    finally show "(h * w mod q + x * (r * w mod q)) mod q = k mod q" using w by simp
  qed
  finally show ?thesis .
qed

lemma prime_coprime_less: "prime_nat q \<Longrightarrow> 0 < s \<Longrightarrow> s < q \<Longrightarrow> coprime s q"
proof -
  assume q: "prime_nat q" "0 < s" "s < q"
  then have "\<not> q dvd s" by (auto dest: dvd_imp_le)
  from prime_coprime [OF q(1) this] show ?thesis by (simp add: coprime_commute)
qed

lemma DSA_signature_verifies:
  assumes mem: "\<And>n. mem n" and k: "dsa_keys pub prv p q g x" and v: "dsav_holds p q g (g ^ x mod p) vcx"
    and n: "dsas_nonce p q g x K scx" and len: "length digest = 20"
    and S: "S = cmp_num (dsas_kInv scx) * (cmp_num (dsas_xr scx) + octets_val digest) mod q"
  shows "(\<exists>vcx'. DSA_Verify mem vcx (octets_of 20 (cmp_num (dsas_r scx)) @ octets_of 20 S) digest = Inr vcx') \<longleftrightarrow> coprime S q"
proof -
  have q: "0 < q" "odd p" "g ^ q mod p = 1" using k by (auto simp: dsa_keys_def)
  have lt: "cmp_num (dsas_r scx) < q" "S < q" using n S q(1) by (simp_all add: dsas_nonce_def)
  show ?thesis
  proof (cases "coprime S q")
    case True
    obtain w vcx' where w: "w * S mod q = 1" and V: "DSA_Verify mem vcx (octets_of 20 (cmp_num (dsas_r scx)) @ octets_of 20 S) digest =
        (if (g ^ (octets_val digest * w mod q) mod p) * ((g ^ x mod p) ^ (cmp_num (dsas_r scx) * w mod q) mod p) mod p mod q = cmp_num (dsas_r scx)
         then Inr vcx' else Inl (DSA_FAILURE, Some vcx'))"
      using DSA_Verify_cases [where mem = mem and digest = digest and s = S, OF mem v q(2) len lt True] by blast
    have nn: "cmp_num (dsas_kInv scx) * K mod q = 1" "cmp_num (dsas_xr scx) = x * cmp_num (dsas_r scx) mod q"
      "cmp_num (dsas_r scx) = g ^ K mod p mod q" using n by (simp_all add: dsas_nonce_def)
    have S': "S = cmp_num (dsas_kInv scx) * (x * cmp_num (dsas_r scx) mod q + octets_val digest) mod q" using S nn(2) by simp
    have "(g ^ (octets_val digest * w mod q) mod p) * ((g ^ x mod p) ^ (cmp_num (dsas_r scx) * w mod q) mod p) mod p mod q = cmp_num (dsas_r scx)"
      unfolding dsa_equation [OF q(3) nn(1) S' w] using nn(3) by simp
    with V True show ?thesis by auto
  next
    case False
    with DSA_Verify_no_inverse [where mem = mem, OF mem v len lt False] show ?thesis by simp
  qed
qed

lemma coprime_of_inverse: "a * b mod q = 1 \<Longrightarrow> coprime a (q :: nat)"
proof -
  assume ab: "a * b mod q = 1"
  show ?thesis
  proof (rule coprimeI)
    fix d assume d: "d dvd a" "d dvd q"
    then have "d dvd a * b mod q" by (simp add: dvd_mod)
    then show "d dvd 1" unfolding ab .
  qed
qed

text \<open>
  C13. A signature verifies: for a key pair whose base has an order that divides \<open>q\<close>, a block of random
  octets and a digest, both contexts are created; pre-signing fails for a block without inverse modulo \<open>q\<close>
  (where it asks for other random octets) and for \<open>q\<close> itself (where it does not); signing fails only if the
  second half of the signature is zero; and the 40 octets it returns otherwise are accepted by
  \<open>DSA_Verify\<close> exactly if the second half has an inverse, which for a prime \<open>q\<close> it always has. After a
  signature the context needs another pre-signing.
\<close>

theorem DSA_sign_verify:
  assumes "\<And>n. mem n" and "dsa_keys pub prv p q g x" and "length blk = 20" and "length digest = 20"
  shows "\<exists>scx vcx. DSA_CreateSignContext mem True prv = Inr scx \<and> DSA_CreateVerifyContext mem True pub = Inr vcx \<and>
    (case DSA_Presign mem scx blk of
       Inl (e, _) \<Rightarrow> octets_val blk = q \<and> e = DSA_FAILURE \<or> octets_val blk \<noteq> q \<and> \<not> coprime (octets_val blk) q \<and> e = DSA_NEED_RANDOM
     | Inr scx1 \<Rightarrow> coprime (octets_val blk) q \<and>
         (case DSA_Sign mem scx1 40 digest of
            Inl (e, _) \<Rightarrow> e = DSA_NEED_RANDOM \<and> q dvd x * ((g ^ octets_val blk mod p) mod q) + octets_val digest
          | Inr (scx2, signature) \<Rightarrow> length signature = 40 \<and> dsas_state scx2 = 1 \<and> octets_val (take 20 signature) = (g ^ octets_val blk mod p) mod q \<and>
              ((\<exists>vcx'. DSA_Verify mem vcx signature digest = Inr vcx') \<longleftrightarrow> coprime (octets_val (drop 20 signature)) q)))"
proof -
  let ?K = "octets_val blk"
  obtain scx vcx where cx: "DSA_CreateSignContext mem True prv = Inr scx" "DSA_CreateVerifyContext mem True pub = Inr vcx"
    "dsas_state scx = 1" "dsas_holds p q g x scx" "dsav_holds p q g (g ^ x mod p) vcx"
    using DSA_contexts_created [where mem = mem, OF assms(1,2)] by blast
  have q: "2 ^ 159 \<le> q" "q < 2 ^ 160" "odd p" using assms(2) by (simp_all add: dsa_keys_def)
  have b: "dsas_state scx = 1 \<or> dsas_state scx = 2" "20 \<le> length blk" "?K = octets_val (take 20 blk)" using cx(3) assms(3) by simp_all
  note P = DSA_Presign_cases [where mem = mem, OF assms(1) cx(4) b]
  show ?thesis
  proof (cases "coprime ?K q")
    case False
    with P have "\<exists>e cx'. DSA_Presign mem scx blk = Inl (e, cx') \<and> (?K = q \<and> e = DSA_FAILURE \<or> ?K \<noteq> q \<and> e = DSA_NEED_RANDOM)"
      by (cases "?K = q") auto
    with cx(1,2) False show ?thesis by auto
  next
    case True
    then have "?K \<noteq> q" using q(1) by auto
    with P True q(3) obtain scx1 where s: "DSA_Presign mem scx blk = Inr scx1" "dsas_holds p q g x scx1" "dsas_state scx1 = 2"
      "dsas_ready q scx1" "dsas_nonce p q g x ?K scx1" by auto
    define S where "S = cmp_num (dsas_kInv scx1) * (cmp_num (dsas_xr scx1) + octets_val digest) mod q"
    obtain q' where sg: "DSA_Sign mem scx1 40 digest = (if S = 0 then Inl (DSA_NEED_RANDOM, Some (scx1\<lparr>dsas_q := q'\<rparr>))
       else Inr (scx1\<lparr>dsas_q := q', dsas_state := 1\<rparr>, octets_of 20 (cmp_num (dsas_r scx1)) @ octets_of 20 S))"
      using DSA_Sign_cases [where mem = mem, OF assms(1) s(2-4) order_refl assms(4) S_def] by auto
    show ?thesis
    proof (cases "S = 0")
      case zero: True
      have i: "cmp_num (dsas_kInv scx1) * ?K mod q = 1" "cmp_num (dsas_xr scx1) = x * ((g ^ ?K mod p) mod q) mod q"
        using s(5) by (simp_all add: dsas_nonce_def)
      have "coprime q (cmp_num (dsas_kInv scx1))" using coprime_of_inverse [OF i(1)] by (simp add: coprime_commute)
      moreover have "q dvd cmp_num (dsas_kInv scx1) * (cmp_num (dsas_xr scx1) + octets_val digest)"
        using zero by (simp add: S_def mod_eq_0_iff_dvd)
      ultimately have "q dvd cmp_num (dsas_xr scx1) + octets_val digest" by (simp only: coprime_dvd_mult_right_iff)
      then have "(x * ((g ^ ?K mod p) mod q) mod q + octets_val digest) mod q = 0" using i(2) by simp
      then have "(x * ((g ^ ?K mod p) mod q) + octets_val digest) mod q = 0" unfolding mod_add_left_eq .
      then show ?thesis using cx(1,2) s(1) sg True zero by (simp add: mod_eq_0_iff_dvd)
    next
      case nz: False
      have p: "(256 :: nat) ^ 20 = 2 ^ 160" by simp
      have "S < q" using q(1) by (simp add: S_def)
      moreover have "cmp_num (dsas_r scx1) < q" using s(4) by (simp add: dsas_ready_def)
      ultimately have lt: "S < 256 ^ 20" "cmp_num (dsas_r scx1) < 256 ^ 20" unfolding p using q(2) by linarith+
      have "cmp_num (dsas_r scx1) = (g ^ ?K mod p) mod q" using s(5) by (simp add: dsas_nonce_def)
      with octets_val_of [OF lt(1)] octets_val_of [OF lt(2)] show ?thesis
        using cx(1,2) s(1) sg nz True DSA_signature_verifies [where mem = mem, OF assms(1,2) cx(5) s(5) assms(4) S_def] by simp
    qed
  qed
qed

section \<open>Sequences of calls\<close>

text \<open>
  The calls on a signing context with what they do to it, also when they fail; and the contexts that can
  be reached from a key, with the number of pre-signings and signatures on the way.
\<close>

datatype dsa_event = Presigned | Signed | Refused

inductive dsa_step :: "(nat \<Rightarrow> bool) \<Rightarrow> DSASignContext \<Rightarrow> dsa_event \<Rightarrow> DSASignContext \<Rightarrow> bool" where
  presigned: "20 \<le> length blk \<Longrightarrow> DSA_Presign mem cx blk = Inr cx' \<Longrightarrow> dsa_step mem cx Presigned cx'"
| presign_refused: "20 \<le> length blk \<Longrightarrow> DSA_Presign mem cx blk = Inl (e, Some cx') \<Longrightarrow> dsa_step mem cx Refused cx'"
| signed: "DSA_Sign mem cx room digest = Inr (cx', signature) \<Longrightarrow> dsa_step mem cx Signed cx'"
| sign_refused: "DSA_Sign mem cx room digest = Inl (e, Some cx') \<Longrightarrow> dsa_step mem cx Refused cx'"

inductive dsa_reaches :: "(nat \<Rightarrow> bool) \<Rightarrow> DSAPrivateKey \<Rightarrow> DSASignContext \<Rightarrow> nat \<Rightarrow> nat \<Rightarrow> bool" where
  created: "DSA_CreateSignContext mem alloc key = Inr cx \<Longrightarrow> dsa_reaches mem key cx 0 0"
| step: "dsa_reaches mem key cx m n \<Longrightarrow> dsa_step mem cx ev cx' \<Longrightarrow>
    dsa_reaches mem key cx' (if ev = Presigned then m + 1 else m) (if ev = Signed then n + 1 else n)"

definition dsas_typed :: "nat \<Rightarrow> nat \<Rightarrow> nat \<Rightarrow> nat \<Rightarrow> DSASignContext \<Rightarrow> bool" where
  "dsas_typed p q g x cx \<longleftrightarrow> dsas_holds p q g x cx \<and> (dsas_state cx = 1 \<or> dsas_state cx = 2 \<and> dsas_ready q cx)"

text \<open>A call on such a context never loses it, and keeps the type.\<close>

lemma dsas_typed_Presign:
  assumes mem: "\<And>n. mem n" and t: "dsas_typed p q g x cx" and b: "20 \<le> length blk"
  shows "case DSA_Presign mem cx blk of
      Inr cx' \<Rightarrow> dsas_typed p q g x cx' \<and> dsas_state cx' = 2
    | Inl (e, Some cx') \<Rightarrow> dsas_typed p q g x cx' \<and> dsas_state cx' = dsas_state cx
    | Inl (e, None) \<Rightarrow> False"
proof -
  let ?K = "octets_val (take 20 blk)"
  have h: "dsas_holds p q g x cx" "dsas_state cx = 1 \<or> dsas_state cx = 2" "dsas_state cx = 2 \<Longrightarrow> dsas_ready q cx"
    using t by (auto simp: dsas_typed_def)
  have kept: "dsas_typed p q g x cx'" if "dsas_holds p q g x cx'" "dsas_state cx' = dsas_state cx" "dsas_r cx' = dsas_r cx"
    "dsas_xr cx' = dsas_xr cx" "cmp_words (dsas_kInv cx') \<noteq> []" "cmp_num (dsas_kInv cx') < q" for cx'
    using h that by (auto simp: dsas_typed_def dsas_ready_def)
  note P = DSA_Presign_cases [where mem = mem, OF mem h(1,2) b refl]
  consider "?K = q" | "?K \<noteq> q" "\<not> coprime ?K q" | "?K \<noteq> q" "coprime ?K q" "even p" | "?K \<noteq> q" "coprime ?K q" "odd p" by blast
  then show ?thesis
  proof cases
    case 1
    with P t show ?thesis by simp
  next
    case 2
    with P obtain cx' where "DSA_Presign mem cx blk = Inl (DSA_NEED_RANDOM, Some cx')" "dsas_holds p q g x cx'"
      "dsas_state cx' = dsas_state cx" "dsas_r cx' = dsas_r cx" "dsas_xr cx' = dsas_xr cx"
      "cmp_words (dsas_kInv cx') \<noteq> []" "cmp_num (dsas_kInv cx') < q" by auto
    with kept [of cx'] show ?thesis by simp
  next
    case 3
    with P obtain cx' where "DSA_Presign mem cx blk = Inl (DSA_FAILURE, Some cx')" "dsas_holds p q g x cx'"
      "dsas_state cx' = dsas_state cx" "dsas_r cx' = dsas_r cx" "dsas_xr cx' = dsas_xr cx"
      "cmp_words (dsas_kInv cx') \<noteq> []" "cmp_num (dsas_kInv cx') < q" by auto
    with kept [of cx'] show ?thesis by simp
  next
    case 4
    with P show ?thesis by (auto simp: dsas_typed_def)
  qed
qed

lemma dsas_typed_Sign:
  assumes mem: "\<And>n. mem n" and t: "dsas_typed p q g x cx"
  shows "case DSA_Sign mem cx room digest of
      Inr (cx', signature) \<Rightarrow> dsas_typed p q g x cx' \<and> dsas_state cx = 2 \<and> dsas_state cx' = 1
    | Inl (e, Some cx') \<Rightarrow> dsas_typed p q g x cx' \<and> dsas_state cx' = dsas_state cx
    | Inl (e, None) \<Rightarrow> False"
proof (cases "dsas_state cx = 2 \<and> 40 \<le> room \<and> length digest = 20")
  case True
  then have h: "dsas_holds p q g x cx" "dsas_state cx = 2" "dsas_ready q cx" "40 \<le> room" "length digest = 20"
    using t by (auto simp: dsas_typed_def)
  obtain q' S where s: "dsas_holds p q g x (cx\<lparr>dsas_q := q'\<rparr>)" "DSA_Sign mem cx room digest =
      (if S = 0 then Inl (DSA_NEED_RANDOM, Some (cx\<lparr>dsas_q := q'\<rparr>))
       else Inr (cx\<lparr>dsas_q := q', dsas_state := 1\<rparr>, octets_of 20 (cmp_num (dsas_r cx)) @ octets_of 20 S))"
    using DSA_Sign_cases [where mem = mem, OF mem h refl] by blast
  have "dsas_holds p q g x (cx\<lparr>dsas_q := q', dsas_state := 1\<rparr>)" using s(1) by (simp add: dsas_holds_def)
  moreover have "dsas_ready q (cx\<lparr>dsas_q := q'\<rparr>)" using h(3) by (simp add: dsas_ready_def)
  ultimately show ?thesis using s h(2) by (simp add: dsas_typed_def)
next
  case False
  then have "DSA_Sign mem cx room digest = Inl (DSA_FAILURE, Some cx)" by (auto simp: DSA_Sign_def)
  with t show ?thesis by simp
qed

text \<open>
  C14. The type of a signing context: whatever is called on it, in any order and with any outcome, its numbers
  stay those of the key, its state is 1 or 2, in state 2 the numbers for a signature are in range, and no
  call is undefined or leaves the context in pieces. There are never more signatures than successful
  pre-signings: a context in state 2 has one left, one in state 1 need not have any.
\<close>

theorem DSA_contexts_typed:
  assumes "\<And>n. mem n" and "dsa_reaches mem key cx m n" and "20 \<le> length blk"
  shows "dsas_typed (octets_val (pqg_prime (dsk_params key))) (octets_val (pqg_subPrime (dsk_params key)))
      (octets_val (pqg_base (dsk_params key))) (octets_val (dsk_privateValue key)) cx \<and>
    n + (if dsas_state cx = 2 then 1 else 0) \<le> m \<and>
    (\<exists>r. DSA_Presign mem cx blk = Inr r \<or> (\<exists>e. DSA_Presign mem cx blk = Inl (e, Some r))) \<and>
    (\<exists>r. DSA_Sign mem cx room digest = Inr r \<or> (\<exists>e. DSA_Sign mem cx room digest = Inl (e, Some (fst r))))"
proof -
  let ?T = "dsas_typed (octets_val (pqg_prime (dsk_params key))) (octets_val (pqg_subPrime (dsk_params key)))
      (octets_val (pqg_base (dsk_params key))) (octets_val (dsk_privateValue key))"
  have inv: "?T cx \<and> n + (if dsas_state cx = 2 then 1 else 0) \<le> m"
    using assms(2,1)
  proof (induction rule: dsa_reaches.induct)
    case (created mem alloc key cx)
    with DSA_CreateSignContext_holds [where mem = mem] show ?case by (auto simp: dsas_typed_def)
  next
    case (step mem key cx m n ev cx')
    note IH = step.IH [OF step.prems]
    from step.hyps(2) show ?case
    proof (cases rule: dsa_step.cases)
      case (presigned blk)
      with IH dsas_typed_Presign [where mem = mem, OF step.prems conjunct1 [OF IH] presigned(2)] show ?thesis by (auto split: if_splits)
    next
      case (presign_refused blk e)
      with IH dsas_typed_Presign [where mem = mem, OF step.prems conjunct1 [OF IH] presign_refused(2)] show ?thesis by (auto split: if_splits)
    next
      case (signed room digest signature)
      with IH dsas_typed_Sign [where mem = mem, OF step.prems conjunct1 [OF IH], of room digest] show ?thesis by (auto split: if_splits)
    next
      case (sign_refused room digest e)
      with IH dsas_typed_Sign [where mem = mem, OF step.prems conjunct1 [OF IH], of room digest] show ?thesis by (auto split: if_splits)
    qed
  qed
  moreover have "\<exists>r. DSA_Presign mem cx blk = Inr r \<or> (\<exists>e. DSA_Presign mem cx blk = Inl (e, Some r))"
    using dsas_typed_Presign [where mem = mem, OF assms(1) conjunct1 [OF inv] assms(3)]
    by (auto split: sum.splits prod.splits option.splits)
  moreover have "\<exists>r. DSA_Sign mem cx room digest = Inr r \<or> (\<exists>e. DSA_Sign mem cx room digest = Inl (e, Some (fst r)))"
    using dsas_typed_Sign [where mem = mem, OF assms(1) conjunct1 [OF inv], of room digest]
    by (auto split: sum.splits prod.splits option.splits)
  ultimately show ?thesis by blast
qed

text \<open>
  C15. A pre-signing that asks for other random octets must not be followed by a signature: on a context that is
  pre-signed, a block of zero octets is refused and leaves 1 in the place of the inverse, with the state still 2
  and the other numbers of the old block. \<open>DSA_Sign\<close> then returns \<open>(r, digest + x * r)\<close>, from which anybody
  computes the private value \<open>x\<close> with the inverse of \<open>r\<close>.
\<close>

theorem DSA_refused_presign_leaks_key:
  assumes "\<And>n. mem n" and "dsa_keys pub prv p q g x" and "length blk = 20" and "coprime (octets_val blk) q" and "length digest = 20"
  shows "\<exists>scx scx1 scx2. DSA_CreateSignContext mem True prv = Inr scx \<and> DSA_Presign mem scx blk = Inr scx1 \<and>
    DSA_Presign mem scx1 (replicate 20 0) = Inl (DSA_NEED_RANDOM, Some scx2) \<and>
    (case DSA_Sign mem scx2 40 digest of
       Inl (e, _) \<Rightarrow> e = DSA_NEED_RANDOM \<and> q dvd x * ((g ^ octets_val blk mod p) mod q) + octets_val digest
     | Inr (scx3, signature) \<Rightarrow>
         let r = octets_val (take 20 signature); s = octets_val (drop 20 signature)
         in r = (g ^ octets_val blk mod p) mod q \<and> s = (x * r + octets_val digest) mod q \<and>
            (\<forall>ri. r * ri mod q = 1 \<longrightarrow> x = (s + (q - octets_val digest mod q)) * ri mod q))"
proof -
  let ?K = "octets_val blk" and ?h = "octets_val digest"
  obtain scx where cx: "DSA_CreateSignContext mem True prv = Inr scx" "dsas_state scx = 1" "dsas_holds p q g x scx"
    using DSA_contexts_created [where mem = mem, OF assms(1,2)] by blast
  have q: "2 ^ 159 \<le> q" "q < 2 ^ 160" "odd p" "x < q" using assms(2) by (simp_all add: dsa_keys_def)
  have b: "dsas_state scx = 1 \<or> dsas_state scx = 2" "20 \<le> length blk" "?K = octets_val (take 20 blk)" using cx(2) assms(3) by simp_all
  have "?K \<noteq> q" using assms(4) q(1) by auto
  with DSA_Presign_cases [where mem = mem, OF assms(1) cx(3) b] assms(4) q(3)
  obtain scx1 where s: "DSA_Presign mem scx blk = Inr scx1" "dsas_holds p q g x scx1" "dsas_state scx1 = 2"
    "dsas_ready q scx1" "dsas_nonce p q g x ?K scx1" by auto
  have b1: "dsas_state scx1 = 1 \<or> dsas_state scx1 = 2" "20 \<le> length (replicate 20 (0 :: u8))" "0 = octets_val (take 20 (replicate 20 0))"
    using s(3) by (simp_all add: octets_val_def)
  have "\<not> coprime 0 q" "0 \<noteq> q" using q(1) by auto
  with DSA_Presign_cases [where mem = mem, OF assms(1) s(2) b1]
  obtain scx2 where t: "DSA_Presign mem scx1 (replicate 20 0) = Inl (DSA_NEED_RANDOM, Some scx2)" "dsas_holds p q g x scx2"
    "dsas_state scx2 = dsas_state scx1" "dsas_r scx2 = dsas_r scx1" "dsas_xr scx2 = dsas_xr scx1"
    "cmp_words (dsas_kInv scx2) \<noteq> []" "cmp_num (dsas_kInv scx2) < q" "cmp_num (dsas_kInv scx2) = 1" by auto
  have rd: "dsas_state scx2 = 2" "dsas_ready q scx2" using s(3,4) t(3-7) by (simp_all add: dsas_ready_def)
  define r where "r = (g ^ ?K mod p) mod q"
  define S where "S = cmp_num (dsas_kInv scx2) * (cmp_num (dsas_xr scx2) + ?h) mod q"
  have n: "cmp_num (dsas_r scx2) = r" "cmp_num (dsas_xr scx2) = x * r mod q" using s(5) t(4,5) by (simp_all add: dsas_nonce_def r_def)
  have S: "S = (x * r + ?h) mod q" unfolding S_def t(8) n(2) by (simp add: mod_add_left_eq)
  obtain q' where sg: "DSA_Sign mem scx2 40 digest = (if S = 0 then Inl (DSA_NEED_RANDOM, Some (scx2\<lparr>dsas_q := q'\<rparr>))
     else Inr (scx2\<lparr>dsas_q := q', dsas_state := 1\<rparr>, octets_of 20 r @ octets_of 20 S))"
    using DSA_Sign_cases [where mem = mem, OF assms(1) t(2) rd order_refl assms(5) S_def] n(1) by auto
  have leak: "x = (S + (q - ?h mod q)) * ri mod q" if ri: "r * ri mod q = 1" for ri
  proof -
    have "?h mod q < q" using q(1) by simp
    then have "x * r + ?h + (q - ?h mod q) = x * r + q + q * (?h div q)" using mod_mult_div_eq [of ?h q] by linarith
    then have h: "x * r + ?h + (q - ?h mod q) = x * r + q * (1 + ?h div q)" by (simp only: distrib_left mult_1_right add.assoc)
    have e: "(S + (q - ?h mod q)) mod q = x * r mod q" unfolding S mod_add_left_eq h by (rule mod_mult_self2)
    have "(S + (q - ?h mod q)) * ri mod q = x * r * ri mod q" by (metis e mod_mult_left_eq)
    also have "\<dots> = x * (r * ri mod q) mod q" unfolding mult.assoc by (rule mod_mult_right_eq [symmetric])
    finally show ?thesis using ri q(4) by simp
  qed
  have p: "(256 :: nat) ^ 20 = 2 ^ 160" by simp
  have "S < q" "r < q" using q(1) by (simp_all add: S_def r_def)
  then have lt: "S < 256 ^ 20" "r < 256 ^ 20" unfolding p using q(2) by linarith+
  have "case DSA_Sign mem scx2 40 digest of
       Inl (e, _) \<Rightarrow> e = DSA_NEED_RANDOM \<and> q dvd x * r + ?h
     | Inr (scx3, signature) \<Rightarrow> octets_val (take 20 signature) = r \<and> octets_val (drop 20 signature) = S"
    using sg S octets_val_of [OF lt(1)] octets_val_of [OF lt(2)] by (simp add: mod_eq_0_iff_dvd)
  then show ?thesis using cx(1) s(1) t(1) S leak unfolding r_def [symmetric] by (auto simp: Let_def split: sum.splits prod.splits)
qed

section \<open>The statements at a concrete key\<close>

text \<open>2 has the order 256 modulo \<open>2 ^ 256 - 1\<close>, and \<open>q\<close> is \<open>2 ^ 159\<close>.\<close>

definition example_params :: PQGParams where
  "example_params = \<lparr>pqg_prime = replicate 32 0xff, pqg_subPrime = 0x80 # replicate 19 0, pqg_base = [2]\<rparr>"

definition example_dsa_public :: DSAPublicKey where
  "example_dsa_public = \<lparr>dpk_params = example_params, dpk_publicValue = [32]\<rparr>"

definition example_dsa_private :: DSAPrivateKey where
  "example_dsa_private = \<lparr>dsk_params = example_params, dsk_publicValue = [32], dsk_privateValue = [5]\<rparr>"

lemma power_order: "g ^ n mod p = 1 \<Longrightarrow> q = n * c \<Longrightarrow> g ^ q mod p = (1 :: nat)"
proof -
  assume g: "g ^ n mod p = 1" and q: "q = n * c"
  have "p \<noteq> 1" using g by auto
  have "g ^ q mod p = (g ^ n mod p) ^ c mod p" unfolding q power_mult by (rule power_mod [symmetric])
  with g \<open>p \<noteq> 1\<close> show ?thesis by (cases "p = 0") simp_all
qed

lemma example_dsa_keys: "dsa_keys example_dsa_public example_dsa_private (2 ^ 256 - 1) (2 ^ 159) 2 5"
proof -
  have ff: "octets_le (replicate n 0xff) + 1 = 256 ^ n" for n by (induction n) simp_all
  have p: "octets_val (replicate 32 0xff) = 2 ^ 256 - 1" "octets_val (0x80 # replicate 19 0) = 2 ^ 159"
    using ff [of 32] by (simp_all add: octets_val_def octets_le_append)
  have order: "(2 :: nat) ^ (2 ^ 159) mod (2 ^ 256 - 1) = 1" by (rule power_order [where n = 256 and c = "2 ^ 151"]) simp_all
  note defs = example_dsa_public_def example_dsa_private_def example_params_def
  show ?thesis
    unfolding dsa_keys_def
  proof (intro conjI)
    show "octets_val (pqg_prime (dsk_params example_dsa_private)) = 2 ^ 256 - 1"
      "octets_val (pqg_subPrime (dsk_params example_dsa_private)) = 2 ^ 159" using p by (simp_all add: defs)
    show "2 ^ 2 ^ 159 mod (2 ^ 256 - 1) = (1 :: nat)" by (rule order)
  qed (simp_all add: defs octets_val_def)
qed

theorem DSA_sign_verify_witness:
  "\<exists>scx vcx. DSA_CreateSignContext (\<lambda>_. True) True example_dsa_private = Inr scx \<and>
    DSA_CreateVerifyContext (\<lambda>_. True) True example_dsa_public = Inr vcx \<and>
    (case DSA_Presign (\<lambda>_. True) scx (replicate 20 1) of
       Inl (e, _) \<Rightarrow> octets_val (replicate 20 1) = 2 ^ 159 \<and> e = DSA_FAILURE \<or>
         octets_val (replicate 20 1) \<noteq> 2 ^ 159 \<and> \<not> coprime (octets_val (replicate 20 1)) (2 ^ 159) \<and> e = DSA_NEED_RANDOM
     | Inr scx1 \<Rightarrow> coprime (octets_val (replicate 20 1)) (2 ^ 159) \<and>
         (case DSA_Sign (\<lambda>_. True) scx1 40 (replicate 20 7) of
            Inl (e, _) \<Rightarrow> e = DSA_NEED_RANDOM \<and>
              2 ^ 159 dvd 5 * ((2 ^ octets_val (replicate 20 1) mod (2 ^ 256 - 1)) mod 2 ^ 159) + octets_val (replicate 20 7)
          | Inr (scx2, signature) \<Rightarrow> length signature = 40 \<and> dsas_state scx2 = 1 \<and>
              octets_val (take 20 signature) = (2 ^ octets_val (replicate 20 1) mod (2 ^ 256 - 1)) mod 2 ^ 159 \<and>
              ((\<exists>vcx'. DSA_Verify (\<lambda>_. True) vcx signature (replicate 20 7) = Inr vcx') \<longleftrightarrow> coprime (octets_val (drop 20 signature)) (2 ^ 159))))"
  by (rule DSA_sign_verify [where mem = "\<lambda>_. True", OF TrueI example_dsa_keys]) simp_all

theorem DSA_contexts_typed_witness:
  "\<exists>cx. DSA_CreateSignContext (\<lambda>_. True) True example_dsa_private = Inr cx \<and>
    dsas_typed (octets_val (pqg_prime (dsk_params example_dsa_private))) (octets_val (pqg_subPrime (dsk_params example_dsa_private)))
      (octets_val (pqg_base (dsk_params example_dsa_private))) (octets_val (dsk_privateValue example_dsa_private)) cx \<and>
    0 + (if dsas_state cx = 2 then 1 else 0) \<le> (0 :: nat) \<and>
    (\<exists>r. DSA_Presign (\<lambda>_. True) cx (replicate 20 1) = Inr r \<or> (\<exists>e. DSA_Presign (\<lambda>_. True) cx (replicate 20 1) = Inl (e, Some r))) \<and>
    (\<exists>r. DSA_Sign (\<lambda>_. True) cx 40 (replicate 20 7) = Inr r \<or> (\<exists>e. DSA_Sign (\<lambda>_. True) cx 40 (replicate 20 7) = Inl (e, Some (fst r))))"
proof -
  obtain cx where cx: "DSA_CreateSignContext (\<lambda>_. True) True example_dsa_private = Inr cx"
    using DSA_contexts_created [where mem = "\<lambda>_. True", OF TrueI example_dsa_keys] by blast
  have r: "dsa_reaches (\<lambda>_. True) example_dsa_private cx 0 0" by (rule dsa_reaches.created [OF cx])
  have len: "20 \<le> length (replicate 20 (1 :: u8))" by simp
  from cx DSA_contexts_typed [where mem = "\<lambda>_. True", OF TrueI r len, of 40 "replicate 20 7"] show ?thesis by blast
qed

theorem DSA_refused_presign_leaks_key_witness:
  "\<exists>scx scx1 scx2. DSA_CreateSignContext (\<lambda>_. True) True example_dsa_private = Inr scx \<and>
    DSA_Presign (\<lambda>_. True) scx (replicate 20 1) = Inr scx1 \<and>
    DSA_Presign (\<lambda>_. True) scx1 (replicate 20 0) = Inl (DSA_NEED_RANDOM, Some scx2) \<and>
    (case DSA_Sign (\<lambda>_. True) scx2 40 (replicate 20 7) of
       Inl (e, _) \<Rightarrow> e = DSA_NEED_RANDOM \<and>
         2 ^ 159 dvd 5 * ((2 ^ octets_val (replicate 20 1) mod (2 ^ 256 - 1)) mod 2 ^ 159) + octets_val (replicate 20 7)
     | Inr (scx3, signature) \<Rightarrow>
         let r = octets_val (take 20 signature); s = octets_val (drop 20 signature)
         in r = (2 ^ octets_val (replicate 20 1) mod (2 ^ 256 - 1)) mod 2 ^ 159 \<and> s = (5 * r + octets_val (replicate 20 7)) mod 2 ^ 159 \<and>
            (\<forall>ri. r * ri mod 2 ^ 159 = 1 \<longrightarrow> 5 = (s + (2 ^ 159 - octets_val (replicate 20 7) mod 2 ^ 159)) * ri mod 2 ^ 159))"
proof (rule DSA_refused_presign_leaks_key [where mem = "\<lambda>_. True", OF TrueI example_dsa_keys])
  have "odd (octets_le (replicate (Suc n) 1))" for n by simp
  from this [of 19] have "odd (octets_val (replicate 20 1))" by (simp add: octets_val_def)
  then show "coprime (octets_val (replicate 20 1)) (2 ^ 159)"
    by (simp only: coprime_power_right_iff coprime_right_2_iff_odd simp_thms)
qed simp_all

end
