(* ===== verification/Newsrc.thy ===== *)
theory Newsrc
  imports Prelude
begin

text \<open>
  The sets of article numbers of lib/libmsg/newsrc.c. An \<open>int32\<close> is an \<open>int\<close>: the code
  computes with article numbers and their differences only, and relies on their fitting. \<open>data\<close>
  is the active area, its length the field \<open>length\<close>; the pointers \<open>head\<close>, \<open>tail\<close> and \<open>end\<close> that
  walk over it are the list that is left, and an index where the code keeps one.
  A read of \<open>tail[1]\<close> is \<open>hd\<close> of what follows. Allocations are parameters that say
  whether they succeed; the null ns pointer is left out.
\<close>

record NewsRCSet =
  nr_name :: "string option"
  nr_subscribed :: bool
  nr_data :: "int list"
  nr_data_size :: nat
  nr_cached_value :: int
  nr_cached_index :: nat

definition msg_MakeNewsrcSet :: "bool \<Rightarrow> bool \<Rightarrow> NewsRCSet option" where
  "msg_MakeNewsrcSet mem data_mem =
     (if mem \<and> data_mem
      then Some \<lparr>nr_name = None, nr_subscribed = False, nr_data = [], nr_data_size = 10,
                 nr_cached_value = -1, nr_cached_index = 0\<rparr>
      else None)"

definition msg_grow_newsrc_set :: "bool \<Rightarrow> NewsRCSet \<Rightarrow> NewsRCSet option" where
  "msg_grow_newsrc_set mem ns = (if mem then Some (ns\<lparr>nr_data_size := nr_data_size ns * 2\<rparr>) else None)"

text \<open>The result is the destination and the status.\<close>

definition msg_CopySet :: "bool \<Rightarrow> NewsRCSet \<Rightarrow> NewsRCSet \<Rightarrow> NewsRCSet \<times> int" where
  "msg_CopySet mem dest source =
     (if nr_name dest \<noteq> None \<and> nr_name source \<noteq> None then (dest, -1)
      else let small = nr_data_size dest < length (nr_data source);
               dest = (if small then dest\<lparr>nr_data_size := max 10 (length (nr_data source))\<rparr> else dest)
           in if small \<and> \<not> mem then (dest\<lparr>nr_data := []\<rparr>, MK_OUT_OF_MEMORY)
              else (dest\<lparr>nr_data := nr_data source, nr_cached_value := -1,
                         nr_subscribed := nr_subscribed source\<rparr>, 0))"

definition msg_GetSubscribed :: "NewsRCSet \<Rightarrow> bool" where
  "msg_GetSubscribed ns = nr_subscribed ns"

definition msg_SetSubscribed :: "NewsRCSet \<Rightarrow> bool \<Rightarrow> NewsRCSet" where
  "msg_SetSubscribed ns v = ns\<lparr>nr_subscribed := v\<rparr>"

definition msg_FirstUnreadArt :: "NewsRCSet \<Rightarrow> int" where
  "msg_FirstUnreadArt ns =
     (let d = nr_data ns
      in if length d \<le> 0 then 1
         else if d ! 0 < 0 \<and> d ! 1 \<noteq> 1 \<and> d ! 1 \<noteq> 0 then 1
         else if d ! 0 < 0 then d ! 1 - d ! 0 + 1
         else 1)"

section \<open>Compression\<close>

text \<open>
  The inner loop of \<open>msg_OptimizeNewsRCSet\<close>: as long as the input continues the chunk at
  the end of the output, extend it. Returns what is left of the input, and the output.
\<close>

function opt_extend :: "int list \<Rightarrow> bool \<Rightarrow> int \<Rightarrow> int \<Rightarrow> int list \<Rightarrow> int list \<times> int list" where
  "opt_extend inp range_p from to out =
     (case inp of
        [] \<Rightarrow> (inp, out)
      | x # t \<Rightarrow>
          if (x > 0 \<and> x = to + 1) \<or> (x \<le> 0 \<and> hd t = to + 1)
          then (let out = (if \<not> range_p then butlast out @ [0, from] else out);
                    n = length out - 2
                in if x > 0 then opt_extend t True from (to + 1) (out[n := out ! n - 1])
                   else (let L2 = (- x) + 1
                         in opt_extend (tl t) True from (to + L2) (out[n := out ! n - L2])))
          else (inp, out))"
  by pat_completeness auto
termination
  by (relation "measure (\<lambda>(inp, range_p, from, to, out). length inp)") auto

declare opt_extend.simps [simp del]

lemma opt_extend_length: "length (fst (opt_extend inp range_p from to out)) \<le> length inp"
proof (induction inp range_p "from" to out rule: opt_extend.induct)
  case (1 inp range_p "from" to out)
  show ?case
  proof (cases inp)
    case (Cons x t)
    with 1 show ?thesis
      by (subst opt_extend.simps) (force simp: Let_def)
  qed (simp add: opt_extend.simps)
qed

text \<open>The outer loop; \<open>cap\<close> is \<open>output_size\<close>.\<close>

function opt_copy :: "nat \<Rightarrow> int list \<Rightarrow> int list \<Rightarrow> c_error + int list" where
  "opt_copy cap inp out =
     (case inp of
        [] \<Rightarrow> Inr out
      | x # t \<Rightarrow>
          (let range_p = x < 0;
               from = (if range_p then hd t else x);
               to = (if range_p then from + (- x) else from);
               out = (if range_p then out @ [x, hd t] else out @ [x]);
               inp = (if range_p then tl t else t)
           in if length out \<ge> cap then Inl ABORT
              else (case opt_extend inp range_p from to out of
                      (inp, out) \<Rightarrow> opt_copy cap inp out)))"
  by pat_completeness auto
termination
proof (relation "measure (\<lambda>(cap, inp, out). length inp)")
  fix inp out2 inp1 out1 :: "int list" and cap :: nat and x :: int and t and range_p and "from" to and inp2 and out3
  assume a: "inp = x # t" "range_p = (x < 0)" "inp1 = (if range_p then tl t else t)"
    "(inp2, out3) = opt_extend inp1 range_p from to out1"
  have "length inp2 \<le> length inp1"
    using opt_extend_length [of inp1 range_p "from" to out1] a by (metis fst_conv)
  moreover have "length inp1 < length inp" using a by auto
  ultimately show "((cap, inp2, out3), cap, inp, out2) \<in> measure (\<lambda>(cap, inp, out). length inp)"
    by simp
qed simp

declare opt_copy.simps [simp del]

text \<open>The last pass, [N - N+1] into [N, N+1].\<close>

fun opt_pairs :: "int list \<Rightarrow> int list" where
  "opt_pairs (x # y # t) =
     (if x < 0 then (if x = -1 then y # (y + 1) # opt_pairs t else x # y # opt_pairs t)
      else x # opt_pairs (y # t))"
| "opt_pairs xs = xs"

definition msg_OptimizeNewsRCSet :: "bool \<Rightarrow> NewsRCSet \<Rightarrow> c_error + NewsRCSet \<times> bool" where
  "msg_OptimizeNewsRCSet mem ns =
     (if \<not> mem then Inr (ns, False)
      else (let output_size = length (nr_data ns) + 1
            in case opt_copy output_size (nr_data ns) [] of
                 Inl e \<Rightarrow> Inl e
               | Inr out \<Rightarrow> Inr (ns\<lparr>nr_cached_value := -1, nr_data := opt_pairs out,
                                    nr_data_size := output_size\<rparr>, True)))"

section \<open>Membership\<close>

text \<open>The loop, with the index \<open>tail - head\<close> it ends at.\<close>

fun IsRead_scan :: "int list \<Rightarrow> nat \<Rightarrow> int \<Rightarrow> bool \<times> nat" where
  "IsRead_scan [] i number = (False, i)"
| "IsRead_scan (x # t) i number =
     (if x < 0
      then (let from = hd t; to = from + (- x)
            in if from > number then (False, i)
               else if to \<ge> number then (True, i)
               else IsRead_scan (tl t) (i + 2) number)
      else if x = number then (True, i)
      else if x > number then (False, i)
      else IsRead_scan t (i + 1) number)"

definition msg_NewsRCIsRead :: "NewsRCSet \<Rightarrow> int \<Rightarrow> NewsRCSet \<times> bool" where
  "msg_NewsRCIsRead ns number =
     (let start = (if nr_cached_value ns > 0 \<and> nr_cached_value ns < number
                   then nr_cached_index ns else 0);
          (v, i) = IsRead_scan (drop start (nr_data ns)) start number
      in (ns\<lparr>nr_cached_value := number, nr_cached_index := i\<rparr>, v))"

section \<open>Adding and removing\<close>

text \<open>
  The search of \<open>msg_MarkArtAsRead\<close>: \<open>None\<close> if the number is present, otherwise the index where
  it is inserted.
\<close>

fun MarkRead_scan :: "int list \<Rightarrow> nat \<Rightarrow> int \<Rightarrow> nat option" where
  "MarkRead_scan [] i number = Some i"
| "MarkRead_scan (x # t) i number =
     (if x < 0
      then (let from = hd t; to = from + (- x)
            in if from \<le> number \<and> to \<ge> number then None
               else if to > number then Some i
               else MarkRead_scan (tl t) (i + 2) number)
      else if x = number then None
      else if x > number then Some i
      else MarkRead_scan t (i + 1) number)"

text \<open>The result of \<open>msg_OptimizeNewsRCSet\<close> is not looked at: the status is 1 in any case.\<close>

definition optimized :: "bool \<Rightarrow> NewsRCSet \<Rightarrow> c_error + NewsRCSet \<times> int" where
  "optimized mem ns = map_sum id (\<lambda>(ns, ok). (ns, 1)) (msg_OptimizeNewsRCSet mem ns)"

definition msg_MarkArtAsRead :: "bool \<Rightarrow> bool \<Rightarrow> NewsRCSet \<Rightarrow> int \<Rightarrow> c_error + NewsRCSet \<times> int" where
  "msg_MarkArtAsRead grow_mem opt_mem ns number =
     (if number < 0 then Inr (ns, 0)
      else (let ns = ns\<lparr>nr_cached_value := -1\<rparr>
            in case MarkRead_scan (nr_data ns) 0 number of
                 None \<Rightarrow> Inr (ns, 0)
               | Some mid \<Rightarrow>
                   (let grown = (if nr_data_size ns \<le> length (nr_data ns) + 1
                                 then msg_grow_newsrc_set grow_mem ns else Some ns)
                    in case grown of
                         None \<Rightarrow> Inr (ns, MK_OUT_OF_MEMORY)
                       | Some ns \<Rightarrow>
                           optimized opt_mem
                             (ns\<lparr>nr_data := take mid (nr_data ns) @ number # drop mid (nr_data ns)\<rparr>))))"

text \<open>
  The search of \<open>msg_MarkArtAsUnread\<close>: the index of the chunk that holds the number.
\<close>

fun MarkUnread_scan :: "int list \<Rightarrow> nat \<Rightarrow> int \<Rightarrow> nat option" where
  "MarkUnread_scan [] i number = None"
| "MarkUnread_scan (x # t) i number =
     (if x < 0
      then (let from = hd t; to = from + (- x)
            in if number < from \<or> number > to then MarkUnread_scan (tl t) (i + 2) number
               else Some i)
      else if x \<noteq> number then MarkUnread_scan t (i + 1) number
      else Some i)"

text \<open>Closing the gap at index \<open>i\<close>: everything behind moves down by one and the length shrinks.\<close>

definition excise :: "nat \<Rightarrow> int list \<Rightarrow> int list" where
  "excise i d = take i d @ drop (i + 1) d"

text \<open>
  The edit of a range in the middle: two ranges, of which one of length 0 becomes a literal.
\<close>

definition split_range :: "nat \<Rightarrow> int \<Rightarrow> int \<Rightarrow> int \<Rightarrow> int list \<Rightarrow> int list" where
  "split_range mid from to number d =
     (let d = take mid d @ [- (number - from - 1), from, - (to - number - 1), number + 1]
                @ drop (mid + 2) d;
          d = (if d ! mid = 0 then excise (mid + 1) (d[mid := d ! (mid + 1)]) else d)
      in if d ! (mid + 2) = 0 then excise (mid + 3) (d[mid + 2 := d ! (mid + 3)]) else d)"

definition msg_MarkArtAsUnread :: "bool \<Rightarrow> bool \<Rightarrow> NewsRCSet \<Rightarrow> int \<Rightarrow> c_error + NewsRCSet \<times> int" where
  "msg_MarkArtAsUnread grow_mem opt_mem ns number =
     (if number < 0 then Inr (ns, 0)
      else (let ns = ns\<lparr>nr_cached_value := -1\<rparr>; d = nr_data ns
            in case MarkUnread_scan d 0 number of
                 None \<Rightarrow> Inr (ns, 0)
               | Some mid \<Rightarrow>
                   if d ! mid < 0
                   then (let from = d ! (mid + 1); to = from + (- (d ! mid))
                         in if to = from + 1
                            then optimized opt_mem (ns\<lparr>nr_data := excise (mid + 1) (d[mid := number])\<rparr>)
                            else if to = from + 2
                            then optimized opt_mem
                                   (ns\<lparr>nr_data := (let d = d[mid := from, mid + 1 := to]
                                       in if from = number then d[mid := from + 1]
                                          else if to = number then d[mid + 1 := to - 1] else d)\<rparr>)
                            else if from = number
                            then optimized opt_mem
                                   (ns\<lparr>nr_data := d[mid := d ! mid + 1, mid + 1 := d ! (mid + 1) + 1]\<rparr>)
                            else if to = number
                            then optimized opt_mem (ns\<lparr>nr_data := d[mid := d ! mid + 1]\<rparr>)
                            else (case msg_grow_newsrc_set grow_mem ns of
                                    None \<Rightarrow> Inr (ns, MK_OUT_OF_MEMORY)
                                  | Some ns \<Rightarrow> optimized opt_mem
                                      (ns\<lparr>nr_data := split_range mid from to number d\<rparr>)))
                   else optimized opt_mem (ns\<lparr>nr_data := excise mid d\<rparr>)))"

section \<open>Ranges\<close>

definition msg_emit_range :: "int \<Rightarrow> int \<Rightarrow> int list" where
  "msg_emit_range a b = (if a = b then [a] else [- (b - a), a])"

text \<open>
  The loop of \<open>msg_MarkRangeAsRead\<close>: \<open>None\<close> if a chunk contains the range, otherwise the new data.
\<close>

function MarkRange_loop :: "int list \<Rightarrow> int \<Rightarrow> int \<Rightarrow> int list \<Rightarrow> int list option" where
  "MarkRange_loop inp start stop out =
     (case inp of
        [] \<Rightarrow> Some (out @ msg_emit_range start stop)
      | x # t \<Rightarrow>
          (let (a, b, rest) = (if x < 0 then (hd t, - x + hd t, tl t) else (x, x, t))
           in if a \<le> start \<and> b \<ge> stop then None
              else if start > b + 1 then MarkRange_loop rest start stop (out @ msg_emit_range a b)
              else if stop < a - 1 then Some (out @ msg_emit_range start stop @ msg_emit_range a b @ rest)
              else MarkRange_loop rest (if start < a then start else a) (if stop > b then stop else b) out))"
  by pat_completeness auto
termination
  by (relation "measure (\<lambda>(inp, start, stop, out). length inp)") (auto split: if_splits)

declare MarkRange_loop.simps [simp del]

definition msg_MarkRangeAsRead ::
  "bool \<Rightarrow> bool \<Rightarrow> bool \<Rightarrow> NewsRCSet \<Rightarrow> int \<Rightarrow> int \<Rightarrow> c_error + NewsRCSet \<times> int" where
  "msg_MarkRangeAsRead grow_mem opt_mem tmp_mem ns start stop =
     (let ns = ns\<lparr>nr_cached_value := -1\<rparr>
      in if start = stop then msg_MarkArtAsRead grow_mem opt_mem ns start
         else if \<not> tmp_mem then Inr (ns, MK_OUT_OF_MEMORY)
         else (case MarkRange_loop (nr_data ns) start stop [] of
                 None \<Rightarrow> Inr (ns, 0)
               | Some tmp \<Rightarrow>
                   if length tmp > length (nr_data ns) + 2 then Inl OUT_OF_BOUNDS
                   else Inr (ns\<lparr>nr_data := tmp, nr_data_size := length (nr_data ns) + 2\<rparr>, 1)))"

function MarkRangeUnread_loop ::
  "bool \<Rightarrow> bool \<Rightarrow> NewsRCSet \<Rightarrow> int \<Rightarrow> int \<Rightarrow> int \<Rightarrow> c_error + NewsRCSet \<times> int" where
  "MarkRangeUnread_loop grow_mem opt_mem ns start stop status =
     (if start \<le> stop
      then (case msg_MarkArtAsUnread grow_mem opt_mem ns start of
              Inl e \<Rightarrow> Inl e
            | Inr (ns, s2) \<Rightarrow>
                if s2 < 0 then Inr (ns, s2)
                else MarkRangeUnread_loop grow_mem opt_mem ns (start + 1) stop
                       (if s2 > 0 then 1 else status))
      else Inr (ns, status))"
  by pat_completeness auto
termination
  by (relation "measure (\<lambda>(g, m, ns, start, stop, status). nat (stop - start + 1))") auto

declare MarkRangeUnread_loop.simps [simp del]

definition msg_MarkRangeAsUnread ::
  "bool \<Rightarrow> bool \<Rightarrow> NewsRCSet \<Rightarrow> int \<Rightarrow> int \<Rightarrow> c_error + NewsRCSet \<times> int" where
  "msg_MarkRangeAsUnread grow_mem opt_mem ns start stop =
     MarkRangeUnread_loop grow_mem opt_mem (ns\<lparr>nr_cached_value := -1\<rparr>) start stop 0"

fun UnreadInRange_loop :: "int list \<Rightarrow> int \<Rightarrow> int \<Rightarrow> int \<Rightarrow> int" where
  "UnreadInRange_loop [] range_start range_end cnt = cnt"
| "UnreadInRange_loop (x # t) range_start range_end cnt =
     (if x < 0
      then (let from = hd t; to = from + (- x);
                from = (if from < range_start then range_start else from);
                to = (if to > range_end then range_end else to)
            in UnreadInRange_loop (tl t) range_start range_end
                 (if to \<ge> from then cnt - (to - from + 1) else cnt))
      else UnreadInRange_loop t range_start range_end
             (if x \<ge> range_start \<and> x \<le> range_end then cnt - 1 else cnt))"

definition msg_NewsRCUnreadInRange :: "NewsRCSet \<Rightarrow> int \<Rightarrow> int \<Rightarrow> int" where
  "msg_NewsRCUnreadInRange ns range_start range_end =
     UnreadInRange_loop (nr_data ns) range_start range_end (range_end - range_start + 1)"

text \<open>
  The loop of \<open>msg_FindNewsRCSetNonmemberRange\<close>, which need not end: \<open>None\<close> is that it does not.
\<close>

partial_function (option) FindNonmember_loop ::
  "NewsRCSet \<Rightarrow> int \<Rightarrow> int \<Rightarrow> int \<Rightarrow> (NewsRCSet \<times> int) option" where
  "FindNonmember_loop ns stop cnt range_size =
     (if cnt < range_size
      then (let (ns', v) = msg_NewsRCIsRead ns stop
            in FindNonmember_loop ns' (stop + 1) (if v then cnt + 1 else cnt) range_size)
      else Some (ns, stop))"

definition msg_FindNewsRCSetNonmemberRange :: "NewsRCSet \<Rightarrow> int \<Rightarrow> int \<Rightarrow> (NewsRCSet \<times> int) option" where
  "msg_FindNewsRCSetNonmemberRange ns start range_size = FindNonmember_loop ns start 0 range_size"

text \<open>The result is the status, \<open>*first\<close> and \<open>*last\<close>.\<close>

fun FirstUnread_loop :: "int list \<Rightarrow> int \<Rightarrow> int \<Rightarrow> int \<Rightarrow> int \<times> int" where
  "FirstUnread_loop [] to lo hi = (let a = to + 1 in (if a > lo then a else lo, hi))"
| "FirstUnread_loop (x # t) to lo hi =
     (let a = to + 1;
          from = (if x < 0 then hd t else x);
          to = (if x < 0 then from + (- x) else x);
          b = from - 1
      in if a > hi then (0, 0)
         else if a \<le> b \<and> b \<ge> lo then (if a > lo then a else lo, if b < hi then b else hi)
         else FirstUnread_loop (if x < 0 then tl t else t) to lo hi)"

definition msg_FirstUnreadRange :: "NewsRCSet \<Rightarrow> int \<Rightarrow> int \<Rightarrow> int \<times> int \<times> int" where
  "msg_FirstUnreadRange ns lo hi =
     (if lo > hi \<or> lo \<le> 0 then (-1, 0, 0) else (0, FirstUnread_loop (nr_data ns) 0 lo hi))"

fun LastUnread_loop :: "int list \<Rightarrow> int \<Rightarrow> int \<Rightarrow> int \<Rightarrow> int \<times> int \<Rightarrow> int \<times> int" where
  "LastUnread_loop [] to lo hi fl =
     (if to < hi then (let a = to + 1 in (if a > lo then a else lo, hi)) else fl)"
| "LastUnread_loop (x # t) to lo hi fl =
     (let a = to + 1;
          from = (if x < 0 then hd t else x);
          to = (if x < 0 then from + (- x) else x);
          b = from - 1
      in if a > hi then fl
         else LastUnread_loop (if x < 0 then tl t else t) to lo hi
                (if a \<le> b \<and> b \<ge> lo then (if a > lo then a else lo, if b < hi then b else hi) else fl))"

definition msg_LastUnreadRange :: "NewsRCSet \<Rightarrow> int \<Rightarrow> int \<Rightarrow> int \<times> int \<times> int" where
  "msg_LastUnreadRange ns lo hi =
     (if lo > hi \<or> lo \<le> 0 then (-1, 0, 0) else (0, LastUnread_loop (nr_data ns) 0 lo hi (0, 0)))"

section \<open>Reading and printing a line\<close>

text \<open>A C string is the list of its characters up to the terminating zero.\<close>

definition isspace :: "char \<Rightarrow> bool" where
  "isspace c = (c = CHR '' '' \<or> of_char c \<in> {9, 10, 11, 12, 13 :: nat})"

definition isdigit :: "char \<Rightarrow> bool" where
  "isdigit c = (48 \<le> (of_char c :: nat) \<and> (of_char c :: nat) \<le> 57)"

fun parse_num :: "int \<Rightarrow> string \<Rightarrow> int \<times> string" where
  "parse_num n [] = (n, [])"
| "parse_num n (c # cs) = (if isdigit c then parse_num (n * 10 + (of_char c - 48)) cs else (n, c # cs))"

lemma parse_num_length: "length (snd (parse_num n s)) \<le> length s"
  by (induction n s rule: parse_num.induct) auto

text \<open>One turn of the loop after the check for room: the numbers, and what is left of the line.\<close>

definition parse_range :: "string \<Rightarrow> int \<times> int \<times> string" where
  "parse_range s =
     (let (from, s) = parse_num 0 s;
          s = dropWhile isspace s;
          (to, s) = (if s = [] \<or> hd s \<noteq> CHR ''-'' then (from, s)
                     else (let (to, s) = parse_num 0 (tl s) in (to, dropWhile isspace s)));
          to = (if to < from then from else to);
          from = (if from = 1 then 0 else from)
      in (from, to, dropWhile (\<lambda>c. c = CHR '','' \<or> isspace c) s))"

lemma parse_range_length: "length (snd (snd (parse_range s))) \<le> length (snd (parse_num 0 s))"
proof -
  obtain n s1 where 1: "parse_num 0 s = (n, s1)" by (cases "parse_num 0 s")
  define s2 where "s2 = dropWhile isspace s1"
  obtain m s3 where 3: "parse_num 0 (tl s2) = (m, s3)" by (cases "parse_num 0 (tl s2)")
  define P where "P = (\<lambda>c. c = CHR '','' \<or> isspace c)"
  have "length s3 \<le> length (tl s2)" using parse_num_length [of 0 "tl s2"] 3 by simp
  moreover have "length s2 \<le> length s1" by (simp add: s2_def length_dropWhile_le)
  moreover have "length (dropWhile P (dropWhile isspace s3)) \<le> length s3"
    using length_dropWhile_le [of P "dropWhile isspace s3"] length_dropWhile_le [of isspace s3] by linarith
  moreover have "length (dropWhile P s2) \<le> length s2" by (rule length_dropWhile_le)
  moreover have "snd (snd (parse_range s)) = dropWhile P s2 \<or>
      snd (snd (parse_range s)) = dropWhile P (dropWhile isspace s3)"
    unfolding parse_range_def 1 Let_def prod.case P_def [symmetric] s2_def [symmetric] 3
    by (cases "s2 = [] \<or> hd s2 \<noteq> CHR ''-''") simp_all
  ultimately show ?thesis using 1 by auto
qed

lemma parse_num_shorter: "s \<noteq> [] \<Longrightarrow> isdigit (hd s) \<Longrightarrow> length (snd (parse_num n s)) < length s"
  using parse_num_length by (cases s) (auto simp: less_Suc_eq_le)

text \<open>
  The loop of \<open>msg_parse_newsrc_set\<close>: the data so far and the size of the block; \<open>mem\<close> says
  whether the block can grow.
\<close>

function parse_loop :: "bool \<Rightarrow> string \<Rightarrow> int list \<Rightarrow> nat \<Rightarrow> (int list \<times> nat) option" where
  "parse_loop mem s out sz =
     (if s = [] then Some (out, sz)
      else if length out + 4 \<ge> sz \<and> \<not> mem then None
      else (let sz = (if length out + 4 \<ge> sz then sz * 2 else sz);
                s' = dropWhile isspace s
            in if s' \<noteq> [] \<and> \<not> isdigit (hd s') then Some (out, sz)
               else (let (from, to, rest) = parse_range s'
                     in parse_loop mem rest
                          (if to = from then out @ [from] else out @ [- (to - from), from]) sz)))"
  by pat_completeness auto
termination
proof (relation "measure (\<lambda>(mem, s, out, sz). length s)")
  fix mem :: bool and s and out :: "int list" and sz sz' :: nat and s' p "from" q to rest
  assume a: "s \<noteq> []" "s' = dropWhile isspace s" "\<not> (s' \<noteq> [] \<and> \<not> isdigit (hd s'))"
    "p = parse_range s'" "(from, q) = p" "(to, rest) = q"
  have l: "length rest \<le> length (snd (parse_num 0 s'))"
    using parse_range_length [of s'] a by (metis snd_conv)
  have "length rest < length s"
  proof (cases "s' = []")
    case True
    with l a show ?thesis by simp
  next
    case False
    with a(3) have "isdigit (hd s')" by simp
    with False have "length (snd (parse_num 0 s')) < length s'" by (rule parse_num_shorter)
    moreover have "length s' \<le> length s" using a by (simp add: length_dropWhile_le)
    ultimately show ?thesis using l by simp
  qed
  then show "((mem, rest, if to = from then out @ [from] else out @ [- (to - from), from], sz'),
      mem, s, out, sz) \<in> measure (\<lambda>(mem, s, out, sz). length s)" by simp
qed simp

declare parse_loop.simps [simp del]

definition msg_parse_newsrc_set :: "bool \<Rightarrow> bool \<Rightarrow> string option \<Rightarrow> NewsRCSet option" where
  "msg_parse_newsrc_set mem grow_mem numbers =
     (case msg_MakeNewsrcSet mem mem of
        None \<Rightarrow> None
      | Some output \<Rightarrow>
          (case numbers of
             None \<Rightarrow> Some output
           | Some s \<Rightarrow>
               (case parse_loop grow_mem (dropWhile isspace s) [] (nr_data_size output) of
                  None \<Rightarrow> None
                | Some (d, sz) \<Rightarrow> Some (output\<lparr>nr_data := d, nr_data_size := sz\<rparr>))))"

text \<open>\<open>PR_snprintf\<close> of \<open>%lu\<close>.\<close>

fun decimal :: "nat \<Rightarrow> string" where
  "decimal n = (if n < 10 then [char_of (48 + n)] else decimal (n div 10) @ [char_of (48 + n mod 10)])"

declare decimal.simps [simp del]

text \<open>The loop that prints the chunks; \<open>last_art\<close> is the last number printed.\<close>

function format_loop :: "int list \<Rightarrow> int \<Rightarrow> string \<times> int" where
  "format_loop d last_art =
     (case d of
        [] \<Rightarrow> ([], last_art)
      | x # t \<Rightarrow>
          (let (from, to, rest) = (if x < 0 then (hd t, hd t + (- x), tl t) else (x, x, t));
               from = (if from = 0 then 1 else from);
               from = (if from \<le> last_art then last_art + 1 else from)
           in if from \<le> to
              then (let (s, l) = format_loop rest to
                    in ((if from < to then decimal (nat from) @ ''-'' @ decimal (nat to) @ '',''
                         else decimal (nat from) @ '','') @ s, l))
              else format_loop rest last_art))"
  by pat_completeness auto
termination
  by (relation "measure (\<lambda>(d, last_art). length d)") (auto split: if_splits)

declare format_loop.simps [simp del]

definition msg_format_newsrc_set :: "bool \<Rightarrow> NewsRCSet \<Rightarrow> string option" where
  "msg_format_newsrc_set mem ns =
     (if \<not> mem then None
      else (let name = (case nr_name ns of None \<Rightarrow> [] | Some nm \<Rightarrow> nm);
                prefix = (if name = [] then []
                          else name @ (if nr_subscribed ns then '':'' else ''!'')
                                 @ (if nr_data ns \<noteq> [] then '' '' else []));
                (s, last_art) = format_loop (nr_data ns) (-1);
                body = prefix @ (if last_art \<ge> 0 then butlast s else s)
            in Some (body @ [CHR 0x0A])))"

end
