(* ===== verification/Newsrc_Sets.thy ===== *)
theory Newsrc_Sets
  imports Newsrc
begin

text \<open>
  The sets of lib/libmsg/newsrc.c against their meaning: \<open>members\<close> is the abstraction of the
  data to a set of numbers and \<open>newsrc_ok\<close> the invariant (syntactically correct data and a cache
  that may be trusted). Each operation is shown to be the operation on sets.
\<close>

section \<open>What the data means\<close>

text \<open>The chunks as closed ranges, and the set of numbers they cover.\<close>

fun chunks :: "int list \<Rightarrow> (int \<times> int) list" where
  "chunks [] = []"
| "chunks (x # t) = (if x < 0 then (hd t, hd t - x) # chunks (tl t) else (x, x) # chunks t)"

fun members :: "int list \<Rightarrow> int set" where
  "members [] = {}"
| "members (x # t) = (if x < 0 then {hd t .. hd t - x} \<union> members (tl t) else insert x (members t))"

text \<open>
  Syntactic correctness, as the comment before \<open>msg_OptimizeNewsRCSet\<close> assumes it: every range
  is complete, and the chunks are in increasing order, from \<open>lo\<close> on.
\<close>

fun wf_from :: "int \<Rightarrow> int list \<Rightarrow> bool" where
  "wf_from lo [] = True"
| "wf_from lo (x # t) =
     (if x < 0 then t \<noteq> [] \<and> lo \<le> hd t \<and> wf_from (hd t - x + 1) (tl t) else lo \<le> x \<and> wf_from (x + 1) t)"

lemma wf_from_mono: "wf_from lo d \<Longrightarrow> lo' \<le> lo \<Longrightarrow> wf_from lo' d"
  by (cases d) auto

lemma members_ge: "wf_from lo d \<Longrightarrow> n \<in> members d \<Longrightarrow> lo \<le> n"
  by (induction lo d rule: wf_from.induct) (fastforce split: if_splits)+

lemma members_chunks: "members d = (\<Union>(a, b) \<in> set (chunks d). {a..b})"
  by (induction d rule: chunks.induct) auto

lemma finite_members: "finite (members d)"
  by (induction d rule: members.induct) auto

text \<open>Where the next chunk may start after a piece of data.\<close>

fun after :: "int \<Rightarrow> int list \<Rightarrow> int" where
  "after lo [] = lo"
| "after lo (x # t) = (if x < 0 then after (hd t - x + 1) (tl t) else after (x + 1) t)"

lemma wf_append: "wf_from lo p \<Longrightarrow> wf_from lo (p @ q) = wf_from (after lo p) q"
proof (induction lo p rule: wf_from.induct)
  case (2 lo x t)
  show ?case
  proof (cases "x < 0")
    case True
    with 2 obtain y u where "t = y # u" by (cases t) auto
    with 2 True show ?thesis by simp
  qed (use 2 in simp)
qed simp

lemma members_append: "wf_from lo p \<Longrightarrow> members (p @ q) = members p \<union> members q"
proof (induction lo p rule: wf_from.induct)
  case (2 lo x t)
  show ?case
  proof (cases "x < 0")
    case True
    with 2 obtain y u where "t = y # u" by (cases t) auto
    with 2 True show ?thesis by auto
  qed (use 2 in auto)
qed simp

lemma after_bounds: "wf_from lo p \<Longrightarrow> lo \<le> after lo p \<and> (\<forall>n \<in> members p. n < after lo p)"
proof (induction lo p rule: wf_from.induct)
  case (2 lo x t)
  show ?case
  proof (cases "x < 0")
    case True
    with 2 obtain y u where "t = y # u" by (cases t) auto
    with 2 True show ?thesis by force
  qed (use 2 in force)
qed simp

section \<open>Membership and its cache\<close>

lemma IsRead_scan_correct:
  "wf_from lo d \<Longrightarrow> IsRead_scan d i n = (v, j) \<Longrightarrow>
   v = (n \<in> members d) \<and> i \<le> j \<and> (\<exists>lo'. wf_from lo' (drop (j - i) d)) \<and>
   (\<forall>m \<ge> n. m \<in> members d \<longleftrightarrow> m \<in> members (drop (j - i) d))"
proof (induction lo d arbitrary: i rule: wf_from.induct)
  case (2 lo x t)
  show ?case
  proof (cases "x < 0")
    case True
    with 2 obtain y u where t: "t = y # u" by (cases t) auto
    with 2 True have y: "lo \<le> y" "wf_from (y - x + 1) u" by simp_all
    show ?thesis
    proof (cases "y > n \<or> y - x \<ge> n")
      case True
      with 2 \<open>x < 0\<close> t y show ?thesis
        using members_ge [OF y(2), of n] by (auto split: if_splits intro!: exI [of _ lo])
    next
      case False
      with 2 \<open>x < 0\<close> t have "IsRead_scan u (i + 2) n = (v, j)" by simp
      with 2(1) True t y have IH: "v = (n \<in> members u)" "i + 2 \<le> j"
        "\<exists>lo'. wf_from lo' (drop (j - (i + 2)) u)"
        "\<forall>m \<ge> n. m \<in> members u \<longleftrightarrow> m \<in> members (drop (j - (i + 2)) u)" by auto
      obtain k where k: "j = i + 2 + k" using IH(2) by (metis le_Suc_ex)
      from IH False True show ?thesis by (auto simp: t k)
    qed
  next
    case False
    with 2 have x: "lo \<le> x" "wf_from (x + 1) t" by simp_all
    show ?thesis
    proof (cases "x \<ge> n")
      case True
      with 2 False x show ?thesis
        using members_ge [OF x(2), of n] by (auto split: if_splits intro!: exI [of _ lo])
    next
      case lt: False
      with 2 False have "IsRead_scan t (i + 1) n = (v, j)" by simp
      with 2(2) False x have IH: "v = (n \<in> members t)" "i + 1 \<le> j"
        "\<exists>lo'. wf_from lo' (drop (j - (i + 1)) t)"
        "\<forall>m \<ge> n. m \<in> members t \<longleftrightarrow> m \<in> members (drop (j - (i + 1)) t)" by auto
      obtain k where k: "j = i + 1 + k" using IH(2) by (metis le_Suc_ex)
      from IH False lt show ?thesis by (auto simp: k)
    qed
  qed
qed auto

text \<open>
  The cache: from its index on the data still decides membership of every number that is not
  below the cached value.
\<close>

definition cache_ok :: "NewsRCSet \<Rightarrow> bool" where
  "cache_ok ns \<longleftrightarrow> nr_cached_value ns > 0 \<longrightarrow>
     (\<exists>lo. wf_from lo (drop (nr_cached_index ns) (nr_data ns))) \<and>
     (\<forall>m \<ge> nr_cached_value ns. m \<in> members (nr_data ns)
        \<longleftrightarrow> m \<in> members (drop (nr_cached_index ns) (nr_data ns)))"

definition newsrc_ok :: "NewsRCSet \<Rightarrow> bool" where
  "newsrc_ok ns \<longleftrightarrow> wf_from 0 (nr_data ns) \<and> cache_ok ns"

lemma cache_ok_unset [simp]: "nr_cached_value ns = -1 \<Longrightarrow> cache_ok ns"
  by (simp add: cache_ok_def)

lemma IsRead_correct:
  assumes "newsrc_ok ns" and "msg_NewsRCIsRead ns n = (ns', v)"
  shows "v = (n \<in> members (nr_data ns))" and "newsrc_ok ns'" and "nr_data ns' = nr_data ns"
proof -
  define s where "s = (if nr_cached_value ns > 0 \<and> nr_cached_value ns < n then nr_cached_index ns else 0)"
  obtain lo where wf: "wf_from lo (drop s (nr_data ns))"
    and mem: "\<forall>m \<ge> n. m \<in> members (nr_data ns) \<longleftrightarrow> m \<in> members (drop s (nr_data ns))"
    using assms(1) by (fastforce simp: newsrc_ok_def cache_ok_def s_def split: if_splits)
  obtain j where scan: "IsRead_scan (drop s (nr_data ns)) s n = (v, j)"
    and ns': "ns' = ns\<lparr>nr_cached_value := n, nr_cached_index := j\<rparr>"
    using assms(2) by (auto simp: msg_NewsRCIsRead_def s_def Let_def split: prod.splits)
  from IsRead_scan_correct [OF wf scan] mem show "v = (n \<in> members (nr_data ns))" by simp
  show "nr_data ns' = nr_data ns" by (simp add: ns')
  from IsRead_scan_correct [OF wf scan] mem assms(1) show "newsrc_ok ns'"
    by (auto simp: newsrc_ok_def cache_ok_def ns')
qed

section \<open>The compressed form\<close>

text \<open>Joining adjacent chunks: \<open>runs d\<close> are the maximal ranges.\<close>

fun join_from :: "int \<Rightarrow> int \<Rightarrow> (int \<times> int) list \<Rightarrow> (int \<times> int) list" where
  "join_from a b [] = [(a, b)]"
| "join_from a b ((c, d) # cs) = (if c = b + 1 then join_from a d cs else (a, b) # join_from c d cs)"

definition runs :: "int list \<Rightarrow> (int \<times> int) list" where
  "runs d = (case chunks d of [] \<Rightarrow> [] | (a, b) # cs \<Rightarrow> join_from a b cs)"

text \<open>How a range is written: at the end, and before the last pass.\<close>

definition enc :: "int \<times> int \<Rightarrow> int list" where
  "enc = (\<lambda>(a, b). if b = a then [a] else if b = a + 1 then [a, a + 1] else [- (b - a), a])"

definition pre_enc :: "int \<times> int \<Rightarrow> int list" where
  "pre_enc = (\<lambda>(a, b). if b = a then [a] else [- (b - a), a])"

definition canon :: "int list \<Rightarrow> int list" where
  "canon d = concat (map enc (runs d))"

text \<open>Ranges in order with at least one number missing between them.\<close>

fun gapped :: "int \<Rightarrow> (int \<times> int) list \<Rightarrow> bool" where
  "gapped lo [] = True"
| "gapped lo ((a, b) # cs) = (lo \<le> a \<and> a \<le> b \<and> gapped (b + 2) cs)"

lemma runs_Nil [simp]: "runs [] = []"
  by (simp add: runs_def)

lemma runs_Cons: "runs (x # t) = (if x < 0 then join_from (hd t) (hd t - x) (chunks (tl t)) else join_from x x (chunks t))"
  by (simp add: runs_def)

lemma join_from_chunks:
  "join_from a b (chunks inp) = (case inp of [] \<Rightarrow> [(a, b)]
     | x # t \<Rightarrow> if (if x < 0 then hd t else x) = b + 1
               then join_from a (if x < 0 then hd t - x else x) (chunks (if x < 0 then tl t else t))
               else (a, b) # runs inp)"
  by (cases inp) (auto simp: runs_Cons)

text \<open>The inner loop extends the chunk at the end of the output to its whole run.\<close>

lemma pre_enc_update:
  "(out @ [- (to - from), from])[length (out @ [- (to - from), from]) - 2 := y] = out @ [y, from]"
  "(out @ [- (to - from), from]) ! (length (out @ [- (to - from), from]) - 2) = - (to - from)"
  by (simp_all add: nth_append list_update_append)

lemma opt_extend_range:
  "wf_from (to + 1) inp \<Longrightarrow> 0 \<le> from \<Longrightarrow> from \<le> to \<Longrightarrow>
   \<exists>inp' to'. opt_extend inp True from to (out @ [- (to - from), from]) = (inp', out @ [- (to' - from), from]) \<and>
     to \<le> to' \<and> wf_from (to' + 1) inp' \<and> length inp' \<le> length inp \<and>
     (to < to' \<longrightarrow> length inp' < length inp) \<and>
     join_from from to (chunks inp) = (from, to') # runs inp'"
proof (induction "length inp" arbitrary: inp to rule: less_induct)
  case less
  show ?case
  proof (cases inp)
    case Nil
    with less show ?thesis by (simp add: opt_extend.simps)
  next
    case (Cons x t)
    show ?thesis
    proof (cases "x < 0")
      case True
      with less.prems Cons obtain y u where t: "t = y # u" by (cases t) auto
      have x: "\<not> x > 0" "x \<le> 0" using True by simp_all
      show ?thesis
      proof (cases "y = to + 1")
        case y: True
        have "opt_extend inp True from to (out @ [- (to - from), from])
            = opt_extend u True from (to - x + 1) (out @ [- (to - x + 1 - from), from])"
          using x y pre_enc_update [of out to "from"]
          by (subst opt_extend.simps) (simp add: Cons t Let_def algebra_simps)
        moreover have "wf_from (to - x + 1 + 1) u" using less.prems Cons t True y by (simp add: algebra_simps)
        moreover have "join_from from to (chunks inp) = join_from from (to - x + 1) (chunks u)"
          using True y by (simp add: Cons t algebra_simps)
        ultimately show ?thesis
          using less.hyps [of u "to - x + 1"] less.prems True by (fastforce simp: Cons t)
      next
        case False
        have "opt_extend inp True from to (out @ [- (to - from), from]) = (inp, out @ [- (to - from), from])"
          using x False by (subst opt_extend.simps) (simp add: Cons t)
        moreover have "join_from from to (chunks inp) = (from, to) # runs inp"
          using True False by (simp add: Cons t runs_Cons)
        ultimately show ?thesis using less.prems by blast
      qed
    next
      case False
      with less.prems Cons have x: "x > 0" "to + 1 \<le> x" by simp_all
      show ?thesis
      proof (cases "x = to + 1")
        case y: True
        have "opt_extend inp True from to (out @ [- (to - from), from])
            = opt_extend t True from (to + 1) (out @ [- (to + 1 - from), from])"
          using x y pre_enc_update [of out to "from"]
          by (subst opt_extend.simps) (simp add: Cons Let_def algebra_simps)
        moreover have "wf_from (to + 1 + 1) t" using less.prems Cons False y by (simp add: algebra_simps)
        moreover have "join_from from to (chunks inp) = join_from from (to + 1) (chunks t)"
          using False y by (simp add: Cons)
        ultimately show ?thesis
          using less.hyps [of t "to + 1"] less.prems by (fastforce simp: Cons)
      next
        case n: False
        have "opt_extend inp True from to (out @ [- (to - from), from]) = (inp, out @ [- (to - from), from])"
          using x n by (subst opt_extend.simps) (simp add: Cons)
        moreover have "join_from from to (chunks inp) = (from, to) # runs inp"
          using False n by (simp add: Cons runs_Cons)
        ultimately show ?thesis using less.prems by blast
      qed
    qed
  qed
qed

lemma opt_extend_literal:
  assumes "wf_from (n + 1) inp" and "0 \<le> n"
  shows "\<exists>inp' to'. opt_extend inp False n n (out @ [n]) = (inp', out @ pre_enc (n, to')) \<and>
     n \<le> to' \<and> wf_from (to' + 1) inp' \<and> length (pre_enc (n, to')) + length inp' \<le> Suc (length inp) \<and>
     join_from n n (chunks inp) = (n, to') # runs inp'"
proof (cases inp)
  case Nil
  with assms show ?thesis by (simp add: opt_extend.simps pre_enc_def)
next
  case (Cons x t)
  define c where "c \<longleftrightarrow> (x > 0 \<and> x = n + 1) \<or> (x \<le> 0 \<and> hd t = n + 1)"
  show ?thesis
  proof (cases c)
    case False
    then have "opt_extend inp False n n (out @ [n]) = (inp, out @ [n])"
      by (subst opt_extend.simps) (simp add: Cons flip: c_def)
    moreover have "join_from n n (chunks inp) = (n, n) # runs inp"
      using False assms by (auto simp: Cons c_def runs_Cons)
    ultimately show ?thesis using assms by (fastforce simp: pre_enc_def)
  next
    case True
    then have "opt_extend inp False n n (out @ [n]) = opt_extend inp True n n (out @ [- (n - n), n])"
      by (subst (1 2) opt_extend.simps) (simp add: Cons flip: c_def)
    with opt_extend_range [of n inp n out] assms obtain inp' to' where
      e: "opt_extend inp False n n (out @ [n]) = (inp', out @ [- (to' - n), n])"
      "n \<le> to'" "wf_from (to' + 1) inp'" "n < to' \<longrightarrow> length inp' < length inp"
      "join_from n n (chunks inp) = (n, to') # runs inp'" by auto
    have "n < to' \<and> length inp' < length inp"
    proof -
      define u where "u = (if x < 0 then tl t else t)"
      define m where "m = (if x < 0 then n + 1 - x else n + 1)"
      have "n < m \<and> join_from n n (chunks inp) = join_from n m (chunks u) \<and> wf_from (m + 1) u"
        using True assms by (auto simp: Cons c_def u_def m_def algebra_simps split: if_splits)
      then obtain m where m: "n < m" "join_from n m (chunks u) = (n, to') # runs inp'" "wf_from (m + 1) u"
        using e(5) by auto
      from opt_extend_range [of m u n "[]"] m assms have "m \<le> to'" by auto
      with m e(4) show ?thesis by auto
    qed
    with e show ?thesis by (fastforce simp: pre_enc_def)
  qed
qed


text \<open>The outer loop never aborts and writes the runs.\<close>

lemma opt_copy_runs:
  "wf_from lo d \<Longrightarrow> 0 \<le> lo \<Longrightarrow> length out + length d < cap \<Longrightarrow>
   opt_copy cap d out = Inr (out @ concat (map pre_enc (runs d)))"
proof (induction "length d" arbitrary: d lo out rule: less_induct)
  case less
  show ?case
  proof (cases d)
    case Nil
    then show ?thesis by (simp add: opt_copy.simps)
  next
    case (Cons x t)
    show ?thesis
    proof (cases "x < 0")
      case True
      with less.prems Cons obtain y u where t: "t = y # u" by (cases t) auto
      with less.prems True have y: "0 \<le> y" "wf_from (y - x + 1) u" by (simp_all add: Cons)
      with True opt_extend_range [of "y - x" u y out] obtain inp' to' where
        e: "opt_extend u True y (y - x) (out @ [x, y]) = (inp', out @ [- (to' - y), y])"
          "y - x \<le> to'" "wf_from (to' + 1) inp'" "length inp' \<le> length u"
          "join_from y (y - x) (chunks u) = (y, to') # runs inp'" by auto
      have p: "[- (to' - y), y] = pre_enc (y, to')" using e(2) True by (simp add: pre_enc_def)
      have "opt_copy cap d out = opt_copy cap inp' (out @ pre_enc (y, to'))"
        using less.prems True e(1) p by (subst opt_copy.simps) (simp add: Cons t)
      also have "\<dots> = Inr ((out @ pre_enc (y, to')) @ concat (map pre_enc (runs inp')))"
        using less.prems y True e by (intro less.hyps [of _ "to' + 1"]) (simp_all add: Cons t flip: p)
      finally show ?thesis using True e by (simp add: Cons t runs_Cons)
    next
      case False
      with less.prems have x: "0 \<le> x" "wf_from (x + 1) t" by (simp_all add: Cons)
      with opt_extend_literal [of x t out] obtain inp' to' where
        e: "opt_extend t False x x (out @ [x]) = (inp', out @ pre_enc (x, to'))"
          "x \<le> to'" "wf_from (to' + 1) inp'" "length (pre_enc (x, to')) + length inp' \<le> Suc (length t)"
          "join_from x x (chunks t) = (x, to') # runs inp'" by auto
      have "0 < length (pre_enc (x, to'))" by (simp add: pre_enc_def)
      with e(4) have l: "length inp' < Suc (length t)" by linarith
      have "opt_copy cap d out = opt_copy cap inp' (out @ pre_enc (x, to'))"
        using less.prems False e(1) by (subst opt_copy.simps) (simp add: Cons)
      also have "\<dots> = Inr ((out @ pre_enc (x, to')) @ concat (map pre_enc (runs inp')))"
        using less.prems x e l by (intro less.hyps [of _ "to' + 1"]) (auto simp: Cons)
      finally show ?thesis using False e by (simp add: Cons runs_Cons)
    qed
  qed
qed

lemma opt_pairs_enc:
  "\<forall>(a, b) \<in> set rs. 0 \<le> a \<and> a \<le> b \<Longrightarrow>
   opt_pairs (concat (map pre_enc rs)) = concat (map enc rs)"
proof (induction rs)
  case (Cons r rs)
  obtain a b where r: "r = (a, b)" by (cases r)
  have lit: "0 \<le> a \<Longrightarrow> opt_pairs (a # zs) = a # opt_pairs zs" for zs
    by (cases zs) simp_all
  from Cons show ?case
    by (auto simp: r pre_enc_def enc_def lit)
qed simp

lemma gapped_join:
  "wf_from (b + 1) d \<Longrightarrow> lo \<le> a \<Longrightarrow> a \<le> b \<Longrightarrow> gapped lo (join_from a b (chunks d))"
proof (induction d arbitrary: lo a b rule: chunks.induct)
  case (2 x t)
  show ?case
  proof (cases "x < 0")
    case True
    with 2 have w: "wf_from (hd t - x + 1) (tl t)" "b + 1 \<le> hd t" by simp_all
    with 2(1) [OF True w(1)] True 2 show ?thesis by auto
  next
    case False
    with 2 have w: "wf_from (x + 1) t" "b + 1 \<le> x" by simp_all
    with 2(2) [OF False w(1)] False 2 show ?thesis by auto
  qed
qed simp

lemma gapped_runs: "wf_from lo d \<Longrightarrow> gapped lo (runs d)"
  by (cases d) (auto simp: runs_Cons intro!: gapped_join)

lemma gapped_ge: "gapped lo cs \<Longrightarrow> (a, b) \<in> set cs \<Longrightarrow> lo \<le> a \<and> a \<le> b"
  by (induction lo cs rule: gapped.induct) force+

definition covers :: "(int \<times> int) list \<Rightarrow> int set" where
  "covers cs = (\<Union>(a, b) \<in> set cs. {a..b})"

lemma covers_Cons: "covers ((a, b) # cs) = {a..b} \<union> covers cs"
  by (simp add: covers_def)

lemma covers_join: "wf_from (b + 1) d \<Longrightarrow> a \<le> b \<Longrightarrow> covers (join_from a b (chunks d)) = {a..b} \<union> members d"
proof (induction d arbitrary: a b rule: chunks.induct)
  case (2 x t)
  show ?case
  proof (cases "x < 0")
    case True
    with 2 have w: "wf_from (hd t - x + 1) (tl t)" "b + 1 \<le> hd t" by simp_all
    with 2(1) [OF True w(1)] True 2 show ?thesis by (auto simp: covers_Cons)
  next
    case False
    with 2 have w: "wf_from (x + 1) t" "b + 1 \<le> x" by simp_all
    with 2(2) [OF False w(1)] False 2 show ?thesis by (auto simp: covers_Cons)
  qed
qed (simp add: covers_def)

lemma covers_runs: "wf_from lo d \<Longrightarrow> covers (runs d) = members d"
  by (cases d) (auto simp: runs_Cons covers_join, simp_all add: covers_def)

text \<open>A set of numbers has one list of maximal ranges.\<close>

lemma gapped_unique:
  "gapped lo cs \<Longrightarrow> gapped lo ds \<Longrightarrow> covers cs = covers ds \<Longrightarrow> cs = ds"
proof (induction lo cs arbitrary: ds rule: gapped.induct)
  case (1 lo)
  then show ?case by (cases ds) (auto simp: covers_def)
next
  case (2 lo a b cs)
  have ge: "gapped l es \<Longrightarrow> n \<in> covers es \<Longrightarrow> l \<le> n" for l es n
    using gapped_ge by (fastforce simp: covers_def)
  from 2 obtain c d es where ds: "ds = (c, d) # es" by (cases ds) (auto simp: covers_def)
  from 2 ds have g: "a \<le> b" "c \<le> d" "gapped (b + 2) cs" "gapped (d + 2) es" by simp_all
  have eq: "{a..b} \<union> covers cs = {c..d} \<union> covers es" using 2 ds by (simp add: covers_Cons)
  have mem: "n \<in> {a..b} \<union> covers cs \<longleftrightarrow> n \<in> {c..d} \<union> covers es" for n using eq by simp
  have "a = c"
    using mem [of a] mem [of c] ge [OF g(3), of c] ge [OF g(4), of a] g(1,2) by force
  moreover have "b = d"
  proof (rule ccontr)
    assume "b \<noteq> d"
    then consider "b < d" | "d < b" by linarith
    then show False
      using mem [of "b + 1"] mem [of "d + 1"] ge [OF g(3), of "b + 1"] ge [OF g(4), of "d + 1"] g(1,2) \<open>a = c\<close>
      by cases force+
  qed
  moreover have "covers cs = covers es"
  proof (rule set_eqI)
    fix n
    show "n \<in> covers cs \<longleftrightarrow> n \<in> covers es"
      using mem [of n] ge [OF g(3), of n] ge [OF g(4), of n] \<open>a = c\<close> \<open>b = d\<close> by force
  qed
  ultimately show ?case using 2 ds g by simp
qed

text \<open>What the routine does to a set that is syntactically correct.\<close>

lemma Optimize_canon:
  assumes "wf_from 0 (nr_data ns)"
  shows "msg_OptimizeNewsRCSet True ns = Inr (ns\<lparr>nr_cached_value := -1, nr_data := canon (nr_data ns),
           nr_data_size := length (nr_data ns) + 1\<rparr>, True)"
proof -
  have "\<forall>(a, b) \<in> set (runs (nr_data ns)). 0 \<le> a \<and> a \<le> b"
    using gapped_ge [OF gapped_runs [OF assms]] by auto
  with opt_copy_runs [OF assms, of "[]" "length (nr_data ns) + 1"] opt_pairs_enc show ?thesis
    by (simp add: msg_OptimizeNewsRCSet_def canon_def)
qed

lemma canon_unique:
  assumes "wf_from lo d" and "wf_from lo e" and "members d = members e"
  shows "canon d = canon e"
  using gapped_unique [OF gapped_runs [OF assms(1)] gapped_runs [OF assms(2)]] assms
  by (simp add: canon_def covers_runs)

lemma canon_enc:
  "gapped lo rs \<Longrightarrow> 0 \<le> lo \<Longrightarrow> wf_from lo (concat (map enc rs)) \<and> members (concat (map enc rs)) = covers rs"
proof (induction lo rs rule: gapped.induct)
  case (2 lo a b rs)
  then have IH: "wf_from (b + 2) (concat (map enc rs))" "members (concat (map enc rs)) = covers rs" by auto
  have w: "wf_from (b + 1) (concat (map enc rs))" by (rule wf_from_mono [OF IH(1)]) simp
  from 2 IH w show ?case
    by (auto simp: enc_def covers_Cons)
qed (simp add: covers_def)

lemma wf_canon: "wf_from lo d \<Longrightarrow> 0 \<le> lo \<Longrightarrow> wf_from lo (canon d)"
  and members_canon: "wf_from lo d \<Longrightarrow> 0 \<le> lo \<Longrightarrow> members (canon d) = members d"
  using canon_enc [OF gapped_runs] by (auto simp: canon_def covers_runs)

lemma canon_canon: "wf_from lo d \<Longrightarrow> 0 \<le> lo \<Longrightarrow> canon (canon d) = canon d"
  by (rule canon_unique [of lo]) (simp_all add: wf_canon members_canon)

section \<open>Adding and removing a number\<close>

lemma optimized_ok:
  assumes "wf_from 0 (nr_data ns)" and "nr_cached_value ns = -1"
  shows "\<exists>ns'. optimized mem ns = Inr (ns', 1) \<and> newsrc_ok ns' \<and>
    members (nr_data ns') = members (nr_data ns) \<and> (mem \<longrightarrow> nr_data ns' = canon (nr_data ns))"
proof (cases mem)
  case True
  with Optimize_canon [OF assms(1)] assms show ?thesis
    by (simp add: optimized_def newsrc_ok_def wf_canon [where lo = 0] members_canon [where lo = 0])
next
  case False
  with assms show ?thesis
    by (simp add: optimized_def msg_OptimizeNewsRCSet_def newsrc_ok_def)
qed

lemma MarkRead_scan_None: "MarkRead_scan d i n = None \<Longrightarrow> n \<in> members d"
  by (induction d i n rule: MarkRead_scan.induct) (auto simp: Let_def split: if_splits)

lemma MarkRead_scan_Some:
  "wf_from lo d \<Longrightarrow> lo \<le> n \<Longrightarrow> MarkRead_scan d i n = Some k \<Longrightarrow>
   \<exists>p q. d = p @ q \<and> k = i + length p \<and> wf_from lo p \<and> after lo p \<le> n \<and> wf_from (n + 1) q"
proof (induction lo d arbitrary: i rule: wf_from.induct)
  case (1 lo)
  then show ?case by simp
next
  case (2 lo x t)
  have stop: "\<exists>p q. x # t = p @ q \<and> k = i + length p \<and> wf_from lo p \<and> after lo p \<le> n \<and> wf_from (n + 1) q"
    if "k = i" "wf_from (n + 1) (x # t)"
    using that \<open>lo \<le> n\<close> by (intro exI [of _ "[]"] exI [of _ "x # t"]) simp
  show ?case
  proof (cases "x < 0")
    case True
    with 2 obtain y u where t: "t = y # u" by (cases t) auto
    with 2 True have y: "lo \<le> y" "wf_from (y - x + 1) u" by simp_all
    show ?thesis
    proof (cases "y - x < n")
      case False
      with 2 True y t show ?thesis by (intro stop) (auto split: if_splits)
    next
      case lt: True
      with 2 True t have "MarkRead_scan u (i + 2) n = Some k" by simp
      with 2(1) [of "i + 2"] True t y lt obtain p q where
        "u = p @ q" "k = i + 2 + length p" "wf_from (y - x + 1) p" "after (y - x + 1) p \<le> n" "wf_from (n + 1) q"
        by auto
      with True t y show ?thesis by (intro exI [of _ "x # y # p"] exI [of _ q]) simp
    qed
  next
    case False
    with 2 have x: "lo \<le> x" "wf_from (x + 1) t" by simp_all
    show ?thesis
    proof (cases "x < n")
      case ge: False
      with 2 False x show ?thesis by (intro stop) (auto split: if_splits)
    next
      case lt: True
      with 2 False have "MarkRead_scan t (i + 1) n = Some k" by simp
      with 2(2) [of "i + 1"] False x lt obtain p q where
        "t = p @ q" "k = i + 1 + length p" "wf_from (x + 1) p" "after (x + 1) p \<le> n" "wf_from (n + 1) q"
        by auto
      with False x show ?thesis by (intro exI [of _ "x # p"] exI [of _ q]) simp
    qed
  qed
qed

lemma insert_number:
  assumes "wf_from 0 p" and "after 0 p \<le> n" and "wf_from (n + 1) q" and "0 \<le> n"
  shows "wf_from 0 (p @ n # q)" and "members (p @ n # q) = insert n (members (p @ q))"
    and "n \<notin> members (p @ q)"
  using assms after_bounds [OF assms(1)] members_ge [OF assms(3), of n]
  by (auto simp: wf_append members_append)

lemma MarkArtAsRead_correct:
  assumes "newsrc_ok ns" and "0 \<le> n"
  shows "\<exists>ns' st. msg_MarkArtAsRead g m ns n = Inr (ns', st) \<and> newsrc_ok ns' \<and>
    (0 \<le> st \<longrightarrow> members (nr_data ns') = insert n (members (nr_data ns))) \<and>
    (st < 0 \<longrightarrow> nr_data ns' = nr_data ns \<and> \<not> g) \<and>
    (st = 0 \<longleftrightarrow> n \<in> members (nr_data ns)) \<and> st \<le> 1 \<and>
    (m \<longrightarrow> st = 1 \<longrightarrow> canon (nr_data ns') = nr_data ns') \<and> (st \<le> 0 \<longrightarrow> nr_data ns' = nr_data ns)"
proof -
  let ?d = "nr_data ns"
  have wf: "wf_from 0 ?d" using assms by (simp add: newsrc_ok_def)
  show ?thesis
  proof (cases "MarkRead_scan ?d 0 n")
    case None
    with MarkRead_scan_None wf assms(2) show ?thesis
      by (auto simp: msg_MarkArtAsRead_def newsrc_ok_def)
  next
    case (Some k)
    then obtain p q where d: "?d = p @ q" "k = length p"
      "wf_from 0 p" "after 0 p \<le> n" "wf_from (n + 1) q"
      using MarkRead_scan_Some [OF wf assms(2) Some] by auto
    note ins = insert_number [OF d(3,4,5) assms(2)]
    define ns1 where "ns1 = ns\<lparr>nr_cached_value := -1\<rparr>"
    define ns2 where "ns2 = (if nr_data_size ns \<le> length ?d + 1 then ns1\<lparr>nr_data_size := nr_data_size ns * 2\<rparr> else ns1)"
    show ?thesis
    proof (cases "nr_data_size ns \<le> length ?d + 1 \<and> \<not> g")
      case True
      with Some wf ins(3) assms(2) show ?thesis
        by (auto simp: msg_MarkArtAsRead_def newsrc_ok_def msg_grow_newsrc_set_def MK_OUT_OF_MEMORY_def d(1) [symmetric])
    next
      case False
      have "msg_MarkArtAsRead g m ns n = optimized m (ns2\<lparr>nr_data := p @ n # q\<rparr>)"
        using False Some assms(2)
        by (auto simp: msg_MarkArtAsRead_def msg_grow_newsrc_set_def ns1_def ns2_def d(1,2) Let_def)
      moreover have "nr_cached_value (ns2\<lparr>nr_data := p @ n # q\<rparr>) = -1" by (simp add: ns1_def ns2_def)
      ultimately show ?thesis
        using optimized_ok [of "ns2\<lparr>nr_data := p @ n # q\<rparr>" m] ins canon_canon [OF ins(1)] by (auto simp: d(1))
    qed
  qed
qed

text \<open>No range of two numbers is stored as a range.\<close>

fun no_pairs :: "int list \<Rightarrow> bool" where
  "no_pairs [] = True"
| "no_pairs (x # t) = (if x < 0 then x \<noteq> -1 \<and> no_pairs (tl t) else no_pairs t)"

lemma no_pairs_enc: "gapped lo rs \<Longrightarrow> 0 \<le> lo \<Longrightarrow> no_pairs (concat (map enc rs))"
  by (induction lo rs rule: gapped.induct) (auto simp: enc_def)

lemma no_pairs_canon: "wf_from lo d \<Longrightarrow> 0 \<le> lo \<Longrightarrow> no_pairs (canon d)"
  by (simp add: canon_def no_pairs_enc [OF gapped_runs])

text \<open>The chunk that holds the number.\<close>

lemma MarkUnread_scan_None: "MarkUnread_scan d i n = None \<Longrightarrow> n \<notin> members d"
  by (induction d i n rule: MarkUnread_scan.induct) (auto simp: Let_def split: if_splits)

lemma MarkUnread_scan_Some:
  "wf_from lo d \<Longrightarrow> no_pairs d \<Longrightarrow> MarkUnread_scan d i n = Some k \<Longrightarrow>
   \<exists>p q. k = i + length p \<and> wf_from lo p \<and>
     ((d = p @ n # q \<and> 0 \<le> n \<and> after lo p \<le> n \<and> wf_from (n + 1) q) \<or>
      (\<exists>x y. d = p @ x # y # q \<and> x < -1 \<and> after lo p \<le> y \<and> y \<le> n \<and> n \<le> y - x \<and> wf_from (y - x + 1) q))"
proof (induction lo d arbitrary: i rule: wf_from.induct)
  case (1 lo)
  then show ?case by simp
next
  case (2 lo x t)
  show ?case
  proof (cases "x < 0")
    case True
    with 2 obtain y u where t: "t = y # u" by (cases t) auto
    with 2 True have y: "lo \<le> y" "wf_from (y - x + 1) u" "x < -1" "no_pairs u" by simp_all
    show ?thesis
    proof (cases "n < y \<or> n > y - x")
      case False
      with 2 True t y show ?thesis by (intro exI [of _ "[]"] exI [of _ u]) auto
    next
      case out: True
      with 2 True t have "MarkUnread_scan u (i + 2) n = Some k" by auto
      with 2(1) [of "i + 2"] True t y obtain p q where k: "k = i + 2 + length p" and p: "wf_from (y - x + 1) p"
        and c: "(u = p @ n # q \<and> 0 \<le> n \<and> after (y - x + 1) p \<le> n \<and> wf_from (n + 1) q) \<or>
          (\<exists>a b. u = p @ a # b # q \<and> a < -1 \<and> after (y - x + 1) p \<le> b \<and> b \<le> n \<and> n \<le> b - a \<and> wf_from (b - a + 1) q)"
        by auto
      from k p c True t y show ?thesis
        by (intro exI [of _ "x # y # p"] exI [of _ q]) auto
    qed
  next
    case False
    with 2 have x: "lo \<le> x" "wf_from (x + 1) t" "no_pairs t" by simp_all
    show ?thesis
    proof (cases "x = n")
      case True
      with 2 False x show ?thesis by (intro exI [of _ "[]"] exI [of _ t]) auto
    next
      case ne: False
      with 2 False have "MarkUnread_scan t (i + 1) n = Some k" by auto
      with 2(2) [of "i + 1"] False x obtain p q where k: "k = i + 1 + length p" and p: "wf_from (x + 1) p"
        and c: "(t = p @ n # q \<and> 0 \<le> n \<and> after (x + 1) p \<le> n \<and> wf_from (n + 1) q) \<or>
          (\<exists>a b. t = p @ a # b # q \<and> a < -1 \<and> after (x + 1) p \<le> b \<and> b \<le> n \<and> n \<le> b - a \<and> wf_from (b - a + 1) q)"
        by auto
      from k p c False x show ?thesis
        by (intro exI [of _ "x # p"] exI [of _ q]) auto
    qed
  qed
qed

text \<open>Replacing a chunk by data \<open>c\<close> within its bounds.\<close>

lemma replace_chunk:
  assumes "wf_from 0 p" and "after 0 p \<le> a" and "wf_from a c" and "after a c \<le> b" and "wf_from b q"
  shows "wf_from 0 (p @ c @ q)" and "members (p @ c @ q) = members p \<union> members c \<union> members q"
proof -
  have "wf_from (after a c) q" by (rule wf_from_mono [OF assms(5,4)])
  then have "wf_from a (c @ q)" using assms(3) by (simp add: wf_append)
  then have "wf_from (after 0 p) (c @ q)" by (rule wf_from_mono [OF _ assms(2)])
  then show "wf_from 0 (p @ c @ q)" using assms(1) by (simp add: wf_append)
  show "members (p @ c @ q) = members p \<union> members c \<union> members q"
    using assms(1,3) by (auto simp: members_append)
qed

lemma remove_from_chunk:
  assumes "wf_from 0 p" and "after 0 p \<le> a" and "wf_from (b + 1) q" and "a \<le> n" and "n \<le> b"
    and c: "wf_from a c" "after a c \<le> b + 1" "members c = {a..b} - {n}"
    and d: "members d = members p \<union> {a..b} \<union> members q"
  shows "wf_from 0 (p @ c @ q)" and "members (p @ c @ q) = members d - {n}" and "n \<in> members d"
  using replace_chunk [OF assms(1,2) c(1,2) assms(3)] c(3) d assms(4,5) after_bounds [OF assms(1)] assms(2)
    members_ge [OF assms(3), of n]
  by (auto simp: disjoint_iff)

text \<open>What each of the edits of a range leaves in its place.\<close>

definition cut_chunk :: "int \<Rightarrow> int \<Rightarrow> int \<Rightarrow> int list" where
  "cut_chunk x y n =
     (if x = -2 then (if n = y then [y + 1, y + 2] else if n = y + 2 then [y, y - x - 1] else [y, y + 2])
      else if n = y then [x + 1, y + 1]
      else if n = y - x then [x + 1, y]
      else if n = y + 1 then [y, - (y - x - n - 1), n + 1]
      else if n = y - x - 1 then [- (n - y - 1), y, n + 1]
      else [- (n - y - 1), y, - (y - x - n - 1), n + 1])"

lemma cut_chunk_ok:
  assumes "x < -1" and "0 \<le> y" and "y \<le> n" and "n \<le> y - x"
  shows "wf_from y (cut_chunk x y n)" and "after y (cut_chunk x y n) \<le> y - x + 1"
    and "members (cut_chunk x y n) = {y..y - x} - {n}"
proof -
  show "wf_from y (cut_chunk x y n)" and "after y (cut_chunk x y n) \<le> y - x + 1"
    using assms by (auto simp: cut_chunk_def)
  show "members (cut_chunk x y n) = {y..y - x} - {n}"
    using assms by (auto simp: cut_chunk_def)
qed

lemma split_range_cut:
  assumes "x < -2" and "y < n" and "n < y - x" and "0 \<le> y"
  shows "split_range (length p) y (y - x) n (p @ x # y # q) = p @ cut_chunk x y n @ q"
  using assms
  by (auto simp: split_range_def cut_chunk_def excise_def Let_def nth_append list_update_append)

lemma MarkArtAsUnread_edit:
  assumes d: "nr_data ns = p @ x # y # q" and x: "x < -1" and y: "0 \<le> y" "y \<le> n" "n \<le> y - x"
    and s: "MarkUnread_scan (nr_data ns) 0 n = Some (length p)"
  shows "(\<exists>ns2. msg_MarkArtAsUnread g m ns n = optimized m (ns2\<lparr>nr_data := p @ cut_chunk x y n @ q\<rparr>) \<and>
            nr_cached_value ns2 = -1) \<or>
         (\<not> g \<and> msg_MarkArtAsUnread g m ns n = Inr (ns\<lparr>nr_cached_value := -1\<rparr>, MK_OUT_OF_MEMORY))"
proof -
  let ?ns = "ns\<lparr>nr_cached_value := -1\<rparr>"
  have idx: "(p @ z # y # q) ! length p = z" "(p @ z # y # q) ! Suc (length p) = y" for z
    by (simp_all add: nth_append)
  have n: "\<not> n < 0" using y by simp
  consider "x = -2" | "x < -2" "n = y" | "x < -2" "n = y - x" | "x < -2" "y < n" "n < y - x"
    using x y by linarith
  then show ?thesis
  proof cases
    case 1
    then have "msg_MarkArtAsUnread g m ns n = optimized m (?ns\<lparr>nr_data := p @ cut_chunk x y n @ q\<rparr>)"
      using s n y by (auto simp: msg_MarkArtAsUnread_def d idx cut_chunk_def list_update_append Let_def)
    then show ?thesis by (intro disjI1 exI [of _ ?ns]) simp
  next
    case 2
    then have "msg_MarkArtAsUnread g m ns n = optimized m (?ns\<lparr>nr_data := p @ cut_chunk x y n @ q\<rparr>)"
      using s n by (auto simp: msg_MarkArtAsUnread_def d idx cut_chunk_def list_update_append Let_def)
    then show ?thesis by (intro disjI1 exI [of _ ?ns]) simp
  next
    case 3
    then have "msg_MarkArtAsUnread g m ns n = optimized m (?ns\<lparr>nr_data := p @ cut_chunk x y n @ q\<rparr>)"
      using s n by (auto simp: msg_MarkArtAsUnread_def d idx cut_chunk_def list_update_append Let_def)
    then show ?thesis by (intro disjI1 exI [of _ ?ns]) simp
  next
    case 4
    show ?thesis
    proof (cases g)
      case True
      with 4 have "msg_MarkArtAsUnread g m ns n
          = optimized m (?ns\<lparr>nr_data_size := nr_data_size ns * 2, nr_data := p @ cut_chunk x y n @ q\<rparr>)"
        using s n split_range_cut [OF 4 y(1), of p q]
        by (auto simp: msg_MarkArtAsUnread_def d idx msg_grow_newsrc_set_def Let_def)
      then show ?thesis by (intro disjI1 exI [of _ "?ns\<lparr>nr_data_size := nr_data_size ns * 2\<rparr>"]) simp
    next
      case False
      with 4 s n show ?thesis
        by (auto simp: msg_MarkArtAsUnread_def d idx msg_grow_newsrc_set_def Let_def)
    qed
  qed
qed

lemma MarkArtAsUnread_correct:
  assumes "newsrc_ok ns" and "no_pairs (nr_data ns)" and "0 \<le> n"
  shows "\<exists>ns' st. msg_MarkArtAsUnread g m ns n = Inr (ns', st) \<and> newsrc_ok ns' \<and>
    (0 \<le> st \<longrightarrow> members (nr_data ns') = members (nr_data ns) - {n}) \<and>
    (st < 0 \<longrightarrow> nr_data ns' = nr_data ns \<and> \<not> g) \<and>
    (st = 0 \<longleftrightarrow> n \<notin> members (nr_data ns)) \<and> st \<le> 1 \<and>
    (m \<longrightarrow> st = 1 \<longrightarrow> canon (nr_data ns') = nr_data ns') \<and> (st \<le> 0 \<longrightarrow> nr_data ns' = nr_data ns)"
proof -
  let ?d = "nr_data ns"
  have wf: "wf_from 0 ?d" using assms by (simp add: newsrc_ok_def)
  show ?thesis
  proof (cases "MarkUnread_scan ?d 0 n")
    case None
    with MarkUnread_scan_None wf assms(3) show ?thesis
      by (auto simp: msg_MarkArtAsUnread_def newsrc_ok_def)
  next
    case (Some k)
    obtain p q where k: "k = length p" and p: "wf_from 0 p" and
      c: "(?d = p @ n # q \<and> 0 \<le> n \<and> after 0 p \<le> n \<and> wf_from (n + 1) q) \<or>
        (\<exists>x y. ?d = p @ x # y # q \<and> x < -1 \<and> after 0 p \<le> y \<and> y \<le> n \<and> n \<le> y - x \<and> wf_from (y - x + 1) q)"
      using MarkUnread_scan_Some [OF wf assms(2) Some] by auto
    have finish: ?thesis
      if e: "msg_MarkArtAsUnread g m ns n = optimized m (ns2\<lparr>nr_data := p @ c @ q\<rparr>)" "nr_cached_value ns2 = -1"
        and w: "wf_from 0 (p @ c @ q)" "members (p @ c @ q) = members ?d - {n}" "n \<in> members ?d"
      for c ns2
      using optimized_ok [of "ns2\<lparr>nr_data := p @ c @ q\<rparr>" m] e w canon_canon [OF w(1)] by auto
    from c show ?thesis
    proof
      assume l: "?d = p @ n # q \<and> 0 \<le> n \<and> after 0 p \<le> n \<and> wf_from (n + 1) q"
      then have "msg_MarkArtAsUnread g m ns n = optimized m (ns\<lparr>nr_cached_value := -1, nr_data := p @ [] @ q\<rparr>)"
        using Some k by (auto simp: msg_MarkArtAsUnread_def excise_def nth_append)
      then show ?thesis
        using l p remove_from_chunk [of p n n q n "[]" ?d]
        by (intro finish [of "[]" "ns\<lparr>nr_cached_value := -1\<rparr>"]) (auto simp: members_append)
    next
      assume "\<exists>x y. ?d = p @ x # y # q \<and> x < -1 \<and> after 0 p \<le> y \<and> y \<le> n \<and> n \<le> y - x \<and> wf_from (y - x + 1) q"
      then obtain x y where r: "?d = p @ x # y # q" "x < -1" "after 0 p \<le> y" "y \<le> n" "n \<le> y - x" "wf_from (y - x + 1) q"
        by blast
      have y: "0 \<le> y" using after_bounds [OF p] r(3) by simp
      note cut = remove_from_chunk [OF p r(3,6,4,5) cut_chunk_ok [OF r(2) y r(4,5)], of ?d]
      have mem: "members ?d = members p \<union> {y..y - x} \<union> members q"
        using r p by (auto simp: members_append)
      from MarkArtAsUnread_edit [OF r(1,2) y r(4,5) Some [unfolded k], of g m] show ?thesis
      proof
        assume "\<exists>ns2. msg_MarkArtAsUnread g m ns n = optimized m (ns2\<lparr>nr_data := p @ cut_chunk x y n @ q\<rparr>) \<and>
            nr_cached_value ns2 = -1"
        then obtain ns2 where "msg_MarkArtAsUnread g m ns n = optimized m (ns2\<lparr>nr_data := p @ cut_chunk x y n @ q\<rparr>)"
          "nr_cached_value ns2 = -1" by blast
        with cut [OF mem] show ?thesis by (intro finish)
      next
        assume "\<not> g \<and> msg_MarkArtAsUnread g m ns n = Inr (ns\<lparr>nr_cached_value := -1\<rparr>, MK_OUT_OF_MEMORY)"
        with cut(3) [OF mem] wf show ?thesis by (auto simp: newsrc_ok_def MK_OUT_OF_MEMORY_def)
      qed
    qed
  qed
qed

section \<open>Ranges\<close>

lemma emit_range:
  assumes "0 \<le> a" and "a \<le> b"
  shows "wf_from a (msg_emit_range a b)" and "after lo (msg_emit_range a b) = b + 1"
    and "members (msg_emit_range a b) = {a..b}" and "length (msg_emit_range a b) \<le> 2"
  using assms by (auto simp: msg_emit_range_def)

lemma after_append: "wf_from lo p \<Longrightarrow> after lo (p @ q) = after (after lo p) q"
proof (induction lo p rule: wf_from.induct)
  case (2 lo x t)
  show ?case
  proof (cases "x < 0")
    case True
    with 2 obtain y u where "t = y # u" by (cases t) auto
    with 2 True show ?thesis by simp
  qed (use 2 in simp)
qed simp

lemma append_range:
  assumes "wf_from 0 out" and "after 0 out \<le> a" and "a \<le> b"
  shows "wf_from 0 (out @ msg_emit_range a b)" and "after 0 (out @ msg_emit_range a b) = b + 1"
    and "members (out @ msg_emit_range a b) = members out \<union> {a..b}"
proof -
  have a: "0 \<le> a" using after_bounds [OF assms(1)] assms(2) by linarith
  note e = emit_range [OF a assms(3)]
  show "wf_from 0 (out @ msg_emit_range a b)"
    using wf_from_mono [OF e(1) assms(2)] assms(1) by (simp add: wf_append)
  show "after 0 (out @ msg_emit_range a b) = b + 1"
    using assms(1) e(2) by (simp add: after_append)
  show "members (out @ msg_emit_range a b) = members out \<union> {a..b}"
    using assms(1) e(3) by (simp add: members_append)
qed

text \<open>The first chunk of the input, and how many words it takes.\<close>

lemma wf_chunk:
  assumes "wf_from lo (x # t)" and "(a, b, rest) = (if x < 0 then (hd t, - x + hd t, tl t) else (x, x, t))"
  shows "lo \<le> a" and "a \<le> b" and "wf_from (b + 1) rest" and "members (x # t) = {a..b} \<union> members rest"
    and "length rest < length (x # t)"
    and "length (msg_emit_range a b) + length rest = length (x # t)"
proof -
  have c: "a = (if x < 0 then hd t else x)" "b = (if x < 0 then hd t - x else x)" "rest = (if x < 0 then tl t else t)"
    using assms(2) by (simp_all split: if_splits)
  show "lo \<le> a" "a \<le> b" "wf_from (b + 1) rest" "members (x # t) = {a..b} \<union> members rest"
    "length rest < length (x # t)"
    using assms(1) by (auto simp: c split: if_splits)
  show "length (msg_emit_range a b) + length rest = length (x # t)"
    using assms by (cases t) (auto simp: msg_emit_range_def split: if_splits)
qed

lemma MarkRange_loop_correct:
  "wf_from lo inp \<Longrightarrow> wf_from 0 out \<Longrightarrow> after 0 out \<le> lo \<Longrightarrow> after 0 out \<le> start \<Longrightarrow> start \<le> stop \<Longrightarrow>
   case MarkRange_loop inp start stop out of
     None \<Rightarrow> {start..stop} \<subseteq> members inp
   | Some r \<Rightarrow> wf_from 0 r \<and> members r = members out \<union> {start..stop} \<union> members inp \<and>
       length r \<le> length out + length inp + 2"
proof (induction "length inp" arbitrary: inp lo start stop out rule: less_induct)
  case less
  have s0: "0 \<le> start" using after_bounds [OF less.prems(2)] less.prems(4) by linarith
  note se = append_range [OF less.prems(2,4,5)] emit_range(4) [OF s0 less.prems(5)]
  show ?case
  proof (cases inp)
    case Nil
    with se show ?thesis by (simp add: MarkRange_loop.simps)
  next
    case (Cons x t)
    obtain a b rest where c: "(a, b, rest) = (if x < 0 then (hd t, - x + hd t, tl t) else (x, x, t))"
      by (cases "x < 0") auto
    note w = wf_chunk [OF less.prems(1) [unfolded Cons] c, folded Cons]
    have step: "MarkRange_loop inp start stop out =
      (if a \<le> start \<and> b \<ge> stop then None
       else if start > b + 1 then MarkRange_loop rest start stop (out @ msg_emit_range a b)
       else if stop < a - 1 then Some (out @ msg_emit_range start stop @ msg_emit_range a b @ rest)
       else MarkRange_loop rest (min start a) (max stop b) out)"
      by (subst MarkRange_loop.simps) (simp add: Cons c [symmetric] min_def max_def)
    have oa: "after 0 out \<le> a" using less.prems(3) w(1) by simp
    note ab = append_range [OF less.prems(2) oa w(2)]
    consider "a \<le> start \<and> b \<ge> stop" | "\<not> (a \<le> start \<and> b \<ge> stop)" "start > b + 1"
      | "\<not> (a \<le> start \<and> b \<ge> stop)" "\<not> start > b + 1" "stop < a - 1"
      | "\<not> (a \<le> start \<and> b \<ge> stop)" "\<not> start > b + 1" "\<not> stop < a - 1" by blast
    then show ?thesis
    proof cases
      case 1
      with w(4) show ?thesis by (auto simp: step)
    next
      case 2
      have "case MarkRange_loop rest start stop (out @ msg_emit_range a b) of
          None \<Rightarrow> {start..stop} \<subseteq> members rest
        | Some r \<Rightarrow> wf_from 0 r \<and> members r = members (out @ msg_emit_range a b) \<union> {start..stop} \<union> members rest \<and>
            length r \<le> length (out @ msg_emit_range a b) + length rest + 2"
        using w(3,5) ab 2 less.prems(5) by (intro less.hyps [of _ "b + 1"]) simp_all
      with 2 w(4,6) ab(3) show ?thesis by (auto simp: step split: option.splits)
    next
      case 3
      have a0: "0 \<le> a" using s0 3 less.prems(5) by linarith
      have "wf_from 0 ((out @ msg_emit_range start stop) @ msg_emit_range a b)"
        "after 0 ((out @ msg_emit_range start stop) @ msg_emit_range a b) = b + 1"
        "members ((out @ msg_emit_range start stop) @ msg_emit_range a b) = members out \<union> {start..stop} \<union> {a..b}"
        using append_range [OF se(1) _ w(2)] se(2,3) 3 by simp_all
      moreover from this w(3) have "wf_from 0 (((out @ msg_emit_range start stop) @ msg_emit_range a b) @ rest)"
        "members (((out @ msg_emit_range start stop) @ msg_emit_range a b) @ rest)
          = members out \<union> {start..stop} \<union> {a..b} \<union> members rest"
        by (simp_all only: wf_append members_append)
      ultimately show ?thesis using 3 w(4,6) se(4) by (auto simp: step)
    next
      case 4
      have "case MarkRange_loop rest (min start a) (max stop b) out of
          None \<Rightarrow> {min start a..max stop b} \<subseteq> members rest
        | Some r \<Rightarrow> wf_from 0 r \<and> members r = members out \<union> {min start a..max stop b} \<union> members rest \<and>
            length r \<le> length out + length rest + 2"
        using w oa less.prems by (intro less.hyps [of _ "b + 1"]) auto
      moreover have "{min start a..max stop b} = {start..stop} \<union> {a..b}"
        using 4 w(2) less.prems(5) by auto
      ultimately show ?thesis using 4 w(4,5) by (auto simp: step split: option.splits)
    qed
  qed
qed

lemma MarkRangeAsRead_correct:
  assumes "newsrc_ok ns" and "0 \<le> start" and "start \<le> stop"
  shows "\<exists>ns' st. msg_MarkRangeAsRead g m tmp ns start stop = Inr (ns', st) \<and> newsrc_ok ns' \<and>
    (0 \<le> st \<longrightarrow> members (nr_data ns') = members (nr_data ns) \<union> {start..stop}) \<and>
    (st < 0 \<longrightarrow> nr_data ns' = nr_data ns \<and> \<not> (g \<and> tmp)) \<and>
    (st = 0 \<longrightarrow> {start..stop} \<subseteq> members (nr_data ns)) \<and> st \<le> 1"
proof (cases "start = stop")
  case True
  have "newsrc_ok (ns\<lparr>nr_cached_value := -1\<rparr>)" using assms(1) by (simp add: newsrc_ok_def)
  from MarkArtAsRead_correct [OF this assms(2), of g m] True show ?thesis
    by (auto simp: msg_MarkRangeAsRead_def)
next
  case False
  have wf: "wf_from 0 (nr_data ns)" using assms by (simp add: newsrc_ok_def)
  show ?thesis
  proof (cases tmp)
    case True
    with False wf MarkRange_loop_correct [OF wf, of "[]" start stop] assms show ?thesis
      by (auto simp: msg_MarkRangeAsRead_def newsrc_ok_def split: option.splits)
  next
    case f: False
    with False wf show ?thesis
      by (simp add: msg_MarkRangeAsRead_def newsrc_ok_def MK_OUT_OF_MEMORY_def)
  qed
qed

lemma MarkRangeUnread_loop_correct:
  "newsrc_ok ns \<Longrightarrow> no_pairs (nr_data ns) \<Longrightarrow> 0 \<le> start \<Longrightarrow> status \<in> {0, 1} \<Longrightarrow>
   \<exists>ns' st. MarkRangeUnread_loop True True ns start stop status = Inr (ns', st) \<and> newsrc_ok ns' \<and>
     no_pairs (nr_data ns') \<and> members (nr_data ns') = members (nr_data ns) - {start..stop} \<and>
     (st = 0 \<longleftrightarrow> status = 0 \<and> members (nr_data ns) \<inter> {start..stop} = {}) \<and> st \<in> {0, 1}"
proof (induction "nat (stop - start + 1)" arbitrary: ns start status rule: less_induct)
  case less
  show ?case
  proof (cases "start \<le> stop")
    case True
    from MarkArtAsUnread_correct [OF less.prems(1,2,3), of True True] obtain ns1 s where
      1: "msg_MarkArtAsUnread True True ns start = Inr (ns1, s)" "newsrc_ok ns1"
        "members (nr_data ns1) = members (nr_data ns) - {start}"
        "s = 0 \<longleftrightarrow> start \<notin> members (nr_data ns)" "0 \<le> s" "s \<le> 1"
        "s = 1 \<longrightarrow> canon (nr_data ns1) = nr_data ns1" "s = 0 \<longrightarrow> nr_data ns1 = nr_data ns"
      by force
    have "s = 0 \<or> s = 1" using 1 by linarith
    then have p: "no_pairs (nr_data ns1)"
      using 1 less.prems no_pairs_canon [of 0 "nr_data ns1"] by (force simp: newsrc_ok_def)
    define s1 where "s1 = (if s > 0 then 1 else status)"
    have "s1 \<in> {0, 1}" "nat (stop - (start + 1) + 1) < nat (stop - start + 1)" "0 \<le> start + 1"
      using less.prems True by (auto simp: s1_def)
    from less.hyps [OF this(2) 1(2) p this(3,1)]
    obtain ns' st where 2: "MarkRangeUnread_loop True True ns1 (start + 1) stop s1 = Inr (ns', st)"
      "newsrc_ok ns'" "no_pairs (nr_data ns')" "members (nr_data ns') = members (nr_data ns1) - {start + 1..stop}"
      "st = 0 \<longleftrightarrow> s1 = 0 \<and> members (nr_data ns1) \<inter> {start + 1..stop} = {}" "st \<in> {0, 1}"
      by blast
    have iv: "{start..stop} = insert start {start + 1..stop}" using True by auto
    have "MarkRangeUnread_loop True True ns start stop status = Inr (ns', st)"
      using True 1(1,5) 2(1) by (subst MarkRangeUnread_loop.simps) (simp add: s1_def)
    moreover have "members (nr_data ns') = members (nr_data ns) - {start..stop}"
      using 2(4) 1(3) iv by auto
    moreover have "st = 0 \<longleftrightarrow> status = 0 \<and> members (nr_data ns) \<inter> {start..stop} = {}"
      unfolding 2(5) s1_def using 1(3,4,5) iv by auto
    ultimately show ?thesis using 2 by blast
  next
    case False
    with less.prems show ?thesis by (subst MarkRangeUnread_loop.simps) auto
  qed
qed

lemma UnreadInRange_loop_count:
  "wf_from lo d \<Longrightarrow> UnreadInRange_loop d s e cnt = cnt - int (card (members d \<inter> {s..e}))"
proof (induction lo d arbitrary: cnt rule: wf_from.induct)
  case (2 lo x t)
  show ?case
  proof (cases "x < 0")
    case True
    define a b where "a = hd t" and "b = hd t - x"
    from 2(3) True have w: "wf_from (b + 1) (tl t)" by (simp add: b_def)
    have split: "members (x # t) \<inter> {s..e} = {max a s..min b e} \<union> (members (tl t) \<inter> {s..e})"
      using True by (auto simp: a_def b_def)
    have disj: "{max a s..min b e} \<inter> (members (tl t) \<inter> {s..e}) = {}"
      using members_ge [OF w] by force
    have "card (members (x # t) \<inter> {s..e}) = card {max a s..min b e} + card (members (tl t) \<inter> {s..e})"
      unfolding split by (rule card_Un_disjoint) (use disj finite_members in auto)
    moreover have "UnreadInRange_loop (x # t) s e cnt
        = UnreadInRange_loop (tl t) s e (if min b e \<ge> max a s then cnt - (min b e - max a s + 1) else cnt)"
      using True by (simp add: a_def b_def min_def max_def Let_def)
    moreover have "\<dots> = (if min b e \<ge> max a s then cnt - (min b e - max a s + 1) else cnt)
        - int (card (members (tl t) \<inter> {s..e}))"
      using 2(1) [OF True w [unfolded b_def]] by blast
    ultimately show ?thesis by auto
  next
    case False
    from 2(3) False have w: "wf_from (x + 1) t" by simp
    have "x \<notin> members t" using members_ge [OF w, of x] by auto
    then have "card (members (x # t) \<inter> {s..e}) = (if s \<le> x \<and> x \<le> e then 1 else 0) + card (members t \<inter> {s..e})"
      using False finite_members by (auto simp: Int_insert_left)
    with 2(2) [OF False w] False show ?thesis by simp
  qed
qed simp

lemma UnreadInRange_correct:
  assumes "newsrc_ok ns" and "s \<le> e + 1"
  shows "msg_NewsRCUnreadInRange ns s e = int (card ({s..e} - members (nr_data ns)))"
proof -
  have "card ({s..e} - members (nr_data ns)) = card {s..e} - card (members (nr_data ns) \<inter> {s..e})"
    by (metis Int_commute card_Diff_subset_Int finite_Int finite_atLeastAtMost_int)
  moreover have "card (members (nr_data ns) \<inter> {s..e}) \<le> card {s..e}"
    by (intro card_mono) auto
  ultimately show ?thesis
    using assms UnreadInRange_loop_count [of 0 "nr_data ns" s e]
    by (simp add: msg_NewsRCUnreadInRange_def newsrc_ok_def)
qed

section \<open>Unread ranges\<close>

lemma if_max_min: "(if a > lo then a else lo) = max lo a" "(if b < hi then b else hi) = min b hi"
  for a b lo hi :: int
  by auto

lemma FirstUnread_loop_correct:
  "wf_from k d \<Longrightarrow> 0 \<le> k \<Longrightarrow> k \<le> to + 1 \<Longrightarrow> to \<le> k \<Longrightarrow> lo \<le> hi \<Longrightarrow>
   \<exists>n \<in> {max lo (to + 1)..hi}. n \<notin> members d \<Longrightarrow> FirstUnread_loop d to lo hi = (f, l) \<Longrightarrow>
   max lo (to + 1) \<le> f \<and> f \<le> l \<and> l \<le> hi \<and> {f..l} \<inter> members d = {} \<and>
   {max lo (to + 1)..<f} \<subseteq> members d \<and> (l = hi \<or> l + 1 \<in> members d)"
proof (induction "length d" arbitrary: d k to rule: less_induct)
  case less
  show ?case
  proof (cases d)
    case Nil
    with less.prems show ?thesis by (auto simp: Let_def max_def split: if_splits)
  next
    case (Cons x t)
    obtain a b rest where c: "(a, b, rest) = (if x < 0 then (hd t, - x + hd t, tl t) else (x, x, t))"
      by (cases "x < 0") auto
    note w = wf_chunk [OF less.prems(1) [unfolded Cons] c, folded Cons]
    have step: "FirstUnread_loop d to lo hi =
      (if to + 1 > hi then (0, 0)
       else if to + 1 \<le> a - 1 \<and> a - 1 \<ge> lo then (max lo (to + 1), min (a - 1) hi)
       else FirstUnread_loop rest b lo hi)"
      using c by (auto simp: Cons Let_def max_def min_def split: if_splits)
    have ge: "n \<in> members rest \<Longrightarrow> b + 1 \<le> n" for n by (rule members_ge [OF w(3)])
    show ?thesis
    proof (cases "to + 1 \<le> a - 1 \<and> a - 1 \<ge> lo")
      case True
      then have "f = max lo (to + 1)" "l = min (a - 1) hi"
        using less.prems(6,7) by (auto simp: step split: if_splits)
      moreover have "{f..l} \<inter> members d = {}" if "l \<le> a - 1" using that w(2,4) ge by fastforce
      moreover have "l = a - 1 \<Longrightarrow> l + 1 \<in> members d" using w(2,4) by simp
      ultimately show ?thesis using True less.prems(5,6) by (auto simp: min_def max_def)
    next
      case False
      obtain n where n: "max lo (to + 1) \<le> n" "n \<le> hi" "n \<notin> members d" using less.prems(6) by auto
      then have nb: "b + 1 \<le> n" using w(4) False by (auto simp: max_def split: if_splits)
      have r: "FirstUnread_loop rest b lo hi = (f, l)" using False less.prems(7) n by (auto simp: step split: if_splits)
      have "max lo (b + 1) \<le> f \<and> f \<le> l \<and> l \<le> hi \<and> {f..l} \<inter> members rest = {} \<and>
          {max lo (b + 1)..<f} \<subseteq> members rest \<and> (l = hi \<or> l + 1 \<in> members rest)"
        using w less.prems n nb r by (intro less.hyps [of rest "b + 1" b]) (auto intro!: bexI [of _ n])
      then have f: "max lo (b + 1) \<le> f" "f \<le> l" "l \<le> hi" "{f..l} \<inter> members rest = {}"
        "{max lo (b + 1)..<f} \<subseteq> members rest" "l = hi \<or> l + 1 \<in> members rest" by blast+
      have "{max lo (to + 1)..<f} \<subseteq> members d"
      proof
        fix m assume m: "m \<in> {max lo (to + 1)..<f}"
        show "m \<in> members d"
        proof (cases "m \<le> b")
          case True
          with m False w(4) show ?thesis by (auto simp: max_def split: if_splits)
        next
          case gt: False
          with m f(5) w(4) show ?thesis by auto
        qed
      qed
      moreover have "{f..l} \<inter> members d = {}" using f(1,4) w(4) by fastforce
      moreover have "max lo (to + 1) \<le> f" using f(1) w(1,2) less.prems(3,4) by linarith
      moreover have "l = hi \<or> l + 1 \<in> members d" using f(6) w(4) by auto
      ultimately show ?thesis using f(2,3) by blast
    qed
  qed
qed

lemma LastUnread_loop_correct:
  "wf_from k d \<Longrightarrow> 0 \<le> k \<Longrightarrow> k \<le> to + 1 \<Longrightarrow> to \<le> k \<Longrightarrow> lo \<le> hi \<Longrightarrow>
   LastUnread_loop d to lo hi fl = (f, l) \<Longrightarrow>
   (if \<exists>n \<in> {max lo (to + 1)..hi}. n \<notin> members d
    then max lo (to + 1) \<le> f \<and> f \<le> l \<and> l \<le> hi \<and> {f..l} \<inter> members d = {} \<and>
      {l + 1..hi} \<subseteq> members d \<and> (f = max lo (to + 1) \<or> f - 1 \<in> members d)
    else (f, l) = fl)"
proof (induction "length d" arbitrary: d k to fl rule: less_induct)
  case less
  show ?case
  proof (cases d)
    case Nil
    with less.prems show ?thesis by (auto simp: Let_def max_def split: if_splits)
  next
    case (Cons x t)
    obtain a b rest where c: "(a, b, rest) = (if x < 0 then (hd t, - x + hd t, tl t) else (x, x, t))"
      by (cases "x < 0") auto
    note w = wf_chunk [OF less.prems(1) [unfolded Cons] c, folded Cons]
    have abr: "a = (if x < 0 then hd t else x)" "b = (if x < 0 then hd t - x else x)"
      "rest = (if x < 0 then tl t else t)"
      using c by (simp_all split: if_splits)
    define fl' where "fl' = (if to + 1 \<le> a - 1 \<and> a - 1 \<ge> lo then (max lo (to + 1), min (a - 1) hi) else fl)"
    have step: "LastUnread_loop d to lo hi fl =
      (if to + 1 > hi then fl else LastUnread_loop rest b lo hi fl')"
      unfolding abr Cons fl'_def by (cases "x < 0") (simp_all add: Let_def if_max_min)
    have ge: "n \<in> members rest \<Longrightarrow> b + 1 \<le> n" for n by (rule members_ge [OF w(3)])
    show ?thesis
    proof (cases "to + 1 > hi")
      case True
      with less.prems(6) show ?thesis by (simp add: step)
    next
      case False
      then have r: "LastUnread_loop rest b lo hi fl' = (f, l)" using less.prems(6) by (simp add: step)
      have IH: "if \<exists>n \<in> {max lo (b + 1)..hi}. n \<notin> members rest
        then max lo (b + 1) \<le> f \<and> f \<le> l \<and> l \<le> hi \<and> {f..l} \<inter> members rest = {} \<and>
          {l + 1..hi} \<subseteq> members rest \<and> (f = max lo (b + 1) \<or> f - 1 \<in> members rest)
        else (f, l) = fl'"
        using w less.prems r by (intro less.hyps [of rest "b + 1" b]) auto
      show ?thesis
      proof (cases "\<exists>n \<in> {max lo (b + 1)..hi}. n \<notin> members rest")
        case True
        then obtain n where n: "max lo (b + 1) \<le> n" "n \<le> hi" "n \<notin> members rest" by auto
        then have ex: "\<exists>n \<in> {max lo (to + 1)..hi}. n \<notin> members d"
          using w less.prems(3,4) by (intro bexI [of _ n]) auto
        from True IH have f: "max lo (b + 1) \<le> f" "f \<le> l" "l \<le> hi" "{f..l} \<inter> members rest = {}"
          "{l + 1..hi} \<subseteq> members rest" "f = max lo (b + 1) \<or> f - 1 \<in> members rest" by auto
        have "{f..l} \<inter> members d = {}" using f(1,4) w(4) by fastforce
        moreover have "f = max lo (to + 1) \<or> f - 1 \<in> members d"
          using f(6) w less.prems(3,4) by (auto simp: max_def split: if_splits)
        moreover have "max lo (to + 1) \<le> f" using f(1) w(1,2) less.prems(3,4) by linarith
        ultimately show ?thesis using ex f w(4) by auto
      next
        case none: False
        with IH have fl: "(f, l) = fl'" by simp
        have rest: "n \<in> members d" if "a \<le> n" "n \<le> hi" "lo \<le> n" for n
          using that none w(4) by (cases "n \<le> b") auto
        show ?thesis
        proof (cases "to + 1 \<le> a - 1 \<and> a - 1 \<ge> lo")
          case True
          with fl have "f = max lo (to + 1)" "l = min (a - 1) hi" by (simp_all add: fl'_def)
          moreover have "\<exists>n \<in> {max lo (to + 1)..hi}. n \<notin> members d"
            using True False less.prems(5) w(2,4) ge by (intro bexI [of _ "max lo (to + 1)"]) force+
          moreover have "{f..l} \<inter> members d = {}" if "l \<le> a - 1" using that w(2,4) ge by fastforce
          ultimately show ?thesis using True False less.prems(5) rest by (auto simp: min_def max_def)
        next
          case nb: False
          have "\<not> (\<exists>n \<in> {max lo (to + 1)..hi}. n \<notin> members d)"
            using nb rest by (auto simp: max_def split: if_splits)
          moreover have "(f, l) = fl" using fl nb by (auto simp: fl'_def)
          ultimately show ?thesis by simp
        qed
      qed
    qed
  qed
qed

section \<open>The search for non-members\<close>

definition counts_enough :: "NewsRCSet \<Rightarrow> int \<Rightarrow> int \<Rightarrow> int \<Rightarrow> NewsRCSet \<times> int \<Rightarrow> bool" where
  "counts_enough ns e cnt rs r \<longleftrightarrow>
     newsrc_ok ns \<longrightarrow> snd r \<ge> e \<and> rs \<le> cnt + int (card (members (nr_data ns) \<inter> {e..<snd r}))"

lemma FindNonmember_counts_members:
  assumes "FindNonmember_loop ns e cnt rs = Some r"
  shows "counts_enough ns e cnt rs r"
proof (rule FindNonmember_loop.raw_induct [of counts_enough, OF _ assms])
  fix loop ns e cnt rs r
  assume IH: "\<And>ns e cnt rs r. loop ns e cnt rs = Some r \<Longrightarrow> counts_enough ns e cnt rs r"
    and body: "(if cnt < rs then let (ns', v) = msg_NewsRCIsRead ns e
        in loop ns' (e + 1) (if v then cnt + 1 else cnt) rs else Some (ns, e)) = Some r"
  show "counts_enough ns e cnt rs r"
    unfolding counts_enough_def
  proof
    assume ok: "newsrc_ok ns"
    show "snd r \<ge> e \<and> rs \<le> cnt + int (card (members (nr_data ns) \<inter> {e..<snd r}))"
    proof (cases "cnt < rs")
      case True
      obtain ns' v where i: "msg_NewsRCIsRead ns e = (ns', v)" by (cases "msg_NewsRCIsRead ns e")
      note R = IsRead_correct [OF ok i]
      from True body i have "loop ns' (e + 1) (if v then cnt + 1 else cnt) rs = Some r" by simp
      from IH [OF this] R have I: "snd r \<ge> e + 1"
        "rs \<le> (if v then cnt + 1 else cnt) + int (card (members (nr_data ns) \<inter> {e + 1..<snd r}))"
        by (simp_all add: counts_enough_def)
      have "{e..<snd r} = insert e {e + 1..<snd r}" using I(1) by auto
      then have "card (members (nr_data ns) \<inter> {e..<snd r})
          = (if v then 1 else 0) + card (members (nr_data ns) \<inter> {e + 1..<snd r})"
        using R(1) by (simp add: Int_insert_right)
      with I show ?thesis by (simp split: if_splits)
    next
      case False
      with body show ?thesis by auto
    qed
  qed
qed

lemma FirstUnreadArt_canon:
  assumes "newsrc_ok ns" and "canon (nr_data ns) = nr_data ns"
    and "1 \<in> members (nr_data ns) \<Longrightarrow> nr_data ns ! 0 < 0"
  shows "1 \<le> msg_FirstUnreadArt ns \<and> msg_FirstUnreadArt ns \<notin> members (nr_data ns) \<and>
    {1..<msg_FirstUnreadArt ns} \<subseteq> members (nr_data ns)"
proof (cases "runs (nr_data ns)")
  case Nil
  then have "nr_data ns = []" using assms(2) by (simp add: canon_def)
  then show ?thesis by (simp add: msg_FirstUnreadArt_def)
next
  case (Cons r rs)
  obtain a b where r: "r = (a, b)" by (cases r)
  have g: "gapped 0 (runs (nr_data ns))" using assms(1) by (simp add: newsrc_ok_def gapped_runs)
  then have ab: "0 \<le> a" "a \<le> b" "gapped (b + 2) rs" by (simp_all add: Cons r)
  have d: "nr_data ns = enc (a, b) @ concat (map enc rs)" using assms(2) by (simp add: canon_def Cons r)
  have m: "members (nr_data ns) = {a..b} \<union> covers rs"
    using covers_runs [of 0 "nr_data ns"] assms(1) by (simp add: newsrc_ok_def Cons r covers_Cons)
  have ge: "n \<in> covers rs \<Longrightarrow> b + 2 \<le> n" for n
    using gapped_ge [OF ab(3)] by (force simp: covers_def)
  show ?thesis
  proof (cases "b \<ge> a + 2")
    case True
    then have "enc (a, b) = [- (b - a), a]" by (simp add: enc_def)
    with True ab d have f: "msg_FirstUnreadArt ns = (if a \<noteq> 1 \<and> a \<noteq> 0 then 1 else b + 1)"
      by (simp add: msg_FirstUnreadArt_def)
    have "b + 1 \<notin> covers rs" "a \<noteq> 1 \<and> a \<noteq> 0 \<Longrightarrow> 1 \<notin> covers rs" using ge ab by force+
    moreover have "{1..<b + 1} \<subseteq> {a..b}" if "a = 1 \<or> a = 0" using that by auto
    ultimately show ?thesis unfolding f m using ab by (cases "a = 0 \<or> a = 1") auto
  next
    case False
    with ab have "nr_data ns ! 0 = a" using d by (auto simp: enc_def)
    then have "msg_FirstUnreadArt ns = 1" using ab(1) by (simp add: msg_FirstUnreadArt_def Let_def)
    moreover have "1 \<notin> members (nr_data ns)" using assms(3) \<open>nr_data ns ! 0 = a\<close> ab by auto
    ultimately show ?thesis by simp
  qed
qed

lemma FindNonmember_loop_returns:
  assumes "newsrc_ok ns" and "0 \<le> cnt" and "range_size \<le> cnt + int (card (members (nr_data ns) \<inter> {start..}))"
  shows "\<exists>ns' stop. FindNonmember_loop ns start cnt range_size = Some (ns', stop) \<and> start \<le> stop \<and>
     cnt + int (card (members (nr_data ns) \<inter> {start..<stop})) = max cnt range_size"
  using assms
proof (induction "nat (Max (members (nr_data ns)) + 1 - start)" arbitrary: ns cnt start rule: less_induct)
  case less
  let ?M = "members (nr_data ns)"
  show ?case
  proof (cases "cnt < range_size")
    case True
    with less.prems(3) have "?M \<inter> {start..} \<noteq> {}" by auto
    then have mx: "start \<le> Max ?M" using Max_ge [OF finite_members] by force
    obtain ns1 v where i: "msg_NewsRCIsRead ns start = (ns1, v)" by (cases "msg_NewsRCIsRead ns start")
    note R = IsRead_correct [OF less.prems(1) i]
    define cnt1 where "cnt1 = (if v then cnt + 1 else cnt)"
    have s: "card (?M \<inter> insert start X) = (if v then 1 else 0) + card (?M \<inter> X)"
      if "start \<notin> X" for X
      using R(1) that by (auto simp: Int_insert_right finite_members)
    have e: "{start..} = insert start {start + 1..}" by auto
    have "range_size \<le> cnt1 + int (card (members (nr_data ns1) \<inter> {start + 1..}))"
      using less.prems(3) s [of "{start + 1..}"] by (simp add: e cnt1_def R(3) split: if_splits)
    moreover have "0 \<le> cnt1" using less.prems(2) by (simp add: cnt1_def)
    moreover have "nat (Max (members (nr_data ns1)) + 1 - (start + 1)) < nat (Max ?M + 1 - start)"
      using mx R(3) by simp
    ultimately obtain ns' stop where 1: "FindNonmember_loop ns1 (start + 1) cnt1 range_size = Some (ns', stop)"
      "start + 1 \<le> stop" "cnt1 + int (card (?M \<inter> {start + 1..<stop})) = max cnt1 range_size"
      using less.hyps [of ns1 "start + 1" cnt1] R by auto
    have "{start..<stop} = insert start {start + 1..<stop}" using 1(2) by auto
    then have "cnt + int (card (?M \<inter> {start..<stop})) = max cnt range_size"
      using 1(3) s [of "{start + 1..<stop}"] True by (auto simp: cnt1_def)
    moreover have "FindNonmember_loop ns start cnt range_size = Some (ns', stop)"
      using True 1(1) by (subst FindNonmember_loop.simps) (simp add: i cnt1_def)
    ultimately show ?thesis using 1(2) by auto
  next
    case False
    then show ?thesis by (subst FindNonmember_loop.simps) simp
  qed
qed

lemma FindNonmember_loop_diverges:
  assumes "newsrc_ok ns" and "cnt + int (card (members (nr_data ns) \<inter> {start..})) < range_size"
  shows "FindNonmember_loop ns start cnt range_size = None"
proof (rule ccontr)
  assume "\<not> ?thesis"
  then obtain r where "FindNonmember_loop ns start cnt range_size = Some r" by auto
  from FindNonmember_counts_members [OF this] assms(1)
  have "range_size \<le> cnt + int (card (members (nr_data ns) \<inter> {start..<snd r}))"
    by (simp add: counts_enough_def)
  moreover have "card (members (nr_data ns) \<inter> {start..<snd r}) \<le> card (members (nr_data ns) \<inter> {start..})"
    by (intro card_mono) (auto simp: finite_members)
  ultimately show False using assms(2) by simp
qed

end
