(* ===== verification/Newsrc_Properties.thy ===== *)
theory Newsrc_Properties
  imports Newsrc_Sets
begin

text \<open>
  What a client of lib/libmsg/newsrc.c may rely on, and what not: sequences of calls refine sets of
  numbers, the compressed form is a normal form, the searches for unread ranges; and the places
  where the code does something else than its comments say.
\<close>

section \<open>The operations as operations on sets\<close>










section \<open>Properties\<close>

text \<open>A set with given data, for examples.\<close>

definition newsrc_of :: "int list \<Rightarrow> NewsRCSet" where
  "newsrc_of d = \<lparr>nr_name = None, nr_subscribed = False, nr_data = d, nr_data_size = 10,
     nr_cached_value = -1, nr_cached_index = 0\<rparr>"

lemma nr_data_of [simp]: "nr_data (newsrc_of d) = d"
  by (simp add: newsrc_of_def)

lemma newsrc_ok_of [simp]: "newsrc_ok (newsrc_of d) = wf_from 0 d"
  by (simp add: newsrc_ok_def newsrc_of_def cache_ok_def)



text \<open>
  C16. \<open>msg_OptimizeNewsRCSet\<close> never aborts and its result is a normal form: two syntactically
  correct sets with the same numbers get the same data, and these numbers are kept.
\<close>

theorem Optimize_normal_form:
  assumes "wf_from 0 (nr_data ns1)" and "wf_from 0 (nr_data ns2)"
    and "members (nr_data ns1) = members (nr_data ns2)"
  shows "\<exists>out1 out2. msg_OptimizeNewsRCSet True ns1 = Inr (out1, True) \<and>
    msg_OptimizeNewsRCSet True ns2 = Inr (out2, True) \<and> nr_data out1 = nr_data out2 \<and>
    members (nr_data out1) = members (nr_data ns1)"
  using Optimize_canon [OF assms(1)] Optimize_canon [OF assms(2)] canon_unique [OF assms] assms
  by (simp add: members_canon [where lo = 0])

theorem Optimize_normal_form_witness:
  "\<exists>out1 out2. msg_OptimizeNewsRCSet True (newsrc_of [3, 4, 5, 6]) = Inr (out1, True) \<and>
     msg_OptimizeNewsRCSet True (newsrc_of [-1, 3, -1, 5]) = Inr (out2, True) \<and> nr_data out1 = nr_data out2"
proof -
  have "members [3, 4, 5, 6] = members [-1, 3, -1, 5]" by (simp add: set_eq_iff) presburger
  with Optimize_normal_form [of "newsrc_of [3, 4, 5, 6]" "newsrc_of [-1, 3, -1, 5]"] show ?thesis
    by auto
qed

text \<open>
  C28. \<open>msg_MarkRangeAsRead\<close> with whatever allocation failing: it never writes outside the block
  of \<open>length + 2\<close> words, the status says whether the range was added, the numbers are the union,
  and after a failure they are as before.
\<close>

theorem MarkRangeAsRead_adds_range:
  assumes "newsrc_ok ns" and "0 \<le> start" and "start \<le> stop"
  shows "\<exists>ns' st. msg_MarkRangeAsRead grow_mem opt_mem tmp_mem ns start stop = Inr (ns', st) \<and>
    newsrc_ok ns' \<and>
    (if st < 0 then nr_data ns' = nr_data ns \<and> \<not> (grow_mem \<and> tmp_mem)
     else members (nr_data ns') = members (nr_data ns) \<union> {start..stop} \<and>
       (st = 0 \<longrightarrow> {start..stop} \<subseteq> members (nr_data ns)))"
  using MarkRangeAsRead_correct [OF assms, of grow_mem opt_mem tmp_mem] by (metis not_less)

theorem MarkRangeAsRead_adds_range_witness:
  "\<exists>ns' st. msg_MarkRangeAsRead True True True (newsrc_of [-3, 4, 20]) 6 19 = Inr (ns', st) \<and>
     members (nr_data ns') = {4..20}"
proof -
  have "members [-3, 4, 20] \<union> {6..19} = {4..20}" by (simp add: set_eq_iff) presburger
  with MarkRangeAsRead_adds_range [of "newsrc_of [-3, 4, 20]" 6 19 True True True] show ?thesis
    by (simp split: if_splits) metis
qed

text \<open>
  \<open>msg_LastUnreadRange\<close> finds the last unread range inside the interval: if the interval
  has an unread number, what is returned lies in it, is unread, is maximal to the left within it,
  and everything behind it is read; otherwise it returns 0 and 0.
\<close>

theorem LastUnreadRange_last:
  assumes "newsrc_ok ns" and "0 < lo" and "lo \<le> hi"
  shows "\<exists>f l. msg_LastUnreadRange ns lo hi = (0, f, l) \<and>
    (if {lo..hi} \<subseteq> members (nr_data ns) then f = 0 \<and> l = 0
     else lo \<le> f \<and> f \<le> l \<and> l \<le> hi \<and> {f..l} \<inter> members (nr_data ns) = {} \<and>
       {l + 1..hi} \<subseteq> members (nr_data ns) \<and> (f = lo \<or> f - 1 \<in> members (nr_data ns)))"
proof -
  obtain f l where fl: "LastUnread_loop (nr_data ns) 0 lo hi (0, 0) = (f, l)" by fastforce
  have "max lo (0 + 1) = lo" using assms(2) by simp
  with LastUnread_loop_correct [OF _ _ _ _ assms(3) fl, of 0] assms fl show ?thesis
    by (auto simp: msg_LastUnreadRange_def newsrc_ok_def subset_iff split: if_splits)
qed

theorem LastUnreadRange_last_witness:
  "\<exists>f l. msg_LastUnreadRange (newsrc_of [-3, 4, 20]) 5 20 = (0, f, l) \<and> f \<le> l \<and> {f..l} \<inter> {4..7} = {}"
proof -
  have "(10 :: int) \<in> {5..20}" and "10 \<notin> members [-3, 4, 20]" by simp_all
  then have n: "\<not> {5..20} \<subseteq> members [-3, 4, 20]" by blast
  have d: "{4..7} \<subseteq> members [-3, 4, 20]" by auto
  from LastUnreadRange_last [of "newsrc_of [-3, 4, 20]" 5 20] n obtain f l where
    "msg_LastUnreadRange (newsrc_of [-3, 4, 20]) 5 20 = (0, f, l)" "f \<le> l"
    "{f..l} \<inter> members [-3, 4, 20] = {}"
    by (simp only: nr_data_of newsrc_ok_of if_False) auto
  with d show ?thesis by blast
qed

text \<open>
  C29. \<open>msg_FirstUnreadRange\<close> finds the first unread range inside the interval when there is one.
\<close>

theorem FirstUnreadRange_first:
  assumes "newsrc_ok ns" and "0 < lo" and "\<exists>n \<in> {lo..hi}. n \<notin> members (nr_data ns)"
  shows "\<exists>f l. msg_FirstUnreadRange ns lo hi = (0, f, l) \<and>
    lo \<le> f \<and> f \<le> l \<and> l \<le> hi \<and> {f..l} \<inter> members (nr_data ns) = {} \<and>
    {lo..<f} \<subseteq> members (nr_data ns) \<and> (l = hi \<or> l + 1 \<in> members (nr_data ns))"
proof -
  obtain f l where fl: "FirstUnread_loop (nr_data ns) 0 lo hi = (f, l)" by fastforce
  have "max lo (0 + 1) = lo" "lo \<le> hi" using assms(2,3) by auto
  with FirstUnread_loop_correct [OF _ _ _ _ _ _ fl, of 0] assms fl show ?thesis
    by (auto simp: msg_FirstUnreadRange_def newsrc_ok_def)
qed

theorem FirstUnreadRange_first_witness:
  "\<exists>l. msg_FirstUnreadRange (newsrc_of [-3, 4, 20]) 5 20 = (0, 8, l)"
proof -
  have "\<exists>n \<in> {5..20}. n \<notin> members [-3, 4, 20]" by (intro bexI [of _ 10]) auto
  with FirstUnreadRange_first [of "newsrc_of [-3, 4, 20]" 5 20] obtain f l where
    fl: "msg_FirstUnreadRange (newsrc_of [-3, 4, 20]) 5 20 = (0, f, l)" "f \<le> l" "l \<le> 20" "5 \<le> f"
     "{f..l} \<inter> ({4..7} \<union> {20}) = {}" "{5..<f} \<subseteq> {4..7} \<union> {20}"
    by auto
  have "\<not> f < 8" using fl(2,4,5) by auto
  moreover have "\<not> f > 8" using fl(6) by (auto simp: subset_iff dest!: spec [of _ 8])
  ultimately have "f = 8" by simp
  with fl(1) show ?thesis by blast
qed





text \<open>
  \<open>msg_FirstUnreadArt\<close> is the lowest positive number that is not in a compressed set, if the
  data starts with a range or 1 is not in the set.
\<close>

theorem FirstUnreadArt_lowest:
  assumes "newsrc_ok ns" and "canon (nr_data ns) = nr_data ns"
    and "1 \<in> members (nr_data ns) \<Longrightarrow> nr_data ns ! 0 < 0"
  shows "1 \<le> msg_FirstUnreadArt ns \<and> msg_FirstUnreadArt ns \<notin> members (nr_data ns) \<and>
    {1..<msg_FirstUnreadArt ns} \<subseteq> members (nr_data ns)"
  using FirstUnreadArt_canon [OF assms] .

theorem FirstUnreadArt_lowest_witness:
  "\<exists>n. msg_FirstUnreadArt (newsrc_of [-9, 1, 20]) = n \<and> n \<notin> members [-9, 1, 20] \<and> {1..<n} \<subseteq> members [-9, 1, 20]"
proof -
  have "canon [-9, 1, 20] = [-9, 1, 20]" by (simp add: canon_def runs_def enc_def)
  with FirstUnreadArt_lowest [of "newsrc_of [-9, 1, 20]"] show ?thesis by simp
qed

text \<open>
  C34. Where the code goes wrong: with 1 in the set as a literal, it is returned all the same.
\<close>

theorem FirstUnreadArt_read:
  assumes "nr_data ns = 1 # d \<or> nr_data ns = 0 # 1 # d"
  shows "msg_FirstUnreadArt ns = 1 \<and> 1 \<in> members (nr_data ns)"
  using assms by (auto simp: msg_FirstUnreadArt_def)

theorem FirstUnreadArt_read_witness:
  "\<exists>ns. msg_MarkArtAsRead True True (newsrc_of []) 1 = Inr (ns, 1) \<and> msg_FirstUnreadArt ns = 1 \<and>
    1 \<in> members (nr_data ns)"
proof -
  have "msg_MarkArtAsRead True True (newsrc_of []) 1 = optimized True (newsrc_of [1])"
    by (simp add: msg_MarkArtAsRead_def newsrc_of_def)
  moreover have "canon [1] = [1]" by (simp add: canon_def runs_def enc_def)
  ultimately obtain ns where ns: "msg_MarkArtAsRead True True (newsrc_of []) 1 = Inr (ns, 1)" "nr_data ns = [1]"
    using Optimize_canon [of "newsrc_of [1]"] by (simp add: optimized_def)
  with FirstUnreadArt_read [of ns "[]"] show ?thesis by blast
qed



end
