(* ===== verification/Line_Buffer.thy ===== *)
theory Line_Buffer
  imports Prelude
begin

text \<open>
  Streams of octets cut into pieces: the interface of the \<open>write_buffer\<close> callbacks and
  lib/libmsg/msgutils.c, where \<open>msg_LineBuffer\<close> turns the pieces into lines and \<open>msg_ReBuffer\<close> packs
  them into larger ones. A closure is a state that the callback returns together with its status.
\<close>

section \<open>The interface\<close>

text \<open>
  What the writers of a stream rely on: a piece is taken without an error, and its effect on what the
  sink has made of the stream (\<open>view\<close>) does not depend on where the stream was cut.
\<close>

locale byte_sink =
  fixes put :: "'s \<Rightarrow> u8 list \<Rightarrow> 's \<times> int"
    and ok :: "'s \<Rightarrow> bool"
    and view :: "'s \<Rightarrow> 'v"
    and feed :: "'v \<Rightarrow> u8 list \<Rightarrow> 'v"
  assumes put_feed: "ok s \<Longrightarrow> bs \<noteq> [] \<Longrightarrow> ok (fst (put s bs)) \<and> 0 \<le> snd (put s bs) \<and> view (fst (put s bs)) = feed (view s) bs"
    and feed_nil: "ok s \<Longrightarrow> feed (view s) [] = view s"
    and feed_feed: "feed (feed v xs) ys = feed v (xs @ ys)"
begin

lemma put_pieces:
  "ok s \<Longrightarrow> [] \<notin> set ps \<Longrightarrow>
   ok (foldl (\<lambda>s p. fst (put s p)) s ps) \<and> view (foldl (\<lambda>s p. fst (put s p)) s ps) = feed (view s) (concat ps)"
proof (induction ps arbitrary: s)
  case (Cons p ps)
  with put_feed [of s p] have "ok (fst (put s p))" "view (fst (put s p)) = feed (view s) p" "[] \<notin> set ps" by auto
  with Cons.IH [of "fst (put s p)"] show ?case by (simp add: feed_feed)
qed (simp add: feed_nil)

end

section \<open>Lines\<close>

definition CR :: u8 where "CR = 13"
definition LF :: u8 where "LF = 10"

text \<open>
  The number of octets up to and including the first line terminator: CR LF, CR or LF, but not a CR
  that ends the buffer.
\<close>

fun line_end :: "u8 list \<Rightarrow> nat option" where
  "line_end [] = None"
| "line_end (b # bs) =
     (if b = CR then (case bs of [] \<Rightarrow> None | c # _ \<Rightarrow> Some (if c = LF then 2 else 1))
      else if b = LF then Some 1
      else map_option Suc (line_end bs))"

lemma line_end_CR: "line_end (CR # bs) = (case bs of [] \<Rightarrow> None | c # _ \<Rightarrow> Some (if c = LF then 2 else 1))"
  by simp

lemma line_end_other: "b \<noteq> CR \<Longrightarrow> line_end (b # bs) = (if b = LF then Some 1 else map_option Suc (line_end bs))"
  by simp

declare line_end.simps(2) [simp del]

lemma line_end_bounds: "line_end bs = Some n \<Longrightarrow> 0 < n \<and> n \<le> length bs"
proof (induction bs arbitrary: n)
  case (Cons b bs)
  then show ?case by (cases "b = CR"; cases bs) (auto simp: line_end_CR line_end_other split: if_splits)
qed simp

lemma line_end_shorter [simp]: "line_end bs = Some n \<Longrightarrow> length bs - n < length bs"
  using line_end_bounds by fastforce

subsection \<open>msgutils.c\<close>

text \<open>A buffer that grows: the octets in use, \<open>*bufferP\<close> up to \<open>*buffer_fpP\<close>, and the size of the block.\<close>

record msg_Buffer =
  mb_data :: "u8 list"
  mb_size :: nat

definition msg_GrowBuffer :: "(nat \<Rightarrow> bool) \<Rightarrow> nat \<Rightarrow> nat \<Rightarrow> nat \<Rightarrow> msg_Buffer \<Rightarrow> msg_Buffer \<times> int" where
  "msg_GrowBuffer mem desired_size element_size quantum buf =
     (if mb_size buf \<le> desired_size
      then let increment = (if desired_size - mb_size buf < quantum then quantum else desired_size - mb_size buf)
           in if \<not> mem ((mb_size buf + increment) * element_size) then (buf, MK_OUT_OF_MEMORY)
              else (buf\<lparr>mb_size := mb_size buf + increment\<rparr>, 0)
      else (buf, 0))"

text \<open>\<open>linebreak\<close> is the \<open>LINEBREAK\<close> of the platform: one octet on Unix and the Macintosh, two on Windows.\<close>

definition msg_convert_line :: "u8 list \<Rightarrow> u8 list \<Rightarrow> u8 list" where
  "msg_convert_line linebreak buf =
     (let len = length buf in
      if length linebreak = 1
      then if len \<ge> 2 \<and> buf ! (len - 2) = CR \<and> last buf = LF then take (len - 2) buf @ linebreak
           else if len > 1 \<and> last buf \<noteq> hd linebreak then butlast buf @ linebreak
           else buf
      else if len \<ge> 2 \<and> buf ! (len - 2) \<noteq> CR \<or> last buf \<noteq> LF then butlast buf @ linebreak
      else buf)"

text \<open>The terminator is overwritten in place: the first component is what the octets of the line are afterwards.\<close>

definition msg_convert_and_send_buffer ::
  "u8 list \<Rightarrow> u8 list \<Rightarrow> bool \<Rightarrow> ('c \<Rightarrow> u8 list \<Rightarrow> 'c \<times> int) \<Rightarrow> 'c \<Rightarrow> u8 list \<times> 'c \<times> int" where
  "msg_convert_and_send_buffer linebreak buf convert_newlines_p per_line_fn closure =
     (if length buf = 0 then (buf, closure, -1)
      else if last buf \<noteq> CR \<and> last buf \<noteq> LF then (buf, closure, -1)
      else let line = (if convert_newlines_p then msg_convert_line linebreak buf else buf)
           in (take (length buf) (line @ drop (length line) buf), per_line_fn closure line))"

function msg_LineBuffer_loop ::
  "(nat \<Rightarrow> bool) \<Rightarrow> u8 list \<Rightarrow> bool \<Rightarrow> ('c \<Rightarrow> u8 list \<Rightarrow> 'c \<times> int) \<Rightarrow> msg_Buffer \<Rightarrow> 'c \<Rightarrow> u8 list \<Rightarrow> msg_Buffer \<times> 'c \<times> int" where
  "msg_LineBuffer_loop mem linebreak convert_newlines_p per_line_fn buf closure net_buffer =
     (if net_buffer = [] then (buf, closure, 0)
      else let newline = line_end net_buffer;
               n = (case newline of None \<Rightarrow> length net_buffer | Some n \<Rightarrow> n);
               desired_size = n + length (mb_data buf) + 1;
               (buf, status) = (if desired_size \<ge> mb_size buf then msg_GrowBuffer mem desired_size 1 1024 buf else (buf, 0))
           in if status < 0 then (buf, closure, status)
              else let buf = buf\<lparr>mb_data := mb_data buf @ take n net_buffer\<rparr>
                   in if newline = None then (buf, closure, 0)
                      else let (d, closure, status) = msg_convert_and_send_buffer linebreak (mb_data buf) convert_newlines_p per_line_fn closure
                           in if status < 0 then (buf\<lparr>mb_data := d\<rparr>, closure, status)
                              else msg_LineBuffer_loop mem linebreak convert_newlines_p per_line_fn (buf\<lparr>mb_data := []\<rparr>) closure
                                     (drop n net_buffer))"
  by pat_completeness auto
termination
  by (relation "measure (\<lambda>(mem, lb, c, fn, buf, closure, net). length net)") auto

declare msg_LineBuffer_loop.simps [simp del]

definition msg_LineBuffer ::
  "(nat \<Rightarrow> bool) \<Rightarrow> u8 list \<Rightarrow> bool \<Rightarrow> ('c \<Rightarrow> u8 list \<Rightarrow> 'c \<times> int) \<Rightarrow> msg_Buffer \<Rightarrow> 'c \<Rightarrow> u8 list \<Rightarrow> msg_Buffer \<times> 'c \<times> int" where
  "msg_LineBuffer mem linebreak convert_newlines_p per_line_fn buf closure net_buffer =
     (if mb_data buf \<noteq> [] \<and> last (mb_data buf) = CR \<and> net_buffer \<noteq> [] \<and> hd net_buffer \<noteq> LF
      then if mb_size buf \<le> length (mb_data buf) then (buf, closure, -1)
           else let (d, closure, status) = msg_convert_and_send_buffer linebreak (mb_data buf) convert_newlines_p per_line_fn closure
                in if status < 0 then (buf\<lparr>mb_data := d\<rparr>, closure, status)
                   else msg_LineBuffer_loop mem linebreak convert_newlines_p per_line_fn (buf\<lparr>mb_data := []\<rparr>) closure net_buffer
      else msg_LineBuffer_loop mem linebreak convert_newlines_p per_line_fn buf closure net_buffer)"

text \<open>
  \<open>msg_ReBuffer\<close>. The loop goes on while there is input; that it ends depends on the sizes, and is
  proved below.
\<close>

partial_function (option) msg_ReBuffer_loop ::
  "nat \<Rightarrow> ('c \<Rightarrow> u8 list \<Rightarrow> 'c \<times> int) \<Rightarrow> msg_Buffer \<Rightarrow> 'c \<Rightarrow> u8 list \<Rightarrow> (msg_Buffer \<times> 'c \<times> int) option" where
  "msg_ReBuffer_loop desired_buffer_size per_buffer_fn buf closure net_buffer =
     (let size' = min (mb_size buf - length (mb_data buf)) (length net_buffer);
          buf = buf\<lparr>mb_data := mb_data buf @ take size' net_buffer\<rparr>;
          net_buffer = drop size' net_buffer;
          flush = (mb_data buf \<noteq> [] \<and> length (mb_data buf) \<ge> desired_buffer_size);
          (closure, status) = (if flush then per_buffer_fn closure (mb_data buf) else (closure, 0));
          buf = (if flush then buf\<lparr>mb_data := []\<rparr> else buf)
      in if flush \<and> status < 0 then Some (buf, closure, status)
         else if net_buffer = [] then Some (buf, closure, 0)
         else msg_ReBuffer_loop desired_buffer_size per_buffer_fn buf closure net_buffer)"

definition msg_ReBuffer ::
  "(nat \<Rightarrow> bool) \<Rightarrow> nat \<Rightarrow> ('c \<Rightarrow> u8 list \<Rightarrow> 'c \<times> int) \<Rightarrow> msg_Buffer \<Rightarrow> 'c \<Rightarrow> u8 list \<Rightarrow> (msg_Buffer \<times> 'c \<times> int) option" where
  "msg_ReBuffer mem desired_buffer_size per_buffer_fn buf closure net_buffer =
     (let (buf, status) = (if desired_buffer_size \<ge> mb_size buf then msg_GrowBuffer mem desired_buffer_size 1 1024 buf else (buf, 0))
      in if status < 0 then Some (buf, closure, status)
         else msg_ReBuffer_loop desired_buffer_size per_buffer_fn buf closure net_buffer)"

section \<open>What arrives does not depend on the pieces\<close>

text \<open>The lines of a stream, with their terminators, and what is left behind the last one.\<close>

function lines_of :: "u8 list \<Rightarrow> u8 list list \<times> u8 list" where
  "lines_of bs = (case line_end bs of None \<Rightarrow> ([], bs) | Some n \<Rightarrow> let (ls, r) = lines_of (drop n bs) in (take n bs # ls, r))"
  by pat_completeness auto
termination
  by (relation "measure length") auto

declare lines_of.simps [simp del]

lemma lines_of_None: "line_end bs = None \<Longrightarrow> lines_of bs = ([], bs)"
  by (simp add: lines_of.simps)

lemma lines_of_Some: "line_end bs = Some n \<Longrightarrow> lines_of bs = (take n bs # fst (lines_of (drop n bs)), snd (lines_of (drop n bs)))"
  by (simp add: lines_of.simps [of bs] split: prod.split)

lemma line_end_append: "line_end xs = Some n \<Longrightarrow> line_end (xs @ ys) = Some n"
proof (induction xs arbitrary: n)
  case (Cons b xs)
  then show ?case by (cases "b = CR"; cases xs) (auto simp: line_end_CR line_end_other split: if_splits)
qed simp

lemma line_end_prefix:
  "line_end r = None \<Longrightarrow>
   line_end (r @ ys) =
     (if r \<noteq> [] \<and> last r = CR then (if ys = [] then None else Some (length r + (if hd ys = LF then 1 else 0)))
      else map_option (\<lambda>n. length r + n) (line_end ys))"
proof (induction r)
  case Nil
  then show ?case by (cases "line_end ys") simp_all
next
  case (Cons b r)
  show ?case
  proof (cases "b = CR")
    case True
    then have "r = []" using Cons.prems by (cases r) (simp_all add: line_end_CR)
    with True show ?thesis by (cases ys) (simp_all add: line_end_CR)
  next
    case False
    then have b: "b \<noteq> LF" "line_end r = None" using Cons.prems by (simp_all add: line_end_other split: if_splits)
    from Cons.IH [OF b(2)] False b(1) show ?thesis by (simp add: line_end_other option.map_comp comp_def)
  qed
qed

lemma lines_of_append:
  "lines_of (xs @ ys) = (fst (lines_of xs) @ fst (lines_of (snd (lines_of xs) @ ys)), snd (lines_of (snd (lines_of xs) @ ys)))"
proof (induction "length xs" arbitrary: xs rule: less_induct)
  case less
  show ?case
  proof (cases "line_end xs")
    case None
    then show ?thesis by (simp add: lines_of_None)
  next
    case (Some n)
    then have n: "0 < n" "n \<le> length xs" "line_end (xs @ ys) = Some n" using line_end_bounds line_end_append by blast+
    then have "length (drop n xs) < length xs" by simp
    from less.hyps [OF this] n Some show ?thesis by (simp add: lines_of_Some)
  qed
qed

lemma lines_of_rest: "line_end (snd (lines_of bs)) = None"
proof (induction "length bs" arbitrary: bs rule: less_induct)
  case less
  show ?case
  proof (cases "line_end bs")
    case None
    then show ?thesis by (simp add: lines_of_None)
  next
    case (Some n)
    then have "length (drop n bs) < length bs" using line_end_bounds by fastforce
    from less.hyps [OF this] Some show ?thesis by (simp add: lines_of_Some)
  qed
qed

lemma line_end_last: "line_end bs = Some n \<Longrightarrow> take n bs \<noteq> [] \<and> (last (take n bs) = CR \<or> last (take n bs) = LF)"
proof (induction bs arbitrary: n)
  case (Cons b bs)
  show ?case
  proof (cases "b = CR")
    case True
    with Cons.prems show ?thesis by (cases bs) (auto simp: line_end_CR)
  next
    case False
    with Cons show ?thesis by (auto simp: line_end_other split: if_splits)
  qed
qed simp

text \<open>Delivering the lines.\<close>

definition deliver :: "u8 list \<Rightarrow> bool \<Rightarrow> ('c \<Rightarrow> u8 list \<Rightarrow> 'c \<times> int) \<Rightarrow> 'c \<Rightarrow> u8 list \<Rightarrow> 'c" where
  "deliver linebreak convert per_line_fn c l = fst (per_line_fn c (if convert then msg_convert_line linebreak l else l))"

lemma msg_convert_and_send_line:
  "buf \<noteq> [] \<Longrightarrow> last buf = CR \<or> last buf = LF \<Longrightarrow>
   snd (msg_convert_and_send_buffer lb buf conv fn c) = (deliver lb conv fn c buf, snd (fn c (if conv then msg_convert_line lb buf else buf)))"
  by (auto simp: msg_convert_and_send_buffer_def deliver_def Let_def)

lemma msg_GrowBuffer_room:
  assumes "\<And>n. mem n" and "(buf', status) = (if desired \<ge> mb_size buf then msg_GrowBuffer mem desired 1 1024 buf else (buf, 0))"
  shows "status = 0 \<and> mb_data buf' = mb_data buf \<and> desired \<le> mb_size buf'"
  using assms by (auto simp: msg_GrowBuffer_def Let_def split: if_splits)

definition mb_holds :: "msg_Buffer \<Rightarrow> u8 list \<Rightarrow> bool" where
  "mb_holds buf d \<longleftrightarrow> mb_data buf = d \<and> line_end d = None \<and> (d \<noteq> [] \<longrightarrow> length d < mb_size buf)"

lemma msg_LineBuffer_loop_lines:
  assumes mem: "\<And>n. mem n" and fn: "\<And>c l. 0 \<le> snd (fn c l)"
  shows "mb_holds buf d \<Longrightarrow> d = [] \<or> last d \<noteq> CR \<or> net = [] \<or> hd net = LF \<Longrightarrow>
    \<exists>buf'. msg_LineBuffer_loop mem lb conv fn buf c net = (buf', foldl (deliver lb conv fn) c (fst (lines_of (d @ net))), 0) \<and>
      mb_holds buf' (snd (lines_of (d @ net)))"
proof (induction "length net" arbitrary: buf c net d rule: less_induct)
  case less
  show ?case
  proof (cases "net = []")
    case True
    with less.prems(1) show ?thesis by (simp add: msg_LineBuffer_loop.simps lines_of_None mb_holds_def)
  next
    case False
    have d: "mb_data buf = d" "line_end d = None" using less.prems(1) by (simp_all add: mb_holds_def)
    have e: "line_end (d @ net) = map_option (\<lambda>n. length d + n) (line_end net)"
    proof (cases "d \<noteq> [] \<and> last d = CR")
      case True
      with less.prems(2) False have h: "hd net = LF" by simp
      then have "line_end net = Some 1" using False by (cases net) (simp_all add: line_end_other CR_def LF_def)
      with True h False line_end_prefix [OF d(2), of net] show ?thesis by simp
    next
      case no: False
      then show ?thesis by (simp only: line_end_prefix [OF d(2)] if_False)
    qed
    define n where "n = (case line_end net of None \<Rightarrow> length net | Some n \<Rightarrow> n)"
    have n: "n \<le> length net" using line_end_bounds by (auto simp: n_def split: option.splits)
    obtain buf1 status where g: "(buf1, status) = (if n + length (mb_data buf) + 1 \<ge> mb_size buf
        then msg_GrowBuffer mem (n + length (mb_data buf) + 1) 1 1024 buf else (buf, 0))"
      by (metis surj_pair)
    from msg_GrowBuffer_room [OF mem g] have b1: "status = 0" "mb_data buf1 = d" "n + length d + 1 \<le> mb_size buf1" using d(1) by auto
    let ?buf2 = "buf1\<lparr>mb_data := mb_data buf1 @ take n net\<rparr>"
    have step: "msg_LineBuffer_loop mem lb conv fn buf c net =
        (if line_end net = None then (?buf2, c, 0)
         else case msg_convert_and_send_buffer lb (mb_data ?buf2) conv fn c of (x, c, status) \<Rightarrow>
           if status < 0 then (?buf2\<lparr>mb_data := x\<rparr>, c, status)
           else msg_LineBuffer_loop mem lb conv fn (?buf2\<lparr>mb_data := []\<rparr>) c (drop n net))"
      by (subst msg_LineBuffer_loop.simps)
        (simp only: Let_def n_def [symmetric] g [symmetric] False b1(1) if_False prod.case less_irrefl)
    show ?thesis
    proof (cases "line_end net")
      case None
      then have "n = length net" by (simp add: n_def)
      with None step e b1 show ?thesis by (simp add: lines_of_None mb_holds_def)
    next
      case (Some k)
      then have k: "n = k" by (simp add: n_def)
      have sm: "line_end (d @ net) = Some (length d + k)" using e Some by simp
      have line: "d @ take k net \<noteq> []" "last (d @ take k net) = CR \<or> last (d @ take k net) = LF"
        using line_end_last [OF sm] by simp_all
      obtain x where send: "msg_convert_and_send_buffer lb (mb_data ?buf2) conv fn c =
          (x, deliver lb conv fn c (d @ take k net), snd (fn c (if conv then msg_convert_line lb (d @ take k net) else d @ take k net)))"
      proof -
        have "mb_data ?buf2 = d @ take k net" using b1(2) k by simp
        with msg_convert_and_send_line [OF line] that show thesis by (metis prod.collapse)
      qed
      have sh: "length (drop k net) < length net" using line_end_shorter [OF Some] by simp
      have h: "mb_holds (?buf2\<lparr>mb_data := []\<rparr>) []" by (simp add: mb_holds_def)
      have fn': "\<not> snd (fn c l) < 0" for l using fn [of c l] by simp
      have "msg_LineBuffer_loop mem lb conv fn buf c net =
          msg_LineBuffer_loop mem lb conv fn (?buf2\<lparr>mb_data := []\<rparr>) (deliver lb conv fn c (d @ take k net)) (drop k net)"
        using step Some send k fn' by simp
      with less.hyps [OF sh h, of "deliver lb conv fn c (d @ take k net)"] show ?thesis by (simp add: lines_of_Some [OF sm])
    qed
  qed
qed

lemma msg_LineBuffer_lines:
  assumes mem: "\<And>n. mem n" and fn: "\<And>c l. 0 \<le> snd (fn c l)" and h: "mb_holds buf d"
  shows "\<exists>buf'. msg_LineBuffer mem lb conv fn buf c net = (buf', foldl (deliver lb conv fn) c (fst (lines_of (d @ net))), 0) \<and>
      mb_holds buf' (snd (lines_of (d @ net)))"
proof (cases "d \<noteq> [] \<and> last d = CR \<and> net \<noteq> [] \<and> hd net \<noteq> LF")
  case True
  have d: "mb_data buf = d" "line_end d = None" "length d < mb_size buf" using h True by (simp_all add: mb_holds_def)
  have sm: "line_end (d @ net) = Some (length d)" using line_end_prefix [OF d(2), of net] True by simp
  obtain x where send: "msg_convert_and_send_buffer lb d conv fn c = (x, deliver lb conv fn c d, snd (fn c (if conv then msg_convert_line lb d else d)))"
    using True msg_convert_and_send_line [of d lb conv fn c] by (metis prod.collapse)
  have fn': "\<not> snd (fn c l) < 0" for l using fn [of c l] by simp
  have "msg_LineBuffer mem lb conv fn buf c net = msg_LineBuffer_loop mem lb conv fn (buf\<lparr>mb_data := []\<rparr>) (deliver lb conv fn c d) net"
    using True d(1,3) send fn' by (simp add: msg_LineBuffer_def)
  moreover have "mb_holds (buf\<lparr>mb_data := []\<rparr>) []" by (simp add: mb_holds_def)
  ultimately show ?thesis
    using msg_LineBuffer_loop_lines [where mem = mem and fn = fn, OF mem fn, of "buf\<lparr>mb_data := []\<rparr>" "[]" net lb conv "deliver lb conv fn c d"]
    by (simp add: lines_of_Some [OF sm])
next
  case False
  then have "msg_LineBuffer mem lb conv fn buf c net = msg_LineBuffer_loop mem lb conv fn buf c net"
    using h by (auto simp: msg_LineBuffer_def mb_holds_def)
  with msg_LineBuffer_loop_lines [where mem = mem and fn = fn, OF mem fn h, of net lb conv c] False show ?thesis by auto
qed

text \<open>
  The line buffer is a sink: its view is the closure after the lines so far, with the octets of the
  line that is not complete.
\<close>

definition line_put ::
  "(nat \<Rightarrow> bool) \<Rightarrow> u8 list \<Rightarrow> bool \<Rightarrow> ('c \<Rightarrow> u8 list \<Rightarrow> 'c \<times> int) \<Rightarrow> msg_Buffer \<times> 'c \<Rightarrow> u8 list \<Rightarrow> (msg_Buffer \<times> 'c) \<times> int" where
  "line_put mem lb conv fn s net = (case msg_LineBuffer mem lb conv fn (fst s) (snd s) net of (buf, c, status) \<Rightarrow> ((buf, c), status))"

definition line_ok :: "(nat \<Rightarrow> bool) \<Rightarrow> ('c \<Rightarrow> u8 list \<Rightarrow> 'c \<times> int) \<Rightarrow> msg_Buffer \<times> 'c \<Rightarrow> bool" where
  "line_ok mem fn s \<longleftrightarrow> (\<forall>n. mem n) \<and> (\<forall>c l. 0 \<le> snd (fn c l)) \<and> mb_holds (fst s) (mb_data (fst s))"

definition line_view :: "msg_Buffer \<times> 'c \<Rightarrow> 'c \<times> u8 list" where
  "line_view s = (snd s, mb_data (fst s))"

definition line_feed :: "u8 list \<Rightarrow> bool \<Rightarrow> ('c \<Rightarrow> u8 list \<Rightarrow> 'c \<times> int) \<Rightarrow> 'c \<times> u8 list \<Rightarrow> u8 list \<Rightarrow> 'c \<times> u8 list" where
  "line_feed lb conv fn v bs = (foldl (deliver lb conv fn) (fst v) (fst (lines_of (snd v @ bs))), snd (lines_of (snd v @ bs)))"

interpretation line_sink: byte_sink "line_put mem lb conv fn" "line_ok mem fn" line_view "line_feed lb conv fn"
proof (unfold_locales, goal_cases)
  case (1 s bs)
  then have h: "\<And>n. mem n" "\<And>c l. 0 \<le> snd (fn c l)" "mb_holds (fst s) (mb_data (fst s))" by (simp_all add: line_ok_def)
  obtain buf' where "msg_LineBuffer mem lb conv fn (fst s) (snd s) bs =
      (buf', foldl (deliver lb conv fn) (snd s) (fst (lines_of (mb_data (fst s) @ bs))), 0)" "mb_holds buf' (snd (lines_of (mb_data (fst s) @ bs)))"
    using msg_LineBuffer_lines [where mem = mem and fn = fn, OF h] by blast
  then show ?case using h by (simp add: line_put_def line_ok_def line_view_def line_feed_def mb_holds_def)
next
  case (2 s)
  then show ?case by (simp add: line_ok_def mb_holds_def line_feed_def line_view_def lines_of_None)
next
  case (3 v xs ys)
  show ?case using lines_of_append [of "snd v @ xs" ys] by (simp add: line_feed_def)
qed

section \<open>Larger pieces\<close>

text \<open>
  \<open>msg_ReBuffer\<close> ends, and the pieces it hands on, each at least as long as desired, together with what it
  keeps are what came in.
\<close>

lemma mb_data_upd: "mb_data (buf\<lparr>mb_data := x\<rparr>) = x" "buf\<lparr>mb_data := x, mb_data := y\<rparr> = buf\<lparr>mb_data := y\<rparr>"
  by simp_all

lemma msg_ReBuffer_loop_pieces:
  assumes fn: "\<And>c l. P c \<Longrightarrow> l \<noteq> [] \<Longrightarrow> P (fst (fn c l)) \<and> 0 \<le> snd (fn c l)"
  shows "P c \<Longrightarrow> length (mb_data buf) < mb_size buf \<Longrightarrow> desired \<le> mb_size buf \<Longrightarrow>
    \<exists>buf' ps. msg_ReBuffer_loop desired fn buf c net = Some (buf', foldl (\<lambda>c p. fst (fn c p)) c ps, 0) \<and>
      concat ps @ mb_data buf' = mb_data buf @ net \<and> (\<forall>p \<in> set ps. p \<noteq> [] \<and> desired \<le> length p) \<and>
      (mb_data buf' = [] \<or> length (mb_data buf') < desired) \<and> mb_size buf' = mb_size buf"
proof (induction "length net" arbitrary: buf c net rule: less_induct)
  case less
  define k where "k = min (mb_size buf - length (mb_data buf)) (length net)"
  let ?d = "mb_data buf @ take k net"
  have k: "k \<le> length net" "k \<le> mb_size buf - length (mb_data buf)" by (simp_all add: k_def)
  show ?case
  proof (cases "?d \<noteq> [] \<and> desired \<le> length ?d")
    case True
    have loop: "msg_ReBuffer_loop desired fn buf c net =
        (if drop k net = [] then Some (buf\<lparr>mb_data := []\<rparr>, fst (fn c ?d), 0)
         else msg_ReBuffer_loop desired fn (buf\<lparr>mb_data := []\<rparr>) (fst (fn c ?d)) (drop k net))"
    proof -
      obtain c' st where f: "fn c ?d = (c', st)" by (cases "fn c ?d")
      with fn [of c ?d] less.prems(1) True have "(st < 0) = False" by auto
      moreover have "(?d \<noteq> [] \<and> desired \<le> length ?d) = True" using True by simp
      ultimately show ?thesis
        by (subst msg_ReBuffer_loop.simps) (simp only: Let_def k_def [symmetric] mb_data_upd f if_True if_False prod.case simp_thms fst_conv)
    qed
    show ?thesis
    proof (cases "drop k net = []")
      case end': True
      then have "take k net = net" by simp
      with True loop end' show ?thesis by (intro exI [of _ "buf\<lparr>mb_data := []\<rparr>"] exI [of _ "[?d]"]) simp
    next
      case False
      then have "0 < k" using less.prems(2) by (auto simp: k_def)
      then have sh: "length (drop k net) < length net" using False by simp
      obtain buf' ps where r: "msg_ReBuffer_loop desired fn (buf\<lparr>mb_data := []\<rparr>) (fst (fn c ?d)) (drop k net) =
          Some (buf', foldl (\<lambda>c p. fst (fn c p)) (fst (fn c ?d)) ps, 0)" "concat ps @ mb_data buf' = drop k net"
          "\<forall>p \<in> set ps. p \<noteq> [] \<and> desired \<le> length p" "mb_data buf' = [] \<or> length (mb_data buf') < desired" "mb_size buf' = mb_size buf"
        using less.hyps [OF sh, of "fst (fn c ?d)" "buf\<lparr>mb_data := []\<rparr>"] less.prems fn [of c ?d] True by auto
      with True loop False show ?thesis by (intro exI [of _ buf'] exI [of _ "?d # ps"]) simp
    qed
  next
    case False
    have all: "drop k net = []"
    proof (rule ccontr)
      assume "drop k net \<noteq> []"
      then have "k = mb_size buf - length (mb_data buf)" by (auto simp: k_def)
      then have "length ?d = mb_size buf" using k(1) less.prems(2) by simp
      with False less.prems show False by (auto simp flip: length_greater_0_conv)
    qed
    then have "take k net = net" by simp
    have "(?d \<noteq> [] \<and> desired \<le> length ?d) = False" using False by simp
    then have "msg_ReBuffer_loop desired fn buf c net = Some (buf\<lparr>mb_data := ?d\<rparr>, c, 0)"
      by (subst msg_ReBuffer_loop.simps)
        (simp only: Let_def k_def [symmetric] mb_data_upd all if_True if_False prod.case simp_thms)
    with False \<open>take k net = net\<close> show ?thesis by (intro exI [of _ "buf\<lparr>mb_data := ?d\<rparr>"] exI [of _ "[]"]) auto
  qed
qed

lemma msg_ReBuffer_pieces:
  assumes mem: "\<And>n. mem n" and fn: "\<And>c l. P c \<Longrightarrow> l \<noteq> [] \<Longrightarrow> P (fst (fn c l)) \<and> 0 \<le> snd (fn c l)"
    and c: "P c" and h: "mb_data buf = [] \<or> length (mb_data buf) < mb_size buf"
  shows "\<exists>buf' ps. msg_ReBuffer mem desired fn buf c net = Some (buf', foldl (\<lambda>c p. fst (fn c p)) c ps, 0) \<and>
    concat ps @ mb_data buf' = mb_data buf @ net \<and> (\<forall>p \<in> set ps. p \<noteq> [] \<and> desired \<le> length p) \<and>
    (mb_data buf' = [] \<or> length (mb_data buf') < desired) \<and> desired \<le> mb_size buf'"
proof -
  obtain buf1 status where g: "(if desired \<ge> mb_size buf then msg_GrowBuffer mem desired 1 1024 buf else (buf, 0)) = (buf1, status)"
    by (metis surj_pair)
  then have b: "status = 0" "mb_data buf1 = mb_data buf" "desired \<le> mb_size buf1" "length (mb_data buf1) < mb_size buf1"
    using mem h by (auto simp: msg_GrowBuffer_def Let_def split: if_splits)
  have "msg_ReBuffer mem desired fn buf c net = msg_ReBuffer_loop desired fn buf1 c net"
    using g b(1) by (simp add: msg_ReBuffer_def)
  with msg_ReBuffer_loop_pieces [where fn = fn and P = P, OF fn c b(4,3), of net] b(2,3) show ?thesis by fastforce
qed

subsection \<open>The stream that packs what it is given\<close>

record 'c msg_rebuffering_stream_data =
  rb_desired_size :: nat
  rb_buffer :: msg_Buffer
  rb_next_stream :: "'c option"

definition msg_rebuffering_stream_write_next_chunk ::
  "('c \<Rightarrow> u8 list \<Rightarrow> 'c \<times> int) \<Rightarrow> 'c option \<Rightarrow> u8 list \<Rightarrow> 'c option \<times> int" where
  "msg_rebuffering_stream_write_next_chunk put_block next_stream buffer =
     (case next_stream of None \<Rightarrow> (None, -1) | Some s \<Rightarrow> (Some (fst (put_block s buffer)), snd (put_block s buffer)))"

definition msg_rebuffering_stream_write_chunk ::
  "(nat \<Rightarrow> bool) \<Rightarrow> ('c \<Rightarrow> u8 list \<Rightarrow> 'c \<times> int) \<Rightarrow> 'c msg_rebuffering_stream_data \<Rightarrow> u8 list \<Rightarrow>
   ('c msg_rebuffering_stream_data \<times> int) option" where
  "msg_rebuffering_stream_write_chunk mem put_block sd net_buffer =
     map_option (\<lambda>(buf, next_stream, status). (sd\<lparr>rb_buffer := buf, rb_next_stream := next_stream\<rparr>, status))
       (msg_ReBuffer mem (rb_desired_size sd) (msg_rebuffering_stream_write_next_chunk put_block) (rb_buffer sd) (rb_next_stream sd) net_buffer)"

text \<open>Completion flushes what is held, whatever the status, and completes the next stream.\<close>

definition msg_rebuffering_stream_complete ::
  "(nat \<Rightarrow> bool) \<Rightarrow> ('c \<Rightarrow> u8 list \<Rightarrow> 'c \<times> int) \<Rightarrow> ('c \<Rightarrow> 'c) \<Rightarrow> 'c msg_rebuffering_stream_data \<Rightarrow> 'c option option" where
  "msg_rebuffering_stream_complete mem put_block complete sd =
     map_option (\<lambda>(sd, status). map_option complete (rb_next_stream sd))
       (msg_rebuffering_stream_write_chunk mem put_block (sd\<lparr>rb_desired_size := 0\<rparr>) [])"

definition msg_MakeRebufferingStream :: "bool \<Rightarrow> bool \<Rightarrow> 'c \<Rightarrow> 'c msg_rebuffering_stream_data option" where
  "msg_MakeRebufferingStream mem_stream mem_sd next_stream =
     (if \<not> mem_stream then None else if \<not> mem_sd then None
      else Some \<lparr>rb_desired_size = 4096, rb_buffer = \<lparr>mb_data = [], mb_size = 0\<rparr>, rb_next_stream = Some next_stream\<rparr>)"

text \<open>A client that writes pieces until one is refused.\<close>

fun rebuffer_all ::
  "(nat \<Rightarrow> bool) \<Rightarrow> ('c \<Rightarrow> u8 list \<Rightarrow> 'c \<times> int) \<Rightarrow> 'c msg_rebuffering_stream_data \<Rightarrow> u8 list list \<Rightarrow>
   ('c msg_rebuffering_stream_data \<times> int) option" where
  "rebuffer_all mem put_block sd [] = Some (sd, 0)"
| "rebuffer_all mem put_block sd (p # ps) =
     (case msg_rebuffering_stream_write_chunk mem put_block sd p of None \<Rightarrow> None
      | Some (sd, status) \<Rightarrow> if status < 0 then Some (sd, status) else rebuffer_all mem put_block sd ps)"

lemma write_next_chunks:
  "foldl (\<lambda>c p. fst (msg_rebuffering_stream_write_next_chunk put_block c p)) (Some s) ps = Some (foldl (\<lambda>s p. fst (put_block s p)) s ps)"
  by (induction ps arbitrary: s) (simp_all add: msg_rebuffering_stream_write_next_chunk_def)

definition rb_holds :: "'c msg_rebuffering_stream_data \<Rightarrow> bool" where
  "rb_holds sd \<longleftrightarrow> mb_data (rb_buffer sd) = [] \<or> length (mb_data (rb_buffer sd)) < mb_size (rb_buffer sd)"

context byte_sink
begin

lemma write_chunk:
  assumes mem: "\<And>n. mem n" and s: "rb_next_stream sd = Some s" "ok s" "rb_holds sd"
  shows "\<exists>sd' s'. msg_rebuffering_stream_write_chunk mem put sd net = Some (sd', 0) \<and> rb_next_stream sd' = Some s' \<and> ok s' \<and> rb_holds sd' \<and>
    feed (view s') (mb_data (rb_buffer sd')) = feed (view s) (mb_data (rb_buffer sd) @ net) \<and> rb_desired_size sd' = rb_desired_size sd \<and>
    (rb_desired_size sd = 0 \<longrightarrow> mb_data (rb_buffer sd') = [])"
proof -
  let ?fn = "msg_rebuffering_stream_write_next_chunk put" and ?P = "\<lambda>c. \<exists>s. c = Some s \<and> ok s"
  have fn: "\<And>c l. ?P c \<Longrightarrow> l \<noteq> [] \<Longrightarrow> ?P (fst (?fn c l)) \<and> 0 \<le> snd (?fn c l)"
    using put_feed by (auto simp: msg_rebuffering_stream_write_next_chunk_def)
  obtain buf' ps where r: "msg_ReBuffer mem (rb_desired_size sd) ?fn (rb_buffer sd) (Some s) net =
        Some (buf', foldl (\<lambda>c p. fst (?fn c p)) (Some s) ps, 0)"
      "concat ps @ mb_data buf' = mb_data (rb_buffer sd) @ net" "\<forall>p \<in> set ps. p \<noteq> [] \<and> rb_desired_size sd \<le> length p"
      "mb_data buf' = [] \<or> length (mb_data buf') < rb_desired_size sd" "rb_desired_size sd \<le> mb_size buf'"
    using msg_ReBuffer_pieces [where mem = mem and fn = ?fn and P = ?P and c = "Some s" and buf = "rb_buffer sd" and net = net and desired = "rb_desired_size sd", OF mem fn] s
    unfolding rb_holds_def by blast
  let ?s = "foldl (\<lambda>s p. fst (put s p)) s ps"
  have "[] \<notin> set ps" using r(3) by auto
  with put_pieces [OF s(2)] have p: "ok ?s" "view ?s = feed (view s) (concat ps)" by blast+
  let ?sd = "sd\<lparr>rb_buffer := buf', rb_next_stream := Some ?s\<rparr>"
  have w: "msg_rebuffering_stream_write_chunk mem put sd net = Some (?sd, 0)"
    using r(1) s(1) by (simp add: msg_rebuffering_stream_write_chunk_def write_next_chunks)
  have h: "rb_holds ?sd" using r(4,5) by (auto simp: rb_holds_def)
  have f: "feed (view ?s) (mb_data (rb_buffer ?sd)) = feed (view s) (mb_data (rb_buffer sd) @ net)" by (simp add: p(2) feed_feed r(2))
  show ?thesis using w h f p(1) r(4) by (intro exI [of _ ?sd] exI [of _ ?s]) auto
qed

lemma rebuffer_pieces:
  assumes mem: "\<And>n. mem n"
  shows "rb_next_stream sd = Some s \<Longrightarrow> ok s \<Longrightarrow> rb_holds sd \<Longrightarrow>
    \<exists>sd' s'. rebuffer_all mem put sd ps = Some (sd', 0) \<and> msg_rebuffering_stream_complete mem put complete sd' = Some (Some (complete s')) \<and>
      ok s' \<and> view s' = feed (view s) (mb_data (rb_buffer sd) @ concat ps)"
proof (induction ps arbitrary: sd s)
  case Nil
  then have "rb_next_stream (sd\<lparr>rb_desired_size := 0\<rparr>) = Some s" "rb_holds (sd\<lparr>rb_desired_size := 0\<rparr>)" by (simp_all add: rb_holds_def)
  from write_chunk [where mem = mem, OF mem this(1) Nil(2) this(2), of "[]"]
  obtain sd' s' where r: "msg_rebuffering_stream_write_chunk mem put (sd\<lparr>rb_desired_size := 0\<rparr>) [] = Some (sd', 0)"
      "rb_next_stream sd' = Some s'" "ok s'" "feed (view s') (mb_data (rb_buffer sd')) = feed (view s) (mb_data (rb_buffer sd))"
      "mb_data (rb_buffer sd') = []"
    by auto
  then have "view s' = feed (view s) (mb_data (rb_buffer sd))" using feed_nil [OF r(3)] by simp
  with r show ?case by (intro exI [of _ sd] exI [of _ s']) (simp add: msg_rebuffering_stream_complete_def)
next
  case (Cons p ps)
  from write_chunk [where mem = mem, OF mem Cons.prems, of p]
  obtain sd1 s1 where r: "msg_rebuffering_stream_write_chunk mem put sd p = Some (sd1, 0)" "rb_next_stream sd1 = Some s1" "ok s1" "rb_holds sd1"
      "feed (view s1) (mb_data (rb_buffer sd1)) = feed (view s) (mb_data (rb_buffer sd) @ p)"
    by blast
  have "feed (view s1) (mb_data (rb_buffer sd1) @ concat ps) = feed (view s) (mb_data (rb_buffer sd) @ concat (p # ps))"
    by (simp only: r(5) feed_feed [symmetric, where ys = "concat ps"] concat.simps append_assoc [symmetric])
  with Cons.IH [OF r(2-4)] r(1) show ?case by simp
qed

end

section \<open>Properties\<close>

definition msg_Buffer_empty :: msg_Buffer where
  "msg_Buffer_empty = \<lparr>mb_data = [], mb_size = 0\<rparr>"

lemma lines_of_example:
  "lines_of [65, CR, LF, 66, LF, 67, CR] = ([[65, CR, LF], [66, LF]], [67, CR])"
  "lines_of [65, CR, LF, 66] = ([[65, CR, LF]], [66])"
  by code_simp+

lemma msg_convert_line_example: "msg_convert_line [LF] [65, CR, LF] = [65, LF]" "msg_convert_line [LF] [66, LF] = [66, LF]"
  by code_simp+

lemma deliver_example:
  "foldl (\<lambda>c l. c @ [msg_convert_line [LF] l]) [] [[65, CR, LF], [66, LF]] = [[65, LF], [66, LF]]"
  by (simp add: msg_convert_line_example)

text \<open>
  C37. \<open>msg_LineBuffer\<close>, called for the pieces of a stream one after the other, hands on the lines of the
  whole stream, each with its terminator converted, and keeps the octets of the line that is not
  complete, wherever the stream is cut: also between a CR and its LF.
\<close>

theorem msg_LineBuffer_pieces:
  assumes "\<forall>n. mem n" and "\<forall>c l. 0 \<le> snd (fn c l)" and "[] \<notin> set ps"
  shows "case foldl (\<lambda>s p. fst (line_put mem lb conv fn s p)) (msg_Buffer_empty, c) ps of (buf, c') \<Rightarrow>
    c' = foldl (\<lambda>c l. fst (fn c (if conv then msg_convert_line lb l else l))) c (fst (lines_of (concat ps))) \<and>
    mb_data buf = snd (lines_of (concat ps))"
proof -
  have "line_ok mem fn (msg_Buffer_empty, c)" using assms(1,2) by (simp add: line_ok_def mb_holds_def msg_Buffer_empty_def)
  from line_sink.put_pieces [OF this assms(3), of lb conv] show ?thesis
    by (auto simp: line_view_def line_feed_def msg_Buffer_empty_def deliver_def [abs_def])
qed

lemma msg_LineBuffer_pieces_witness:
  "case foldl (\<lambda>s p. fst (line_put (\<lambda>n. True) [LF] True (\<lambda>c l. (c @ [l], 0)) s p)) (msg_Buffer_empty, []) [[65, CR], [LF, 66, LF, 67], [CR]] of
     (buf, c') \<Rightarrow> c' = [[65, LF], [66, LF]] \<and> mb_data buf = [67, CR]"
  using msg_LineBuffer_pieces [where mem = "\<lambda>n. True" and fn = "\<lambda>c l. (c @ [l], 0)" and ps = "[[65, CR], [LF, 66, LF, 67], [CR]]" and lb = "[LF]" and conv = True and c = "[]"]
  by (simp add: lines_of_example deliver_example del: foldl_Cons)

text \<open>
  C38. A rebuffering stream in front of the line buffer changes nothing: whatever pieces it is
  given, every call returns, without an error, and once the stream is complete the line buffer has handed on the
  lines of the whole stream and holds the rest.
\<close>

theorem rebuffered_lines:
  assumes "\<forall>n. mem n" and "\<forall>c l. 0 \<le> snd (fn c l)"
  shows "\<exists>sd0 sd buf. msg_MakeRebufferingStream True True (msg_Buffer_empty, c) = Some sd0 \<and>
    rebuffer_all mem (line_put mem lb conv fn) sd0 ps = Some (sd, 0) \<and>
    msg_rebuffering_stream_complete mem (line_put mem lb conv fn) (\<lambda>s. s) sd =
      Some (Some (buf, foldl (\<lambda>c l. fst (fn c (if conv then msg_convert_line lb l else l))) c (fst (lines_of (concat ps))))) \<and>
    mb_data buf = snd (lines_of (concat ps))"
proof -
  have l: "line_ok mem fn (msg_Buffer_empty, c)" using assms(1,2) by (simp add: line_ok_def mb_holds_def msg_Buffer_empty_def)
  obtain sd0 where sd0: "msg_MakeRebufferingStream True True (msg_Buffer_empty, c) = Some sd0" "rb_next_stream sd0 = Some (msg_Buffer_empty, c)"
      "rb_holds sd0" "mb_data (rb_buffer sd0) = []"
    by (simp add: msg_MakeRebufferingStream_def rb_holds_def)
  from line_sink.rebuffer_pieces [where mem = mem, OF _ sd0(2) l sd0(3), where ps = ps and complete = "\<lambda>s. s"] assms(1)
  have "\<exists>sd' s'. rebuffer_all mem (line_put mem lb conv fn) sd0 ps = Some (sd', 0) \<and>
      msg_rebuffering_stream_complete mem (line_put mem lb conv fn) (\<lambda>s. s) sd' = Some (Some s') \<and>
      line_ok mem fn s' \<and> line_view s' = line_feed lb conv fn (line_view (msg_Buffer_empty, c)) (concat ps)"
    by (simp add: sd0(4))
  then obtain sd s' where "rebuffer_all mem (line_put mem lb conv fn) sd0 ps = Some (sd, 0)"
      "msg_rebuffering_stream_complete mem (line_put mem lb conv fn) (\<lambda>s. s) sd = Some (Some s')"
      "line_view s' = line_feed lb conv fn (line_view (msg_Buffer_empty, c)) (concat ps)"
    by blast
  with sd0(1) show ?thesis
    by (cases s') (auto simp: line_view_def line_feed_def msg_Buffer_empty_def deliver_def [abs_def])
qed

lemma rebuffered_lines_witness:
  "\<exists>sd0 sd buf. msg_MakeRebufferingStream True True (msg_Buffer_empty, []) = Some sd0 \<and>
     rebuffer_all (\<lambda>n. True) (line_put (\<lambda>n. True) [LF] True (\<lambda>c l. (c @ [l], 0))) sd0 [[65, CR], [LF, 66]] = Some (sd, 0) \<and>
     msg_rebuffering_stream_complete (\<lambda>n. True) (line_put (\<lambda>n. True) [LF] True (\<lambda>c l. (c @ [l], 0))) (\<lambda>s. s) sd = Some (Some (buf, [[65, LF]])) \<and>
     mb_data buf = [66]"
  using rebuffered_lines [where mem = "\<lambda>n. True" and fn = "\<lambda>c l. (c @ [l], 0)" and ps = "[[65, CR], [LF, 66]]" and lb = "[LF]" and conv = True and c = "[]"]
  by (simp add: lines_of_example msg_convert_line_example del: rebuffer_all.simps)

text \<open>
  C39. What the conversion of terminators does with a line whose octets are \<open>body\<close>, on Unix (LF), the Macintosh (CR) and
  Windows (CR LF): every terminator becomes that of the platform, but for an empty line whose
  terminator is a single octet: it is handed on as it came.
\<close>

theorem msg_convert_line_empty_line:
  assumes "CR \<notin> set body" and "LF \<notin> set body" and "t \<in> {[CR], [LF], [CR, LF]}"
  shows "msg_convert_line [LF] (body @ t) = (if body @ t = [CR] then [CR] else body @ [LF]) \<and>
    msg_convert_line [CR] (body @ t) = (if body @ t = [LF] then [LF] else body @ [CR]) \<and>
    msg_convert_line [CR, LF] (body @ t) = (if body @ t = [LF] then [LF] else body @ [CR, LF])"
proof -
  have d: "CR \<noteq> LF" by (simp add: CR_def LF_def)
  have "msg_convert_line [LF] (body @ t) = (if body @ t = [CR] then [CR] else body @ [LF])"
    using assms d by (cases body rule: rev_cases) (auto simp: msg_convert_line_def nth_append butlast_append)
  moreover have "msg_convert_line [CR] (body @ t) = (if body @ t = [LF] then [LF] else body @ [CR])"
    using assms d by (cases body rule: rev_cases) (auto simp: msg_convert_line_def nth_append butlast_append)
  moreover have "msg_convert_line [CR, LF] (body @ t) = (if body @ t = [LF] then [LF] else body @ [CR, LF])"
    using assms d by (cases body rule: rev_cases) (auto simp: msg_convert_line_def nth_append butlast_append)
  ultimately show ?thesis by blast
qed

lemma msg_convert_line_empty_line_witness:
  "msg_convert_line [LF] [CR] = [CR] \<and> msg_convert_line [CR] [CR] = [CR] \<and> msg_convert_line [CR, LF] [CR] = [CR, LF]"
proof -
  have "CR \<noteq> LF" by (simp add: CR_def LF_def)
  with msg_convert_line_empty_line [of "[]" "[CR]"] show ?thesis by simp
qed

end
