(* ===== verification/Spec2Isabelle.thy ===== *)
theory Spec2Isabelle
  imports HMAC RC2 RC4 RC5 DES CMP_Properties RNG RSA_PKCS1 DSA Newsrc_Properties Line_Buffer
begin

text \<open>
  A verification of core algorithms of Netscape Communicator 3.0.2.

  \<^bold>\<open>The program.\<close> The tree holds a browser with mail and news: the network library (lib/libnet)
  delivers streams to the parser and layout (lib/libparse, lib/layout), lib/libmsg keeps mail
  folders and newsgroups, security/lib holds SSL with its ciphers, digests, keys and
  certificates, nspr and lib/xp are the portable runtime below them. The theories here take the
  parts that carry algorithms and data structures of the program's own: the ciphers and digests
  that SSL and the key database work through, the random number generator, RSA and DSA with
  the multi-precision integers below them, the sets of article numbers in which libmsg
  records what has been read, and the buffers through which it reads messages.

  \<^bold>\<open>Theories and code.\<close>

  \<^item> \<open>Prelude\<close>: word types, error values, lists cut into blocks.

  \<^item> \<open>Stream_Hash\<close>: the interface of a digest that is begun, updated and ended (locale
    \<open>stream_hash\<close>); interpreted by \<open>MD2\<close> (security/lib/hash/algmd2.c), \<open>MD5\<close> (algmd5.c) and
    \<open>SHA1\<close> (algsha.c). A context is a record with the fields of the C struct. The interface
    says that the pieces in which a message arrives do not matter; every digest provides an
    abstraction from contexts to the message so far.

  \<^item> \<open>HMAC\<close>: the table \<open>SECRawHashObjects\<close> of security/lib/util/secinit.c, whose function
    pointers are fields of a record, and security/lib/util/alghmac.c, proved once over the
    interface (locale \<open>hash_object\<close>) and interpreted for the three entries.

  \<^item> \<open>Block_Cipher\<close>: what the ciphers of security/lib/crypto share: the loop over blocks, ECB and
    CBC bodies, the argument checks, sequences of calls; locales \<open>block_cipher\<close>,
    \<open>block_permutation\<close> and \<open>ede_cipher\<close>, a contract for triple encryption derived as a sublocale.
    \<open>RC2\<close> (algrc2.c), \<open>RC5\<close> (algrc5.c) and \<open>DES\<close> (algdes.c) interpret them; \<open>RC4\<close> (algrc4.c) is a
    stream cipher.

  \<^item> \<open>Newsrc\<close>: lib/libmsg/newsrc.c, the list of literals and ranges with its search cache;
    \<open>Newsrc_Sets\<close> the abstraction to sets of numbers and the correctness of every operation;
    \<open>Newsrc_Properties\<close> what follows for clients, and where the code differs from its comments.

  \<^item> The multi-precision library below RSA, security/lib/crypto/cmp*.c: \<open>CMP_Base\<close> (cmp.h, cmpmem.c:
    the numbers, allocation, copying, comparison), \<open>CMP_Arith\<close> (cmparith.c, cmpspprt.c: addition,
    subtraction), \<open>CMP_Shift\<close> (cmpspprt.c, cmpbits.c: shifts, bits), \<open>CMP_Multiply\<close> (cmpvectr.c and the
    macros of cmpspprt.h), \<open>CMP_Divide\<close> (cmpmuldv.c: division, reduction), \<open>CMP_Modular\<close> (cmpmod.c,
    gcd, reduction by a word), \<open>CMP_ExtGCD\<close> (cmpmuldv.c, cmpmod.c: extended gcd, inverses),
    \<open>CMP_Montgomery\<close> (cmpmontg.c), \<open>CMP_ModExp\<close> (cmpmdexp.c: exponentiation in windows),
    \<open>CMP_Convert\<close> (cmpcnv.c: octet strings). \<open>cmp_val\<close> is the abstraction to natural
    numbers, \<open>cmp_ok\<close> the invariant of a \<open>CMPInt\<close>; a lemma per routine says what it does to the value.
    \<open>CMP_Properties\<close> states what callers rely on.

  \<^item> \<open>RNG\<close>: security/lib/util/algrand.c, contexts and the root generator. A refill digests a state
    of 160 bits that advances by the digest plus one; requests are shown to return one stream. What
    \<open>RNG_GetNoise\<close> reads from the platform is a parameter.

  \<^item> \<open>RSA_Numbers\<close>: Fermat's little theorem and exponents modulo a prime. \<open>RSA\<close>: security/lib/crypto/rsa.c
    and crt.c, the contexts, the block structure of both \<open>Update\<close> routines (locales \<open>rsa_stream\<close> and
    \<open>rsa_stream_total\<close>, interpreted for the public and the private operation), the blinded operation by
    the Chinese remainder theorem. \<open>RSA_PKCS1\<close>: algrsa.c, the block types with the masks of OAEP, and
    signing, checking, encrypting and decrypting of messages; its lemmas say when a key pair inverts
    itself, which failures of the random numbers are left, and what the checks of a block accept.

  \<^item> \<open>DSA\<close>: security/lib/crypto/dsas.c and dsav.c. The two steps of a signature are a state machine on
    the context; \<open>dsa_step\<close> and \<open>dsa_reaches\<close> are the calls, with all their outcomes, and the contexts
    that they can lead to.

  \<^item> \<open>Line_Buffer\<close>: lib/libmsg/msgutils.c, \<open>msg_LineBuffer\<close> and \<open>msg_ReBuffer\<close> with the stream made of it. The
    callbacks that take a stream piece by piece are an interface (locale \<open>byte_sink\<close>): a state, the
    \<open>view\<close> of what has arrived, and the promise that the cuts do not matter. The line buffer is
    interpreted as such a sink, and the rebuffering stream is its client.

  \<^bold>\<open>Errors and allocation.\<close> A call that can fail returns a sum with an error on the left, or an
  option where the C function returns NULL. An allocation is a boolean parameter that says
  whether it succeeds. An access outside an array is the error \<open>OUT_OF_BOUNDS\<close>, in \<open>RSA_PKCS1\<close> and
  \<open>DSA\<close> a value of their error types that stands for undefined behaviour, also for bytes that are
  read without having been written. A failure returns the error only, in \<open>DSA\<close> with the context it
  leaves behind.

  \<^bold>\<open>Bounds.\<close> The digests count bits or bytes in 32 bit words; the statements about pieces assume
  that one piece is shorter than 2^32 - 64 bytes, where the unsigned length of the code would
  wrap. A word of the multi-precision library is a 32 bit word; lengths are natural numbers.
  Article numbers are integers: the code only compares them and forms differences. All
  loops are total functions by a measure, except the search \<open>msg_FindNewsRCSetNonmemberRange\<close>,
  which need not end and is a partial function into option, and the correction loops and the gcd
  of the multi-precision library, partial functions that are proved to end where they are called,
  and the search for octets that are not zero in the padding of a block, which ends if the generator
  gives one; no fuel is used.

  \<^bold>\<open>Not modelled.\<close> Front ends, network state machines, layout, the JavaScript and Java machines
  (user interface, sockets, third party code, or a development of their own size); the functions
  that only free memory; the checks of the multi-precision library under \<open>CMP_DEBUG\<close>; the DER
  forms of keys and signatures and the generation of keys; the undo
  history and self tests of newsrc.c. The manifest lists them.
\<close>

end
